(* ===== verification/Lwt_Prelude.thy ===== *)
theory Lwt_Prelude
  imports Main "HOL-Library.Signed_Division"
begin

text \<open>
  Shared vocabulary of the development: machine pointers, the faults a C operation can
  run into (undefined behaviour and failed assertions are values, never silently
  ignored), the result type of a fallible operation with its sequencing, and generic
  lemmas on lists that several components use.
\<close>

section \<open>Pointers, faults, results\<close>

text \<open>
  A pointer (or a \<^verbatim>\<open>void *\<close> payload) of the 32-bit target is held as a natural
  number, \<^verbatim>\<open>NULL\<close> being \<open>0\<close>.
\<close>

type_synonym ptr = nat

abbreviation (input) null :: ptr where
  "null \<equiv> 0"

datatype fault =
    NullDeref        \<comment> \<open>a field of the object at \<^verbatim>\<open>NULL\<close> is accessed\<close>
  | WildPtr          \<comment> \<open>a pointer that designates no live object of its type is followed\<close>
  | UseAfterFree     \<comment> \<open>a freed object is read\<close>
  | OutOfBounds      \<comment> \<open>an array is indexed outside its bounds\<close>
  | SignedOverflow   \<comment> \<open>signed \<^verbatim>\<open>int\<close> arithmetic leaves its range\<close>
  | DivByZero        \<comment> \<open>the right operand of \<^verbatim>\<open>%\<close> is zero\<close>
  | AssertFailed     \<comment> \<open>an \<^verbatim>\<open>assert\<close> of the source fails\<close>
  | Diverges         \<comment> \<open>a loop never ends\<close>

type_synonym 'a res = "fault + 'a"

definition rbind :: "'a res \<Rightarrow> ('a \<Rightarrow> 'b res) \<Rightarrow> 'b res" where
  "rbind m f = (case m of Inl e \<Rightarrow> Inl e | Inr x \<Rightarrow> f x)"

definition guard :: "bool \<Rightarrow> fault \<Rightarrow> unit res" where
  "guard b e = (if b then Inr () else Inl e)"

definition of_opt :: "fault \<Rightarrow> 'a option \<Rightarrow> 'a res" where
  "of_opt e r = (case r of None \<Rightarrow> Inl e | Some x \<Rightarrow> Inr x)"

named_theorems res_elims \<open>a successful result splits into its steps\<close>

lemma rbind_Inr [simp]: "rbind (Inr x) f = f x"
  by (simp add: rbind_def)

lemma rbind_Inl [simp]: "rbind (Inl e) f = Inl e"
  by (simp add: rbind_def)

lemma rbind_eq_Inr [res_elims]: "rbind m f = Inr y \<longleftrightarrow> (\<exists>x. m = Inr x \<and> f x = Inr y)"
  by (cases m) auto

lemma guard_True [simp]: "guard True e = Inr ()"
  by (simp add: guard_def)

lemma guard_False [simp]: "guard False e = Inl e"
  by (simp add: guard_def)

lemma guard_eq_Inr [simp]: "guard b e = Inr u \<longleftrightarrow> b"
  by (simp add: guard_def)

lemma of_opt_Some [simp]: "of_opt e (Some x) = Inr x"
  by (simp add: of_opt_def)

lemma of_opt_None [simp]: "of_opt e None = Inl e"
  by (simp add: of_opt_def)

lemma of_opt_eq_Inr [simp]: "of_opt e r = Inr x \<longleftrightarrow> r = Some x"
  by (cases r) auto

section \<open>Lists\<close>

definition insert_before_last :: "'a \<Rightarrow> 'a list \<Rightarrow> 'a list" where
  "insert_before_last x xs = (if xs = [] then [x] else butlast xs @ [x, last xs])"

lemma set_insert_before_last [simp]: "set (insert_before_last x xs) = insert x (set xs)"
  by (cases xs rule: rev_cases) (auto simp: insert_before_last_def)

lemma distinct_insert_before_last [simp]:
  "distinct (insert_before_last x xs) \<longleftrightarrow> x \<notin> set xs \<and> distinct xs"
  by (cases xs rule: rev_cases) (auto simp: insert_before_last_def)

lemma length_insert_before_last [simp]: "length (insert_before_last x xs) = Suc (length xs)"
  by (cases xs rule: rev_cases) (auto simp: insert_before_last_def)

lemma insert_before_last_neq_Nil [simp]: "insert_before_last x xs \<noteq> []"
  by (simp add: insert_before_last_def)

lemma insert_before_last_Nil [simp]: "insert_before_last x [] = [x]"
  by (simp add: insert_before_last_def)

lemma insert_before_last_single [simp]: "insert_before_last x [y] = [x, y]"
  by (simp add: insert_before_last_def)

lemma insert_before_last_Cons2 [simp]:
  "insert_before_last x (y # z # zs) = y # insert_before_last x (z # zs)"
  by (simp add: insert_before_last_def)

lemma map_insert_before_last:
  "map f (insert_before_last x xs) = insert_before_last (f x) (map f xs)"
  by (cases xs rule: rev_cases) (auto simp: insert_before_last_def)

lemma last_notin_butlast: "distinct zs \<Longrightarrow> zs \<noteq> [] \<Longrightarrow> last zs \<notin> set (butlast zs)"
  by (cases zs rule: rev_cases) auto

lemma distinct_split_remove1:
  "distinct (xs @ x # ys) \<Longrightarrow> remove1 x (xs @ x # ys) = xs @ ys"
  by (simp add: remove1_append)

end
