(* ===== verification/Lwt_List.thy ===== *)
theory Lwt_List
  imports Lwt_Prelude
begin

text \<open>
  The intrusive circular doubly linked lists of \<^verbatim>\<open>lwt_list.h\<close>: the \<^verbatim>\<open>n\<close> and \<^verbatim>\<open>p\<close> fields of
  every \<^verbatim>\<open>struct list\<close> as two functions on node addresses, the inline functions and list
  macros as updates of them in the order of the C assignments, and the refinement to
  HOL lists: which list a head stands for before and after every operation.
\<close>

section \<open>The link fields and the operations\<close>

record 'a links =
  nx :: "'a \<Rightarrow> 'a"
  pv :: "'a \<Rightarrow> 'a"

definition set_n :: "'a \<Rightarrow> 'a \<Rightarrow> 'a links \<Rightarrow> 'a links" where
  "set_n x y L = L\<lparr>nx := (nx L)(x := y)\<rparr>"

definition set_p :: "'a \<Rightarrow> 'a \<Rightarrow> 'a links \<Rightarrow> 'a links" where
  "set_p x y L = L\<lparr>pv := (pv L)(x := y)\<rparr>"

definition list_ll_add :: "'a \<Rightarrow> 'a \<Rightarrow> 'a links \<Rightarrow> 'a links" where
  "list_ll_add link new_link L =
     (let L1 = set_p new_link (pv L link) L;
          L2 = set_n new_link link L1;
          L3 = set_n (pv L2 new_link) new_link L2
      in set_p (nx L3 new_link) new_link L3)"

definition list_ll_init :: "'a \<Rightarrow> 'a links \<Rightarrow> 'a links" where
  "list_ll_init l L = set_p l l (set_n l l L)"

definition list_head_init :: "'a \<Rightarrow> 'a links \<Rightarrow> 'a links" where
  "list_head_init lh L = list_ll_init lh L"

definition list_ll_rem :: "'a \<Rightarrow> 'a links \<Rightarrow> 'a links" where
  "list_ll_rem l L =
     (let L1 = set_p (nx L l) (pv L l) L;
          L2 = set_n (pv L1 l) (nx L1 l) L1;
          L3 = set_n l l L2
      in set_p l l L3)"

definition list_ll_empty :: "'a \<Rightarrow> 'a links \<Rightarrow> bool" where
  "list_ll_empty l L \<longleftrightarrow> nx L l = l"

definition list_head_empty :: "'a \<Rightarrow> 'a links \<Rightarrow> bool" where
  "list_head_empty lh L \<longleftrightarrow> list_ll_empty lh L"

definition list_head_add :: "'a \<Rightarrow> 'a \<Rightarrow> 'a links \<Rightarrow> 'a links" where
  "list_head_add lh ob L = list_ll_add lh ob L"

definition list_head_append :: "'a \<Rightarrow> 'a \<Rightarrow> 'a links \<Rightarrow> 'a links" where
  "list_head_append lh ob L = list_ll_add (pv L lh) ob L"

definition list_head_first :: "'a \<Rightarrow> 'a links \<Rightarrow> 'a" where
  "list_head_first lh L = nx L lh"

definition list_head_last :: "'a \<Rightarrow> 'a links \<Rightarrow> 'a" where
  "list_head_last lh L = pv L lh"

text \<open>
  The macros on elements: with the list field as the node, the containing object and its
  field are the same name here.
\<close>

definition list_is_head :: "'a \<Rightarrow> 'a \<Rightarrow> bool" where
  "list_is_head lh ob \<longleftrightarrow> lh = ob"

definition list_singleton :: "'a \<Rightarrow> 'a links \<Rightarrow> bool" where
  "list_singleton ob L \<longleftrightarrow> list_ll_empty ob L"

definition list_init :: "'a \<Rightarrow> 'a links \<Rightarrow> 'a links" where
  "list_init ob L = list_ll_init ob L"

definition list_next :: "'a \<Rightarrow> 'a links \<Rightarrow> 'a" where
  "list_next ob L = nx L ob"

definition list_prev :: "'a \<Rightarrow> 'a links \<Rightarrow> 'a" where
  "list_prev ob L = pv L ob"

definition list_add :: "'a \<Rightarrow> 'a \<Rightarrow> 'a links \<Rightarrow> 'a links" where
  "list_add ob n L = list_ll_add ob n L"

definition list_append :: "'a \<Rightarrow> 'a \<Rightarrow> 'a links \<Rightarrow> 'a links" where
  "list_append ob n L = list_add (list_prev ob L) n L"

text \<open>
  The macro \<^verbatim>\<open>list_foreach\<close> visits \<^verbatim>\<open>first\<close>, \<^verbatim>\<open>next\<close>, \dots\ until it is back at the head.
  On a damaged list it may never get there, so the nodes it visits are a partial
  function: \<open>None\<close> is a loop that does not end.
\<close>

partial_function (option) visit :: "'a links \<Rightarrow> 'a \<Rightarrow> 'a \<Rightarrow> 'a list option" where
  "visit L lh it =
     (if it = lh then Some []
      else Option.bind (visit L lh (nx L it)) (\<lambda>rest. Some (it # rest)))"

declare visit.simps [code]

definition list_foreach :: "'a \<Rightarrow> 'a links \<Rightarrow> 'a list option" where
  "list_foreach lh L = visit L lh (list_head_first lh L)"

section \<open>Segments and rings\<close>

text \<open>
  \<open>seg L zs\<close>: consecutive nodes of \<open>zs\<close> are linked in both directions.
  \<open>ring L h xs\<close>: starting at \<open>h\<close> the links lead through \<open>xs\<close> and back to \<open>h\<close>.
\<close>

fun seg :: "'a links \<Rightarrow> 'a list \<Rightarrow> bool" where
  "seg L [] = True"
| "seg L [x] = True"
| "seg L (x # y # zs) = (nx L x = y \<and> pv L y = x \<and> seg L (y # zs))"

definition ring :: "'a links \<Rightarrow> 'a \<Rightarrow> 'a list \<Rightarrow> bool" where
  "ring L h xs \<longleftrightarrow> distinct (h # xs) \<and> seg L (h # xs @ [h])"

lemma seg_Cons: "ys \<noteq> [] \<Longrightarrow> seg L (x # ys) \<longleftrightarrow> nx L x = hd ys \<and> pv L (hd ys) = x \<and> seg L ys"
  by (cases ys) auto

lemma seg_append:
  "xs \<noteq> [] \<Longrightarrow> ys \<noteq> [] \<Longrightarrow>
   seg L (xs @ ys) \<longleftrightarrow> seg L xs \<and> seg L ys \<and> nx L (last xs) = hd ys \<and> pv L (hd ys) = last xs"
proof (induction xs rule: induct_list012)
  case (2 x)
  then show ?case by (auto simp: seg_Cons)
qed auto

lemma seg_frame:
  assumes "\<And>z. z \<in> set (butlast zs) \<Longrightarrow> nx L' z = nx L z"
    and "\<And>z. z \<in> set (tl zs) \<Longrightarrow> pv L' z = pv L z"
  shows "seg L' zs = seg L zs"
  using assms
proof (induction zs rule: induct_list012)
  case (3 x y zs)
  have "seg L' (y # zs) = seg L (y # zs)"
    by (rule "3.IH"(2)) (use "3.prems" in \<open>auto split: if_splits dest: in_set_butlastD\<close>)
  with "3.prems" show ?case by simp
qed simp_all

lemma ring_frame:
  assumes "\<And>z. z \<in> set (h # xs) \<Longrightarrow> nx L' z = nx L z \<and> pv L' z = pv L z"
  shows "ring L' h xs = ring L h xs"
proof -
  have "seg L' (h # xs @ [h]) = seg L (h # xs @ [h])"
    by (rule seg_frame) (use assms in \<open>auto simp: butlast_append\<close>)
  then show ?thesis by (simp add: ring_def)
qed

lemma ring_first: "ring L h xs \<Longrightarrow> nx L h = hd (xs @ [h])"
  by (cases xs) (auto simp: ring_def)

lemma ring_last: "ring L h xs \<Longrightarrow> pv L h = last (h # xs)"
  using seg_append [of "h # xs" "[h]" L] by (simp add: ring_def)

lemma ring_neighbours:
  "ring L h (xs @ x # ys) \<Longrightarrow> pv L x = last (h # xs) \<and> nx L x = hd (ys @ [h])"
  using seg_append [of "h # xs" "x # ys @ [h]" L] seg_Cons [of "ys @ [h]" L x]
  by (simp add: ring_def)

lemma ring_Nil: "ring L h [] \<longleftrightarrow> nx L h = h \<and> pv L h = h"
  by (auto simp: ring_def)

lemma ring_empty_iff: "ring L h xs \<Longrightarrow> list_head_empty h L \<longleftrightarrow> xs = []"
  by (cases xs) (auto simp: ring_def list_head_empty_def list_ll_empty_def)

section \<open>What the operations do to a ring\<close>

lemma ring_init: "ring (list_head_init h L) h []"
  by (simp add: ring_Nil list_head_init_def list_ll_init_def set_n_def set_p_def)

lemma init_frame:
  "z \<noteq> h \<Longrightarrow> nx (list_head_init h L) z = nx L z \<and> pv (list_head_init h L) z = pv L z"
  by (simp add: list_head_init_def list_ll_init_def set_n_def set_p_def)

lemma add_nx:
  "x \<noteq> l \<Longrightarrow> pv L l \<noteq> x \<Longrightarrow>
   nx (list_ll_add l x L) = (nx L)(x := l, pv L l := x)"
  by (auto simp: list_ll_add_def set_n_def set_p_def Let_def)

lemma add_pv:
  "x \<noteq> l \<Longrightarrow> pv L l \<noteq> x \<Longrightarrow>
   pv (list_ll_add l x L) = (pv L)(x := pv L l, l := x)"
  by (auto simp: list_ll_add_def set_n_def set_p_def Let_def)

lemma rem_nx: "nx (list_ll_rem x L) = (nx L)(pv L x := nx L x, x := x)" if "nx L x \<noteq> x"
  using that by (auto simp: list_ll_rem_def set_n_def set_p_def Let_def fun_eq_iff)

lemma rem_pv: "pv (list_ll_rem x L) = (pv L)(nx L x := pv L x, x := x)" if "nx L x \<noteq> x"
  using that by (auto simp: list_ll_rem_def set_n_def set_p_def Let_def fun_eq_iff)

text \<open>
  The two splices. \<open>A\<close> and \<open>B\<close> are the parts before and after the point of
  change; the side conditions say that the nodes whose fields are written occur
  elsewhere only in positions whose fields the segment does not read.
\<close>

lemma seg_splice_in:
  assumes s: "seg L (A @ B)" and ne: "A \<noteq> []" "B \<noteq> []"
    and a: "last A \<notin> set (butlast A) \<union> set (butlast B)"
    and b: "hd B \<notin> set (tl A) \<union> set (tl B)"
    and x: "x \<notin> set A \<union> set B"
  shows "seg (list_ll_add (hd B) x L) (A @ x # B)"
proof -
  let ?L = "list_ll_add (hd B) x L"
  from s ne have sA: "seg L A" and sB: "seg L B" and p: "pv L (hd B) = last A"
    by (auto simp: seg_append)
  from ne x have 1: "x \<noteq> hd B" and 2: "pv L (hd B) \<noteq> x"
    by (auto simp: p)
  note eqs = add_nx [OF 1 2] add_pv [OF 1 2] p
  have "seg ?L A = seg L A"
    using a b x by (intro seg_frame) (auto simp: eqs dest: in_set_butlastD list.set_sel(2) [OF ne(1)])
  moreover have "seg ?L B = seg L B"
    using a b x by (intro seg_frame) (auto simp: eqs dest: in_set_butlastD list.set_sel(2) [OF ne(2)])
  ultimately show ?thesis
    using ne sA sB 1 2 by (auto simp: seg_append seg_Cons eqs)
qed

lemma seg_splice_out:
  assumes s: "seg L (A @ x # B)" and ne: "A \<noteq> []" "B \<noteq> []"
    and a: "last A \<notin> set (butlast A) \<union> set (butlast B)"
    and b: "hd B \<notin> set (tl A) \<union> set (tl B)"
    and x: "x \<notin> set A \<union> set B"
  shows "seg (list_ll_rem x L) (A @ B)"
proof -
  let ?L = "list_ll_rem x L"
  from s ne have sA: "seg L A" and sB: "seg L B" and p: "pv L x = last A" and n: "nx L x = hd B"
    by (auto simp: seg_append seg_Cons)
  from ne x have 1: "nx L x \<noteq> x" by (auto simp: n)
  note eqs = rem_nx [OF 1] rem_pv [OF 1] p n
  have "seg ?L A = seg L A"
    using a b x by (intro seg_frame) (auto simp: eqs dest: in_set_butlastD list.set_sel(2) [OF ne(1)])
  moreover have "seg ?L B = seg L B"
    using a b x by (intro seg_frame) (auto simp: eqs dest: in_set_butlastD list.set_sel(2) [OF ne(2)])
  ultimately show ?thesis
    using ne sA sB x by (auto simp: seg_append eqs)
qed

text \<open>\<^verbatim>\<open>list_ll_add(link, new)\<close> puts the new node \<^emph>\<open>before\<close> \<^verbatim>\<open>link\<close>.\<close>

lemma ring_add_before:
  assumes r: "ring L h (xs @ l # ys)" and x: "x \<notin> set (h # xs @ l # ys)"
  shows "ring (list_ll_add l x L) h (xs @ x # l # ys)"
proof -
  have d: "distinct (h # xs @ l # ys)" and s: "seg L ((h # xs) @ (l # ys @ [h]))"
    using r by (auto simp: ring_def)
  have "last (h # xs) \<in> set (h # xs)" by (rule last_in_set) simp
  then have "seg (list_ll_add (hd (l # ys @ [h])) x L) ((h # xs) @ x # (l # ys @ [h]))"
    using d x by (intro seg_splice_in [OF s]) (auto simp: butlast_append last_notin_butlast)
  then show ?thesis using d x by (auto simp: ring_def)
qed

lemma ring_add_head:
  assumes r: "ring L h xs" and x: "x \<notin> set (h # xs)"
  shows "ring (list_head_add h x L) h (xs @ [x])"
proof -
  have d: "distinct (h # xs)" and s: "seg L ((h # xs) @ [h])"
    using r by (auto simp: ring_def)
  have "seg (list_ll_add (hd [h]) x L) ((h # xs) @ x # [h])"
    using d x by (intro seg_splice_in [OF s]) (auto simp: last_notin_butlast)
  then show ?thesis using d x by (auto simp: ring_def list_head_add_def)
qed

text \<open>
  Hence \<^verbatim>\<open>list_head_add\<close> inserts at the \<^emph>\<open>tail\<close>, and \<^verbatim>\<open>list_head_append\<close>, which passes
  the last node as \<^verbatim>\<open>link\<close>, inserts just \<^emph>\<open>before the last\<close> node.
\<close>

lemma ring_append_head:
  assumes r: "ring L h xs" and x: "x \<notin> set (h # xs)"
  shows "ring (list_head_append h x L) h (insert_before_last x xs)"
proof (cases xs rule: rev_cases)
  case Nil
  then show ?thesis
    using ring_add_head [OF r x] ring_last [OF r]
    by (simp add: list_head_append_def list_head_add_def)
next
  case (snoc ys l)
  then have "ring L h (ys @ l # [])" "x \<notin> set (h # ys @ l # [])" using r x by auto
  then show ?thesis
    using ring_add_before [of L h ys l "[]" x] ring_last [OF r] snoc
    by (simp add: list_head_append_def insert_before_last_def)
qed

lemma ring_rem:
  assumes r: "ring L h (xs @ x # ys)"
  shows "ring (list_ll_rem x L) h (xs @ ys)"
proof -
  have d: "distinct (h # xs @ x # ys)" and s: "seg L ((h # xs) @ x # (ys @ [h]))"
    using r by (auto simp: ring_def)
  have l: "last (h # xs) \<in> set (h # xs)" by (rule last_in_set) simp
  have "seg (list_ll_rem x L) ((h # xs) @ (ys @ [h]))"
    using d l by (intro seg_splice_out [OF s]) (cases ys; auto simp: butlast_append last_notin_butlast)+
  then show ?thesis using d by (auto simp: ring_def)
qed

lemma rem_self: "ring (list_ll_rem x L) x []"
  by (simp add: ring_Nil list_ll_rem_def set_n_def set_p_def Let_def)

lemma rem_alone: "ring L x [] \<Longrightarrow> list_ll_rem x L = L"
  by (cases L) (auto simp: ring_Nil list_ll_rem_def set_n_def set_p_def Let_def fun_eq_iff)

lemma rem_frame:
  assumes r: "ring L h (xs @ x # ys)" and z: "z \<notin> set (h # xs @ x # ys)"
  shows "nx (list_ll_rem x L) z = nx L z \<and> pv (list_ll_rem x L) z = pv L z"
proof -
  have p: "pv L x = last (h # xs)" and n: "nx L x = hd (ys @ [h])"
    using ring_neighbours [OF r] by auto
  have d: "x \<noteq> h" "x \<notin> set ys" using r by (auto simp: ring_def)
  have "last (h # xs) \<in> set (h # xs)" by (rule last_in_set) simp
  moreover have "hd (ys @ [h]) \<in> set (ys @ [h])" by (rule hd_in_set) simp
  ultimately have "z \<noteq> pv L x" "z \<noteq> nx L x" "nx L x \<noteq> x" using z d by (auto simp: p n)
  then show ?thesis using z by (auto simp: rem_nx rem_pv)
qed

lemma add_frame:
  assumes r: "ring L h xs" and l: "l \<in> set (h # xs)" and x: "x \<notin> set (h # xs)"
    and z: "z \<notin> set (x # h # xs)"
  shows "nx (list_ll_add l x L) z = nx L z \<and> pv (list_ll_add l x L) z = pv L z"
proof -
  have "pv L l \<in> set (h # xs)"
  proof (cases "l = h")
    case True
    then show ?thesis using ring_last [OF r] by auto
  next
    case False
    then obtain ys zs where xs: "xs = ys @ l # zs" using l by (auto dest: split_list)
    then have "pv L l = last (h # ys)" using ring_neighbours [of L h ys l zs] r by simp
    then show ?thesis by (auto simp: xs)
  qed
  then have 1: "x \<noteq> l" "pv L l \<noteq> x" and "z \<noteq> l" "z \<noteq> pv L l" "z \<noteq> x" using l x z by auto
  then show ?thesis by (simp add: add_nx add_pv)
qed

end
