(* ===== verification/Lwt_Queues.thy ===== *)
theory Lwt_Queues
  imports Lwt_List
begin

text \<open>
  What the rest of the library relies on when it keeps threads and channels in intrusive
  queues: the contract as a locale over an abstract view (a set of heads, the queue of
  every head, the set of detached nodes), its derived facts, and its interpretation on
  the link fields of \<^verbatim>\<open>lwt_list.h\<close>.
\<close>

section \<open>The contract\<close>

text \<open>
  \<open>rep l H D Q\<close>: in the store \<open>l\<close> every head \<open>h \<in> H\<close> has the queue \<open>Q h\<close> and the
  nodes of \<open>D\<close> are linked to themselves only.
\<close>

locale intrusive_queues =
  fixes rep :: "'l \<Rightarrow> 'n set \<Rightarrow> 'n set \<Rightarrow> ('n \<Rightarrow> 'n list) \<Rightarrow> bool"
    and q_init :: "'n \<Rightarrow> 'l \<Rightarrow> 'l"
    and q_rem :: "'n \<Rightarrow> 'l \<Rightarrow> 'l"
    and q_add :: "'n \<Rightarrow> 'n \<Rightarrow> 'l \<Rightarrow> 'l"
    and q_append :: "'n \<Rightarrow> 'n \<Rightarrow> 'l \<Rightarrow> 'l"
    and q_first :: "'n \<Rightarrow> 'l \<Rightarrow> 'n"
    and q_empty :: "'n \<Rightarrow> 'l \<Rightarrow> bool"
  assumes rep_distinct: "rep l H D Q \<Longrightarrow> h \<in> H \<Longrightarrow> distinct (Q h)"
    and rep_apart: "rep l H D Q \<Longrightarrow> h \<in> H \<Longrightarrow> x \<in> set (Q h) \<Longrightarrow> x \<notin> H \<and> x \<notin> D"
    and rep_disjoint: "rep l H D Q \<Longrightarrow> h \<in> H \<Longrightarrow> h' \<in> H \<Longrightarrow> x \<in> set (Q h) \<Longrightarrow> x \<in> set (Q h') \<Longrightarrow> h = h'"
    and rep_heads: "rep l H D Q \<Longrightarrow> h \<in> H \<Longrightarrow> h \<notin> D"
    and init_rep: "rep l H D Q \<Longrightarrow> h \<notin> H \<Longrightarrow> h \<notin> D \<Longrightarrow> (\<And>g. g \<in> H \<Longrightarrow> h \<notin> set (Q g)) \<Longrightarrow>
        rep (q_init h l) (insert h H) D (Q(h := []))"
    and rem_rep: "rep l H D Q \<Longrightarrow> h \<in> H \<Longrightarrow> x \<in> set (Q h) \<Longrightarrow>
        rep (q_rem x l) H (insert x D) (Q(h := remove1 x (Q h)))"
    and rem_detached: "rep l H D Q \<Longrightarrow> x \<in> D \<Longrightarrow> q_rem x l = l"
    and add_rep: "rep l H D Q \<Longrightarrow> h \<in> H \<Longrightarrow> x \<notin> H \<Longrightarrow> (\<And>g. g \<in> H \<Longrightarrow> x \<notin> set (Q g)) \<Longrightarrow>
        rep (q_add h x l) H (D - {x}) (Q(h := Q h @ [x]))"
    and append_rep: "rep l H D Q \<Longrightarrow> h \<in> H \<Longrightarrow> x \<notin> H \<Longrightarrow> (\<And>g. g \<in> H \<Longrightarrow> x \<notin> set (Q g)) \<Longrightarrow>
        rep (q_append h x l) H (D - {x}) (Q(h := insert_before_last x (Q h)))"
    and first_rep: "rep l H D Q \<Longrightarrow> h \<in> H \<Longrightarrow> q_first h l = hd (Q h @ [h])"
    and empty_rep: "rep l H D Q \<Longrightarrow> h \<in> H \<Longrightarrow> q_empty h l \<longleftrightarrow> Q h = []"
begin

lemma first_in: "rep l H D Q \<Longrightarrow> h \<in> H \<Longrightarrow> Q h \<noteq> [] \<Longrightarrow> q_first h l \<in> set (Q h)"
  by (simp add: first_rep)

lemma first_not_head: "rep l H D Q \<Longrightarrow> h \<in> H \<Longrightarrow> Q h = [] \<Longrightarrow> q_first h l = h"
  by (simp add: first_rep)

text \<open>After a removal the node is in no queue and may be inserted anywhere.\<close>

lemma removed_free:
  assumes r: "rep l H D Q" and x: "h \<in> H" "x \<in> set (Q h)" and g: "g \<in> H"
  shows "x \<notin> set ((Q(h := remove1 x (Q h))) g)"
proof (cases "g = h")
  case True
  then show ?thesis using rep_distinct [OF r x(1)] by (simp add: set_remove1_eq)
next
  case False
  then show ?thesis using rep_disjoint [OF r x(1) g x(2)] by auto
qed

text \<open>Moving a queued node to the tail of a queue, or before the last node of one.\<close>

lemma move_add_rep:
  assumes r: "rep l H D Q" and x: "h \<in> H" "x \<in> set (Q h)" and g: "g \<in> H"
  shows "rep (q_add g x (q_rem x l)) H D
           ((Q(h := remove1 x (Q h)))(g := (Q(h := remove1 x (Q h))) g @ [x]))"
proof -
  have "x \<notin> H" "x \<notin> D" using rep_apart [OF r x] by auto
  moreover from this have "insert x D - {x} = D" by auto
  ultimately show ?thesis
    using add_rep [OF rem_rep [OF r x] g, of x] removed_free [OF r x] by metis
qed

lemma move_append_rep:
  assumes r: "rep l H D Q" and x: "h \<in> H" "x \<in> set (Q h)" and g: "g \<in> H"
  shows "rep (q_append g x (q_rem x l)) H D
           ((Q(h := remove1 x (Q h)))(g := insert_before_last x ((Q(h := remove1 x (Q h))) g)))"
proof -
  have "x \<notin> H" "x \<notin> D" using rep_apart [OF r x] by auto
  moreover from this have "insert x D - {x} = D" by auto
  ultimately show ?thesis
    using append_rep [OF rem_rep [OF r x] g, of x] removed_free [OF r x] by metis
qed

text \<open>Rotation of one queue: what a yielding thread does to its run queue.\<close>

lemma rotate_rep:
  assumes r: "rep l H D Q" and h: "h \<in> H" and x: "x \<in> set (Q h)"
  shows "rep (q_add h x (q_rem x l)) H D (Q(h := remove1 x (Q h) @ [x]))"
  using move_add_rep [OF r h x h] by simp

text \<open>A detached node enters a queue.\<close>

lemma detached_free:
  assumes r: "rep l H D Q" and x: "x \<in> D" and g: "g \<in> H"
  shows "x \<notin> H \<and> x \<notin> set (Q g)"
  using rep_apart [OF r g] rep_heads [OF r] x by blast

lemma wake_add_rep:
  assumes r: "rep l H D Q" and x: "x \<in> D" and g: "g \<in> H"
  shows "rep (q_add g x (q_rem x l)) H (D - {x}) (Q(g := Q g @ [x]))"
  unfolding rem_detached [OF r x]
  using add_rep [OF r g] detached_free [OF r x] g by blast

lemma wake_append_rep:
  assumes r: "rep l H D Q" and x: "x \<in> D" and g: "g \<in> H"
  shows "rep (q_append g x (q_rem x l)) H (D - {x}) (Q(g := insert_before_last x (Q g)))"
  unfolding rem_detached [OF r x]
  using append_rep [OF r g] detached_free [OF r x] g by blast

end

section \<open>The view of the link fields\<close>

definition queues :: "'a links \<Rightarrow> 'a set \<Rightarrow> 'a set \<Rightarrow> ('a \<Rightarrow> 'a list) \<Rightarrow> bool" where
  "queues L H D Q \<longleftrightarrow>
     (\<forall>h\<in>H. ring L h (Q h)) \<and> (\<forall>d\<in>D. ring L d []) \<and> H \<inter> D = {} \<and>
     (\<forall>h\<in>H. set (Q h) \<inter> (H \<union> D) = {}) \<and>
     (\<forall>h\<in>H. \<forall>g\<in>H. h \<noteq> g \<longrightarrow> set (Q h) \<inter> set (Q g) = {})"

lemma queuesD:
  assumes "queues L H D Q"
  shows "h \<in> H \<Longrightarrow> ring L h (Q h)" "d \<in> D \<Longrightarrow> ring L d []" "h \<in> H \<Longrightarrow> h \<notin> D"
    "h \<in> H \<Longrightarrow> x \<in> set (Q h) \<Longrightarrow> x \<notin> H \<and> x \<notin> D"
    "h \<in> H \<Longrightarrow> g \<in> H \<Longrightarrow> x \<in> set (Q h) \<Longrightarrow> x \<in> set (Q g) \<Longrightarrow> h = g"
  using assms unfolding queues_def by blast+

text \<open>
  One change at a time: if the new store has the right ring at one head and agrees with
  the old one elsewhere, the rest of the view stands.
\<close>

lemma queues_change:
  assumes q: "queues L H D Q" and h: "h \<in> H"
    and new: "ring L' h xs"
    and apart: "set xs \<inter> (H \<union> D') = {}" "\<And>g. g \<in> H \<Longrightarrow> g \<noteq> h \<Longrightarrow> set xs \<inter> set (Q g) = {}"
    and D': "D' \<subseteq> insert y D" "y \<in> D' \<Longrightarrow> ring L' y []" "y \<notin> H" "\<And>g. g \<in> H \<Longrightarrow> g \<noteq> h \<Longrightarrow> y \<notin> set (Q g)"
    and frame: "\<And>z. z \<notin> set (y # h # Q h) \<Longrightarrow> nx L' z = nx L z \<and> pv L' z = pv L z"
  shows "queues L' H D' (Q(h := xs))"
proof -
  have f: "ring L' g (Q g)" if g: "g \<in> H" "g \<noteq> h" for g
  proof -
    have "ring L' g (Q g) = ring L g (Q g)"
    proof (rule ring_frame)
      fix z assume "z \<in> set (g # Q g)"
      then have "z \<notin> set (y # h # Q h)"
        using D'(3) D'(4) [OF g] g h queuesD(4,5) [OF q] by auto
      then show "nx L' z = nx L z \<and> pv L' z = pv L z" by (rule frame)
    qed
    then show ?thesis using queuesD(1) [OF q g(1)] by simp
  qed
  have d: "ring L' x []" if x: "x \<in> D'" for x
  proof (cases "x = y")
    case True
    then show ?thesis using D'(2) x by simp
  next
    case False
    then have "x \<in> D" using D'(1) x by auto
    then have "x \<notin> set (y # h # Q h)" and "ring L x []"
      using False h queuesD(2,3,4) [OF q] by auto
    then show ?thesis using frame [of x] by (simp add: ring_Nil)
  qed
  let ?Q = "Q(h := xs)"
  have "ring L' g (?Q g)" if "g \<in> H" for g
    using that f new by (cases "g = h") auto
  moreover have "set (?Q g) \<inter> (H \<union> D') = {}" if g: "g \<in> H" for g
    using apart(1) queuesD(4) [OF q g] D'(1,3) D'(4) [OF g] by (cases "g = h") auto
  moreover have "set (?Q g) \<inter> set (?Q k) = {}" if "g \<in> H" "k \<in> H" "g \<noteq> k" for g k
    using that apart(2) queuesD(5) [OF q that(1,2)] by (cases "g = h"; cases "k = h") (simp_all, blast+)
  moreover have "H \<inter> D' = {}" using D'(1,3) queuesD(3) [OF q] by blast
  ultimately show ?thesis using d unfolding queues_def by blast
qed

lemma queues_init:
  assumes q: "queues L H D Q" and h: "h \<notin> H" "h \<notin> D" "\<And>g. g \<in> H \<Longrightarrow> h \<notin> set (Q g)"
  shows "queues (list_head_init h L) (insert h H) D (Q(h := []))"
proof -
  have f: "ring (list_head_init h L) g xs = ring L g xs" if "h \<notin> set (g # xs)" for g xs
    by (rule ring_frame, rule init_frame) (use that in auto)
  have "ring (list_head_init h L) g ((Q(h := [])) g)" if "g \<in> insert h H" for g
    using that queuesD(1) [OF q] h by (cases "g = h") (auto simp: ring_init f)
  moreover have "ring (list_head_init h L) d []" if "d \<in> D" for d
    using that queuesD(2) [OF q] h by (subst f) auto
  ultimately show ?thesis
    using q h unfolding queues_def by auto
qed

lemma queues_rem:
  assumes q: "queues L H D Q" and h: "h \<in> H" and x: "x \<in> set (Q h)"
  shows "queues (list_ll_rem x L) H (insert x D) (Q(h := remove1 x (Q h)))"
proof -
  obtain ys zs where xs: "Q h = ys @ x # zs" using x by (auto dest: split_list)
  have r: "ring L h (ys @ x # zs)" using queuesD(1) [OF q h] xs by simp
  then have d: "distinct (ys @ x # zs)" by (simp add: ring_def)
  have "queues (list_ll_rem x L) H (insert x D) (Q(h := ys @ zs))"
  proof (rule queues_change [OF q h ring_rem [OF r], where y = x])
    show "set (ys @ zs) \<inter> (H \<union> insert x D) = {}"
      using queuesD(4) [OF q h] d by (auto simp: xs)
    show "set (ys @ zs) \<inter> set (Q g) = {}" if "g \<in> H" "g \<noteq> h" for g
      using queuesD(5) [OF q h that(1)] that(2) by (auto simp: xs)
    show "x \<notin> H" using queuesD(4) [OF q h x] by simp
    show "x \<notin> set (Q g)" if "g \<in> H" "g \<noteq> h" for g
      using queuesD(5) [OF q h that(1) x] that(2) by auto
    show "nx (list_ll_rem x L) z = nx L z \<and> pv (list_ll_rem x L) z = pv L z"
      if "z \<notin> set (x # h # Q h)" for z
      by (rule rem_frame [OF r]) (use that in \<open>auto simp: xs\<close>)
  qed (auto simp: rem_self)
  then show ?thesis using d by (simp add: xs distinct_split_remove1)
qed

lemma queues_add_gen:
  assumes q: "queues L H D Q" and h: "h \<in> H" and x: "x \<notin> H" "\<And>g. g \<in> H \<Longrightarrow> x \<notin> set (Q g)"
    and l: "l \<in> set (h # Q h)" and new: "ring (list_ll_add l x L) h xs" "set xs = insert x (set (Q h))"
  shows "queues (list_ll_add l x L) H (D - {x}) (Q(h := xs))"
proof (rule queues_change [OF q h new(1), where y = x])
  show "set xs \<inter> (H \<union> (D - {x})) = {}"
    using queuesD(4) [OF q h] x new(2) by auto
  show "set xs \<inter> set (Q g) = {}" if "g \<in> H" "g \<noteq> h" for g
    using queuesD(5) [OF q h that(1)] that x new(2) by auto
  show "nx (list_ll_add l x L) z = nx L z \<and> pv (list_ll_add l x L) z = pv L z"
    if "z \<notin> set (x # h # Q h)" for z
    by (rule add_frame [OF queuesD(1) [OF q h] l]) (use that x h in auto)
qed (use x in auto)

lemma queues_add:
  assumes q: "queues L H D Q" and h: "h \<in> H" and x: "x \<notin> H" "\<And>g. g \<in> H \<Longrightarrow> x \<notin> set (Q g)"
  shows "queues (list_head_add h x L) H (D - {x}) (Q(h := Q h @ [x]))"
proof -
  have "ring (list_ll_add h x L) h (Q h @ [x])"
    using ring_add_head [OF queuesD(1) [OF q h], of x] x h by (auto simp: list_head_add_def)
  then show ?thesis unfolding list_head_add_def by (intro queues_add_gen [OF q h x]) auto
qed

lemma queues_append:
  assumes q: "queues L H D Q" and h: "h \<in> H" and x: "x \<notin> H" "\<And>g. g \<in> H \<Longrightarrow> x \<notin> set (Q g)"
  shows "queues (list_head_append h x L) H (D - {x}) (Q(h := insert_before_last x (Q h)))"
proof -
  have "pv L h \<in> set (h # Q h)" using ring_last [OF queuesD(1) [OF q h]] last_in_set [of "h # Q h"] by auto
  moreover have "ring (list_ll_add (pv L h) x L) h (insert_before_last x (Q h))"
    using ring_append_head [OF queuesD(1) [OF q h], of x] x h by (auto simp: list_head_append_def)
  ultimately show ?thesis unfolding list_head_append_def by (intro queues_add_gen [OF q h x]) auto
qed

lemma queues_rem_detached: "queues L H D Q \<Longrightarrow> x \<in> D \<Longrightarrow> list_ll_rem x L = L"
  by (rule rem_alone, erule queuesD(2))

interpretation lq: intrusive_queues queues list_head_init list_ll_rem list_head_add
  list_head_append list_head_first list_head_empty
proof unfold_locales
  show "queues L H D Q \<Longrightarrow> h \<in> H \<Longrightarrow> distinct (Q h)" for L H D Q and h :: 'a
    by (drule (1) queuesD(1)) (simp add: ring_def)
  show "queues L H D Q \<Longrightarrow> h \<in> H \<Longrightarrow> list_head_first h L = hd (Q h @ [h])" for L H D Q and h :: 'a
    by (drule (1) queuesD(1)) (simp add: ring_first list_head_first_def)
  show "queues L H D Q \<Longrightarrow> h \<in> H \<Longrightarrow> list_head_empty h L \<longleftrightarrow> Q h = []" for L H D Q and h :: 'a
    by (drule (1) queuesD(1)) (rule ring_empty_iff)
qed (fact queues_init queues_rem queues_add queues_append queues_rem_detached queuesD(3) queuesD(4) queuesD(5))+

text \<open>Iteration: the loop ends and visits the queue in order.\<close>

lemma visit_seg:
  "seg L (xs @ [h]) \<Longrightarrow> h \<notin> set xs \<Longrightarrow> visit L h (hd (xs @ [h])) = Some xs"
proof (induction xs)
  case Nil
  show ?case by (simp add: visit.simps)
next
  case (Cons x xs)
  then show ?case by (subst visit.simps) (auto simp: seg_Cons)
qed

lemma list_foreach_queue: "queues L H D Q \<Longrightarrow> h \<in> H \<Longrightarrow> list_foreach h L = Some (Q h)"
  using queuesD(1) [of L H D Q h] visit_seg [of L "Q h" h] ring_first [of L h "Q h"]
  by (auto simp: ring_def list_foreach_def list_head_first_def seg_Cons)


section \<open>Properties\<close>

text \<open>
  C6 What the insertion and removal functions of \<^verbatim>\<open>lwt_list.h\<close> do to the list that
  \<^verbatim>\<open>list_foreach\<close> iterates over, on an intact queue and a node that is in no queue:
  \<^verbatim>\<open>list_head_add\<close> puts it at the tail, \<^verbatim>\<open>list_head_append\<close> just before the last node, and
  \<^verbatim>\<open>list_rem\<close> takes out again what either of them put in.
\<close>

theorem list_ops_refine:
  assumes "queues L H D Q" "h \<in> H" "x \<notin> H" "\<forall>g\<in>H. x \<notin> set (Q g)"
  shows "list_foreach h (list_head_add h x L) = Some (Q h @ [x]) \<and>
    list_foreach h (list_head_append h x L) = Some (insert_before_last x (Q h)) \<and>
    list_foreach h (list_ll_rem x (list_head_add h x L)) = Some (Q h) \<and>
    list_foreach h (list_ll_rem x (list_head_append h x L)) = Some (Q h)"
proof -
  have x: "x \<notin> set (Q h)" using assms(2,4) by blast
  have r: "remove1 x (Q h @ [x]) = Q h" "remove1 x (insert_before_last x (Q h)) = Q h"
    using x by (cases "Q h" rule: rev_cases; simp add: remove1_append insert_before_last_def)+
  have a: "queues (list_head_add h x L) H (D - {x}) (Q(h := Q h @ [x]))"
    by (rule queues_add [OF assms(1-3)]) (use assms(4) in blast)
  have b: "queues (list_head_append h x L) H (D - {x}) (Q(h := insert_before_last x (Q h)))"
    by (rule queues_append [OF assms(1-3)]) (use assms(4) in blast)
  show ?thesis
    using list_foreach_queue [OF a assms(2)] list_foreach_queue [OF b assms(2)]
      list_foreach_queue [OF queues_rem [OF a assms(2), of x] assms(2)]
      list_foreach_queue [OF queues_rem [OF b assms(2), of x] assms(2)] r by simp
qed

lemma queues_single: "queues (list_head_init h L) {h} {} (\<lambda>_. [])"
  by (simp add: queues_def ring_init)

theorem list_ops_refine_witness:
  "list_foreach 0 (list_head_append 0 (5::nat) (list_head_add 0 4 (list_head_add 0 3
     (list_head_init 0 \<lparr>nx = \<lambda>_. 7, pv = \<lambda>_. 7\<rparr>)))) = Some [3, 5, 4]"
proof -
  let ?L = "list_head_init (0::nat) \<lparr>nx = \<lambda>_. 7, pv = \<lambda>_. 7\<rparr>"
  have "queues (list_head_add 0 3 ?L) {0} ({} - {3}) ((\<lambda>_. [])(0 := [] @ [3]))"
    by (rule queues_add [OF queues_single]) auto
  then have q1: "queues (list_head_add 0 3 ?L) {0} {} (\<lambda>_. [3])" by (simp add: queues_def)
  have "queues (list_head_add 0 4 (list_head_add 0 3 ?L)) {0} ({} - {4}) ((\<lambda>_. [3])(0 := [3] @ [4]))"
    by (rule queues_add [OF q1]) auto
  then have q: "queues (list_head_add 0 4 (list_head_add 0 3 ?L)) {0} {} (\<lambda>_. [3, 4])" by (simp add: queues_def)
  show ?thesis using list_ops_refine [OF q, of 0 5] by (simp add: insert_before_last_def)
qed

end
