(* ===== verification/Lwt_Umalloc.thy ===== *)
theory Lwt_Umalloc
  imports Lwt_Prelude
begin

text \<open>
  The allocator of \<^verbatim>\<open>umalloc.c\<close> (Kernighan and Ritchie's circular, address-ordered free
  list). Addresses and sizes are natural numbers; a header is 8 bytes on the 32-bit
  target, so \<^verbatim>\<open>Header *\<close> arithmetic moves by 8. The page allocator
  \<^verbatim>\<open>cos_page_bump_alloc\<close> belongs to the Composite runtime: \<open>pages m i\<close> is the result of
  its \<open>i\<close>-th call (\<open>None\<close> for \<^verbatim>\<open>(char *)-1\<close>). Loops that walk the free list are partial
  functions; \<open>None\<close> means that the loop never ends.
\<close>

section \<open>State\<close>

record umem =
  hptr :: "ptr \<Rightarrow> ptr"        \<comment> \<open>\<^verbatim>\<open>s.ptr\<close> of the header at an address\<close>
  hsize :: "ptr \<Rightarrow> nat"       \<comment> \<open>\<^verbatim>\<open>s.size\<close> of the header at an address\<close>
  freep :: ptr
  calls :: nat                \<comment> \<open>page-allocator calls so far\<close>
  ubase :: ptr                \<comment> \<open>address of the static header \<^verbatim>\<open>base\<close>\<close>
  pages :: "nat \<Rightarrow> ptr option"

definition header_size :: nat where
  "header_size = 8"

definition nunits :: "nat \<Rightarrow> nat" where
  "nunits nbytes = (nbytes + header_size - 1) mod 2 ^ 32 div header_size + 1"

definition set_ptr :: "ptr \<Rightarrow> ptr \<Rightarrow> umem \<Rightarrow> umem" where
  "set_ptr p q m = m\<lparr>hptr := (hptr m)(p := q)\<rparr>"

definition set_size :: "ptr \<Rightarrow> nat \<Rightarrow> umem \<Rightarrow> umem" where
  "set_size p n m = m\<lparr>hsize := (hsize m)(p := n)\<rparr>"

section \<open>\<^verbatim>\<open>ufree\<close>\<close>

partial_function (option) ufree_find :: "umem \<Rightarrow> ptr \<Rightarrow> ptr \<Rightarrow> ptr option" where
  "ufree_find m bp p =
     (if bp > p \<and> bp < hptr m p then Some p
      else if p \<ge> hptr m p \<and> (bp > p \<or> bp < hptr m p) then Some p
      else ufree_find m bp (hptr m p))"

declare ufree_find.simps [code]

definition join_upper :: "ptr \<Rightarrow> ptr \<Rightarrow> umem \<Rightarrow> umem" where
  "join_upper p bp m =
     (if bp + header_size * hsize m bp = hptr m p
      then let m1 = set_size bp (hsize m bp + hsize m (hptr m p)) m
           in set_ptr bp (hptr m1 (hptr m1 p)) m1
      else set_ptr bp (hptr m p) m)"

definition join_lower :: "ptr \<Rightarrow> ptr \<Rightarrow> umem \<Rightarrow> umem" where
  "join_lower p bp m =
     (if p + header_size * hsize m p = bp
      then let m1 = set_size p (hsize m p + hsize m bp) m
           in set_ptr p (hptr m1 bp) m1
      else set_ptr p bp m)"

definition ufree :: "ptr \<Rightarrow> umem \<Rightarrow> umem option" where
  "ufree ap m =
     (let bp = ap - header_size in
      if freep m = 0 then None
      else Option.bind (ufree_find m bp (freep m))
        (\<lambda>p. Some ((join_lower p bp (join_upper p bp m))\<lparr>freep := p\<rparr>)))"

section \<open>\<^verbatim>\<open>morecore\<close> and \<^verbatim>\<open>umalloc\<close>\<close>

text \<open>
  \<^verbatim>\<open>morecore\<close> takes one page and then \<^verbatim>\<open>nu * sizeof(Header) / 4096\<close> more, whose addresses
  it does not look at: it relies on the page allocator handing out consecutive pages.
\<close>

definition extra_pages :: "nat \<Rightarrow> nat" where
  "extra_pages nu = (nu * header_size) mod 2 ^ 32 div 4096"

definition morecore :: "nat \<Rightarrow> umem \<Rightarrow> (ptr \<times> umem) option" where
  "morecore nu m =
     (let p = pages m (calls m);
          m1 = m\<lparr>calls := calls m + 1 + extra_pages nu\<rparr>
      in case p of
           None \<Rightarrow> Some (0, m1)
         | Some hp \<Rightarrow> Option.bind (ufree (hp + header_size) (set_size hp nu m1))
                        (\<lambda>m2. Some (freep m2, m2)))"

definition take_block :: "nat \<Rightarrow> ptr \<Rightarrow> ptr \<Rightarrow> umem \<Rightarrow> ptr \<times> umem" where
  "take_block n prevp p m =
     (if hsize m p = n
      then (p + header_size, (set_ptr prevp (hptr m p) m)\<lparr>freep := prevp\<rparr>)
      else let m1 = set_size p (hsize m p - n) m;
               p' = p + header_size * hsize m1 p
           in (p' + header_size, (set_size p' n m1)\<lparr>freep := prevp\<rparr>))"

partial_function (option) search :: "nat \<Rightarrow> ptr \<Rightarrow> ptr \<Rightarrow> umem \<Rightarrow> (ptr \<times> umem) option" where
  "search n prevp p m =
     (if hsize m p \<ge> n then Some (take_block n prevp p m)
      else if p = freep m then
        Option.bind (morecore n m)
          (\<lambda>(q, m'). if q = 0 then Some (0, m') else search n q (hptr m' q) m')
      else search n p (hptr m p) m)"

declare search.simps [code]

definition first_use :: "umem \<Rightarrow> umem" where
  "first_use m =
     (if freep m = 0
      then set_size (ubase m) 0 ((set_ptr (ubase m) (ubase m) m)\<lparr>freep := ubase m\<rparr>)
      else m)"

definition umalloc :: "nat \<Rightarrow> umem \<Rightarrow> (ptr \<times> umem) option" where
  "umalloc nbytes m =
     (let n = nunits nbytes; m1 = first_use m; prevp = freep m1
      in search n prevp (hptr m1 prevp) m1)"

section \<open>The free list\<close>

text \<open>\<open>fpath m xs b\<close>: the \<^verbatim>\<open>ptr\<close> fields lead through \<open>xs\<close> and then to \<open>b\<close>.\<close>

fun fpath :: "umem \<Rightarrow> ptr list \<Rightarrow> ptr \<Rightarrow> bool" where
  "fpath m [] b = True"
| "fpath m (x # xs) b = (hptr m x = hd (xs @ [b]) \<and> fpath m xs b)"

lemma fpath_append: "fpath m (xs @ ys) b \<longleftrightarrow> fpath m xs (hd (ys @ [b])) \<and> fpath m ys b"
  by (induction xs) (auto simp: hd_append)

lemma fpath_frame: "(\<And>x. x \<in> set xs \<Longrightarrow> hptr m' x = hptr m x) \<Longrightarrow> fpath m' xs b = fpath m xs b"
  by (induction xs) auto

lemma fpath_transfer:
  "fpath m xs b \<Longrightarrow> (\<And>x. x \<in> set xs \<Longrightarrow> hptr m' x = hptr m x) \<Longrightarrow> fpath m' xs b"
  by (induction xs) auto

lemma set_ptr_simps [simp]:
  "hptr (set_ptr p q m) = (hptr m)(p := q)" "hsize (set_ptr p q m) = hsize m"
  "freep (set_ptr p q m) = freep m" "calls (set_ptr p q m) = calls m"
  "ubase (set_ptr p q m) = ubase m" "pages (set_ptr p q m) = pages m"
  by (simp_all add: set_ptr_def)

lemma set_size_simps [simp]:
  "hptr (set_size p n m) = hptr m" "hsize (set_size p n m) = (hsize m)(p := n)"
  "freep (set_size p n m) = freep m" "calls (set_size p n m) = calls m"
  "ubase (set_size p n m) = ubase m" "pages (set_size p n m) = pages m"
  by (simp_all add: set_size_def)

lemma fpath_upd [simp]:
  "fpath (set_size p n m) xs b = fpath m xs b"
  "p \<notin> set xs \<Longrightarrow> fpath (set_ptr p q m) xs b = fpath m xs b"
  "fpath (m\<lparr>freep := q\<rparr>) xs b = fpath m xs b"
  "fpath (m\<lparr>calls := c\<rparr>) xs b = fpath m xs b"
  by (rule fpath_frame, force)+

text \<open>
  \<open>blocks sz lo hi S\<close>: the blocks headed at \<open>S\<close>, of \<open>sz\<close> units each, lie between
  \<open>lo\<close> and \<open>hi\<close> and do not overlap.
\<close>

definition apart :: "(ptr \<Rightarrow> nat) \<Rightarrow> ptr \<Rightarrow> ptr \<Rightarrow> bool" where
  "apart sz x y \<longleftrightarrow> x + 8 * sz x \<le> y \<or> y + 8 * sz y \<le> x"

definition blocks :: "(ptr \<Rightarrow> nat) \<Rightarrow> ptr \<Rightarrow> ptr \<Rightarrow> ptr set \<Rightarrow> bool" where
  "blocks sz lo hi S \<longleftrightarrow>
     (\<forall>x\<in>S. 1 \<le> sz x \<and> lo \<le> x \<and> x + 8 * sz x \<le> hi) \<and>
     (\<forall>x\<in>S. \<forall>y\<in>S. x \<noteq> y \<longrightarrow> apart sz x y)"

lemma blocksD:
  assumes "blocks sz lo hi S" and "x \<in> S"
  shows "1 \<le> sz x" "lo \<le> x" "x + 8 * sz x \<le> hi" "y \<in> S \<Longrightarrow> x \<noteq> y \<Longrightarrow> apart sz x y"
  using assms unfolding blocks_def by auto

lemma blocks_cong:
  "(\<And>x. x \<in> S \<Longrightarrow> sz' x = sz x) \<Longrightarrow> blocks sz' lo hi S = blocks sz lo hi S"
  by (simp add: blocks_def apart_def)

lemma blocks_mono: "blocks sz lo hi S \<Longrightarrow> S' \<subseteq> S \<Longrightarrow> hi \<le> hi' \<Longrightarrow> blocks sz lo hi' S'"
  unfolding blocks_def by (meson order_trans subsetD)

lemma apart_sym: "apart sz x y = apart sz y x"
  by (auto simp: apart_def)

lemma blocksI:
  assumes "\<And>z. z \<in> S \<Longrightarrow> 1 \<le> sz z \<and> lo \<le> z \<and> z + 8 * sz z \<le> hi"
    and "\<And>z. z \<in> S \<Longrightarrow> z \<noteq> x \<Longrightarrow> apart sz x z"
    and "\<And>z w. z \<in> S \<Longrightarrow> w \<in> S \<Longrightarrow> z \<noteq> x \<Longrightarrow> w \<noteq> x \<Longrightarrow> z \<noteq> w \<Longrightarrow> apart sz z w"
  shows "blocks sz lo hi S"
  unfolding blocks_def
proof (intro conjI ballI impI)
  fix z w assume "z \<in> S" "w \<in> S" "z \<noteq> w"
  then show "apart sz z w"
    using assms(2,3) apart_sym by (cases "z = x"; cases "w = x") metis+
qed (use assms(1) in auto)

text \<open>Two adjacent blocks become one, and one block becomes two.\<close>

lemma blocks_merge:
  assumes b: "blocks sz lo hi S" and x: "x \<in> S" and y: "y \<in> S" and adj: "x + 8 * sz x = y"
  shows "blocks (sz(x := sz x + sz y)) lo hi (S - {y})"
proof (rule blocksI [where x = x])
  let ?sz = "sz(x := sz x + sz y)"
  have ne: "x \<noteq> y" using blocksD(1) [OF b x] adj by auto
  have yD: "1 \<le> sz y" "y + 8 * sz y \<le> hi" using blocksD [OF b y] by auto
  fix z assume z: "z \<in> S - {y}"
  then have zD: "1 \<le> sz z \<and> lo \<le> z \<and> z + 8 * sz z \<le> hi" using blocksD [OF b] by auto
  show "1 \<le> ?sz z \<and> lo \<le> z \<and> z + 8 * ?sz z \<le> hi"
    using zD yD adj by (cases "z = x") (auto simp: algebra_simps)
  show "apart ?sz x z" if "z \<noteq> x"
  proof -
    have "apart sz x z" "apart sz y z" using blocksD(4) [OF b] x y z that by auto
    then show ?thesis using adj that ne zD unfolding apart_def by (simp add: algebra_simps) linarith
  qed
  show "apart ?sz z w" if "w \<in> S - {y}" "z \<noteq> x" "w \<noteq> x" "z \<noteq> w" for w
    using that z blocksD(4) [OF b] by (simp add: apart_def)
qed

lemma blocks_split:
  assumes b: "blocks sz lo hi S" and x: "x \<in> S" and n: "1 \<le> n" "n < sz x"
    and y: "y = x + 8 * (sz x - n)"
  shows "y \<notin> S" "blocks (sz(x := sz x - n, y := n)) lo hi (insert y S)"
proof -
  let ?sz = "sz(x := sz x - n, y := n)"
  have xy: "x \<noteq> y" "x < y" and e: "y + 8 * n = x + 8 * sz x" using n y by auto
  show ys: "y \<notin> S"
  proof
    assume "y \<in> S"
    then have "apart sz x y" "1 \<le> sz y" using blocksD [OF b] x xy by auto
    then show False using xy e n by (auto simp: apart_def)
  qed
  have far: "apart ?sz x z \<and> apart ?sz y z" if z: "z \<in> S" "z \<noteq> x" for z
  proof -
    have "apart sz x z" "1 \<le> sz z" "z \<noteq> y" using blocksD [OF b] x z ys by auto
    then show ?thesis using z xy e n unfolding apart_def by (auto simp: y)
  qed
  show "blocks ?sz lo hi (insert y S)"
  proof (rule blocksI [where x = y])
    fix z assume z: "z \<in> insert y S"
    have xD: "lo \<le> x" "x + 8 * sz x \<le> hi" using blocksD [OF b x] by auto
    show "1 \<le> ?sz z \<and> lo \<le> z \<and> z + 8 * ?sz z \<le> hi"
    proof (cases "z = y")
      case True
      then show ?thesis using n xy e xD by (auto simp: y)
    next
      case False
      then have "z \<in> S" using z by simp
      then have "1 \<le> sz z \<and> lo \<le> z \<and> z + 8 * sz z \<le> hi" using blocksD [OF b] by auto
      then show ?thesis using False n xD xy by (cases "z = x") (auto simp: y)
    qed
    show "apart ?sz y z" if "z \<noteq> y"
      using far [of z] that z xy by (cases "z = x") (auto simp: apart_def y)
    show "apart ?sz z w" if w: "w \<in> insert y S" "z \<noteq> y" "w \<noteq> y" "z \<noteq> w" for w
    proof -
      have "z \<in> S" "w \<in> S" using z w by auto
      then show ?thesis
        using far [of z] far [of w] w blocksD(4) [OF b \<open>z \<in> S\<close> \<open>w \<in> S\<close>] apart_sym [of ?sz]
        by (cases "z = x"; cases "w = x") (auto simp: apart_def)
    qed
  qed
qed

lemma blocks_new:
  assumes b: "blocks sz lo hi S" and n: "1 \<le> n" "lo \<le> hi" "hi + 8 * n \<le> hi'"
  shows "hi \<notin> S" "blocks (sz(hi := n)) lo hi' (insert hi S)"
proof -
  have le: "x + 8 \<le> hi" if "x \<in> S" for x
    using blocksD [OF b that] by linarith
  then show "hi \<notin> S" by fastforce
  then have "apart (sz(hi := n)) x hi \<and> apart (sz(hi := n)) hi x" if "x \<in> S" for x
    using that blocksD(3) [OF b that] by (auto simp: apart_def)
  then show "blocks (sz(hi := n)) lo hi' (insert hi S)"
    using b n \<open>hi \<notin> S\<close> unfolding blocks_def apart_def by fastforce
qed

text \<open>
  The bytes a set of blocks covers; merging or splitting blocks does not change them.
\<close>

definition extent :: "(ptr \<Rightarrow> nat) \<Rightarrow> ptr \<Rightarrow> ptr set" where
  "extent sz x = {x ..< x + 8 * sz x}"

definition cover :: "(ptr \<Rightarrow> nat) \<Rightarrow> ptr set \<Rightarrow> ptr set" where
  "cover sz S = (\<Union>x\<in>S. extent sz x)"

lemma cover_simps [simp]:
  "cover sz {} = {}" "cover sz (insert x S) = extent sz x \<union> cover sz S"
  "cover sz (S \<union> T) = cover sz S \<union> cover sz T"
  by (auto simp: cover_def)

lemma cover_cong: "(\<And>x. x \<in> S \<Longrightarrow> sz' x = sz x) \<Longrightarrow> cover sz' S = cover sz S"
  by (simp add: cover_def extent_def)

lemma cover_merge:
  assumes "x \<in> S" "y \<in> S" "x \<noteq> y" "x + 8 * sz x = y"
  shows "cover (sz(x := sz x + sz y)) (S - {y}) = cover sz S"
proof -
  have S: "S - {y} = insert x (S - {x, y})" using assms by auto
  have "insert x (insert y (S - {x, y})) = S" using assms(1,2) by auto
  then have all: "cover sz S = extent sz x \<union> extent sz y \<union> cover sz (S - {x, y})"
    using cover_simps(2) [of sz] by (metis sup_assoc)
  have "cover (sz(x := sz x + sz y)) (S - {x, y}) = cover sz (S - {x, y})" by (rule cover_cong) auto
  moreover have "extent (sz(x := sz x + sz y)) x = extent sz x \<union> extent sz y"
    using assms(4) by (auto simp: extent_def)
  ultimately show ?thesis unfolding S all by simp
qed

lemma cover_split:
  assumes "x \<in> S" "y \<notin> S" "n \<le> sz x" "y = x + 8 * (sz x - n)"
  shows "cover (sz(x := sz x - n, y := n)) (insert y S) = cover sz S"
proof -
  let ?sz = "sz(x := sz x - n, y := n)"
  have S: "insert x (S - {x}) = S" and xy: "x \<noteq> y" using assms by auto
  have "cover ?sz (S - {x}) = cover sz (S - {x})" by (rule cover_cong) (use assms(2) in auto)
  moreover have "extent ?sz y \<union> extent ?sz x = extent sz x"
    using assms(3,4) xy by (auto simp: extent_def)
  moreover have "cover ?sz (insert y S) = extent ?sz y \<union> (extent ?sz x \<union> cover ?sz (S - {x}))"
    by (subst S [symmetric]) (simp only: cover_simps)
  moreover have "cover sz S = extent sz x \<union> cover sz (S - {x})"
    by (subst S [symmetric]) (simp only: cover_simps)
  ultimately show ?thesis by blast
qed

lemma cover_apart:
  assumes b: "blocks sz lo hi (S \<union> T)" and d: "S \<inter> T = {}"
  shows "cover sz S \<inter> cover sz T = {}"
proof -
  have "extent sz x \<inter> extent sz y = {}" if "x \<in> S" "y \<in> T" for x y
  proof -
    have "x \<noteq> y" using d that by blast
    then have "apart sz x y" using blocksD(4) [OF b, of x y] that by blast
    then show ?thesis by (auto simp: apart_def extent_def)
  qed
  then show ?thesis unfolding cover_def by blast
qed

text \<open>
  The page allocator as the code relies on it: it hands out consecutive pages above the
  program's static data until it has none left.
\<close>

definition bump_pages :: "umem \<Rightarrow> ptr \<Rightarrow> bool" where
  "bump_pages m lo \<longleftrightarrow> 0 < ubase m \<and> ubase m + 8 \<le> lo \<and>
     (\<forall>i hp. pages m i = Some hp \<longrightarrow> hp = lo + 4096 * i)"

text \<open>
  \<open>heap_ok m lo fs B\<close>: the free list is \<^verbatim>\<open>base\<close> and then \<open>fs\<close>, in address order; \<open>B\<close>
  are the headers of the blocks handed out. All blocks lie in the pages taken so far and
  no two overlap.
\<close>

definition heap_ok :: "umem \<Rightarrow> ptr \<Rightarrow> ptr list \<Rightarrow> ptr set \<Rightarrow> bool" where
  "heap_ok m lo fs B \<longleftrightarrow>
     bump_pages m lo \<and> sorted_wrt (<) (ubase m # fs) \<and> fpath m (ubase m # fs) (ubase m) \<and>
     freep m \<in> set (ubase m # fs) \<and> hsize m (ubase m) = 0 \<and> set fs \<inter> B = {} \<and>
     blocks (hsize m) lo (lo + 4096 * calls m) (set fs \<union> B)"

lemma heap_okD:
  assumes "heap_ok m lo fs B"
  shows "0 < ubase m" "ubase m + 8 \<le> lo" "pages m i = Some hp \<Longrightarrow> hp = lo + 4096 * i"
    "sorted_wrt (<) (ubase m # fs)" "fpath m (ubase m # fs) (ubase m)"
    "freep m \<in> set (ubase m # fs)" "hsize m (ubase m) = 0" "set fs \<inter> B = {}"
    "blocks (hsize m) lo (lo + 4096 * calls m) (set fs \<union> B)"
  using assms unfolding heap_ok_def bump_pages_def by auto

text \<open>
  What is free, as the code finds it: the headers the links lead to from \<^verbatim>\<open>freep\<close>, and the
  bytes of their blocks. Before the first request nothing is linked.
\<close>

inductive_set free_headers :: "umem \<Rightarrow> ptr set" for m :: umem where
  free_start: "freep m \<noteq> 0 \<Longrightarrow> freep m \<in> free_headers m"
| free_next: "h \<in> free_headers m \<Longrightarrow> hptr m h \<in> free_headers m"

definition free_bytes :: "umem \<Rightarrow> ptr set" where
  "free_bytes m = cover (hsize m) (free_headers m)"

lemma free_bytes_unused: "freep m = 0 \<Longrightarrow> free_bytes m = {}"
proof -
  assume "freep m = 0"
  then have "h \<notin> free_headers m" for h
    using free_headers.induct [of h m "\<lambda>_. False"] by blast
  then have "free_headers m = {}" by blast
  then show ?thesis by (simp add: free_bytes_def)
qed

lemma fpath_next: "fpath m xs b \<Longrightarrow> x \<in> set xs \<Longrightarrow> hptr m x \<in> insert b (set xs)"
  by (induction xs) (auto simp: hd_append split: if_splits)

lemma fpath_free:
  "fpath m xs b \<Longrightarrow> xs \<noteq> [] \<Longrightarrow> hd xs \<in> free_headers m \<Longrightarrow> set xs \<subseteq> free_headers m"
proof (induction xs)
  case (Cons x xs)
  then show ?case using free_next [of x m] by (cases xs) auto
qed simp

lemma heap_first_use:
  "bump_pages m lo \<Longrightarrow> freep m = 0 \<Longrightarrow> heap_ok (first_use m) lo [] {}"
  by (simp add: heap_ok_def bump_pages_def first_use_def set_ptr_def set_size_def blocks_def)

lemma freep_pos: "heap_ok m lo fs B \<Longrightarrow> 0 < freep m"
proof -
  assume h: "heap_ok m lo fs B"
  have "\<forall>x\<in>set (ubase m # fs). ubase m \<le> x" using heap_okD(4) [OF h] by auto
  then have "ubase m \<le> freep m" using heap_okD(6) [OF h] by blast
  then show ?thesis using heap_okD(1) [OF h] by linarith
qed

lemma first_use_ok: "heap_ok m lo fs B \<Longrightarrow> first_use m = m"
  by (drule freep_pos) (simp add: first_use_def)

section \<open>\<^verbatim>\<open>ufree\<close> finds the predecessor and coalesces\<close>

lemma ufree_find_before:
  assumes "fpath m (xs @ p # ys) b" "sorted_wrt (<) (xs @ p # ys)"
    and "b \<le> p" "p < bp" "\<forall>y\<in>set ys. bp < y"
  shows "ufree_find m bp (hd (xs @ [p])) = Some p"
  using assms(1,2)
proof (induction xs)
  case Nil
  then have "hptr m p = b \<and> ys = [] \<or> hptr m p \<in> set ys" by (cases ys) auto
  then show ?case using assms(3-) by (subst append_Nil, subst list.sel(1), subst ufree_find.simps) auto
next
  case (Cons x xs)
  let ?n = "hd (xs @ [p])"
  have n: "hptr m x = ?n" using Cons.prems(1) by (cases xs) auto
  have "x < ?n" "?n \<le> p" using Cons.prems(2) by (cases xs; auto)+
  then have "ufree_find m bp x = ufree_find m bp ?n"
    using assms(4) by (subst ufree_find.simps) (simp add: n)
  then show ?case using Cons by simp
qed

lemma ufree_find_after:
  assumes "fpath m ys b" "sorted_wrt (<) ys" "ys \<noteq> []" "b < bp" "\<forall>y\<in>set ys. bp < y"
  shows "ufree_find m bp (hd ys) = ufree_find m bp b"
  using assms
proof (induction ys)
  case (Cons y ys)
  show ?case
  proof (cases "ys = []")
    case True
    then show ?thesis using Cons.prems by (subst ufree_find.simps) auto
  next
    case False
    then have n: "hptr m y = hd ys" "y < hd ys" using Cons.prems by auto
    then have "ufree_find m bp y = ufree_find m bp (hd ys)"
      using Cons.prems(5) by (subst ufree_find.simps) auto
    then show ?thesis using Cons False by simp
  qed
qed simp

lemma ufree_find_pred:
  assumes path: "fpath m (xs @ p # ys) b" and srt: "sorted_wrt (<) (xs @ p # ys)"
    and b: "b = hd (xs @ [p])" and bp: "p < bp" "\<forall>y\<in>set ys. bp < y"
    and q: "q \<in> set (xs @ p # ys)"
  shows "ufree_find m bp q = Some p"
proof -
  have bp': "b \<le> p" using srt b by (cases xs) auto
  have start: "ufree_find m bp b = Some p"
    unfolding b by (rule ufree_find_before [OF path srt]) (use bp bp' b in auto)
  consider "q \<in> set (xs @ [p])" | "q \<in> set ys" using q by auto
  then show ?thesis
  proof cases
    case 1
    then obtain us vs where "xs @ [p] = us @ q # vs" by (meson split_list)
    then obtain vs' where s: "xs @ p # ys = us @ vs' @ p # ys" "hd (vs' @ [p]) = q"
      by (cases vs rule: rev_cases) auto
    have "fpath m (vs' @ p # ys) b" "sorted_wrt (<) (vs' @ p # ys)"
      using path srt unfolding s by (auto simp: fpath_append sorted_wrt_append)
    then have "ufree_find m bp (hd (vs' @ [p])) = Some p"
      by (rule ufree_find_before) (use bp bp' in auto)
    then show ?thesis using s by simp
  next
    case 2
    then obtain us vs where s: "ys = us @ q # vs" by (meson split_list)
    have "xs @ p # ys = (xs @ p # us) @ (q # vs)" by (simp add: s)
    then have "fpath m (q # vs) b" "sorted_wrt (<) (q # vs)"
      using path srt by (simp_all only: fpath_append sorted_wrt_append) 
    then have "ufree_find m bp (hd (q # vs)) = ufree_find m bp b"
      by (rule ufree_find_after) (use bp bp' s in auto)
    then show ?thesis using start by simp
  qed
qed

text \<open>The upper join: \<open>bp\<close> is linked to what follows it, or swallows it.\<close>

lemma join_upper_ok:
  assumes path: "fpath m (xs @ p # ys) b" and srt: "sorted_wrt (<) (xs @ p # ys)"
    and b: "b < bp" and bp: "p < bp" "\<forall>y\<in>set ys. bp < y"
    and bl: "blocks (hsize m) lo hi S" and S: "bp \<in> S" "set ys \<subseteq> S"
  obtains pre ys' where "ys = pre @ ys'" "fpath (join_upper p bp m) (bp # ys') b"
    "\<forall>x. x \<noteq> bp \<longrightarrow> hptr (join_upper p bp m) x = hptr m x"
    "\<forall>x. x \<noteq> bp \<longrightarrow> hsize (join_upper p bp m) x = hsize m x"
    "hsize m bp \<le> hsize (join_upper p bp m) bp"
    "blocks (hsize (join_upper p bp m)) lo hi (S - set pre)"
    "cover (hsize (join_upper p bp m)) (S - set pre) = cover (hsize m) S"
proof (cases "bp + 8 * hsize m bp = hptr m p")
  case True
  have n: "hptr m p = hd (ys @ [b])" "fpath m ys b" using path by (auto simp: fpath_append)
  have "hptr m p > bp" using True blocksD(1) [OF bl S(1)] by linarith
  then obtain y ys' where ys: "ys = y # ys'" using n b by (cases ys) auto
  have y: "hptr m p = y" "y \<in> S" "y \<noteq> bp" "bp \<notin> set ys'" using n S bp ys by auto
  show thesis
  proof (rule that [of "[y]" ys'])
    show "fpath (join_upper p bp m) (bp # ys') b"
      using n y True bp by (auto simp: join_upper_def header_size_def Let_def ys)
    show "blocks (hsize (join_upper p bp m)) lo hi (S - set [y])"
      using blocks_merge [OF bl S(1) y(2)] True y
      by (simp add: join_upper_def header_size_def Let_def)
    show "cover (hsize (join_upper p bp m)) (S - set [y]) = cover (hsize m) S"
      using cover_merge [OF S(1) y(2) _, of "hsize m"] True y
      by (simp add: join_upper_def header_size_def Let_def)
  qed (use True in \<open>auto simp: ys join_upper_def header_size_def Let_def\<close>)
next
  case False
  have n: "hptr m p = hd (ys @ [b])" "fpath m ys b" using path by (auto simp: fpath_append)
  have "bp \<notin> set ys" using bp by auto
  then have "fpath (join_upper p bp m) (bp # ys) b"
    using n False by (auto simp: join_upper_def header_size_def)
  then show thesis
    using bl False by (intro that [of "[]" ys]) (auto simp: join_upper_def header_size_def)
qed

text \<open>The lower join: \<open>p\<close> is linked to \<open>bp\<close>, or swallows it.\<close>

lemma join_lower_ok:
  assumes path: "fpath m (bp # ys) b" "fpath m xs p" and d: "distinct (xs @ p # bp # ys)"
    and bl: "blocks (hsize m) lo hi S" and S: "bp \<in> S" "p \<in> S \<or> hsize m p = 0"
  defines "m' \<equiv> join_lower p bp m"
  obtains mid where "mid = [] \<and> p \<in> S \<or> mid = [bp]" "fpath m' (xs @ p # mid @ ys) b"
    "\<forall>x. x \<noteq> p \<longrightarrow> hsize m' x = hsize m x"
    "blocks (hsize m') lo hi (S - ({bp} - set mid))"
    "hsize m bp \<le> hsize m' (hd (mid @ [p]))" "hsize m p = 0 \<longrightarrow> hsize m' p = 0"
    "cover (hsize m') (S - ({bp} - set mid)) = cover (hsize m) S"
proof (cases "p + 8 * hsize m p = bp")
  case True
  then have p: "p \<in> S" "hsize m p \<noteq> 0" using d S by auto
  have e: "m' = set_ptr p (hptr m bp) (set_size p (hsize m p + hsize m bp) m)"
    using True by (simp add: m'_def join_lower_def header_size_def)
  have "fpath m' (xs @ p # ys) b"
    using path d by (auto simp: fpath_append e)
  then show thesis
    using blocks_merge [OF bl p(1) S(1) True] cover_merge [of p S bp "hsize m", OF p(1) S(1) _ True] p d
    by (intro that [of "[]"]) (auto simp: e)
next
  case False
  have e: "m' = set_ptr p bp m" using False by (simp add: m'_def join_lower_def header_size_def)
  have "fpath m' (xs @ p # [bp] @ ys) b"
    using path d by (auto simp: fpath_append e)
  then show thesis using bl S by (intro that [of "[bp]"]) (auto simp: e)
qed

lemma join_const [simp]:
  "ubase (join_lower p bp m) = ubase m" "pages (join_lower p bp m) = pages m"
  "calls (join_lower p bp m) = calls m"
  "ubase (join_upper p bp m) = ubase m" "pages (join_upper p bp m) = pages m"
  "calls (join_upper p bp m) = calls m"
  by (simp_all add: join_lower_def join_upper_def Let_def)

text \<open>The place of an address in the free list.\<close>

lemma free_list_split:
  assumes "sorted_wrt (<) zs" "zs \<noteq> []" "hd zs < bp" "bp \<notin> set zs"
  obtains xs p ys where "zs = xs @ p # ys" "p < bp" "\<forall>x\<in>set xs. x < bp" "\<forall>y\<in>set ys. (bp::nat) < y"
proof -
  define A where "A = takeWhile (\<lambda>x. x < bp) zs"
  define ys where "ys = dropWhile (\<lambda>x. x < bp) zs"
  have zs: "zs = A @ ys" by (simp add: A_def ys_def)
  have "A \<noteq> []" using assms by (cases zs) (auto simp: A_def)
  then obtain xs p where A: "A = xs @ [p]" by (cases A rule: rev_cases) auto
  have lt: "\<forall>x\<in>set A. x < bp" by (auto simp: A_def dest: set_takeWhileD)
  have "\<forall>y\<in>set ys. bp < y"
  proof (cases ys)
    case (Cons y ys')
    have "dropWhile (\<lambda>x. x < bp) zs \<noteq> []" using Cons by (simp add: ys_def)
    from hd_dropWhile [OF this] have "\<not> y < bp" using Cons by (simp add: ys_def)
    moreover have "y \<noteq> bp" using assms(4) Cons zs by auto
    ultimately show ?thesis using assms(1) Cons zs by (auto simp: sorted_wrt_append)
  qed simp
  then show thesis using that [of xs p ys] zs A lt by auto
qed

definition same_pages :: "umem \<Rightarrow> umem \<Rightarrow> bool" where
  "same_pages m m' \<longleftrightarrow> ubase m' = ubase m \<and> pages m' = pages m"

text \<open>
  What \<^verbatim>\<open>ufree\<close> does to the free list: the blocks \<open>pre\<close> after the place of \<open>bp\<close> are joined to it, and it is
  joined to the block \<open>p\<close> before it (\<open>mid = []\<close>) or follows it (\<open>mid = [bp]\<close>).
\<close>

lemma ufree_relinks:
  assumes h: "heap_ok m lo fs B" and bp: "bp \<in> B"
  obtains m' fs' xs p pre mid ys' where "ufree (bp + 8) m = Some m'" "ubase m # fs = xs @ p # pre @ ys'" "ubase m # fs' = xs @ p # mid @ ys'"
    "sorted_wrt (<) (ubase m # fs')" "bp \<notin> set (ubase m # fs)" "mid = [] \<and> p \<in> set fs \<union> B \<or> mid = [bp]" "fpath m' (ubase m # fs') (ubase m)"
    "blocks (hsize m') lo (lo + 4096 * calls m) (set fs \<union> B - set pre - ({bp} - set mid))" "hsize m bp \<le> hsize m' (hd (mid @ [p]))"
    "\<forall>x. x \<noteq> p \<longrightarrow> x \<noteq> bp \<longrightarrow> hsize m' x = hsize m x" "hsize m' (ubase m) = 0" "freep m' = p" "set pre \<subseteq> set fs" "p \<in> set fs \<or> p = ubase m"
    "same_pages m m'" "calls m' = calls m" "ubase m' = ubase m"
    "cover (hsize m') (set fs \<union> B - set pre - ({bp} - set mid)) = cover (hsize m) (set fs \<union> B)"
proof -
  note hD = heap_okD [OF h]
  let ?b = "ubase m" and ?S = "set fs \<union> B" and ?hi = "lo + 4096 * calls m"
  have b: "?b < bp" "bp \<notin> set (?b # fs)" using blocksD(2) [OF hD(9), of bp] bp hD(1,2,8) by auto
  obtain xs p ys where zs: "?b # fs = xs @ p # ys" and p: "p < bp" and xs: "\<forall>x\<in>set xs. x < bp" and ys: "\<forall>y\<in>set ys. bp < y"
    by (rule free_list_split [of "?b # fs" bp]) (use hD(4) b in auto)
  have hb: "?b = hd (xs @ [p])" using zs by (cases xs) auto
  have fss: "set ys \<subseteq> set fs" "p \<in> set fs \<or> p = ?b" using zs arg_cong [OF zs, of set] by (cases xs; auto)+
  have path: "fpath m (xs @ p # ys) ?b" and srt: "sorted_wrt (<) (xs @ p # ys)" using hD(4,5) zs by auto
  have find: "ufree_find m bp (freep m) = Some p" by (rule ufree_find_pred [OF path srt hb p ys]) (use hD(6) zs in auto)
  let ?m1 = "join_upper p bp m"
  obtain pre ys' where u: "ys = pre @ ys'" "fpath ?m1 (bp # ys') ?b"
    "\<forall>x. x \<noteq> bp \<longrightarrow> hptr ?m1 x = hptr m x" "\<forall>x. x \<noteq> bp \<longrightarrow> hsize ?m1 x = hsize m x"
    "hsize m bp \<le> hsize ?m1 bp" "blocks (hsize ?m1) lo ?hi (?S - set pre)"
    "cover (hsize ?m1) (?S - set pre) = cover (hsize m) ?S"
    by (rule join_upper_ok [OF path srt b(1) p ys hD(9)]) (use bp fss in auto)
  have dzs: "distinct (xs @ p # ys)" using srt by (simp add: strict_sorted_iff)
  have d: "distinct (xs @ p # bp # ys')" using dzs p xs ys u(1) by auto
  have px: "fpath ?m1 xs p" using path u(3) xs by (auto simp: fpath_append intro!: fpath_transfer [of m xs p])
  have S1: "bp \<in> ?S - set pre" "p \<in> ?S - set pre \<or> hsize ?m1 p = 0" using bp ys u(1,4) fss(2) p hD(7) dzs by auto
  let ?m2 = "join_lower p bp ?m1"
  obtain mid where l: "mid = [] \<and> p \<in> ?S - set pre \<or> mid = [bp]" "fpath ?m2 (xs @ p # mid @ ys') ?b"
    "\<forall>x. x \<noteq> p \<longrightarrow> hsize ?m2 x = hsize ?m1 x" "blocks (hsize ?m2) lo ?hi (?S - set pre - ({bp} - set mid))"
    "hsize ?m1 bp \<le> hsize ?m2 (hd (mid @ [p]))" "hsize ?m1 p = 0 \<longrightarrow> hsize ?m2 p = 0"
    "cover (hsize ?m2) (?S - set pre - ({bp} - set mid)) = cover (hsize ?m1) (?S - set pre)"
    by (rule join_lower_ok [OF u(2) px d u(6) S1])
  define fs' where "fs' = tl (xs @ p # mid @ ys')"
  define m' where "m' = ?m2\<lparr>freep := p\<rparr>"
  have zs': "?b # fs' = xs @ p # mid @ ys'" using hb by (cases xs) (auto simp: fs'_def)
  have "ufree (bp + 8) m = Some m'" using freep_pos [OF h] find by (simp add: ufree_def header_size_def m'_def)
  moreover have "sorted_wrt (<) (?b # fs')" unfolding zs' using srt l(1) p xs ys u(1) by (auto simp: sorted_wrt_append)
  moreover have "fpath m' (?b # fs') ?b" using l(2) fpath_frame [of "xs @ p # mid @ ys'" m' ?m2 ?b] unfolding zs' by (simp add: m'_def)
  moreover have "hsize m' ?b = 0" using l(3,6) u(4) hD(7) b by (cases "p = ?b") (auto simp: m'_def)
  ultimately show thesis using that [of m' xs p pre ys' fs' mid] zs zs' b(2) l u(1,4,5,7) fss by (auto simp: m'_def same_pages_def)
qed

lemma ufree_ok:
  assumes h: "heap_ok m lo fs B" and bp: "bp \<in> B"
  obtains m' fs' where "ufree (bp + 8) m = Some m'" "heap_ok m' lo fs' (B - {bp})"
    "\<forall>b\<in>B - {bp}. hsize m' b = hsize m b" "same_pages m m'" "calls m' = calls m"
    "\<exists>x\<in>set fs'. hsize m bp \<le> hsize m' x"
    "cover (hsize m') (set fs') = cover (hsize m) (insert bp (set fs))"
proof -
  note hD = heap_okD [OF h]
  let ?b = "ubase m" and ?S = "set fs \<union> B" and ?hi = "lo + 4096 * calls m"
  obtain m' fs' xs p pre mid ys' where u: "ufree (bp + 8) m = Some m'" and zs: "?b # fs = xs @ p # pre @ ys'" and zs': "?b # fs' = xs @ p # mid @ ys'"
    and srt': "sorted_wrt (<) (?b # fs')" and nb: "bp \<notin> set (?b # fs)" and mid: "mid = [] \<and> p \<in> ?S \<or> mid = [bp]" and path: "fpath m' (?b # fs') ?b"
    and bl: "blocks (hsize m') lo ?hi (?S - set pre - ({bp} - set mid))" and big: "hsize m bp \<le> hsize m' (hd (mid @ [p]))"
    and sz: "\<forall>x. x \<noteq> p \<longrightarrow> x \<noteq> bp \<longrightarrow> hsize m' x = hsize m x" and sb: "hsize m' ?b = 0" and fp: "freep m' = p"
    and pre: "set pre \<subseteq> set fs" and p: "p \<in> set fs \<or> p = ?b"
    and pg: "same_pages m m'" "calls m' = calls m" "ubase m' = ubase m"
    and cov: "cover (hsize m') (?S - set pre - ({bp} - set mid)) = cover (hsize m) ?S" by (rule ufree_relinks [OF h bp])
  have dz: "distinct (?b # fs)" using hD(4) strict_sorted_iff by blast
  have set_fs': "set fs' \<subseteq> set fs \<union> {bp}" "bp \<in> set fs' \<longleftrightarrow> mid = [bp]" "set fs' \<inter> set pre = {}"
  proof -
    have "?b \<notin> set fs'" using srt' by auto
    moreover have "set (?b # fs') \<subseteq> insert bp (set (?b # fs))" unfolding zs' zs using mid by auto
    ultimately show "set fs' \<subseteq> set fs \<union> {bp}" by auto
    have "bp \<in> set (?b # fs') \<longleftrightarrow> mid = [bp]" using nb mid unfolding zs' zs by auto
    then show "bp \<in> set fs' \<longleftrightarrow> mid = [bp]" using nb by auto
    have "set (?b # fs') \<inter> set pre = {}" using dz nb mid unfolding zs' zs by auto
    then show "set fs' \<inter> set pre = {}" by auto
  qed
  have bs: "c \<noteq> ?b" if "c \<in> ?S" for c using blocksD(2) [OF hD(9), of c] that hD(1,2) by auto
  have szB: "hsize m' c = hsize m c" if "c \<in> B - {bp}" for c using that sz p hD(8) bs [of c] by auto
  have preB: "set pre \<inter> B = {}" using pre hD(8) by auto
  have rest: "set fs' \<union> (B - {bp}) = ?S - set pre - ({bp} - set mid)"
  proof
    show "set fs' \<union> (B - {bp}) \<subseteq> ?S - set pre - ({bp} - set mid)"
      using set_fs' mid preB bp by (cases "mid = [bp]") (simp, blast, simp, blast)
    have "set (?b # fs) \<subseteq> set (?b # fs') \<union> set pre" unfolding zs zs' by auto
    then have "set fs \<subseteq> set fs' \<union> set pre" using hD(4) by auto
    then show "?S - set pre - ({bp} - set mid) \<subseteq> set fs' \<union> (B - {bp})"
      using set_fs'(2) mid by (cases "mid = [bp]") auto
  qed
  have bl': "blocks (hsize m') lo ?hi (set fs' \<union> (B - {bp}))" using bl rest by simp
  have fsB: "set fs' \<inter> (B - {bp}) = {}" using set_fs'(1) hD(8) by auto
  have "cover (hsize m') (set fs') = cover (hsize m) (insert bp (set fs))"
  proof -
    have e: "?S = insert bp (set fs) \<union> (B - {bp})" using bp by blast
    have keep: "cover (hsize m') (B - {bp}) = cover (hsize m) (B - {bp})" by (rule cover_cong) (rule szB)
    have "cover (hsize m) (insert bp (set fs)) \<inter> cover (hsize m) (B - {bp}) = {}"
      by (rule cover_apart [of _ lo ?hi]) (use hD(8,9) e in auto)
    moreover have "cover (hsize m') (set fs') \<inter> cover (hsize m') (B - {bp}) = {}"
      by (rule cover_apart [OF bl' fsB])
    moreover have "cover (hsize m') (set fs' \<union> (B - {bp})) = cover (hsize m) (insert bp (set fs) \<union> (B - {bp}))"
      using cov unfolding rest e [symmetric] .
    ultimately show ?thesis using keep unfolding cover_simps(3) by blast
  qed
  moreover have "p \<in> set (?b # fs')" unfolding zs' by simp
  then have "heap_ok m' lo fs' (B - {bp})"
    using bl' fsB h srt' path sb fp pg unfolding heap_ok_def bump_pages_def same_pages_def by simp
  moreover have "\<exists>x\<in>set fs'. hsize m bp \<le> hsize m' x"
  proof (cases "mid = [bp]")
    case True
    then show ?thesis using set_fs'(2) big by (intro bexI [of _ bp]) auto
  next
    case False
    then have "mid = []" "p \<noteq> ?b" using mid bs by auto
    moreover have "p \<in> set (?b # fs')" unfolding zs' by simp
    ultimately show ?thesis using big by (intro bexI [of _ p]) auto
  qed
  ultimately show thesis using szB u pg(1,2) by (intro that [of m' fs']) auto
qed

section \<open>\<^verbatim>\<open>morecore\<close> and \<^verbatim>\<open>umalloc\<close>\<close>

lemma extra_pages_enough: "n * 8 < 2 ^ 32 \<Longrightarrow> 8 * n \<le> 4096 * (1 + extra_pages n)"
  by (simp add: extra_pages_def header_size_def)

lemma morecore_ok:
  assumes h: "heap_ok m lo fs B" and n: "1 \<le> n" "n * 8 < 2 ^ 32"
  obtains (no_page) m' where "pages m (calls m) = None" "morecore n m = Some (0, m')"
      "heap_ok m' lo fs B" "hsize m' = hsize m" "same_pages m m'"
  | (more) m' fs' where "morecore n m = Some (freep m', m')" "heap_ok m' lo fs' B"
      "\<forall>b\<in>B. hsize m' b = hsize m b" "\<exists>x\<in>set fs'. n \<le> hsize m' x" "same_pages m m'"
      "calls m < calls m'" "cover (hsize m') (set fs') =
         {the (pages m (calls m)) ..< the (pages m (calls m)) + 8 * n} \<union> cover (hsize m) (set fs)"
proof (cases "pages m (calls m)")
  case None
  let ?m1 = "m\<lparr>calls := calls m + 1 + extra_pages n\<rparr>"
  have "heap_ok ?m1 lo fs B"
    using h blocks_mono [OF heap_okD(9) [OF h] subset_refl]
    by (auto simp: heap_ok_def bump_pages_def)
  then show thesis
    using None by (intro no_page [of ?m1]) (auto simp: morecore_def Let_def same_pages_def)
next
  case (Some hp)
  let ?m1 = "m\<lparr>calls := calls m + 1 + extra_pages n\<rparr>" and ?hi = "lo + 4096 * calls m"
  let ?m2 = "set_size hp n ?m1"
  have hp: "hp = ?hi" using heap_okD(3) [OF h Some] .
  have new: "hp \<notin> set fs \<union> B"
    "blocks ((hsize m)(hp := n)) lo (lo + 4096 * calls ?m2) (insert hp (set fs \<union> B))"
    using blocks_new [OF heap_okD(9) [OF h] n(1), of "lo + 4096 * calls ?m2"]
      extra_pages_enough [OF n(2)] by (auto simp: hp)
  have "heap_ok ?m2 lo fs (insert hp B)"
    using h new hp by (auto simp: heap_ok_def bump_pages_def)
  then obtain m' fs' where f: "ufree (hp + 8) ?m2 = Some m'" "heap_ok m' lo fs' (insert hp B - {hp})"
      "\<forall>b\<in>insert hp B - {hp}. hsize m' b = hsize ?m2 b" "same_pages ?m2 m'"
      "\<exists>x\<in>set fs'. hsize ?m2 hp \<le> hsize m' x" "calls m' = calls ?m2"
      "cover (hsize m') (set fs') = cover (hsize ?m2) (insert hp (set fs))"
    by (rule ufree_ok [of _ _ _ _ hp]) auto
  have B: "insert hp B - {hp} = B" using new(1) by auto
  show thesis
  proof (rule more)
    show "morecore n m = Some (freep m', m')"
      using Some f(1) by (simp add: morecore_def header_size_def Let_def)
    show "\<forall>b\<in>B. hsize m' b = hsize m b" using f(3) new(1) unfolding B by auto
    have "cover (hsize ?m2) (set fs) = cover (hsize m) (set fs)" by (rule cover_cong) (use new(1) in auto)
    then show "cover (hsize m') (set fs') =
         {the (pages m (calls m)) ..< the (pages m (calls m)) + 8 * n} \<union> cover (hsize m) (set fs)"
      unfolding f(7) cover_simps(2) using Some by (simp add: extent_def)
  qed (use f B in \<open>auto simp: same_pages_def\<close>)
qed

text \<open>The block handed out: a whole free block, or the upper part of a larger one.\<close>

lemma take_block_ok:
  assumes h: "heap_ok m lo fs B" and x: "x \<in> set fs" "1 \<le> n" "n \<le> hsize m x"
    and prev: "hptr m prev = x" "prev \<in> set (ubase m # fs)"
  obtains y m' fs' where "take_block n prev x m = (y + 8, m')" "heap_ok m' lo fs' (insert y B)"
    "y \<notin> B" "lo \<le> y" "hsize m' y = n" "\<forall>b\<in>B. hsize m' b = hsize m b" "same_pages m m'"
    "calls m' = calls m" "extent (hsize m') y \<union> cover (hsize m') (set fs') = cover (hsize m) (set fs)"
proof (cases "hsize m x = n")
  case True
  note hD = heap_okD [OF h]
  let ?m' = "(set_ptr prev (hptr m x) m)\<lparr>freep := prev\<rparr>"
  obtain us ws where s: "ubase m # fs = us @ prev # ws" using prev(2) by (meson split_list)
  have srt: "sorted_wrt (<) (us @ prev # ws)" and path: "fpath m (us @ prev # ws) (ubase m)"
    using hD(4,5) s by auto
  have xb: "ubase m < x" using hD(4) x(1) by auto
  then obtain ys where ws: "ws = x # ys" using path prev(1) by (cases ws) (auto simp: fpath_append)
  have path': "fpath ?m' (us @ prev # ys) (ubase m)"
    using path srt unfolding ws by (auto simp: fpath_append sorted_wrt_append)
  define fs' where "fs' = tl (us @ prev # ys)"
  have zs': "ubase m # fs' = us @ prev # ys" using s by (cases us) (auto simp: fs'_def)
  have srt': "sorted_wrt (<) (ubase m # fs')" and xn: "x \<notin> set (ubase m # fs')"
    using srt unfolding zs' ws by (auto simp: sorted_wrt_append)
  have "set (ubase m # fs) = insert x (set (ubase m # fs'))" unfolding s zs' ws by auto
  moreover have "ubase m \<notin> set fs" "ubase m \<notin> insert x (set fs')"
    using srt' hD(4) xb by auto
  ultimately have set_fs: "set fs = insert x (set fs')"
    using insert_ident [of "ubase m" "set fs" "insert x (set fs')"] by (simp add: insert_commute)
  have pin: "prev \<in> set (ubase m # fs')" unfolding zs' by simp
  have xn': "x \<notin> set fs'" using xn by simp
  have path'': "fpath ?m' (ubase m # fs') (ubase m)" unfolding zs' by (rule path')
  have "heap_ok ?m' lo fs' (insert x B)"
    using h srt' path'' xn' hD(8) pin unfolding heap_ok_def bump_pages_def set_fs by auto
  then show thesis
    using True x hD(8) blocksD(2) [OF hD(9), of x] set_fs
    by (intro that [of x ?m' fs']) (auto simp: take_block_def header_size_def same_pages_def)
next
  case False
  note hD = heap_okD [OF h]
  define y where "y = x + 8 * (hsize m x - n)"
  let ?m' = "(set_size y n (set_size x (hsize m x - n) m))\<lparr>freep := prev\<rparr>"
  have xS: "x \<in> set fs \<union> B" and lt: "n < hsize m x" using x False by auto
  note sp = blocks_split [OF hD(9) xS x(2) lt y_def]
  have xb: "ubase m < x" using hD(4) x(1) by auto
  have yx: "y \<noteq> x" "ubase m \<noteq> y" using xb lt x(2) by (auto simp: y_def)
  have "heap_ok ?m' lo fs (insert y B)"
    using h sp prev(2) xb yx hD(8) by (auto simp: heap_ok_def bump_pages_def)
  moreover have "take_block n prev x m = (y + 8, ?m')"
    using False by (simp add: take_block_def header_size_def y_def Let_def)
  moreover have "extent (hsize ?m') y \<union> cover (hsize ?m') (set fs) = cover (hsize m) (set fs)"
    using cover_split [of x "set fs" y n "hsize m"] x sp(1) y_def by simp
  ultimately show thesis
    using sp(1) x(1) hD(8) yx blocksD(2) [OF hD(9) xS]
    by (intro that [of y ?m' fs]) (auto simp: same_pages_def y_def)
qed

text \<open>The search walks the list from the successor of \<^verbatim>\<open>freep\<close> round to \<^verbatim>\<open>freep\<close>.\<close>

lemma search_found:
  assumes "fpath m (us @ [x]) e" "\<forall>u\<in>set us. hsize m u < n \<and> u \<noteq> freep m" "n \<le> hsize m x"
  shows "search n prevp (hd (us @ [x])) m = Some (take_block n (last (prevp # us)) x m)"
  using assms(1,2)
proof (induction us arbitrary: prevp)
  case Nil
  show ?case using assms(3) by (subst search.simps) simp
next
  case (Cons u us)
  then have "search n prevp u m = search n u (hd (us @ [x])) m"
    by (subst search.simps) (auto simp: hd_append)
  then show ?case using Cons.IH [of u] Cons.prems by simp
qed

lemma search_exhaust:
  assumes "fpath m (us @ [freep m]) e" "\<forall>u\<in>set us. hsize m u < n \<and> u \<noteq> freep m"
    "hsize m (freep m) < n"
  shows "search n prevp (hd (us @ [freep m])) m =
     Option.bind (morecore n m) (\<lambda>(q, m'). if q = 0 then Some (0, m') else search n q (hptr m' q) m')"
  using assms(1,2)
proof (induction us arbitrary: prevp)
  case Nil
  show ?case using assms(3) by (subst search.simps) simp
next
  case (Cons u us)
  then have "search n prevp u m = search n u (hd (us @ [freep m])) m"
    by (subst search.simps) (auto simp: hd_append)
  then show ?case using Cons.IH [of u] Cons.prems by simp
qed

text \<open>The free list read from the successor of \<^verbatim>\<open>freep\<close>.\<close>

lemma rotated:
  assumes h: "heap_ok m lo fs B"
  obtains vs where "fpath m (vs @ [freep m]) (hptr m (freep m))"
    "hptr m (freep m) = hd (vs @ [freep m])" "set (vs @ [freep m]) = set (ubase m # fs)"
    "freep m \<notin> set vs"
proof -
  note hD = heap_okD [OF h]
  obtain A C where s: "ubase m # fs = A @ freep m # C" using hD(6) by (meson split_list)
  have b: "ubase m = hd (A @ [freep m])" using s by (cases A) auto
  have path: "fpath m (A @ freep m # C) (ubase m)" and srt: "sorted_wrt (<) (A @ freep m # C)"
    using hD(4,5) s by auto
  show thesis
  proof (rule that [of "C @ A"])
    show "hptr m (freep m) = hd ((C @ A) @ [freep m])"
      using path b by (cases C) (auto simp: fpath_append)
    then show "fpath m ((C @ A) @ [freep m]) (hptr m (freep m))"
      using path b by (cases A) (auto simp: fpath_append hd_append)
    show "set ((C @ A) @ [freep m]) = set (ubase m # fs)" unfolding s by auto
    show "freep m \<notin> set (C @ A)" using srt by (auto simp: sorted_wrt_append)
  qed
qed

lemma search_fits:
  assumes h: "heap_ok m lo fs B" and n: "1 \<le> n" and fit: "\<exists>x\<in>set fs. n \<le> hsize m x"
  obtains y m' fs' where "search n (freep m) (hptr m (freep m)) m = Some (y + 8, m')"
    "heap_ok m' lo fs' (insert y B)" "y \<notin> B" "lo \<le> y" "hsize m' y = n"
    "\<forall>b\<in>B. hsize m' b = hsize m b" "same_pages m m'"
    "calls m' = calls m" "extent (hsize m') y \<union> cover (hsize m') (set fs') = cover (hsize m) (set fs)"
proof -
  note hD = heap_okD [OF h]
  obtain vs where vs: "fpath m (vs @ [freep m]) (hptr m (freep m))"
    "hptr m (freep m) = hd (vs @ [freep m])" "set (vs @ [freep m]) = set (ubase m # fs)"
    "freep m \<notin> set vs"
    by (rule rotated [OF h])
  have "\<exists>x\<in>set (vs @ [freep m]). n \<le> hsize m x" using fit unfolding vs(3) by auto
  from split_list_first_prop [OF this]
  obtain us x ws where s: "vs @ [freep m] = us @ x # ws" "n \<le> hsize m x"
      "\<forall>u\<in>set us. \<not> n \<le> hsize m u"
    by blast
  have usf: "u \<noteq> freep m" if "u \<in> set us" for u
    using that s(1) vs(4) by (cases ws rule: rev_cases) auto
  let ?prev = "last (freep m # us)"
  have p: "fpath m us x" "hptr m (freep m) = hd (us @ [x])" "fpath m (us @ [x]) (hd (ws @ [hptr m (freep m)]))"
    using vs(1,2) unfolding s(1) by (auto simp: fpath_append hd_append)
  have prev: "hptr m ?prev = x" "?prev \<in> set (ubase m # fs)"
  proof -
    show "hptr m ?prev = x" using p(1,2) by (cases us rule: rev_cases) (auto simp: fpath_append)
    have "set us \<subseteq> set (ubase m # fs)" unfolding vs(3) [symmetric] s(1) by auto
    then show "?prev \<in> set (ubase m # fs)" using hD(6) by (cases us rule: rev_cases) auto
  qed
  have "x \<in> set (ubase m # fs)" unfolding vs(3) [symmetric] s(1) by simp
  then have x: "x \<in> set fs" using s(2) n hD(7) by auto
  obtain y m' fs' where t: "take_block n ?prev x m = (y + 8, m')" "heap_ok m' lo fs' (insert y B)"
    "y \<notin> B" "lo \<le> y" "hsize m' y = n" "\<forall>b\<in>B. hsize m' b = hsize m b" "same_pages m m'"
    "calls m' = calls m" "extent (hsize m') y \<union> cover (hsize m') (set fs') = cover (hsize m) (set fs)"
    by (rule take_block_ok [OF h x n s(2) prev])
  have "search n (freep m) (hd (us @ [x])) m = Some (take_block n ?prev x m)"
    by (rule search_found [OF p(3) _ s(2)]) (use s(3) usf in auto)
  then show thesis using that [OF _ t(2-9)] t(1) p(2) by simp
qed

text \<open>
  A request that a free block fits is served from the free list; only otherwise do the
  \<open>new_bytes\<close>, which begin at the next page, join it.
\<close>

definition new_bytes :: "nat \<Rightarrow> umem \<Rightarrow> umem \<Rightarrow> ptr set" where
  "new_bytes nbytes m m' =
     (if calls m' = calls m then {}
      else {the (pages m (calls m)) ..< the (pages m (calls m)) + 8 * nunits nbytes})"

lemma umalloc_ok:
  assumes h: "heap_ok m lo fs B" and n: "nbytes + 16 \<le> 2 ^ 32"
  obtains (no_page) m' fs' where "umalloc nbytes m = Some (0, m')" "heap_ok m' lo fs' B"
      "hsize m' = hsize m" "same_pages m m'" "pages m (calls m) = None"
  | (block) y m' fs' where "umalloc nbytes m = Some (y + 8, m')"
      "heap_ok m' lo fs' (insert y B)" "y \<notin> B" "lo \<le> y" "hsize m' y = nunits nbytes"
      "\<forall>b\<in>B. hsize m' b = hsize m b" "same_pages m m'"
      "(\<exists>x\<in>set fs. nunits nbytes \<le> hsize m x) \<longrightarrow> calls m' = calls m"
      "extent (hsize m') y \<union> cover (hsize m') (set fs') = new_bytes nbytes m m' \<union> cover (hsize m) (set fs)"
proof -
  let ?n = "nunits nbytes"
  have n1: "1 \<le> ?n" by (simp add: nunits_def)
  have n2: "?n * 8 < 2 ^ 32" using n by (simp add: nunits_def header_size_def)
  have um: "umalloc nbytes m = search ?n (freep m) (hptr m (freep m)) m"
    by (simp add: umalloc_def first_use_ok [OF h] Let_def)
  show thesis
  proof (cases "\<exists>x\<in>set fs. ?n \<le> hsize m x")
    case True
    show thesis by (rule search_fits [OF h n1 True], rule block) (use um in \<open>auto simp: new_bytes_def\<close>)
  next
    case False
    obtain vs where vs: "fpath m (vs @ [freep m]) (hptr m (freep m))"
      "hptr m (freep m) = hd (vs @ [freep m])" "set (vs @ [freep m]) = set (ubase m # fs)"
      "freep m \<notin> set vs"
      by (rule rotated [OF h])
    have small: "\<forall>u\<in>set (vs @ [freep m]). hsize m u < ?n"
      using False heap_okD(7) [OF h] n1 unfolding vs(3) by auto
    then have ex: "umalloc nbytes m = Option.bind (morecore ?n m)
        (\<lambda>(q, m'). if q = 0 then Some (0, m') else search ?n q (hptr m' q) m')"
      using search_exhaust [OF vs(1), of ?n "freep m"] vs(2,4) um by auto
    show thesis
    proof (rule morecore_ok [OF h n1 n2])
      fix m1 assume "pages m (calls m) = None" "morecore ?n m = Some (0, m1)" "heap_ok m1 lo fs B"
        "hsize m1 = hsize m" "same_pages m m1"
      then show thesis using ex by (intro no_page) auto
    next
      fix m1 fs1 assume m1: "morecore ?n m = Some (freep m1, m1)" "heap_ok m1 lo fs1 B"
        "\<forall>b\<in>B. hsize m1 b = hsize m b" "\<exists>x\<in>set fs1. ?n \<le> hsize m1 x" "same_pages m m1"
        "calls m < calls m1" "cover (hsize m1) (set fs1) =
           {the (pages m (calls m)) ..< the (pages m (calls m)) + 8 * ?n} \<union> cover (hsize m) (set fs)"
      have u1: "umalloc nbytes m = search ?n (freep m1) (hptr m1 (freep m1)) m1"
        using ex m1(1) freep_pos [OF m1(2)] by simp
      show thesis
        by (rule search_fits [OF m1(2) n1 m1(4)], rule block)
          (use u1 m1(3,5,6,7) False in \<open>auto simp: same_pages_def new_bytes_def\<close>)
    qed
  qed
qed

section \<open>The allocator's contract\<close>

text \<open>
  What the rest of the library relies on. \<open>heap m B\<close>: \<open>B\<close> are the pointers handed out
  and not yet given back. \<open>room m b\<close> is the number of bytes behind \<open>b\<close>.
\<close>

locale allocator =
  fixes heap :: "'m \<Rightarrow> ptr set \<Rightarrow> bool"
    and alloc :: "nat \<Rightarrow> 'm \<Rightarrow> (ptr \<times> 'm) option"
    and free :: "ptr \<Rightarrow> 'm \<Rightarrow> 'm option"
    and room :: "'m \<Rightarrow> ptr \<Rightarrow> nat"
  assumes heap_nonnull: "heap m B \<Longrightarrow> b \<in> B \<Longrightarrow> b \<noteq> 0"
    and heap_apart: "heap m B \<Longrightarrow> a \<in> B \<Longrightarrow> b \<in> B \<Longrightarrow> a \<noteq> b \<Longrightarrow>
        a + room m a \<le> b \<or> b + room m b \<le> a"
    and alloc_returns: "heap m B \<Longrightarrow> n + 16 \<le> 2 ^ 32 \<Longrightarrow> \<exists>p m'. alloc n m = Some (p, m')"
    and alloc_null: "heap m B \<Longrightarrow> n + 16 \<le> 2 ^ 32 \<Longrightarrow> alloc n m = Some (0, m') \<Longrightarrow> heap m' B"
    and alloc_fresh: "heap m B \<Longrightarrow> n + 16 \<le> 2 ^ 32 \<Longrightarrow> alloc n m = Some (p, m') \<Longrightarrow> p \<noteq> 0 \<Longrightarrow>
        p \<notin> B \<and> heap m' (insert p B) \<and> n \<le> room m' p"
    and alloc_keeps: "heap m B \<Longrightarrow> n + 16 \<le> 2 ^ 32 \<Longrightarrow> alloc n m = Some (p, m') \<Longrightarrow> b \<in> B \<Longrightarrow>
        room m' b = room m b"
    and free_ok: "heap m B \<Longrightarrow> b \<in> B \<Longrightarrow>
        \<exists>m'. free b m = Some m' \<and> heap m' (B - {b}) \<and> (\<forall>c\<in>B - {b}. room m' c = room m c)"
begin

lemma alloc_heap:
  assumes "heap m B" "n + 16 \<le> 2 ^ 32" "alloc n m = Some (p, m')"
  shows "heap m' (if p = 0 then B else insert p B)"
  using alloc_null alloc_fresh assms by (metis (full_types))

text \<open>A new block keeps clear of every live one, whose extent has not changed.\<close>

lemma alloc_apart:
  assumes "heap m B" "n + 16 \<le> 2 ^ 32" "alloc n m = Some (p, m')" "p \<noteq> 0" "b \<in> B"
  shows "p + n \<le> b \<or> b + room m b \<le> p"
proof -
  have f: "p \<notin> B" "heap m' (insert p B)" "n \<le> room m' p" using alloc_fresh [OF assms(1-4)] by auto
  have "p + room m' p \<le> b \<or> b + room m' b \<le> p" using heap_apart [OF f(2)] f(1) assms(5) by auto
  then show ?thesis using f(3) alloc_keeps [OF assms(1-3,5)] by linarith
qed

lemma alloc_free:
  assumes "heap m B" "n + 16 \<le> 2 ^ 32" "alloc n m = Some (p, m')" "p \<noteq> 0"
  shows "\<exists>m''. free p m' = Some m'' \<and> heap m'' B"
proof -
  have f: "p \<notin> B" "heap m' (insert p B)" using alloc_fresh [OF assms] by auto
  have "insert p B - {p} = B" using f(1) by auto
  then show ?thesis using free_ok [OF f(2)] by fastforce
qed

end

definition uheap :: "umem \<Rightarrow> ptr set \<Rightarrow> bool" where
  "uheap m B \<longleftrightarrow>
     (\<exists>lo fs H. heap_ok m lo fs H \<and> B = (\<lambda>h. h + 8) ` H) \<or>
     (freep m = 0 \<and> (\<exists>lo. bump_pages m lo) \<and> B = {})"

definition usable :: "umem \<Rightarrow> ptr \<Rightarrow> nat" where
  "usable m b = 8 * hsize m (b - 8) - 8"

lemma heap_free_bytes:
  assumes h: "heap_ok m lo fs B"
  shows "free_bytes m = cover (hsize m) (set fs)"
proof -
  obtain vs where vs: "fpath m (vs @ [freep m]) (hptr m (freep m))"
    "hptr m (freep m) = hd (vs @ [freep m])" "set (vs @ [freep m]) = set (ubase m # fs)"
    by (rule rotated [OF h])
  have start: "freep m \<in> free_headers m" using freep_pos [OF h] by (intro free_start) simp
  have "set (ubase m # fs) \<subseteq> free_headers m"
    unfolding vs(3) [symmetric] by (rule fpath_free [OF vs(1)]) (use free_next [OF start] vs(2) in auto)
  moreover have "x \<in> set (ubase m # fs)" if "x \<in> free_headers m" for x
    using that
  proof induction
    case free_start
    then show ?case using heap_okD(6) [OF h] by simp
  next
    case (free_next x)
    then show ?case using fpath_next [OF heap_okD(5) [OF h]] by auto
  qed
  ultimately have "free_headers m = set (ubase m # fs)" by blast
  then show ?thesis using heap_okD(7) [OF h] by (simp add: free_bytes_def extent_def)
qed

text \<open>The first request sets the list up and then runs as any other.\<close>

lemma uheap_start:
  assumes u: "uheap m B"
  obtains m0 lo fs H where "heap_ok m0 lo fs H" "B = (\<lambda>h. h + 8) ` H"
    "\<And>nbytes. umalloc nbytes m = umalloc nbytes m0" "\<forall>h\<in>H. hsize m0 h = hsize m h"
    "pages m0 = pages m" "calls m0 = calls m" "free_bytes m = cover (hsize m0) (set fs)"
proof (cases "freep m = 0")
  case True
  have "\<not> heap_ok m lo fs H" for lo fs H using True freep_pos [of m lo fs H] by auto
  then have "B = {}" and "\<exists>lo. bump_pages m lo" using u by (auto simp: uheap_def)
  then obtain lo where "heap_ok (first_use m) lo [] {}" using heap_first_use True by blast
  moreover have "umalloc nbytes m = umalloc nbytes (first_use m)" for nbytes
    using calculation by (simp add: umalloc_def first_use_ok)
  ultimately show thesis
    using that [of "first_use m" lo "[]" "{}"] \<open>B = {}\<close> free_bytes_unused [OF True]
    by (simp add: first_use_def)
next
  case False
  then obtain lo fs H where "heap_ok m lo fs H" "B = (\<lambda>h. h + 8) ` H" using u by (auto simp: uheap_def)
  then show thesis using that [of m lo fs H] heap_free_bytes by simp
qed

lemma uheap_umalloc:
  assumes u: "uheap m B" and n: "nbytes + 16 \<le> 2 ^ 32"
  obtains (no_page) m' where "umalloc nbytes m = Some (0, m')" "uheap m' B"
      "\<forall>b\<in>B. usable m' b = usable m b" "pages m (calls m) = None" "pages m' = pages m"
  | (block) p m' where "umalloc nbytes m = Some (p, m')" "p \<noteq> 0" "p \<notin> B" "uheap m' (insert p B)"
      "nbytes \<le> usable m' p" "\<forall>b\<in>B. usable m' b = usable m b" "pages m' = pages m"
proof -
  obtain m0 lo fs H where h: "heap_ok m0 lo fs H" "B = (\<lambda>h. h + 8) ` H"
    and um: "umalloc nbytes m = umalloc nbytes m0" and sz: "\<forall>h\<in>H. hsize m0 h = hsize m h"
    and pg: "pages m0 = pages m" "calls m0 = calls m"
    by (rule uheap_start [OF u]) blast
  show thesis
  proof (rule umalloc_ok [OF h(1) n])
    fix m' fs' assume "umalloc nbytes m0 = Some (0, m')" "heap_ok m' lo fs' H" "hsize m' = hsize m0"
      "same_pages m0 m'" "pages m0 (calls m0) = None"
    moreover from this have "uheap m' B" unfolding uheap_def h(2) by blast
    ultimately show thesis
      using um h(2) sz pg by (intro no_page [of m']) (auto simp: usable_def same_pages_def)
  next
    fix y m' fs' assume y: "umalloc nbytes m0 = Some (y + 8, m')" "heap_ok m' lo fs' (insert y H)"
      "y \<notin> H" "hsize m' y = nunits nbytes" "\<forall>b\<in>H. hsize m' b = hsize m0 b" "same_pages m0 m'"
    have "insert (y + 8) B = (\<lambda>h. h + 8) ` insert y H" unfolding h(2) by auto
    then have "uheap m' (insert (y + 8) B)" using y(2) unfolding uheap_def by blast
    moreover have "nbytes \<le> usable m' (y + 8)"
      using y(4) n by (simp add: usable_def nunits_def header_size_def)
    ultimately show thesis
      using y um h(2) sz pg by (intro block [of "y + 8" m']) (auto simp: usable_def same_pages_def)
  qed
qed

lemma uheap_ufree:
  assumes u: "uheap m B" and b: "b \<in> B"
  shows "\<exists>m'. ufree b m = Some m' \<and> uheap m' (B - {b}) \<and> (\<forall>c\<in>B - {b}. usable m' c = usable m c)"
proof -
  obtain lo fs H h where h: "heap_ok m lo fs H" "B = (\<lambda>h. h + 8) ` H" "b = h + 8" "h \<in> H"
    using u b by (auto simp: uheap_def)
  obtain m' fs' where f: "ufree (h + 8) m = Some m'" "heap_ok m' lo fs' (H - {h})"
    "\<forall>b\<in>H - {h}. hsize m' b = hsize m b"
    by (rule ufree_ok [OF h(1,4)])
  have "B - {b} = (\<lambda>h. h + 8) ` (H - {h})" unfolding h(2,3) by auto
  moreover from this f(2) have "uheap m' (B - {b})" unfolding uheap_def by blast
  ultimately show ?thesis using f h(3) by (auto simp: usable_def)
qed

lemma uheap_apart:
  assumes u: "uheap m B" and ab: "a \<in> B" "b \<in> B" "a \<noteq> b"
  shows "a + usable m a \<le> b \<or> b + usable m b \<le> a"
proof -
  obtain lo fs H x y where h: "heap_ok m lo fs H" "a = x + 8" "b = y + 8" "x \<in> H" "y \<in> H"
    using u ab by (auto simp: uheap_def)
  then have "apart (hsize m) x y" "1 \<le> hsize m x" "1 \<le> hsize m y"
    using blocksD(1,4) [OF heap_okD(9) [OF h(1)]] ab(3) by auto
  then show ?thesis unfolding usable_def apart_def h(2,3) by auto
qed

interpretation um: allocator uheap umalloc ufree usable
proof unfold_locales
  show "uheap m B \<Longrightarrow> b \<in> B \<Longrightarrow> b \<noteq> 0" for m B b by (auto simp: uheap_def)
  show "uheap m B \<Longrightarrow> a \<in> B \<Longrightarrow> b \<in> B \<Longrightarrow> a \<noteq> b \<Longrightarrow> a + usable m a \<le> b \<or> b + usable m b \<le> a"
    for m B a b by (rule uheap_apart)
  show "uheap m B \<Longrightarrow> b \<in> B \<Longrightarrow>
      \<exists>m'. ufree b m = Some m' \<and> uheap m' (B - {b}) \<and> (\<forall>c\<in>B - {b}. usable m' c = usable m c)"
    for m B b by (rule uheap_ufree)
qed (erule (1) uheap_umalloc; auto)+


section \<open>Properties\<close>

text \<open>
  C5 \<^verbatim>\<open>umalloc\<close> returns for every request whose rounding does not leave 32 bits; it
  returns \<^verbatim>\<open>NULL\<close> only when the page allocator has run out; a pointer it returns is new,
  has room for the request, and its bytes are disjoint from every block handed out before,
  none of which moves or shrinks.
\<close>

theorem umalloc_contract:
  assumes "uheap m B" "n + 16 \<le> 2 ^ 32"
  shows "\<exists>p m'. umalloc n m = Some (p, m') \<and>
    (p = 0 \<longrightarrow> pages m (calls m) = None \<and> uheap m' B) \<and>
    (p \<noteq> 0 \<longrightarrow> p \<notin> B \<and> uheap m' (insert p B) \<and> n \<le> usable m' p \<and>
       (\<forall>b\<in>B. usable m' b = usable m b \<and> (p + n \<le> b \<or> b + usable m b \<le> p)))"
proof (rule uheap_umalloc [OF assms])
  fix p m' assume a: "umalloc n m = Some (p, m')" "p \<noteq> 0" "p \<notin> B" "uheap m' (insert p B)"
    "n \<le> usable m' p" "\<forall>b\<in>B. usable m' b = usable m b"
  then show ?thesis using um.alloc_apart [OF assms a(1,2)] by auto
qed auto

text \<open>
  C10 A block that is given back is free again. The block \<^verbatim>\<open>umalloc\<close> returns, its header
  included, keeps clear of the free list; \<^verbatim>\<open>ufree\<close> of it ends, and puts exactly its bytes
  back: what the free list covers is then what it covered before the request, and the bytes
  taken from the next page when no free block was large enough. The blocks handed out are
  as they were before the request, and the same request made again is served from the free
  list, without another page.
\<close>

theorem umalloc_ufree_roundtrip:
  assumes "uheap m B" "n + 16 \<le> 2 ^ 32" "umalloc n m = Some (p, m')" "p \<noteq> 0"
  shows "free_bytes m' \<inter> {p - 8 ..< p + usable m' p} = {} \<and>
    (\<exists>m''. ufree p m' = Some m'' \<and> uheap m'' B \<and> (\<forall>b\<in>B. usable m'' b = usable m b) \<and>
       free_bytes m'' = free_bytes m' \<union> {p - 8 ..< p + usable m' p} \<and>
       free_bytes m'' = free_bytes m \<union> new_bytes n m m' \<and>
       (\<exists>q m3. umalloc n m'' = Some (q, m3) \<and> q \<noteq> 0 \<and> calls m3 = calls m''))"
proof (rule uheap_start [OF assms(1)])
  fix m0 lo fs H assume h: "heap_ok m0 lo fs H" "B = (\<lambda>h. h + 8) ` H"
    and um: "\<And>nbytes. umalloc nbytes m = umalloc nbytes m0" and sz: "\<forall>h\<in>H. hsize m0 h = hsize m h"
    and pg: "pages m0 = pages m" "calls m0 = calls m" and fr: "free_bytes m = cover (hsize m0) (set fs)"
  show ?thesis
  proof (rule umalloc_ok [OF h(1) assms(2)])
    fix y m1 fs1 assume "umalloc n m0 = Some (y + 8, m1)"
      and y: "heap_ok m1 lo fs1 (insert y H)" "y \<notin> H" "hsize m1 y = nunits n" "\<forall>b\<in>H. hsize m1 b = hsize m0 b"
      and cov: "extent (hsize m1) y \<union> cover (hsize m1) (set fs1) = new_bytes n m0 m1 \<union> cover (hsize m0) (set fs)"
    then have p: "p = y + 8" "m1 = m'" using assms(3) um by auto
    have n1: "1 \<le> nunits n" by (simp add: nunits_def)
    have ext: "{p - 8 ..< p + usable m' p} = extent (hsize m') y"
      using y(3) n1 by (auto simp: extent_def usable_def p)
    have fr': "free_bytes m' = cover (hsize m') (set fs1)" using heap_free_bytes y(1) p by blast
    obtain m'' fs'' where f: "ufree (y + 8) m' = Some m''" "heap_ok m'' lo fs'' (insert y H - {y})"
      "\<forall>b\<in>insert y H - {y}. hsize m'' b = hsize m' b" "\<exists>x\<in>set fs''. hsize m' y \<le> hsize m'' x"
      "cover (hsize m'') (set fs'') = cover (hsize m') (insert y (set fs1))"
      by (rule ufree_ok [OF y(1) [unfolded p(2)], of y]) auto
    have H: "insert y H - {y} = H" using y(2) by auto
    have fr'': "free_bytes m'' = extent (hsize m') y \<union> free_bytes m'"
      using heap_free_bytes [OF f(2)] f(5) fr' by simp
    have apart: "free_bytes m' \<inter> extent (hsize m') y = {}"
    proof -
      have "blocks (hsize m') lo (lo + 4096 * calls m') (set fs1 \<union> {y})"
        by (rule blocks_mono [OF heap_okD(9) [OF y(1)], unfolded p(2)]) auto
      from cover_apart [OF this] show ?thesis using heap_okD(8) [OF y(1)] fr' by simp
    qed
    have again: "\<exists>q m3. umalloc n m'' = Some (q, m3) \<and> q \<noteq> 0 \<and> calls m3 = calls m''"
    proof -
      have fit: "\<exists>x\<in>set fs''. nunits n \<le> hsize m'' x" using f(4) y(3) p(2) by simp
      show ?thesis
        by (rule search_fits [OF f(2) n1 fit])
          (simp add: umalloc_def first_use_ok [OF f(2)] Let_def)
    qed
    have "uheap m'' B" using f(2) h(2) unfolding H uheap_def by blast
    moreover have "\<forall>b\<in>B. usable m'' b = usable m b"
      using f(3) y(4) sz h(2) p(2) unfolding H by (auto simp: usable_def)
    moreover have "free_bytes m'' = free_bytes m \<union> new_bytes n m m'"
      using cov fr'' fr fr' pg p(2) by (simp add: new_bytes_def Un_commute)
    moreover have "ufree p m' = Some m''" "free_bytes m'' = free_bytes m' \<union> extent (hsize m') y"
      using f(1) fr'' p(1) by auto
    ultimately show ?thesis using apart again unfolding ext by (intro conjI exI [of _ m'']) simp_all
  qed (use assms(3,4) um in auto)
qed

definition fresh_mem :: umem where
  "fresh_mem = \<lparr>hptr = \<lambda>_. 0, hsize = \<lambda>_. 0, freep = 0, calls = 0, ubase = 8, pages = \<lambda>i. Some (4096 + 4096 * i)\<rparr>"

lemma fresh_mem_uheap: "uheap fresh_mem {}"
  unfolding uheap_def by (rule disjI2) (auto simp: fresh_mem_def bump_pages_def intro!: exI [of _ 4096])

theorem umalloc_contract_witness:
  "\<exists>p m'. umalloc 100 fresh_mem = Some (p, m') \<and> p \<noteq> 0 \<and> uheap m' {p} \<and> 100 \<le> usable m' p"
  using umalloc_contract [OF fresh_mem_uheap, of 100] by (auto simp: fresh_mem_def)

theorem umalloc_ufree_roundtrip_witness:
  "\<exists>p m' m''. umalloc 100 fresh_mem = Some (p, m') \<and> ufree p m' = Some m'' \<and> uheap m'' {} \<and>
     free_bytes fresh_mem = {} \<and> free_bytes m'' = {4096 ..< 4208}"
proof -
  obtain p m' where u: "umalloc 100 fresh_mem = Some (p, m')" "p \<noteq> 0"
    by (rule uheap_umalloc [OF fresh_mem_uheap, of 100]) (auto simp: fresh_mem_def)
  have n: "(100::nat) + 16 \<le> 2 ^ 32" by simp
  obtain m'' where r: "ufree p m' = Some m''" "uheap m'' {}"
    "free_bytes m'' = free_bytes m' \<union> {p - 8 ..< p + usable m' p}"
    "free_bytes m'' = free_bytes fresh_mem \<union> new_bytes 100 fresh_mem m'"
    using umalloc_ufree_roundtrip [OF fresh_mem_uheap n u] by blast
  have none: "free_bytes fresh_mem = {}" by (rule free_bytes_unused) (simp add: fresh_mem_def)
  have "p - 8 < p" using u(2) by simp
  then have "p - 8 \<in> free_bytes m''" unfolding r(3) by (simp add: trans_less_add1)
  then have "new_bytes 100 fresh_mem m' \<noteq> {}" using r(4) none by blast
  then have "new_bytes 100 fresh_mem m' = {4096 ..< 4208}"
    by (simp add: new_bytes_def fresh_mem_def nunits_def header_size_def split: if_splits)
  then show ?thesis using u r none by auto
qed

end
