(* ===== verification/Lwt_Buffer.thy ===== *)
theory Lwt_Buffer
  imports Lwt_Prelude
begin

text \<open>
  The ring buffer inside a channel (\<^verbatim>\<open>struct _buffer_ring\<close> of \<^verbatim>\<open>lwt.h\<close>, used by \<^verbatim>\<open>lwt_snd\<close>,
  \<^verbatim>\<open>lwt_rcv\<close> and their \<^verbatim>\<open>sync\<close> variants in \<^verbatim>\<open>lwt_chl.c\<close>). \<^verbatim>\<open>tail\<close> and \<^verbatim>\<open>head\<close> count the
  words ever written and read; they are C \<^verbatim>\<open>int\<close>s that only grow, a slot is their
  remainder by the channel's size. The words at \<^verbatim>\<open>data_buffer\<close> are kept with the ring.
\<close>

section \<open>The ring\<close>

record buffer_ring =
  tail :: int
  head :: int
  count :: int
  data_buffer :: ptr
  words :: "ptr list"    \<comment> \<open>the words allocated at \<^verbatim>\<open>data_buffer\<close>\<close>

definition int_max :: int where
  "int_max = 2 ^ 31 - 1"

text \<open>\<^verbatim>\<open>i++\<close> on an \<^verbatim>\<open>int\<close>, and \<^verbatim>\<open>i % sz\<close> as an index into the words.\<close>

definition int_incr :: "int \<Rightarrow> int res" where
  "int_incr i = (if i < int_max then Inr (i + 1) else Inl SignedOverflow)"

definition ring_slot :: "buffer_ring \<Rightarrow> int \<Rightarrow> int \<Rightarrow> nat res" where
  "ring_slot b sz i =
     (if sz = 0 then Inl DivByZero
      else let j = i smod sz
           in if data_buffer b = 0 then Inl NullDeref
              else if 0 \<le> j \<and> nat j < length (words b) then Inr (nat j) else Inl OutOfBounds)"

text \<open>\<^verbatim>\<open>((uint *)data_buffer)[tail++ % sz] = data\<close>\<close>

definition ring_put :: "int \<Rightarrow> ptr \<Rightarrow> buffer_ring \<Rightarrow> buffer_ring res" where
  "ring_put sz data b =
     rbind (int_incr (tail b)) (\<lambda>t.
     rbind (ring_slot b sz (tail b)) (\<lambda>i.
       Inr (b\<lparr>tail := t, words := (words b)[i := data]\<rparr>)))"

text \<open>\<^verbatim>\<open>((uint *)data_buffer)[head++ % sz]\<close>\<close>

definition ring_get :: "int \<Rightarrow> buffer_ring \<Rightarrow> (ptr \<times> buffer_ring) res" where
  "ring_get sz b =
     rbind (int_incr (head b)) (\<lambda>h.
     rbind (ring_slot b sz (head b)) (\<lambda>i.
       Inr (words b ! i, b\<lparr>head := h\<rparr>)))"

definition ring_nonempty :: "buffer_ring \<Rightarrow> bool" where
  "ring_nonempty b \<longleftrightarrow> tail b - head b \<noteq> 0"

definition ring_not_full :: "int \<Rightarrow> buffer_ring \<Rightarrow> bool" where
  "ring_not_full sz b \<longleftrightarrow> tail b - head b \<noteq> sz"

section \<open>The contract of a bounded buffer\<close>

text \<open>A batch of writes, and a batch of reads.\<close>

fun puts :: "('d \<Rightarrow> 'b \<Rightarrow> 'b res) \<Rightarrow> 'd list \<Rightarrow> 'b \<Rightarrow> 'b res" where
  "puts put [] b = Inr b"
| "puts put (d # ds) b = rbind (put d b) (puts put ds)"

fun gets :: "('b \<Rightarrow> ('d \<times> 'b) res) \<Rightarrow> nat \<Rightarrow> 'b \<Rightarrow> ('d list \<times> 'b) res" where
  "gets get 0 b = Inr ([], b)"
| "gets get (Suc n) b =
     rbind (get b) (\<lambda>(d, b'). rbind (gets get n b') (\<lambda>(ds, b''). Inr (d # ds, b'')))"

text \<open>
  \<open>ok\<close> is the well-formedness of a buffer, \<open>items\<close> its contents, oldest first, and
  \<open>spare\<close> how many more writes its counters allow.
\<close>

locale fifo_buffer =
  fixes ok :: "'b \<Rightarrow> bool"
    and items :: "'b \<Rightarrow> 'd list"
    and capacity :: nat
    and spare :: "'b \<Rightarrow> nat"
    and put :: "'d \<Rightarrow> 'b \<Rightarrow> 'b res"
    and get :: "'b \<Rightarrow> ('d \<times> 'b) res"
  assumes within: "ok b \<Longrightarrow> length (items b) \<le> capacity"
    and put_ok: "ok b \<Longrightarrow> length (items b) < capacity \<Longrightarrow> 0 < spare b \<Longrightarrow>
        \<exists>b'. put d b = Inr b' \<and> ok b' \<and> items b' = items b @ [d] \<and> spare b' = spare b - 1"
    and get_ok: "ok b \<Longrightarrow> items b \<noteq> [] \<Longrightarrow>
        \<exists>b'. get b = Inr (hd (items b), b') \<and> ok b' \<and> items b' = tl (items b) \<and> spare b' = spare b"
begin

lemma puts_ok:
  "ok b \<Longrightarrow> length (items b) + length ds \<le> capacity \<Longrightarrow> length ds \<le> spare b \<Longrightarrow>
   \<exists>b'. puts put ds b = Inr b' \<and> ok b' \<and> items b' = items b @ ds \<and> spare b' = spare b - length ds"
proof (induction ds arbitrary: b)
  case (Cons d ds)
  obtain b1 where "put d b = Inr b1" "ok b1" "items b1 = items b @ [d]" "spare b1 = spare b - 1"
    using put_ok [of b d] Cons.prems by auto
  then show ?case using Cons.IH [of b1] Cons.prems by auto
qed simp

lemma gets_ok:
  "ok b \<Longrightarrow> n \<le> length (items b) \<Longrightarrow>
   \<exists>b'. gets get n b = Inr (take n (items b), b') \<and> ok b' \<and> items b' = drop n (items b) \<and> spare b' = spare b"
proof (induction n arbitrary: b)
  case (Suc n)
  then have ne: "items b \<noteq> []" by auto
  obtain b1 where "get b = Inr (hd (items b), b1)" "ok b1" "items b1 = tl (items b)" "spare b1 = spare b"
    using get_ok [OF Suc.prems(1) ne] by auto
  moreover have "n \<le> length (items b1)" using calculation(3) Suc.prems(2) by simp
  then obtain b2 where "gets get n b1 = Inr (take n (items b1), b2)" "ok b2"
      "items b2 = drop n (items b1)" "spare b2 = spare b1"
    using Suc.IH [OF calculation(2)] by auto
  ultimately show ?case using ne by (cases "items b") auto
qed simp

text \<open>What goes in comes out, in the same order, after what was already there.\<close>

lemma puts_gets:
  assumes "ok b" "length (items b) + length ds \<le> capacity" "length ds \<le> spare b"
  shows "\<exists>b' b''. puts put ds b = Inr b' \<and>
    gets get (length (items b) + length ds) b' = Inr (items b @ ds, b'') \<and> ok b'' \<and> items b'' = []"
proof -
  obtain b' where b': "puts put ds b = Inr b'" "ok b'" "items b' = items b @ ds"
    using puts_ok [OF assms] by auto
  then show ?thesis using gets_ok [of b' "length (items b) + length ds"] by auto
qed

end

section \<open>The ring is such a buffer\<close>

definition ring_ok :: "int \<Rightarrow> buffer_ring \<Rightarrow> bool" where
  "ring_ok sz b \<longleftrightarrow> 0 \<le> head b \<and> head b \<le> tail b \<and> tail b - head b \<le> sz \<and> tail b \<le> int_max \<and>
     (0 < sz \<longrightarrow> data_buffer b \<noteq> 0 \<and> length (words b) = nat sz)"

definition ring_items :: "int \<Rightarrow> buffer_ring \<Rightarrow> ptr list" where
  "ring_items sz b = map (\<lambda>i. words b ! nat (i mod sz)) [head b..tail b - 1]"

definition ring_spare :: "buffer_ring \<Rightarrow> nat" where
  "ring_spare b = nat (int_max - tail b)"

lemma smod_nonneg: "0 \<le> i \<Longrightarrow> 0 < s \<Longrightarrow> i smod s = i mod (s :: int)"
  by (cases "i = 0") (simp_all add: smod_int_alt_def)

lemma ring_slot_ok:
  assumes "ring_ok sz b" "0 < sz" "0 \<le> i"
  shows "ring_slot b sz i = Inr (nat (i mod sz))"
  using assms by (auto simp: ring_slot_def ring_ok_def smod_nonneg Let_def)

lemma length_ring_items: "ring_ok sz b \<Longrightarrow> int (length (ring_items sz b)) = tail b - head b"
  by (simp add: ring_items_def ring_ok_def)

lemma ring_items_empty: "ring_ok sz b \<Longrightarrow> ring_items sz b = [] \<longleftrightarrow> \<not> ring_nonempty b"
  using length_ring_items [of sz b] by (auto simp: ring_nonempty_def)

lemma mod_distinct:
  assumes "i < j" "j < i + (s::int)"
  shows "i mod s \<noteq> j mod s"
proof
  assume "i mod s = j mod s"
  then have "s dvd j - i" by (metis mod_eq_dvd_iff)
  then show False using assms zdvd_imp_le [of s "j - i"] by auto
qed

lemma upto_snoc: "i \<le> j \<Longrightarrow> [i..j] = [i..j - 1] @ [j::int]"
  by (rule upto_rec2)

lemma ring_put_ok:
  assumes b: "ring_ok sz b" and room: "tail b - head b < sz" and t: "tail b < int_max"
  shows "\<exists>b'. ring_put sz d b = Inr b' \<and> ring_ok sz b' \<and>
    ring_items sz b' = ring_items sz b @ [d] \<and> tail b' = tail b + 1 \<and> head b' = head b"
proof -
  have s: "0 < sz" and h: "0 \<le> head b" "head b \<le> tail b" using b room by (auto simp: ring_ok_def)
  let ?i = "nat (tail b mod sz)"
  let ?b = "b\<lparr>tail := tail b + 1, words := (words b)[?i := d]\<rparr>"
  have p: "ring_put sz d b = Inr ?b"
    using ring_slot_ok [OF b s, of "tail b"] h t by (simp add: ring_put_def int_incr_def)
  have i: "?i < length (words b)" using b s by (auto simp: ring_ok_def)
  have old: "(words b)[?i := d] ! nat (j mod sz) = words b ! nat (j mod sz)"
    if "j \<in> set [head b..tail b - 1]" for j
  proof -
    have "j mod sz \<noteq> tail b mod sz" using that room by (intro mod_distinct) auto
    then show ?thesis using s by (auto simp: nth_list_update nat_eq_iff)
  qed
  have "ring_items sz ?b = ring_items sz b @ [d]"
    using upto_snoc [OF h(2)] i old by (auto simp: ring_items_def)
  moreover have "ring_ok sz ?b" using b room t by (auto simp: ring_ok_def)
  ultimately show ?thesis using p by auto
qed

lemma ring_get_ok:
  assumes b: "ring_ok sz b" and ne: "ring_nonempty b"
  shows "\<exists>b'. ring_get sz b = Inr (hd (ring_items sz b), b') \<and> ring_ok sz b' \<and>
    ring_items sz b' = tl (ring_items sz b) \<and> tail b' = tail b \<and> head b' = head b + 1"
proof -
  have s: "0 < sz" and h: "0 \<le> head b" "head b < tail b" "head b < int_max"
    using b ne by (auto simp: ring_ok_def ring_nonempty_def)
  let ?b = "b\<lparr>head := head b + 1\<rparr>"
  have its: "ring_items sz b = words b ! nat (head b mod sz) # ring_items sz ?b"
    using h(2) by (simp add: ring_items_def upto_rec1)
  have "ring_get sz b = Inr (words b ! nat (head b mod sz), ?b)"
    using ring_slot_ok [OF b s h(1)] h(3) by (simp add: ring_get_def int_incr_def)
  moreover have "ring_ok sz ?b" using b h by (auto simp: ring_ok_def)
  ultimately show ?thesis using its by auto
qed

interpretation ring: fifo_buffer "ring_ok sz" "ring_items sz" "nat sz" ring_spare
  "ring_put sz" "ring_get sz" for sz
proof unfold_locales
  fix b assume b: "ring_ok sz b"
  then have l: "int (length (ring_items sz b)) = tail b - head b" by (rule length_ring_items)
  then show "length (ring_items sz b) \<le> nat sz" using b unfolding ring_ok_def by linarith
  show "\<exists>b'. ring_put sz d b = Inr b' \<and> ring_ok sz b' \<and> ring_items sz b' = ring_items sz b @ [d] \<and>
      ring_spare b' = ring_spare b - 1"
    if "length (ring_items sz b) < nat sz" "0 < ring_spare b" for d
    using ring_put_ok [OF b, of d] that l by (fastforce simp: ring_spare_def)
  show "\<exists>b'. ring_get sz b = Inr (hd (ring_items sz b), b') \<and> ring_ok sz b' \<and>
      ring_items sz b' = tl (ring_items sz b) \<and> ring_spare b' = ring_spare b"
    if "ring_items sz b \<noteq> []"
    using ring_get_ok [OF b] that ring_items_empty [OF b] by (auto simp: ring_spare_def)
qed


section \<open>Properties\<close>

text \<open>
  C7 The ring is a first-in first-out buffer: any batch of words that fits, put in one
  after the other, comes out after what was there before, in order, and leaves the ring
  empty and well formed; no step fails.
\<close>

theorem ring_fifo:
  assumes "ring_ok sz b" "length (ring_items sz b) + length ds \<le> nat sz" "length ds \<le> ring_spare b"
  shows "\<exists>b' b''. puts (ring_put sz) ds b = Inr b' \<and>
    gets (ring_get sz) (length (ring_items sz b) + length ds) b' = Inr (ring_items sz b @ ds, b'') \<and>
    ring_ok sz b'' \<and> ring_items sz b'' = []"
  by (rule ring.puts_gets [OF assms])

theorem ring_fifo_witness:
  "\<exists>b' b''. puts (ring_put 2) [7, 9] \<lparr>tail = 3, head = 3, count = 0, data_buffer = 64, words = [1, 2]\<rparr> = Inr b' \<and>
    gets (ring_get 2) 2 b' = Inr ([7, 9], b'')"
proof -
  let ?b = "\<lparr>tail = 3, head = 3, count = 0, data_buffer = 64, words = [1, 2]\<rparr>"
  have e: "ring_items 2 ?b = []" by (simp only: ring_items_def) simp
  have "ring_ok 2 ?b" "length (ring_items 2 ?b) + length [7, 9::nat] \<le> nat 2" "length [7, 9::nat] \<le> ring_spare ?b"
    unfolding e by (simp_all add: ring_ok_def ring_spare_def int_max_def)
  from ring_fifo [OF this] show ?thesis unfolding e by (auto simp: numeral_2_eq_2)
qed

text \<open>
  The bounds of the ring: on a full ring a further word (which \<^verbatim>\<open>lwt_sync_snd\<close> writes
  without a test) succeeds as long as the counter is in range, but replaces the oldest
  unread word and leaves a ring whose counters differ by more than its size; once \<^verbatim>\<open>tail\<close>
  has reached the largest \<^verbatim>\<open>int\<close>, \<^verbatim>\<open>tail++\<close> overflows.
\<close>

theorem ring_put_full:
  assumes "ring_ok sz b" "0 < sz" "tail b - head b = sz"
  shows "(tail b < int_max \<longrightarrow> (\<exists>b' b''. ring_put sz d b = Inr b' \<and> ring_get sz b' = Inr (d, b'') \<and> \<not> ring_ok sz b')) \<and>
    (tail b = int_max \<longrightarrow> ring_put sz d b = Inl SignedOverflow)"
proof -
  let ?i = "nat (tail b mod sz)"
  have h: "0 \<le> head b" "0 \<le> tail b" "?i < length (words b)" "tail b mod sz = head b mod sz" "head b < int_max \<or> tail b \<ge> int_max"
  proof -
    show "0 \<le> head b" "0 \<le> tail b" using assms(1) by (auto simp: ring_ok_def)
    show "?i < length (words b)" using assms(1,2) by (auto simp: ring_ok_def)
    have "tail b = head b + sz" using assms(3) by simp
    then show "tail b mod sz = head b mod sz" by simp
    show "head b < int_max \<or> tail b \<ge> int_max" using assms(2,3) by auto
  qed
  {
    assume t: "tail b < int_max"
    let ?b = "b\<lparr>tail := tail b + 1, words := (words b)[?i := d]\<rparr>"
    have p: "ring_put sz d b = Inr ?b"
      using ring_slot_ok [OF assms(1,2) h(2)] t by (simp add: ring_put_def int_incr_def)
    have "data_buffer b \<noteq> 0" using assms(1,2) by (simp add: ring_ok_def)
    then have "ring_get sz ?b = Inr (d, ?b\<lparr>head := head b + 1\<rparr>)"
      using h t assms(2,3) by (simp add: ring_get_def int_incr_def ring_slot_def smod_nonneg Let_def)
    moreover have "\<not> ring_ok sz ?b" using assms(3) by (simp add: ring_ok_def)
    ultimately have "\<exists>b' b''. ring_put sz d b = Inr b' \<and> ring_get sz b' = Inr (d, b'') \<and> \<not> ring_ok sz b'"
      using p by blast
  }
  then show ?thesis by (simp add: ring_put_def int_incr_def)
qed

theorem ring_put_full_witness:
  "(\<exists>b' b''. ring_put 2 8 \<lparr>tail = 2, head = 0, count = 0, data_buffer = 64, words = [5, 6]\<rparr> = Inr b' \<and>
     ring_get 2 b' = Inr (8, b'')) \<and>
   ring_put 2 8 \<lparr>tail = int_max, head = int_max - 2, count = 0, data_buffer = 64, words = [5, 6]\<rparr> = Inl SignedOverflow"
  using ring_put_full [of 2 "\<lparr>tail = 2, head = 0, count = 0, data_buffer = 64, words = [5, 6]\<rparr>" 8]
    ring_put_full [of 2 "\<lparr>tail = int_max, head = int_max - 2, count = 0, data_buffer = 64, words = [5, 6]\<rparr>" 8]
  by (simp add: ring_ok_def int_max_def) blast

end
