(* ===== verification/Lwt_State.thy ===== *)
theory Lwt_State
  imports Lwt_Queues Lwt_Umalloc Lwt_Buffer
begin

text \<open>
  The data of the threading library, from \<^verbatim>\<open>lwt.h\<close> and the globals of \<^verbatim>\<open>lwt.c\<close>: enums as
  datatypes, structs as records, objects behind pointers as maps from addresses, and one
  record \<open>sys\<close> for everything an operation can read or write. The \<^verbatim>\<open>list_node\<close> and
  \<^verbatim>\<open>list_head\<close> fields of the structs are not in their records: they are the nodes of the
  shared link store \<open>lists\<close>, one constructor of \<open>lnode\<close> per field.
\<close>

section \<open>Enums\<close>

datatype lwt_info_t =
    LWT_INFO_NTHD_RUNNABLE | LWT_INFO_NTHD_BLOCKED | LWT_INFO_NTHD_ZOMBIES
  | LWT_INFO_NTHD_RECYCLE | LWT_INFO_NSNDING | LWT_INFO_NRCVING | LWT_INFO_NJOINING

datatype lwt_status = LWT_RUNNABLE | LWT_BLOCKED | LWT_ZOMBIES | LWT_RUNNING

datatype block_status = BLOCKED_RECEIVING | BLOCKED_SENDING

datatype chan_type = LOCAL_CHAN | GLOBAL_CHAN

section \<open>Structs\<close>

text \<open>
  Where a saved context resumes: at the trampoline for a thread that never ran, behind
  the dispatch it was suspended in otherwise.
\<close>

datatype code_label = Trampoline | RetDispatch

record lwt_context =
  ip :: code_label
  sp :: nat

record lwt_channel =
  chan_id :: int
  chan_ty :: chan_type
  sq_occupied :: int
  snd_cnt :: int
  receiver :: ptr
  buffer :: buffer_ring
  chan_size :: int
  rb_occupied :: int
  cgroup :: ptr
  ready :: int
  mark :: ptr

record lwt_thread =
  lwt_id :: int
  tstate :: lwt_status
  block_for :: block_status
  parent :: ptr
  message_data :: ptr
  init_sp :: nat
  ctx :: lwt_context
  chl :: ptr
  now_rcving :: ptr
  nojoin :: int
  owner_kthd :: nat

record lwt_cgrp =
  owner :: ptr
  blocked :: int

record kthd_info =
  block_counter :: int
  zombie_counter :: int
  nrcving :: int
  nsnding :: int
  polling_flag :: int
  current_thread :: ptr
  main_thread :: ptr
  wq_occupied :: int

definition MAX_STACK_SIZE :: nat where "MAX_STACK_SIZE = 100 * 1024 * 8"
definition MAX_KTHD_NUM :: nat where "MAX_KTHD_NUM = 35"
definition LWT_NOJOIN :: int where "LWT_NOJOIN = 1"

text \<open>Sizes of the structs on the 32-bit target (all members are 4 bytes wide).\<close>

definition sizeof_lwt_t :: nat where "sizeof_lwt_t = 56"
definition sizeof_lwt_channel :: nat where "sizeof_lwt_channel = 72"
definition sizeof_lwt_cgrp :: nat where "sizeof_lwt_cgrp = 16"
definition sizeof_lwt_wrap :: nat where "sizeof_lwt_wrap = 12"
definition sizeof_uint :: nat where "sizeof_uint = 4"

section \<open>List nodes\<close>

datatype lnode =
    ThdNode ptr     \<comment> \<open>\<^verbatim>\<open>list_node\<close> of the thread at an address\<close>
  | ChanNode ptr    \<comment> \<open>\<^verbatim>\<open>list_node\<close> of a channel\<close>
  | WrapNode ptr    \<comment> \<open>\<^verbatim>\<open>list_node\<close> of a \<^verbatim>\<open>struct __lwt_wrap\<close>\<close>
  | SendQ ptr       \<comment> \<open>\<^verbatim>\<open>sender_queue\<close> of a channel\<close>
  | GrpQ ptr        \<comment> \<open>\<^verbatim>\<open>chl_list\<close> of a channel group\<close>
  | RunQ nat        \<comment> \<open>\<^verbatim>\<open>run_queue\<close> of a kernel thread\<close>
  | RecQ nat        \<comment> \<open>\<^verbatim>\<open>recycle_queue\<close>\<close>
  | WakeQ nat       \<comment> \<open>\<^verbatim>\<open>wakeup_queue\<close>\<close>

text \<open>
  The macro \<^verbatim>\<open>container\<close>: from a list node back to its struct. Applied to a list head it
  yields a pointer to no object of the wanted type, which is a fault when followed.
\<close>

definition thd_of :: "lnode \<Rightarrow> ptr res" where
  "thd_of n = (case n of ThdNode t \<Rightarrow> Inr t | _ \<Rightarrow> Inl WildPtr)"

definition chan_of :: "lnode \<Rightarrow> ptr res" where
  "chan_of n = (case n of ChanNode c \<Rightarrow> Inr c | _ \<Rightarrow> Inl WildPtr)"

section \<open>Values and suspended calls\<close>

text \<open>What an API function returns.\<close>

datatype val = VInt int | VPtr ptr | VVoid

text \<open>
  The C stack of a thread, as far as the library is concerned: the library calls that
  wait for a call below them to return. \<open>__lwt_dispatch\<close> leaves them in place and
  switches to another stack; when the thread is dispatched to again they continue.
\<close>

datatype frame =
    KSnd              \<comment> \<open>in \<^verbatim>\<open>lwt_snd\<close>, after \<^verbatim>\<open>__block_thread\<close>\<close>
  | KRcv ptr          \<comment> \<open>in \<^verbatim>\<open>lwt_rcv\<close>, after \<^verbatim>\<open>__block_thread\<close>, with \<^verbatim>\<open>current_thread\<close>\<close>
  | KRcvChan          \<comment> \<open>in \<^verbatim>\<open>lwt_rcv_chan\<close>, after \<^verbatim>\<open>lwt_rcv\<close>\<close>
  | KRcvThd           \<comment> \<open>in \<^verbatim>\<open>lwt_rcv_thd\<close>, after \<^verbatim>\<open>lwt_rcv\<close>\<close>
  | KSndThd           \<comment> \<open>in \<^verbatim>\<open>lwt_snd_thd\<close>, after \<^verbatim>\<open>lwt_snd\<close>\<close>
  | KSndChan          \<comment> \<open>in \<^verbatim>\<open>lwt_snd_chan\<close>, after \<^verbatim>\<open>lwt_snd\<close>\<close>
  | KRet val          \<comment> \<open>return a value computed before a call of \<^verbatim>\<open>lwt_yield\<close>\<close>
  | KJoin ptr         \<comment> \<open>in \<^verbatim>\<open>lwt_join\<close>, after \<^verbatim>\<open>lwt_rcv\<close>, with \<^verbatim>\<open>thread_to_wait\<close>\<close>
  | KDie ptr          \<comment> \<open>in \<^verbatim>\<open>lwt_die\<close>, after \<^verbatim>\<open>lwt_snd\<close>, with \<^verbatim>\<open>current_thread\<close>\<close>
  | KSyncRcv ptr ptr  \<comment> \<open>in the loop of \<^verbatim>\<open>lwt_sync_rcv\<close>, with \<^verbatim>\<open>chan\<close> and \<^verbatim>\<open>current_thread\<close>\<close>
  | KCgrpWait ptr ptr \<comment> \<open>in the loop of \<^verbatim>\<open>lwt_cgrp_wait\<close>, with \<^verbatim>\<open>cgrp\<close> and \<^verbatim>\<open>current_thread\<close>\<close>

section \<open>The system state\<close>

text \<open>
  \<open>raw_thd\<close>, \<open>raw_chan\<close> and \<open>raw_word\<close> are what freshly allocated memory holds before
  the code initialises it: \<^verbatim>\<open>umalloc\<close> does not clear memory, and not every field is
  initialised.
\<close>

record sys =
  lists :: "lnode links"
  thds :: "ptr \<rightharpoonup> lwt_thread"
  chans :: "ptr \<rightharpoonup> lwt_channel"
  grps :: "ptr \<rightharpoonup> lwt_cgrp"
  wraps :: "ptr \<rightharpoonup> ptr"
  kthds :: "nat \<Rightarrow> kthd_info"
  current_kthd :: nat
  lwt_counter :: int
  chan_counter :: int
  mem :: umem
  stackw :: "ptr \<Rightarrow> ptr"
  frames :: "ptr \<Rightarrow> frame list"
  ufn :: "ptr \<Rightarrow> (ptr \<times> ptr) option"   \<comment> \<open>function and argument a started thread runs\<close>
  raw_thd :: "ptr \<Rightarrow> lwt_thread"
  raw_chan :: "ptr \<Rightarrow> lwt_channel"
  raw_word :: "ptr \<Rightarrow> ptr"

text \<open>Following pointers.\<close>

definition thd :: "ptr \<Rightarrow> sys \<Rightarrow> lwt_thread res" where
  "thd t s = (if t = 0 then Inl NullDeref else of_opt WildPtr (thds s t))"

definition chan :: "ptr \<Rightarrow> sys \<Rightarrow> lwt_channel res" where
  "chan c s = (if c = 0 then Inl NullDeref else of_opt WildPtr (chans s c))"

definition grp :: "ptr \<Rightarrow> sys \<Rightarrow> lwt_cgrp res" where
  "grp g s = (if g = 0 then Inl NullDeref else of_opt WildPtr (grps s g))"

definition upd_thd :: "ptr \<Rightarrow> (lwt_thread \<Rightarrow> lwt_thread) \<Rightarrow> sys \<Rightarrow> sys res" where
  "upd_thd t f s = rbind (thd t s) (\<lambda>x. Inr (s\<lparr>thds := (thds s)(t \<mapsto> f x)\<rparr>))"

definition upd_chan :: "ptr \<Rightarrow> (lwt_channel \<Rightarrow> lwt_channel) \<Rightarrow> sys \<Rightarrow> sys res" where
  "upd_chan c f s = rbind (chan c s) (\<lambda>x. Inr (s\<lparr>chans := (chans s)(c \<mapsto> f x)\<rparr>))"

definition upd_grp :: "ptr \<Rightarrow> (lwt_cgrp \<Rightarrow> lwt_cgrp) \<Rightarrow> sys \<Rightarrow> sys res" where
  "upd_grp g f s = rbind (grp g s) (\<lambda>x. Inr (s\<lparr>grps := (grps s)(g \<mapsto> f x)\<rparr>))"

text \<open>The current kernel thread's record.\<close>

definition kthd_do :: "nat \<Rightarrow> (kthd_info \<Rightarrow> kthd_info) \<Rightarrow> sys \<Rightarrow> sys" where
  [simp]: "kthd_do k f s = s\<lparr>kthds := (kthds s)(k := f (kthds s k))\<rparr>"

text \<open>\<^verbatim>\<open>list_rem_d\<close>, \<^verbatim>\<open>list_head_add_d\<close>, \<^verbatim>\<open>list_head_append_d\<close> on the link store.\<close>

definition rem_node :: "lnode \<Rightarrow> sys \<Rightarrow> sys" where
  [simp]: "rem_node n s = s\<lparr>lists := list_ll_rem n (lists s)\<rparr>"

definition add_node :: "lnode \<Rightarrow> lnode \<Rightarrow> sys \<Rightarrow> sys" where
  [simp]: "add_node h n s = s\<lparr>lists := list_head_add h n (lists s)\<rparr>"

definition append_node :: "lnode \<Rightarrow> lnode \<Rightarrow> sys \<Rightarrow> sys" where
  [simp]: "append_node h n s = s\<lparr>lists := list_head_append h n (lists s)\<rparr>"

text \<open>Calls of the allocator.\<close>

definition malloc :: "nat \<Rightarrow> sys \<Rightarrow> (ptr \<times> sys) res" where
  "malloc n s = (case umalloc n (mem s) of
     None \<Rightarrow> Inl Diverges | Some (p, m) \<Rightarrow> Inr (p, s\<lparr>mem := m\<rparr>))"

definition mfree :: "ptr \<Rightarrow> sys \<Rightarrow> sys res" where
  "mfree p s = rbind (of_opt Diverges (ufree p (mem s))) (\<lambda>m. Inr (s\<lparr>mem := m\<rparr>))"

section \<open>Reading results of the accessors\<close>

lemma thd_eq_Inr [simp]: "thd t s = Inr x \<longleftrightarrow> t \<noteq> 0 \<and> thds s t = Some x"
  by (auto simp: thd_def)

lemma chan_eq_Inr [simp]: "chan c s = Inr x \<longleftrightarrow> c \<noteq> 0 \<and> chans s c = Some x"
  by (auto simp: chan_def)

lemma grp_eq_Inr [simp]: "grp g s = Inr x \<longleftrightarrow> g \<noteq> 0 \<and> grps s g = Some x"
  by (auto simp: grp_def)

lemma upd_thd_eq_Inr [simp]:
  "upd_thd t f s = Inr s' \<longleftrightarrow>
   (\<exists>x. t \<noteq> 0 \<and> thds s t = Some x \<and> s' = s\<lparr>thds := (thds s)(t \<mapsto> f x)\<rparr>)"
  by (auto simp: upd_thd_def rbind_eq_Inr)

lemma upd_chan_eq_Inr [simp]:
  "upd_chan c f s = Inr s' \<longleftrightarrow>
   (\<exists>x. c \<noteq> 0 \<and> chans s c = Some x \<and> s' = s\<lparr>chans := (chans s)(c \<mapsto> f x)\<rparr>)"
  by (auto simp: upd_chan_def rbind_eq_Inr)

lemma upd_grp_eq_Inr [simp]:
  "upd_grp g f s = Inr s' \<longleftrightarrow>
   (\<exists>x. g \<noteq> 0 \<and> grps s g = Some x \<and> s' = s\<lparr>grps := (grps s)(g \<mapsto> f x)\<rparr>)"
  by (auto simp: upd_grp_def rbind_eq_Inr)

lemma thd_of_eq_Inr [simp]: "thd_of n = Inr t \<longleftrightarrow> n = ThdNode t"
  by (auto simp: thd_of_def split: lnode.splits)

lemma chan_of_eq_Inr [simp]: "chan_of n = Inr c \<longleftrightarrow> n = ChanNode c"
  by (auto simp: chan_of_def split: lnode.splits)

lemma thd_of_ThdNode [simp]: "thd_of (ThdNode t) = Inr t"
  by simp

lemma chan_of_ChanNode [simp]: "chan_of (ChanNode c) = Inr c"
  by simp

lemma malloc_eq_Inr:
  "malloc n s = Inr (p, s') \<longleftrightarrow> (\<exists>m. umalloc n (mem s) = Some (p, m) \<and> s' = s\<lparr>mem := m\<rparr>)"
  by (auto simp: malloc_def split: option.splits)

lemma mfree_eq_Inr:
  "mfree p s = Inr s' \<longleftrightarrow> (\<exists>m. ufree p (mem s) = Some m \<and> s' = s\<lparr>mem := m\<rparr>)"
  by (auto simp: mfree_def rbind_eq_Inr)

text \<open>Following a live pointer.\<close>

lemma thd_live [simp]: "t \<noteq> 0 \<Longrightarrow> thds s t = Some x \<Longrightarrow> thd t s = Inr x"
  by simp

lemma chan_live [simp]: "c \<noteq> 0 \<Longrightarrow> chans s c = Some x \<Longrightarrow> chan c s = Inr x"
  by simp

lemma grp_live [simp]: "g \<noteq> 0 \<Longrightarrow> grps s g = Some x \<Longrightarrow> grp g s = Inr x"
  by simp

lemma upd_thd_live [simp]:
  "t \<noteq> 0 \<Longrightarrow> thds s t = Some x \<Longrightarrow> upd_thd t f s = Inr (s\<lparr>thds := (thds s)(t \<mapsto> f x)\<rparr>)"
  by simp

lemma upd_chan_live [simp]:
  "c \<noteq> 0 \<Longrightarrow> chans s c = Some x \<Longrightarrow> upd_chan c f s = Inr (s\<lparr>chans := (chans s)(c \<mapsto> f x)\<rparr>)"
  by simp

lemma upd_grp_live [simp]:
  "g \<noteq> 0 \<Longrightarrow> grps s g = Some x \<Longrightarrow> upd_grp g f s = Inr (s\<lparr>grps := (grps s)(g \<mapsto> f x)\<rparr>)"
  by simp

end
