(* ===== verification/Lwt_Sched.thy ===== *)
theory Lwt_Sched
  imports Lwt_State
begin

text \<open>
  Scheduling of lightweight threads (\<^verbatim>\<open>lwt.c\<close>): the run queue of the current kernel
  thread, the switch to its first thread, and \<^verbatim>\<open>lwt_yield\<close>. An operation returns a value
  together with the state; after a switch the value goes to the call that the \<^emph>\<open>new\<close>
  current thread is suspended in, i.e.\ to the top of its \<open>frames\<close>.
\<close>

section \<open>Current thread and queues\<close>

definition lwt_current :: "sys \<Rightarrow> ptr" where
  "lwt_current s = current_thread (kthds s (current_kthd s))"

definition current_run_queue :: "sys \<Rightarrow> lnode" where
  "current_run_queue s = RunQ (current_kthd s)"

definition current_recycle_queue :: "sys \<Rightarrow> lnode" where
  "current_recycle_queue s = RecQ (current_kthd s)"

text \<open>The run queue of the kernel thread that owns the \<^emph>\<open>current\<close> thread.\<close>

definition owner_run_queue :: "sys \<Rightarrow> lnode res" where
  "owner_run_queue s = rbind (thd (lwt_current s) s) (\<lambda>t. Inr (RunQ (owner_kthd t)))"

definition push :: "frame \<Rightarrow> sys \<Rightarrow> sys" where
  "push k s = s\<lparr>frames := (frames s)(lwt_current s := k # frames s (lwt_current s))\<rparr>"

section \<open>Dispatch\<close>

text \<open>
  The stack of a thread that never ran holds what \<^verbatim>\<open>lwt_create\<close> put there: the trampoline
  finds a return-address slot at \<^verbatim>\<open>sp\<close>, its first argument (the function) above it and
  its second (the data) above that.
\<close>

definition trampoline_args :: "lwt_thread \<Rightarrow> sys \<Rightarrow> ptr \<times> ptr" where
  "trampoline_args t s = (stackw s (sp (ctx t) + 4), stackw s (sp (ctx t) + 8))"

definition lwt_dispatch :: "ptr \<Rightarrow> ptr \<Rightarrow> sys \<Rightarrow> (val \<times> sys) res" where
  "lwt_dispatch old new s =
     rbind (upd_thd old (\<lambda>t. t\<lparr>ctx := (ctx t)\<lparr>ip := RetDispatch\<rparr>\<rparr>) s) (\<lambda>s1.
     rbind (thd new s1) (\<lambda>n.
       case ip (ctx n) of
         RetDispatch \<Rightarrow> Inr (VInt 0, s1)
       | Trampoline \<Rightarrow> Inr (VVoid, s1\<lparr>frames := (frames s1)(new := []),
                                   ufn := (ufn s1)(new := Some (trampoline_args n s1))\<rparr>)))"

section \<open>\<^verbatim>\<open>__lwt_schedule\<close>\<close>

text \<open>
  The polling branch. Its test compares the thread \<^emph>\<open>pointer\<close> with \<^verbatim>\<open>LWT_BLOCKED\<close>
  (the number 1); the loop frees the list cell it stands on and then reads its
  \<^verbatim>\<open>next\<close> field, so with the flag set and a cell queued the branch never completes.
\<close>

definition poll_wakeups :: "sys \<Rightarrow> sys res" where
  "poll_wakeups s =
     (let k = current_kthd s; n = list_head_first (WakeQ k) (lists s) in
      if polling_flag (kthds s k) = 0 then Inr s
      else if n = WakeQ k then Inr s
      else case n of
        WrapNode w \<Rightarrow> rbind (of_opt WildPtr (wraps s w)) (\<lambda>t.
          if t = 1 then Inl WildPtr else Inl UseAfterFree)
      | _ \<Rightarrow> Inl WildPtr)"

definition lwt_schedule :: "sys \<Rightarrow> (val \<times> sys) res" where
  "lwt_schedule s =
     (let old_thread = lwt_current s in
      rbind (thd_of (list_head_first (current_run_queue s) (lists s))) (\<lambda>new_thread.
      rbind (poll_wakeups s) (\<lambda>s1.
      rbind (upd_thd new_thread (\<lambda>t. t\<lparr>tstate := LWT_RUNNING\<rparr>) s1) (\<lambda>s2.
        lwt_dispatch old_thread new_thread
          (kthd_do (current_kthd s2) (\<lambda>k. k\<lparr>current_thread := new_thread\<rparr>) s2)))))"

section \<open>\<^verbatim>\<open>lwt_yield\<close>\<close>

definition may_run :: "lwt_thread \<Rightarrow> bool" where
  "may_run t \<longleftrightarrow> tstate t = LWT_RUNNABLE \<or> tstate t = LWT_RUNNING"

definition lwt_yield :: "ptr \<Rightarrow> sys \<Rightarrow> (val \<times> sys) res" where
  "lwt_yield yield_to s =
     (let cur = lwt_current s in
      if yield_to = cur then Inr (VInt 0, s)
      else if yield_to \<noteq> 0 then
        rbind (thd yield_to s) (\<lambda>y.
        if \<not> may_run y then Inr (VInt 0, s)
        else let s1 = rem_node (ThdNode yield_to) s in
          rbind (owner_run_queue s1) (\<lambda>q.
            lwt_schedule (append_node q (ThdNode yield_to) s1)))
      else
        rbind (thd cur s) (\<lambda>c.
        if may_run c then
          let s1 = rem_node (ThdNode cur) s in
          rbind (owner_run_queue s1) (\<lambda>q.
            lwt_schedule (add_node q (ThdNode cur) s1))
        else lwt_schedule s))"

end
