(* ===== verification/Lwt_Chan.thy ===== *)
theory Lwt_Chan
  imports Lwt_Sched
begin

text \<open>
  Channels (\<^verbatim>\<open>lwt_chl.c\<close>): creation and release, blocking and resuming a thread, and the
  send and receive operations for local and global channels.
\<close>

section \<open>Creation, release, marks\<close>

text \<open>
  \<^verbatim>\<open>__init_chan\<close> leaves \<^verbatim>\<open>ready\<close>, \<^verbatim>\<open>cgroup\<close>, \<^verbatim>\<open>mark\<close>, \<^verbatim>\<open>rb_occupied\<close>, \<^verbatim>\<open>sq_occupied\<close>,
  \<^verbatim>\<open>buffer.count\<close> and \<^verbatim>\<open>list_node\<close> as the allocator returned them.
\<close>

definition init_chan :: "ptr \<Rightarrow> int \<Rightarrow> sys \<Rightarrow> sys res" where
  "init_chan c sz s =
     rbind (guard (c \<noteq> 0) NullDeref) (\<lambda>_.
     let nbytes = nat ((sz * int sizeof_uint) mod 2 ^ 32) in
     rbind (malloc nbytes s) (\<lambda>(b, s1).
     let raw = raw_chan s1 c;
         buf = (buffer raw)\<lparr>data_buffer := b, tail := 0, head := 0,
                 words := map (\<lambda>i. raw_word s1 (b + sizeof_uint * i)) [0..<nbytes div sizeof_uint]\<rparr>;
         ch = raw\<lparr>chan_size := sz, buffer := buf, chan_ty := LOCAL_CHAN,
                 receiver := lwt_current s1, snd_cnt := 0, chan_id := chan_counter s1\<rparr>
     in Inr (s1\<lparr>chans := (chans s1)(c \<mapsto> ch), chan_counter := chan_counter s1 + 1,
              lists := list_head_init (SendQ c) (lists s1)\<rparr>)))"

definition lwt_chan :: "int \<Rightarrow> sys \<Rightarrow> (ptr \<times> sys) res" where
  "lwt_chan sz s =
     rbind (malloc sizeof_lwt_channel s) (\<lambda>(c, s1).
     rbind (init_chan c sz s1) (\<lambda>s2. Inr (c, s2)))"

definition set_chan_type :: "ptr \<Rightarrow> chan_type \<Rightarrow> sys \<Rightarrow> sys res" where
  "set_chan_type c ty s = upd_chan c (\<lambda>ch. ch\<lparr>chan_ty := ty\<rparr>) s"

definition free_chan :: "ptr \<Rightarrow> sys \<Rightarrow> sys res" where
  "free_chan c s =
     rbind (chan c s) (\<lambda>ch.
     rbind (mfree c s) (\<lambda>s1.
       Inr (s1\<lparr>chans := (chans s1)(c := None), raw_chan := (raw_chan s1)(c := ch)\<rparr>)))"

definition lwt_chan_deref :: "ptr \<Rightarrow> sys \<Rightarrow> sys res" where
  "lwt_chan_deref c s =
     rbind (chan c s) (\<lambda>ch0.
     rbind (upd_chan c (\<lambda>ch. if receiver ch0 = lwt_current s then ch\<lparr>receiver := 0\<rparr>
                             else ch\<lparr>snd_cnt := snd_cnt ch - 1\<rparr>) s) (\<lambda>s1.
     rbind (chan c s1) (\<lambda>ch.
       if snd_cnt ch = 0 \<and> receiver ch = 0 then free_chan c s1 else Inr s1)))"

definition lwt_chan_mark_set :: "ptr \<Rightarrow> ptr \<Rightarrow> sys \<Rightarrow> sys res" where
  "lwt_chan_mark_set c m s = upd_chan c (\<lambda>ch. ch\<lparr>mark := m\<rparr>) s"

definition lwt_chan_mark_get :: "ptr \<Rightarrow> sys \<Rightarrow> ptr res" where
  "lwt_chan_mark_get c s = rbind (chan c s) (\<lambda>ch. Inr (mark ch))"

section \<open>Blocking and resuming\<close>

definition block_thread :: "ptr \<Rightarrow> block_status \<Rightarrow> ptr \<Rightarrow> sys \<Rightarrow> (val \<times> sys) res" where
  "block_thread t why c s =
     (let k = current_kthd s;
          s1 = rem_node (ThdNode t) s;
          s2 = (if why = BLOCKED_RECEIVING
                then kthd_do k (\<lambda>i. i\<lparr>nrcving := nrcving i + 1\<rparr>) s1
                else kthd_do k (\<lambda>i. i\<lparr>nsnding := nsnding i + 1\<rparr>) (add_node (SendQ c) (ThdNode t) s1))
      in rbind (upd_thd t (\<lambda>x. x\<lparr>tstate := LWT_BLOCKED, block_for := why\<rparr>) s2) (\<lambda>s3.
           lwt_yield 0 (kthd_do k (\<lambda>i. i\<lparr>block_counter := block_counter i + 1\<rparr>) s3)))"

definition resume_thread :: "ptr \<Rightarrow> sys \<Rightarrow> sys res" where
  "resume_thread t s =
     rbind (thd t s) (\<lambda>x.
     let k = current_kthd s;
         s1 = kthd_do k (\<lambda>i. i\<lparr>nrcving := nrcving i - (if block_for x = BLOCKED_RECEIVING then 1 else 0),
                               nsnding := nsnding i - (if block_for x = BLOCKED_SENDING then 1 else 0)\<rparr>) s
     in rbind (upd_thd t (\<lambda>x. x\<lparr>tstate := LWT_RUNNABLE\<rparr>) (rem_node (ThdNode t) s1)) (\<lambda>s2.
        let s3 = kthd_do k (\<lambda>i. i\<lparr>block_counter := block_counter i - 1\<rparr>) s2 in
        rbind (owner_run_queue s3) (\<lambda>q. Inr (append_node q (ThdNode t) s3))))"

section \<open>Sending\<close>

text \<open>
  \<^verbatim>\<open>cas_lock\<close> spins until the lock word is 0. Library calls are single steps of this
  model, so a word found set stays set for ever (the interleaved spin lock is a component
  of its own).
\<close>

definition cas_lock :: "int \<Rightarrow> int res" where
  "cas_lock v = (if v = 0 then Inr 1 else Inl Diverges)"

definition lwt_sync_snd :: "ptr \<Rightarrow> ptr \<Rightarrow> sys \<Rightarrow> (val \<times> sys) res" where
  "lwt_sync_snd c data s =
     rbind (chan c s) (\<lambda>ch.
     rbind (thd (receiver ch) s) (\<lambda>r.
     let remote = owner_kthd r in
     rbind (cas_lock (rb_occupied ch)) (\<lambda>l.
     rbind (ring_put (chan_size ch) data (buffer ch)) (\<lambda>b.
     rbind (upd_chan c (\<lambda>ch. ch\<lparr>buffer := b, rb_occupied := 0\<rparr>) s) (\<lambda>s1.
     rbind (cas_lock (wq_occupied (kthds s1 remote))) (\<lambda>l.
     rbind (malloc sizeof_lwt_wrap s1) (\<lambda>(lw, s2).
     rbind (guard (lw \<noteq> 0) NullDeref) (\<lambda>_.
       Inr (VInt 0,
         kthd_do remote (\<lambda>i. i\<lparr>wq_occupied := 0\<rparr>)
           (add_node (WakeQ remote) (WrapNode lw)
             (s2\<lparr>wraps := (wraps s2)(lw \<mapsto> receiver ch)\<rparr>)))))))))))"

definition receiver_waits :: "lwt_channel \<Rightarrow> ptr \<Rightarrow> lwt_thread \<Rightarrow> bool" where
  "receiver_waits ch c r \<longleftrightarrow>
     tstate r = LWT_BLOCKED \<and> block_for r = BLOCKED_RECEIVING \<and> now_rcving r = c"

definition wake_group :: "ptr \<Rightarrow> sys \<Rightarrow> sys res" where
  "wake_group c s =
     rbind (chan c s) (\<lambda>ch.
     if cgroup ch = 0 then Inr s
     else rbind (grp (cgroup ch) s) (\<lambda>g.
       if blocked g = 0 then Inr s else resume_thread (owner g) s))"

definition lwt_snd :: "ptr \<Rightarrow> ptr \<Rightarrow> sys \<Rightarrow> (val \<times> sys) res" where
  "lwt_snd c data s =
     rbind (chan c s) (\<lambda>ch.
     if chan_ty ch = GLOBAL_CHAN then
       rbind (set_chan_type c GLOBAL_CHAN s) (lwt_sync_snd c data)
     else if receiver ch = 0 then Inr (VInt (- 1), s)
     else
       rbind (thd (receiver ch) s) (\<lambda>r.
       if receiver_waits ch c r then
         rbind (upd_thd (receiver ch) (\<lambda>x. x\<lparr>message_data := data\<rparr>) s) (\<lambda>s1.
         rbind (resume_thread (receiver ch) s1) (\<lambda>s2. Inr (VInt 0, s2)))
       else
         rbind (upd_chan c (\<lambda>ch. ch\<lparr>ready := 1\<rparr>) s) (\<lambda>s1.
         rbind (wake_group c s1) (\<lambda>s2.
         if ring_not_full (chan_size ch) (buffer ch) then
           rbind (ring_put (chan_size ch) data (buffer ch)) (\<lambda>b.
           rbind (upd_chan c (\<lambda>ch. ch\<lparr>buffer := b\<rparr>) s2) (\<lambda>s3. Inr (VInt 0, s3)))
         else
           let cur = lwt_current s in
           rbind (upd_thd cur (\<lambda>x. x\<lparr>message_data := data\<rparr>) s2) (\<lambda>s3.
             block_thread cur BLOCKED_SENDING c (push KSnd s3))))))"

section \<open>Receiving\<close>

definition sync_rcv_loop :: "ptr \<Rightarrow> ptr \<Rightarrow> sys \<Rightarrow> (val \<times> sys) res" where
  "sync_rcv_loop c cur s =
     rbind (chan c s) (\<lambda>ch.
     if ring_nonempty (buffer ch) then
       rbind (ring_get (chan_size ch) (buffer ch)) (\<lambda>(result, b).
       rbind (upd_chan c (\<lambda>ch. ch\<lparr>buffer := b\<rparr>) s) (\<lambda>s1. Inr (VPtr result, s1)))
     else
       let k = current_kthd s in
       rbind (upd_thd cur (\<lambda>x. x\<lparr>now_rcving := c\<rparr>) s) (\<lambda>s1.
       let s2 = kthd_do k (\<lambda>i. i\<lparr>nrcving := nrcving i + 1\<rparr>) (rem_node (ThdNode cur) s1) in
       rbind (upd_thd cur (\<lambda>x. x\<lparr>tstate := LWT_BLOCKED, block_for := BLOCKED_RECEIVING\<rparr>) s2) (\<lambda>s3.
         lwt_yield 0 (push (KSyncRcv c cur)
           (kthd_do k (\<lambda>i. i\<lparr>block_counter := block_counter i + 1\<rparr>) s3)))))"

definition lwt_sync_rcv :: "ptr \<Rightarrow> sys \<Rightarrow> (val \<times> sys) res" where
  "lwt_sync_rcv c s =
     rbind (chan c s) (\<lambda>ch. rbind (thd (receiver ch) s) (\<lambda>r. sync_rcv_loop c (lwt_current s) s))"

text \<open>A freed slot is refilled from the first blocked sender.\<close>

definition refill :: "ptr \<Rightarrow> sys \<Rightarrow> sys res" where
  "refill c s =
     (if list_head_empty (SendQ c) (lists s) then Inr s
      else rbind (thd_of (list_head_first (SendQ c) (lists s))) (\<lambda>sender.
           rbind (resume_thread sender s) (\<lambda>s1.
           rbind (thd sender s1) (\<lambda>x.
           rbind (chan c s1) (\<lambda>ch.
           rbind (ring_put (chan_size ch) (message_data x) (buffer ch)) (\<lambda>b.
             upd_chan c (\<lambda>ch. ch\<lparr>buffer := b\<rparr>) s1))))))"

definition lwt_rcv :: "ptr \<Rightarrow> sys \<Rightarrow> (val \<times> sys) res" where
  "lwt_rcv c s =
     rbind (chan c s) (\<lambda>ch.
     if chan_ty ch = GLOBAL_CHAN then lwt_sync_rcv c s
     else if ring_nonempty (buffer ch) then
       rbind (ring_get (chan_size ch) (buffer ch)) (\<lambda>(result, b).
       rbind (upd_chan c (\<lambda>ch. ch\<lparr>buffer := b\<rparr>) s) (\<lambda>s1.
       rbind (refill c s1) (\<lambda>s2.
       rbind (upd_chan c (\<lambda>ch. ch\<lparr>ready := (if head (buffer ch) = tail (buffer ch) then 0 else 1)\<rparr>) s2)
         (\<lambda>s3. Inr (VPtr result, s3)))))
     else if \<not> list_head_empty (SendQ c) (lists s) then
       rbind (thd_of (list_head_first (SendQ c) (lists s))) (\<lambda>sender.
       rbind (thd sender s) (\<lambda>x.
       rbind (resume_thread sender s) (\<lambda>s1.
       rbind (upd_chan c (\<lambda>ch. ch\<lparr>ready := (if list_head_empty (SendQ c) (lists s1) then 0 else 1)\<rparr>) s1)
         (\<lambda>s2. Inr (VPtr (message_data x), s2)))))
     else
       let cur = lwt_current s in
       rbind (upd_thd cur (\<lambda>x. x\<lparr>now_rcving := c\<rparr>) s) (\<lambda>s1.
         block_thread cur BLOCKED_RECEIVING c (push (KRcv cur) s1)))"

text \<open>What \<^verbatim>\<open>lwt_rcv\<close> returns when it continues after having been blocked.\<close>

definition rcv_rest :: "ptr \<Rightarrow> sys \<Rightarrow> (val \<times> sys) res" where
  "rcv_rest t s = rbind (thd t s) (\<lambda>x. Inr (VPtr (message_data x), s))"

section \<open>Channels over channels\<close>

definition val_ptr :: "val \<Rightarrow> ptr" where
  "val_ptr v = (case v of VPtr p \<Rightarrow> p | VInt i \<Rightarrow> nat (i mod 2 ^ 32) | VVoid \<Rightarrow> 0)"

definition lwt_snd_chan :: "ptr \<Rightarrow> ptr \<Rightarrow> sys \<Rightarrow> (val \<times> sys) res" where
  "lwt_snd_chan through sending s = lwt_snd through sending (push KSndChan s)"

definition snd_chan_rest :: "val \<Rightarrow> sys \<Rightarrow> (val \<times> sys) res" where
  "snd_chan_rest v s = lwt_yield 0 (push (KRet v) s)"

definition lwt_rcv_chan :: "ptr \<Rightarrow> sys \<Rightarrow> (val \<times> sys) res" where
  "lwt_rcv_chan c s = lwt_rcv c (push KRcvChan s)"

definition rcv_chan_rest :: "val \<Rightarrow> sys \<Rightarrow> (val \<times> sys) res" where
  "rcv_chan_rest v s =
     (let rec = val_ptr v in
      if rec \<noteq> 0 then rbind (upd_chan rec (\<lambda>ch. ch\<lparr>snd_cnt := snd_cnt ch + 1\<rparr>) s) (\<lambda>s1. Inr (v, s1))
      else Inr (v, s))"

end
