(* ===== verification/Lwt_Thread.thy ===== *)
theory Lwt_Thread
  imports Lwt_Chan
begin

unbundle bit_operations_syntax

text \<open>
  Life of a thread (\<^verbatim>\<open>lwt.c\<close>): creation, with reuse of the control blocks and stacks of
  dead threads, death, and joining.
\<close>

section \<open>Creation\<close>

definition init_thread :: "ptr \<Rightarrow> nat \<Rightarrow> sys \<Rightarrow> sys res" where
  "init_thread t k s =
     rbind (upd_thd t (\<lambda>x. x\<lparr>lwt_id := lwt_counter s\<rparr>) s) (\<lambda>s1.
     rbind (upd_thd t (\<lambda>x. x\<lparr>tstate := LWT_RUNNING, parent := 0, message_data := 0\<rparr>)
              (s1\<lparr>lwt_counter := lwt_counter s1 + 1\<rparr>)) (\<lambda>s2.
     rbind (lwt_chan 0 s2) (\<lambda>(c, s3).
     rbind (upd_thd t (\<lambda>x. x\<lparr>chl := c\<rparr>) s3) (\<lambda>s4.
     rbind (upd_chan c (\<lambda>ch. ch\<lparr>snd_cnt := snd_cnt ch + 1\<rparr>) s4) (\<lambda>s5.
       upd_thd t (\<lambda>x. x\<lparr>nojoin := 0, owner_kthd := k\<rparr>) s5)))))"

text \<open>
  The control block and the initial stack pointer: those of the first thread of the
  recycle queue if there is one, new ones otherwise. (A stack at \<^verbatim>\<open>NULL\<close> faults at the
  first word written to it.)
\<close>

definition take_tcb :: "sys \<Rightarrow> (ptr \<times> nat \<times> sys) res" where
  "take_tcb s =
     (if \<not> list_head_empty (current_recycle_queue s) (lists s) then
        rbind (thd_of (list_head_first (current_recycle_queue s) (lists s))) (\<lambda>t.
        let s1 = rem_node (ThdNode t) s in
        rbind (thd t s1) (\<lambda>x. Inr (t, init_sp x, s1)))
      else
        rbind (malloc sizeof_lwt_t s) (\<lambda>(t, s1).
        rbind (malloc MAX_STACK_SIZE s1) (\<lambda>(stack, s2).
        rbind (guard (t \<noteq> 0) NullDeref) (\<lambda>_.
        rbind (guard (stack \<noteq> 0) WildPtr) (\<lambda>_.
        let top = stack + MAX_STACK_SIZE in
          Inr (t, top, s2\<lparr>thds := (thds s2)(t \<mapsto> (raw_thd s2 t)\<lparr>init_sp := top\<rparr>)\<rparr>))))))"

definition lwt_create :: "ptr \<Rightarrow> ptr \<Rightarrow> int \<Rightarrow> sys \<Rightarrow> (ptr \<times> sys) res" where
  "lwt_create fn data flags s =
     rbind (take_tcb s) (\<lambda>(t, sp0, s1).
     rbind (init_thread t (current_kthd s1) s1) (\<lambda>s2.
     rbind (upd_thd t (\<lambda>x. x\<lparr>parent := lwt_current s2\<rparr>) s2) (\<lambda>s3.
     let sp1 = sp0 - sizeof_uint; s4 = s3\<lparr>stackw := (stackw s3)(sp1 := data)\<rparr>;
         sp2 = sp1 - sizeof_uint; s5 = s4\<lparr>stackw := (stackw s4)(sp2 := fn)\<rparr>;
         sp3 = sp2 - sizeof_uint
     in rbind (upd_thd t (\<lambda>x. x\<lparr>ctx := \<lparr>ip = Trampoline, sp = sp3\<rparr>,
                                nojoin := (if flags AND LWT_NOJOIN \<noteq> 0 then 1 else nojoin x)\<rparr>) s5) (\<lambda>s6.
        Inr (t, add_node (current_run_queue s6) (ThdNode t) s6)))))"

definition lwt_create_chan :: "ptr \<Rightarrow> ptr \<Rightarrow> sys \<Rightarrow> (ptr \<times> sys) res" where
  "lwt_create_chan fn c s =
     rbind (lwt_create fn c 0 s) (\<lambda>(t, s1).
     rbind (upd_chan c (\<lambda>ch. ch\<lparr>snd_cnt := snd_cnt ch + 1\<rparr>) s1) (\<lambda>s2. Inr (t, s2)))"

section \<open>Death\<close>

definition lwt_die :: "ptr \<Rightarrow> sys \<Rightarrow> (val \<times> sys) res" where
  "lwt_die message s =
     (let cur = lwt_current s;
          s1 = kthd_do (current_kthd s) (\<lambda>i. i\<lparr>zombie_counter := zombie_counter i + 1\<rparr>) s
      in rbind (upd_thd cur (\<lambda>x. x\<lparr>message_data := message\<rparr>) s1) (\<lambda>s2.
         rbind (thd cur s2) (\<lambda>x.
           lwt_snd (chl x) message (push (KDie cur) s2))))"

text \<open>What is left of \<^verbatim>\<open>lwt_die\<close> when the last word has been sent.\<close>

definition die_rest :: "ptr \<Rightarrow> sys \<Rightarrow> (val \<times> sys) res" where
  "die_rest cur s =
     rbind (upd_thd cur (\<lambda>x. x\<lparr>tstate := LWT_ZOMBIES\<rparr>) s) (\<lambda>s1.
     let s2 = kthd_do (current_kthd s1) (\<lambda>i. i\<lparr>zombie_counter := zombie_counter i - 1\<rparr>) s1;
         s3 = rem_node (ThdNode cur) s2
     in lwt_schedule (add_node (current_recycle_queue s3) (ThdNode cur) s3))"

text \<open>The trampoline hands the value returned by the thread's function to \<^verbatim>\<open>lwt_die\<close>.\<close>

definition trampoline_return :: "ptr \<Rightarrow> sys \<Rightarrow> (val \<times> sys) res" where
  "trampoline_return return_message s = lwt_die return_message s"

section \<open>Joining\<close>

definition lwt_join :: "ptr \<Rightarrow> sys \<Rightarrow> (val \<times> sys) res" where
  "lwt_join t s =
     rbind (thd t s) (\<lambda>x.
     if lwt_current s \<noteq> parent x \<or> nojoin x \<noteq> 0 then Inr (VPtr 0, s)
     else lwt_rcv (chl x) (push (KJoin t) s))"

definition join_rest :: "ptr \<Rightarrow> val \<Rightarrow> sys \<Rightarrow> (val \<times> sys) res" where
  "join_rest t v s = lwt_yield t (push (KRet v) s)"

definition get_lwt_id :: "ptr \<Rightarrow> sys \<Rightarrow> int res" where
  "get_lwt_id t s = rbind (thd t s) (\<lambda>x. Inr (lwt_id x))"

end
