(* ===== verification/Lwt_Kthd.thy ===== *)
theory Lwt_Kthd
  imports Lwt_Thread
begin

text \<open>
  The kernel-thread side of the library: initialisation of a kernel thread's record and
  main thread (\<^verbatim>\<open>lwt.c\<close>), creation of kernel threads, migration of threads over channels,
  and the status queries (\<^verbatim>\<open>lwt_chl.c\<close>).
\<close>

section \<open>Initialisation\<close>

definition init_kthd :: "nat \<Rightarrow> sys \<Rightarrow> sys" where
  "init_kthd k s =
     (let s1 = kthd_do k (\<lambda>i. i\<lparr>block_counter := 0, zombie_counter := 0, nrcving := 0, nsnding := 0,
                              wq_occupied := 0, polling_flag := 0\<rparr>) s
      in s1\<lparr>lists := list_head_init (WakeQ k) (list_head_init (RecQ k)
                      (list_head_init (RunQ k) (lists s1)))\<rparr>)"

text \<open>
  \<^verbatim>\<open>__initiate\<close> indexes the array \<^verbatim>\<open>kthds\<close> with the kernel's thread id unchecked.
\<close>

definition initiate :: "nat \<Rightarrow> sys \<Rightarrow> sys res" where
  "initiate k s =
     rbind (guard (k < MAX_KTHD_NUM) OutOfBounds) (\<lambda>_.
     rbind (malloc sizeof_lwt_t (init_kthd k s)) (\<lambda>(t, s1).
     rbind (guard (t \<noteq> 0) NullDeref) (\<lambda>_.
     let s2 = kthd_do k (\<lambda>i. i\<lparr>current_thread := t\<rparr>) (s1\<lparr>thds := (thds s1)(t \<mapsto> raw_thd s1 t)\<rparr>) in
     rbind (init_thread t k s2) (\<lambda>s3.
     rbind (upd_thd t (\<lambda>x. x\<lparr>tstate := LWT_RUNNING\<rparr>) s3) (\<lambda>s4.
     let s5 = kthd_do k (\<lambda>i. i\<lparr>main_thread := current_thread i\<rparr>) s4 in
       Inr (append_node (RunQ k) (ThdNode t) s5))))))"

text \<open>
  \<^verbatim>\<open>lwt_kthd_create\<close>, from the point where \<^verbatim>\<open>sl_thd_alloc\<close> has returned: \<open>kthd\<close> is the
  thread id of the new kernel thread, \<open>None\<close> if the allocation failed (the code follows
  the pointer unchecked). The function and its argument are left in a block of memory for
  the new kernel thread to take.
\<close>

definition func_param_size :: nat where "func_param_size = 8"

definition lwt_kthd_create :: "ptr \<Rightarrow> ptr \<Rightarrow> nat option \<Rightarrow> sys \<Rightarrow> (ptr \<times> sys) res" where
  "lwt_kthd_create fn c kthd s =
     rbind (malloc func_param_size s) (\<lambda>(fp, s1).
     rbind (guard (fp \<noteq> 0) NullDeref) (\<lambda>_.
     let s2 = s1\<lparr>stackw := (stackw s1)(fp := fn, fp + sizeof_uint := c)\<rparr> in
     rbind (of_opt NullDeref kthd) (\<lambda>k.
     rbind (initiate k s2) (\<lambda>s3. Inr (fp, s3)))))"

text \<open>What \<^verbatim>\<open>lwt_kthd_trampline\<close> finds there when the kernel thread starts.\<close>

definition func_param :: "ptr \<Rightarrow> sys \<Rightarrow> ptr \<times> ptr" where
  "func_param fp s = (stackw s fp, stackw s (fp + sizeof_uint))"

section \<open>Migration of threads\<close>

definition lwt_snd_thd :: "ptr \<Rightarrow> ptr \<Rightarrow> sys \<Rightarrow> (val \<times> sys) res" where
  "lwt_snd_thd c sending s =
     rbind (guard (lwt_current s \<noteq> sending) AssertFailed) (\<lambda>_.
       lwt_snd c sending (push KSndThd s))"

definition lwt_rcv_thd :: "ptr \<Rightarrow> sys \<Rightarrow> (val \<times> sys) res" where
  "lwt_rcv_thd c s = lwt_rcv c (push KRcvThd s)"

definition rcv_thd_rest :: "val \<Rightarrow> sys \<Rightarrow> (val \<times> sys) res" where
  "rcv_thd_rest v s =
     (let t = val_ptr v in
      rbind (upd_thd t (\<lambda>x. x\<lparr>owner_kthd := current_kthd s\<rparr>) s) (\<lambda>s1.
      rbind (thd t s1) (\<lambda>x.
      if tstate x = LWT_RUNNING then Inr (VPtr t, s1)
      else if tstate x = LWT_RUNNABLE then
        let s2 = rem_node (ThdNode t) s1 in
        rbind (owner_run_queue s2) (\<lambda>q. Inr (VPtr t, append_node q (ThdNode t) s2))
      else Inr (VPtr t, s1))))"

section \<open>Status\<close>

partial_function (option) queue_size_loop :: "'a links \<Rightarrow> 'a \<Rightarrow> 'a \<Rightarrow> int \<Rightarrow> int option" where
  "queue_size_loop L lh it cnt =
     (if it \<noteq> lh then queue_size_loop L lh (nx L it) (cnt + 1) else Some cnt)"

declare queue_size_loop.simps [code]

definition get_queue_size :: "'a \<Rightarrow> 'a links \<Rightarrow> int option" where
  "get_queue_size lh L = queue_size_loop L lh (nx L lh) 0"

definition lwt_info :: "lwt_info_t \<Rightarrow> sys \<Rightarrow> int res" where
  "lwt_info t s =
     (let i = kthds s (current_kthd s) in
      case t of
        LWT_INFO_NTHD_RUNNABLE \<Rightarrow> of_opt Diverges (get_queue_size (current_run_queue s) (lists s))
      | LWT_INFO_NTHD_BLOCKED \<Rightarrow> Inr (block_counter i)
      | LWT_INFO_NTHD_ZOMBIES \<Rightarrow> Inr (zombie_counter i)
      | LWT_INFO_NTHD_RECYCLE \<Rightarrow> of_opt Diverges (get_queue_size (current_recycle_queue s) (lists s))
      | LWT_INFO_NSNDING \<Rightarrow> Inr (nsnding i)
      | LWT_INFO_NRCVING \<Rightarrow> Inr (nrcving i)
      | LWT_INFO_NJOINING \<Rightarrow> Inr (- 1))"

section \<open>Printing of queues\<close>

text \<open>What is printed: a format string and the numbers it is filled with.\<close>

type_synonym printed = "string \<times> int list"

partial_function (option) print_thread_loop :: "sys \<Rightarrow> lnode \<Rightarrow> lnode \<Rightarrow> printed list res option" where
  "print_thread_loop s lh it =
     (if it \<noteq> lh then
        (case rbind (thd_of it) (\<lambda>t. thd t s) of
           Inl e \<Rightarrow> Some (Inl e)
         | Inr x \<Rightarrow> Option.bind (print_thread_loop s lh (nx (lists s) it))
             (\<lambda>r. Some (rbind r (\<lambda>ps. Inr ((''thread %d.'', [lwt_id x]) # ps)))))
      else Some (Inr []))"

declare print_thread_loop.simps [code]

definition print_a_thread_queue :: "lnode \<Rightarrow> sys \<Rightarrow> printed list res" where
  "print_a_thread_queue q s =
     (case print_thread_loop s q (nx (lists s) q) of None \<Rightarrow> Inl Diverges | Some r \<Rightarrow> r)"

text \<open>
  \<^verbatim>\<open>__print_a_chan_queue\<close> prints with \<^verbatim>\<open>printd\<close>, which expands to nothing: it only walks the list.
\<close>

definition print_a_chan_queue :: "lnode \<Rightarrow> sys \<Rightarrow> printed list res" where
  "print_a_chan_queue q s = rbind (of_opt Diverges (get_queue_size q (lists s))) (\<lambda>_. Inr [])"

definition print_queue_content :: "lwt_info_t \<Rightarrow> sys \<Rightarrow> printed list res" where
  "print_queue_content input s =
     (case input of
        LWT_INFO_NTHD_RUNNABLE \<Rightarrow> rbind (print_a_thread_queue (current_run_queue s) s)
          (\<lambda>ps. Inr ((''runnable queue showed as below: '', []) # ps))
      | LWT_INFO_NTHD_RECYCLE \<Rightarrow> rbind (print_a_thread_queue (current_recycle_queue s) s)
          (\<lambda>ps. Inr ((''recycle queue showed as below: '', []) # ps))
      | _ \<Rightarrow> Inr [(''cannot identify printing instructions'', [])])"

section \<open>The idle loop of a kernel thread\<close>

text \<open>
  One round of the loop that \<^verbatim>\<open>lwt_kthd_trampline\<close> enters when the kernel thread's
  function has returned: with a single thread in the run queue the kernel thread blocks,
  and schedules when it is woken; otherwise the loop spins.
\<close>

definition kthd_idle_round :: "sys \<Rightarrow> (bool \<times> val \<times> sys) res" where
  "kthd_idle_round s =
     rbind (of_opt Diverges (get_queue_size (current_run_queue s) (lists s))) (\<lambda>n.
     if n = 1 then rbind (lwt_schedule s) (\<lambda>(v, s1). Inr (True, v, s1))
     else Inr (False, VVoid, s))"

end
