(* ===== verification/Lwt_Group.thy ===== *)
theory Lwt_Group
  imports Lwt_Chan
begin

text \<open>Channel groups (\<^verbatim>\<open>lwt_chl.c\<close>): creation, membership, release, and waiting.\<close>

section \<open>Creation and membership\<close>

definition lwt_cgrp_new :: "sys \<Rightarrow> (ptr \<times> sys) res" where
  "lwt_cgrp_new s =
     rbind (malloc sizeof_lwt_cgrp s) (\<lambda>(g, s1).
       if g = 0 then Inr (0, s1)
       else Inr (g, s1\<lparr>lists := list_head_init (GrpQ g) (lists s1),
                       grps := (grps s1)(g \<mapsto> \<lparr>owner = lwt_current s1, blocked = 0\<rparr>)\<rparr>))"

definition lwt_cgrp_add :: "ptr \<Rightarrow> ptr \<Rightarrow> sys \<Rightarrow> (val \<times> sys) res" where
  "lwt_cgrp_add g c s =
     rbind (chan c s) (\<lambda>ch.
     if cgroup ch \<noteq> 0 then Inr (VInt (- 1), s)
     else rbind (grp g s) (\<lambda>_.
          rbind (upd_chan c (\<lambda>ch. ch\<lparr>cgroup := g\<rparr>) (append_node (GrpQ g) (ChanNode c) s)) (\<lambda>s1.
            Inr (VInt 0, s1))))"

definition lwt_cgrp_rem :: "ptr \<Rightarrow> ptr \<Rightarrow> sys \<Rightarrow> (val \<times> sys) res" where
  "lwt_cgrp_rem g c s =
     rbind (chan c s) (\<lambda>ch.
     if ready ch \<noteq> 0 then Inr (VInt 1, s)
     else if cgroup ch \<noteq> g then Inr (VInt (- 1), s)
     else rbind (upd_chan c (\<lambda>ch. ch\<lparr>cgroup := 0\<rparr>) (rem_node (ChanNode c) s)) (\<lambda>s1.
            Inr (VInt 0, s1)))"

section \<open>Release\<close>

text \<open>
  In the first loop of \<^verbatim>\<open>lwt_cgrp_free\<close> the \<^verbatim>\<open>return -1\<close> is not governed by the test of
  \<^verbatim>\<open>ready\<close> above it (whose only statement is a \<^verbatim>\<open>printd\<close>, which expands to nothing), so
  the first channel of the group ends the function.
\<close>

fun clear_groups :: "lnode list \<Rightarrow> sys \<Rightarrow> sys res" where
  "clear_groups [] s = Inr s"
| "clear_groups (n # ns) s =
     rbind (chan_of n) (\<lambda>c. rbind (upd_chan c (\<lambda>ch. ch\<lparr>cgroup := 0\<rparr>) s) (clear_groups ns))"

definition lwt_cgrp_free :: "ptr \<Rightarrow> sys \<Rightarrow> (val \<times> sys) res" where
  "lwt_cgrp_free g s =
     rbind (grp g s) (\<lambda>_.
     let node = list_head_first (GrpQ g) (lists s) in
     if node \<noteq> GrpQ g then
       rbind (chan_of node) (\<lambda>c. rbind (chan c s) (\<lambda>_. Inr (VInt (- 1), s)))
     else
       rbind (of_opt Diverges (list_foreach (GrpQ g) (lists s))) (\<lambda>ns.
       rbind (clear_groups ns s) (\<lambda>s1.
       rbind (mfree g s1) (\<lambda>s2. Inr (VInt 0, s2\<lparr>grps := (grps s2)(g := None)\<rparr>)))))"

section \<open>Waiting\<close>

text \<open>
  The scan of \<^verbatim>\<open>lwt_cgrp_wait\<close> stops at the first channel whose \<^verbatim>\<open>ready\<close> is 1 (or at a
  node that is no live channel, which is a fault).
\<close>

definition stop_at :: "sys \<Rightarrow> lnode \<Rightarrow> bool" where
  "stop_at s n = (case rbind (chan_of n) (\<lambda>c. chan c s) of
     Inl _ \<Rightarrow> True | Inr ch \<Rightarrow> ready ch = 1)"

partial_function (option) scan_ready :: "sys \<Rightarrow> lnode \<Rightarrow> lnode \<Rightarrow> lnode option option" where
  "scan_ready s lh it =
     (if it = lh then Some None
      else if stop_at s it then Some (Some it)
      else scan_ready s lh (nx (lists s) it))"

declare scan_ready.simps [code]

definition cgrp_wait_loop :: "ptr \<Rightarrow> ptr \<Rightarrow> sys \<Rightarrow> (val \<times> sys) res" where
  "cgrp_wait_loop g cur s =
     rbind (grp g s) (\<lambda>_.
     rbind (of_opt Diverges (scan_ready s (GrpQ g) (list_head_first (GrpQ g) (lists s)))) (\<lambda>found.
     case found of
       Some n \<Rightarrow>
         rbind (chan_of n) (\<lambda>c. rbind (chan c s) (\<lambda>_.
         rbind (upd_grp g (\<lambda>x. x\<lparr>blocked := 0\<rparr>) s) (\<lambda>s1. Inr (VPtr c, s1))))
     | None \<Rightarrow>
         let k = current_kthd s in
         rbind (upd_grp g (\<lambda>x. x\<lparr>blocked := 1\<rparr>) s) (\<lambda>s1.
         let s2 = kthd_do k (\<lambda>i. i\<lparr>block_counter := block_counter i + 1, nrcving := nrcving i + 1\<rparr>)
                    (rem_node (ThdNode cur) s1) in
         rbind (upd_thd cur (\<lambda>x. x\<lparr>tstate := LWT_BLOCKED, block_for := BLOCKED_RECEIVING\<rparr>) s2) (\<lambda>s3.
           lwt_yield 0 (push (KCgrpWait g cur) s3)))))"

definition lwt_cgrp_wait :: "ptr \<Rightarrow> sys \<Rightarrow> (val \<times> sys) res" where
  "lwt_cgrp_wait g s =
     rbind (grp g s) (\<lambda>_.
     if list_head_empty (GrpQ g) (lists s) then Inr (VPtr 0, s)
     else cgrp_wait_loop g (lwt_current s) s)"

end
