(* ===== verification/Lwt_Machine.thy ===== *)
theory Lwt_Machine
  imports Lwt_Kthd Lwt_Group
begin

text \<open>
  The library as a machine. A configuration is a state together with the value that is
  being returned to the current thread. The thread either runs user code, which may call
  any operation of the API, or is inside a library call that continues with that value.
  Between library calls the kernel may switch to another kernel thread.
\<close>

section \<open>The API\<close>

datatype api =
    Yield ptr | Create ptr ptr int | CreateChan ptr ptr | Die ptr | Join ptr
  | NewChan int | Deref ptr | SetType ptr chan_type | MarkSet ptr ptr
  | Snd ptr ptr | Rcv ptr | SndChan ptr ptr | RcvChan ptr | SndThd ptr ptr | RcvThd ptr
  | NewGrp | GrpAdd ptr ptr | GrpRem ptr ptr | GrpFree ptr | GrpWait ptr
  | KthdCreate ptr ptr "nat option"

definition ret_ptr :: "(ptr \<times> sys) res \<Rightarrow> (val \<times> sys) res" where
  "ret_ptr r = rbind r (\<lambda>(p, s). Inr (VPtr p, s))"

definition ret_void :: "sys res \<Rightarrow> (val \<times> sys) res" where
  "ret_void r = rbind r (\<lambda>s. Inr (VVoid, s))"

fun call :: "api \<Rightarrow> sys \<Rightarrow> (val \<times> sys) res" where
  "call (Yield t) s = lwt_yield t s"
| "call (Create fn d flags) s = ret_ptr (lwt_create fn d flags s)"
| "call (CreateChan fn c) s = ret_ptr (lwt_create_chan fn c s)"
| "call (Die m) s = lwt_die m s"
| "call (Join t) s = lwt_join t s"
| "call (NewChan sz) s = ret_ptr (lwt_chan sz s)"
| "call (Deref c) s = ret_void (lwt_chan_deref c s)"
| "call (SetType c ty) s = ret_void (set_chan_type c ty s)"
| "call (MarkSet c m) s = ret_void (lwt_chan_mark_set c m s)"
| "call (Snd c d) s = lwt_snd c d s"
| "call (Rcv c) s = lwt_rcv c s"
| "call (SndChan c d) s = lwt_snd_chan c d s"
| "call (RcvChan c) s = lwt_rcv_chan c s"
| "call (SndThd c t) s = lwt_snd_thd c t s"
| "call (RcvThd c) s = lwt_rcv_thd c s"
| "call NewGrp s = ret_ptr (lwt_cgrp_new s)"
| "call (GrpAdd g c) s = lwt_cgrp_add g c s"
| "call (GrpRem g c) s = lwt_cgrp_rem g c s"
| "call (GrpFree g) s = lwt_cgrp_free g s"
| "call (GrpWait g) s = lwt_cgrp_wait g s"
| "call (KthdCreate fn c k) s = ret_ptr (lwt_kthd_create fn c k s)"

text \<open>A suspended library call continues with the value returned to it.\<close>

fun resume :: "frame \<Rightarrow> val \<Rightarrow> sys \<Rightarrow> (val \<times> sys) res" where
  "resume KSnd v s = Inr (VInt 0, s)"
| "resume (KRcv t) v s = rcv_rest t s"
| "resume KRcvChan v s = rcv_chan_rest v s"
| "resume KRcvThd v s = rcv_thd_rest v s"
| "resume KSndThd v s = Inr (VVoid, s)"
| "resume KSndChan v s = snd_chan_rest v s"
| "resume (KRet w) v s = Inr (w, s)"
| "resume (KJoin t) v s = join_rest t v s"
| "resume (KDie t) v s = die_rest t s"
| "resume (KSyncRcv c t) v s = sync_rcv_loop c t s"
| "resume (KCgrpWait g t) v s = cgrp_wait_loop g t s"

definition pop :: "sys \<Rightarrow> sys" where
  "pop s = s\<lparr>frames := (frames s)(lwt_current s := tl (frames s (lwt_current s)))\<rparr>"

text \<open>One continuation of the current thread, when it is inside a library call.\<close>

definition continue :: "val \<Rightarrow> sys \<Rightarrow> (val \<times> sys) res" where
  "continue v s = (case frames s (lwt_current s) of
     [] \<Rightarrow> Inr (v, s) | k # ks \<Rightarrow> resume k v (pop s))"

section \<open>What the library expects of its callers\<close>

text \<open>
  A channel that a dereference frees has no sender blocked on it and is in no group; a
  channel's buffer fits in the address space; a kernel-thread id is new; a channel is
  removed from a group, not from \<^verbatim>\<open>NULL\<close> (the links of a channel that never was in a group
  are uninitialised memory).
\<close>

definition last_deref :: "ptr \<Rightarrow> sys \<Rightarrow> bool" where
  "last_deref c s \<longleftrightarrow> (case chans s c of
     None \<Rightarrow> False
   | Some ch \<Rightarrow> if receiver ch = lwt_current s then snd_cnt ch = 0
              else snd_cnt ch = 1 \<and> receiver ch = 0)"

fun call_ok :: "api \<Rightarrow> sys \<Rightarrow> bool" where
  "call_ok (NewChan sz) s = (0 \<le> sz \<and> 4 * sz + 16 \<le> 2 ^ 32)"
| "call_ok (Deref c) s = (last_deref c s \<longrightarrow>
     list_head_empty (SendQ c) (lists s) \<and> (case chans s c of None \<Rightarrow> True | Some ch \<Rightarrow> cgroup ch = 0))"
| "call_ok (KthdCreate fn c k) s = (case k of None \<Rightarrow> True | Some k \<Rightarrow> main_thread (kthds s k) = 0)"
| "call_ok (GrpRem g c) s = (g \<noteq> 0)"
| "call_ok _ s = True"

section \<open>Steps\<close>

inductive lwt_step :: "val \<times> sys \<Rightarrow> val \<times> sys \<Rightarrow> bool" where
  user_call: "frames s (lwt_current s) = [] \<Longrightarrow> call_ok a s \<Longrightarrow> call a s = Inr c \<Longrightarrow>
     lwt_step (v, s) c"
| user_return: "frames s (lwt_current s) = [] \<Longrightarrow> ufn s (lwt_current s) \<noteq> None \<Longrightarrow>
     trampoline_return m s = Inr c \<Longrightarrow> lwt_step (v, s) c"
| lib_continue: "frames s (lwt_current s) \<noteq> [] \<Longrightarrow> continue v s = Inr c \<Longrightarrow> lwt_step (v, s) c"
| idle: "frames s (lwt_current s) = [] \<Longrightarrow> lwt_current s = main_thread (kthds s (current_kthd s)) \<Longrightarrow>
     kthd_idle_round s = Inr (b, c) \<Longrightarrow> lwt_step (v, s) c"
| kernel_switch: "frames s (lwt_current s) = [] \<Longrightarrow> main_thread (kthds s k) \<noteq> 0 \<Longrightarrow>
     lwt_step (v, s) (VVoid, s\<lparr>current_kthd := k\<rparr>)"

text \<open>
  Start: the boot code, in no thread of the library, has created one kernel thread and
  the kernel has switched to it; nothing else exists.
\<close>

definition blank :: "umem \<Rightarrow> (ptr \<Rightarrow> lwt_thread) \<Rightarrow> (ptr \<Rightarrow> lwt_channel) \<Rightarrow> (ptr \<Rightarrow> ptr) \<Rightarrow> sys" where
  "blank m rt rc rw = \<lparr>lists = \<lparr>nx = \<lambda>_. RunQ 0, pv = \<lambda>_. RunQ 0\<rparr>,
     thds = \<lambda>_. None, chans = \<lambda>_. None, grps = \<lambda>_. None, wraps = \<lambda>_. None,
     kthds = \<lambda>_. \<lparr>block_counter = 0, zombie_counter = 0, nrcving = 0, nsnding = 0, polling_flag = 0,
                  current_thread = 0, main_thread = 0, wq_occupied = 0\<rparr>,
     current_kthd = 0, lwt_counter = 0, chan_counter = 0, mem = m, stackw = \<lambda>_. 0,
     frames = \<lambda>_. [], ufn = \<lambda>_. None, raw_thd = rt, raw_chan = rc, raw_word = rw\<rparr>"

inductive reachable :: "val \<times> sys \<Rightarrow> bool" where
  boot: "uheap m {} \<Longrightarrow> (\<forall>p. cgroup (rc p) = 0) \<Longrightarrow>
     initiate k (blank m rt rc rw) = Inr s \<Longrightarrow> reachable (VVoid, s\<lparr>current_kthd := k\<rparr>)"
| step: "reachable c \<Longrightarrow> lwt_step c c' \<Longrightarrow> reachable c'"

end
