(* ===== verification/Lwt_Inv.thy ===== *)
theory Lwt_Inv
  imports Lwt_Machine
begin

text \<open>
  The structural invariant of the library and the effect of every primitive update on it:
  every queue is intact, every thread is where its status says it is, every channel of a
  group is on the group's list, and every object lives in a block of its own.
\<close>

section \<open>The invariant\<close>

text \<open>What the invariant reads of a state.\<close>

definition status_of :: "sys \<Rightarrow> ptr \<Rightarrow> (lwt_status \<times> block_status) option" where
  "status_of s t = map_option (\<lambda>x. (tstate x, block_for x)) (thds s t)"

definition group_of :: "sys \<Rightarrow> ptr \<Rightarrow> ptr option" where
  "group_of s c = map_option cgroup (chans s c)"

definition hosted :: "sys \<Rightarrow> nat set" where
  "hosted s = {k. main_thread (kthds s k) \<noteq> 0}"

text \<open>The queue a thread belongs in by its status, if any.\<close>

fun home :: "lnode \<Rightarrow> lwt_status \<times> block_status \<Rightarrow> bool" where
  "home (RunQ k) st = (fst st = LWT_RUNNABLE \<or> fst st = LWT_RUNNING)"
| "home (RecQ k) st = (fst st = LWT_ZOMBIES)"
| "home (SendQ c) st = (fst st = LWT_BLOCKED \<and> snd st = BLOCKED_SENDING)"
| "home _ st = False"

definition located :: "lnode set \<Rightarrow> lnode set \<Rightarrow> (lnode \<Rightarrow> lnode list) \<Rightarrow> ptr \<Rightarrow>
    lwt_status \<times> block_status \<Rightarrow> bool" where
  "located H D Q t st \<longleftrightarrow>
     (if st = (LWT_BLOCKED, BLOCKED_RECEIVING) then ThdNode t \<in> D
      else \<exists>h\<in>H. ThdNode t \<in> set (Q h) \<and> home h st)"

text \<open>Which nodes may be in the queue of a head.\<close>

definition node_ok :: "ptr set \<Rightarrow> (ptr \<Rightarrow> ptr option) \<Rightarrow> ptr set \<Rightarrow> lnode \<Rightarrow> lnode \<Rightarrow> bool" where
  "node_ok T C W h n \<longleftrightarrow>
     (case h of
        RunQ k \<Rightarrow> \<exists>t \<in> T. n = ThdNode t
      | RecQ k \<Rightarrow> \<exists>t \<in> T. n = ThdNode t
      | SendQ c \<Rightarrow> \<exists>t \<in> T. n = ThdNode t
      | WakeQ k \<Rightarrow> \<exists>w \<in> W. n = WrapNode w
      | GrpQ g \<Rightarrow> \<exists>c. n = ChanNode c \<and> C c = Some g
      | _ \<Rightarrow> False)"

definition detached_ok :: "ptr set \<Rightarrow> (ptr \<Rightarrow> ptr option) \<Rightarrow> lnode \<Rightarrow> bool" where
  "detached_ok T C n \<longleftrightarrow> (\<exists>t \<in> T. n = ThdNode t) \<or> (\<exists>c. n = ChanNode c \<and> C c = Some 0)"

definition heads_ok :: "lnode set \<Rightarrow> ptr set \<Rightarrow> ptr set \<Rightarrow> nat set \<Rightarrow> bool" where
  "heads_ok H C G K \<longleftrightarrow> H = SendQ ` C \<union> GrpQ ` G \<union> RunQ ` K \<union> RecQ ` K \<union> WakeQ ` K"

definition nodes_ok :: "lnode set \<Rightarrow> lnode set \<Rightarrow> (lnode \<Rightarrow> lnode list) \<Rightarrow>
    ptr set \<Rightarrow> (ptr \<Rightarrow> ptr option) \<Rightarrow> ptr set \<Rightarrow> bool" where
  "nodes_ok H D Q T C W \<longleftrightarrow>
     (\<forall>h\<in>H. \<forall>n\<in>set (Q h). node_ok T C W h n) \<and> (\<forall>n\<in>D. detached_ok T C n)"

definition groups_ok :: "lnode set \<Rightarrow> (lnode \<Rightarrow> lnode list) \<Rightarrow> (ptr \<Rightarrow> ptr option) \<Rightarrow> bool" where
  "groups_ok H Q C \<longleftrightarrow>
     (\<forall>c g. C c = Some g \<longrightarrow> g \<noteq> 0 \<longrightarrow> GrpQ g \<in> H \<and> ChanNode c \<in> set (Q (GrpQ g)))"

definition owners_ok :: "ptr set \<Rightarrow> sys \<Rightarrow> bool" where
  "owners_ok N s \<longleftrightarrow> (\<forall>t x. thds s t = Some x \<longrightarrow> t \<notin> N \<longrightarrow> owner_kthd x \<in> hosted s)"

definition quiet :: "sys \<Rightarrow> bool" where
  "quiet s \<longleftrightarrow> (\<forall>k. polling_flag (kthds s k) = 0) \<and> (\<forall>p. cgroup (raw_chan s p) = 0)"

definition separate :: "ptr set \<Rightarrow> ptr set \<Rightarrow> ptr set \<Rightarrow> ptr set \<Rightarrow> ptr set \<Rightarrow> bool" where
  "separate T C G W P \<longleftrightarrow>
     T \<inter> C = {} \<and> T \<inter> G = {} \<and> T \<inter> W = {} \<and> C \<inter> G = {} \<and> C \<inter> W = {} \<and> G \<inter> W = {} \<and>
     P \<inter> (T \<union> C \<union> G \<union> W) = {}"

definition memory_ok :: "umem \<Rightarrow> ptr set \<Rightarrow> ptr set \<Rightarrow> ptr set \<Rightarrow> ptr set \<Rightarrow> ptr set \<Rightarrow> bool" where
  "memory_ok m T C G W P \<longleftrightarrow>
     (\<exists>B. uheap m B \<and> T \<union> C \<union> G \<union> W \<union> P \<subseteq> B) \<and> separate T C G W P"

text \<open>
  The invariant in the middle of an operation. The threads of \<open>X\<close> are detached and on
  their way to a queue, those of \<open>N\<close> are new and have not been linked yet, the blocks of
  \<open>P\<close> are allocated and hold no object yet, the kernel threads of \<open>E\<close> have their queues
  but no main thread yet; \<open>b\<close> says whether a kernel thread of the library is running
  (not so during boot).
\<close>

definition inv_but :: "bool \<Rightarrow> nat set \<Rightarrow> ptr set \<Rightarrow> ptr set \<Rightarrow> ptr set \<Rightarrow>
    lnode set \<Rightarrow> lnode set \<Rightarrow> (lnode \<Rightarrow> lnode list) \<Rightarrow> sys \<Rightarrow> bool" where
  "inv_but b E X N P H D Q s \<longleftrightarrow>
     queues (lists s) H D Q \<and> heads_ok H (dom (chans s)) (dom (grps s)) (hosted s \<union> E) \<and>
     nodes_ok H D Q (dom (thds s)) (group_of s) (dom (wraps s)) \<and> groups_ok H Q (group_of s) \<and>
     owners_ok N s \<and> quiet s \<and>
     memory_ok (mem s) (dom (thds s)) (dom (chans s)) (dom (grps s)) (dom (wraps s)) P \<and>
     (b \<longrightarrow> current_kthd s \<in> hosted s) \<and> N \<subseteq> dom (thds s) \<and>
     (\<forall>t\<in>X. ThdNode t \<in> D) \<and> (\<forall>t\<in>N. ThdNode t \<notin> D \<and> (\<forall>h\<in>H. ThdNode t \<notin> set (Q h))) \<and>
     (\<forall>t st. status_of s t = Some st \<longrightarrow> t \<notin> X \<longrightarrow> t \<notin> N \<longrightarrow> located H D Q t st)"

definition mid_inv :: "bool \<Rightarrow> nat set \<Rightarrow> ptr set \<Rightarrow> ptr set \<Rightarrow> ptr set \<Rightarrow> sys \<Rightarrow> bool" where
  "mid_inv b E X N P s \<longleftrightarrow> (\<exists>H D Q. inv_but b E X N P H D Q s)"

definition lwt_inv :: "sys \<Rightarrow> bool" where
  "lwt_inv s \<longleftrightarrow> mid_inv True {} {} {} {} s"

lemma inv_butD:
  assumes "inv_but b E X N P H D Q s"
  shows "queues (lists s) H D Q" "heads_ok H (dom (chans s)) (dom (grps s)) (hosted s \<union> E)"
    "nodes_ok H D Q (dom (thds s)) (group_of s) (dom (wraps s))" "groups_ok H Q (group_of s)"
    "owners_ok N s" "quiet s"
    "memory_ok (mem s) (dom (thds s)) (dom (chans s)) (dom (grps s)) (dom (wraps s)) P"
    "b \<Longrightarrow> current_kthd s \<in> hosted s" "N \<subseteq> dom (thds s)" "t \<in> X \<Longrightarrow> ThdNode t \<in> D"
    "t \<in> N \<Longrightarrow> ThdNode t \<notin> D" "t \<in> N \<Longrightarrow> h \<in> H \<Longrightarrow> ThdNode t \<notin> set (Q h)"
    "status_of s t = Some st \<Longrightarrow> t \<notin> X \<Longrightarrow> t \<notin> N \<Longrightarrow> located H D Q t st"
  using assms unfolding inv_but_def by blast+

lemma head_in:
  assumes "heads_ok H C G K"
  shows "SendQ c \<in> H \<longleftrightarrow> c \<in> C" "GrpQ g \<in> H \<longleftrightarrow> g \<in> G" "RunQ k \<in> H \<longleftrightarrow> k \<in> K"
    "RecQ k \<in> H \<longleftrightarrow> k \<in> K" "WakeQ k \<in> H \<longleftrightarrow> k \<in> K"
    "ThdNode p \<notin> H" "ChanNode p \<notin> H" "WrapNode p \<notin> H"
  using assms by (auto simp: heads_ok_def)

lemma status_of_Some [simp]: "status_of s t = Some st \<longleftrightarrow> (\<exists>x. thds s t = Some x \<and> st = (tstate x, block_for x))"
  by (auto simp: status_of_def)

lemma status_of_upd [simp]: "status_of (s\<lparr>thds := (thds s)(t \<mapsto> y)\<rparr>) = (status_of s)(t \<mapsto> (tstate y, block_for y))"
  by (auto simp: status_of_def)

lemma group_of_upd [simp]: "group_of (s\<lparr>chans := (chans s)(c \<mapsto> y)\<rparr>) = (group_of s)(c \<mapsto> cgroup y)"
  by (auto simp: group_of_def)

text \<open>Everything that the invariant reads unchanged.\<close>

lemma mid_inv_cong:
  assumes "lists s' = lists s" "status_of s' = status_of s" "group_of s' = group_of s"
    "dom (grps s') = dom (grps s)" "wraps s' = wraps s" "hosted s' = hosted s" "owners_ok N s \<Longrightarrow> owners_ok N s'"
    "quiet s \<Longrightarrow> quiet s'" "mem s' = mem s" "current_kthd s' = current_kthd s" "mid_inv b E X N P s"
  shows "mid_inv b E X N P s'"
proof -
  have "dom (thds s') = dom (status_of s')" "dom (thds s) = dom (status_of s)"
    "dom (chans s') = dom (group_of s')" "dom (chans s) = dom (group_of s)"
    by (auto simp: status_of_def group_of_def dom_def)
  then have "dom (thds s') = dom (thds s)" "dom (chans s') = dom (chans s)" using assms(2,3) by simp_all
  then show ?thesis using assms unfolding mid_inv_def inv_but_def by metis
qed

section \<open>Updates that the invariant does not see\<close>

lemma view_frame [simp]:
  "status_of (s\<lparr>lists := l\<rparr>) = status_of s" "group_of (s\<lparr>lists := l\<rparr>) = group_of s"
  "status_of (s\<lparr>mem := m\<rparr>) = status_of s" "group_of (s\<lparr>mem := m\<rparr>) = group_of s"
  "status_of (s\<lparr>frames := f\<rparr>) = status_of s" "group_of (s\<lparr>frames := f\<rparr>) = group_of s"
  "status_of (s\<lparr>ufn := u\<rparr>) = status_of s" "group_of (s\<lparr>ufn := u\<rparr>) = group_of s"
  "status_of (s\<lparr>stackw := w\<rparr>) = status_of s" "group_of (s\<lparr>stackw := w\<rparr>) = group_of s"
  "status_of (s\<lparr>lwt_counter := i\<rparr>) = status_of s" "group_of (s\<lparr>lwt_counter := i\<rparr>) = group_of s"
  "status_of (s\<lparr>chan_counter := i\<rparr>) = status_of s" "group_of (s\<lparr>chan_counter := i\<rparr>) = group_of s"
  "status_of (s\<lparr>kthds := K\<rparr>) = status_of s" "group_of (s\<lparr>kthds := K\<rparr>) = group_of s"
  "status_of (s\<lparr>wraps := W\<rparr>) = status_of s" "group_of (s\<lparr>wraps := W\<rparr>) = group_of s"
  "status_of (s\<lparr>grps := G\<rparr>) = status_of s" "group_of (s\<lparr>grps := G\<rparr>) = group_of s"
  "status_of (s\<lparr>raw_chan := rc\<rparr>) = status_of s" "group_of (s\<lparr>raw_chan := rc\<rparr>) = group_of s"
  "status_of (s\<lparr>chans := C\<rparr>) = status_of s" "group_of (s\<lparr>thds := T\<rparr>) = group_of s"
  "status_of (s\<lparr>current_kthd := k\<rparr>) = status_of s" "group_of (s\<lparr>current_kthd := k\<rparr>) = group_of s"
  by (simp_all add: status_of_def group_of_def fun_eq_iff)

lemma hosted_frame [simp]:
  "hosted (s\<lparr>lists := l\<rparr>) = hosted s" "hosted (s\<lparr>mem := m\<rparr>) = hosted s" "hosted (s\<lparr>frames := f\<rparr>) = hosted s"
  "hosted (s\<lparr>ufn := u\<rparr>) = hosted s" "hosted (s\<lparr>stackw := w\<rparr>) = hosted s"
  "hosted (s\<lparr>lwt_counter := i\<rparr>) = hosted s" "hosted (s\<lparr>chan_counter := i\<rparr>) = hosted s"
  "hosted (s\<lparr>wraps := W\<rparr>) = hosted s" "hosted (s\<lparr>grps := G\<rparr>) = hosted s" "hosted (s\<lparr>raw_chan := rc\<rparr>) = hosted s"
  "hosted (s\<lparr>chans := C\<rparr>) = hosted s" "hosted (s\<lparr>thds := T\<rparr>) = hosted s"
  "hosted (s\<lparr>current_kthd := k\<rparr>) = hosted s"
  by (simp_all add: hosted_def)

lemma hosted_upd:
  "(main_thread i = 0) = (main_thread (kthds s k) = 0) \<Longrightarrow> hosted (s\<lparr>kthds := (kthds s)(k := i)\<rparr>) = hosted s"
  by (auto simp: hosted_def)

lemma quiet_upd:
  "quiet s \<Longrightarrow> polling_flag i = 0 \<Longrightarrow> quiet (s\<lparr>kthds := (kthds s)(k := i)\<rparr>)"
  by (simp add: quiet_def)

lemma mid_inv_frame [simp]:
  "mid_inv b E X N P (s\<lparr>frames := f\<rparr>) = mid_inv b E X N P s"
  "mid_inv b E X N P (s\<lparr>ufn := u\<rparr>) = mid_inv b E X N P s"
  "mid_inv b E X N P (s\<lparr>stackw := w\<rparr>) = mid_inv b E X N P s"
  "mid_inv b E X N P (s\<lparr>lwt_counter := i\<rparr>) = mid_inv b E X N P s"
  "mid_inv b E X N P (s\<lparr>chan_counter := i\<rparr>) = mid_inv b E X N P s"
  by (simp_all add: mid_inv_def inv_but_def owners_ok_def quiet_def)

lemma mid_inv_push [simp]: "mid_inv b E X N P (push k s) = mid_inv b E X N P s"
  by (simp add: push_def)

lemma mid_inv_pop [simp]: "mid_inv b E X N P (pop s) = mid_inv b E X N P s"
  by (simp add: pop_def)

lemma mid_inv_kthd:
  assumes m: "mid_inv b E X N P s"
    and "polling_flag i = 0" "(main_thread i = 0) = (main_thread (kthds s k) = 0)"
  shows "mid_inv b E X N P (s\<lparr>kthds := (kthds s)(k := i)\<rparr>)"
  using assms by (intro mid_inv_cong [OF _ _ _ _ _ _ _ _ _ _ m])
    (simp_all add: hosted_upd quiet_upd owners_ok_def)

lemma mid_inv_thd:
  assumes m: "mid_inv b E X N P s" and t: "thds s t = Some x"
    and y: "tstate y = tstate x" "block_for y = block_for x" "owner_kthd y = owner_kthd x \<or> owner_kthd y \<in> hosted s"
  shows "mid_inv b E X N P (s\<lparr>thds := (thds s)(t \<mapsto> y)\<rparr>)"
  using t y by (intro mid_inv_cong [OF _ _ _ _ _ _ _ _ _ _ m])
    (auto simp: owners_ok_def quiet_def fun_eq_iff status_of_def)

lemma mid_inv_chan:
  assumes m: "mid_inv b E X N P s" and c: "chans s c = Some ch" and g: "cgroup ch' = cgroup ch"
  shows "mid_inv b E X N P (s\<lparr>chans := (chans s)(c \<mapsto> ch')\<rparr>)"
  using c g by (intro mid_inv_cong [OF _ _ _ _ _ _ _ _ _ _ m])
    (auto simp: owners_ok_def quiet_def group_of_def)

lemma mid_inv_grp:
  assumes m: "mid_inv b E X N P s" and c: "grps s g = Some x"
  shows "mid_inv b E X N P (s\<lparr>grps := (grps s)(g \<mapsto> y)\<rparr>)"
  using c by (intro mid_inv_cong [OF _ _ _ _ _ _ _ _ _ _ m]) (auto simp: owners_ok_def quiet_def)

section \<open>Linking and unlinking threads\<close>

lemma mid_invE:
  assumes "mid_inv b E X N P s"
  obtains H D Q where "inv_but b E X N P H D Q s"
  using assms by (auto simp: mid_inv_def)

lemma located_mono:
  assumes "located H D Q t st" "ThdNode t \<in> D \<Longrightarrow> ThdNode t \<in> D'" "H \<subseteq> H'"
    and "\<And>h. h \<in> H \<Longrightarrow> ThdNode t \<in> set (Q h) \<Longrightarrow> ThdNode t \<in> set (Q' h)"
  shows "located H' D' Q' t st"
  using assms unfolding located_def by (auto split: if_splits)

lemma home_cases:
  "home h st \<Longrightarrow> (\<exists>k. h = RunQ k \<and> (fst st = LWT_RUNNABLE \<or> fst st = LWT_RUNNING)) \<or>
     (\<exists>k. h = RecQ k \<and> fst st = LWT_ZOMBIES) \<or> (\<exists>c. h = SendQ c \<and> st = (LWT_BLOCKED, BLOCKED_SENDING))"
  by (cases h; cases st) auto

text \<open>A thread that is not new is unlinked by \<^verbatim>\<open>list_rem_d\<close>, wherever it is.\<close>

lemma mid_inv_rem:
  assumes m: "mid_inv b E X N P s" and t: "t \<in> dom (thds s)" "t \<notin> N"
  shows "mid_inv b E (insert t X) N P (rem_node (ThdNode t) s)"
proof -
  obtain H D Q where i: "inv_but b E X N P H D Q s" by (rule mid_invE [OF m])
  note q = inv_butD(1) [OF i] and n = inv_butD(3) [OF i] and g = inv_butD(4) [OF i] and l = inv_butD(13) [OF i]
  show ?thesis
  proof (cases "ThdNode t \<in> D")
    case True
    have "inv_but b E (insert t X) N P H D Q s" using i True unfolding inv_but_def by auto
    moreover have "rem_node (ThdNode t) s = s" using queues_rem_detached [OF q True] by simp
    ultimately show ?thesis unfolding mid_inv_def by metis
  next
    case False
    then have "t \<notin> X" using inv_butD(10) [OF i] by auto
    then obtain h where h: "h \<in> H" "ThdNode t \<in> set (Q h)"
      using l [of t] t False by (auto simp: located_def split: if_splits)
    let ?D = "insert (ThdNode t) D" and ?Q = "Q(h := remove1 (ThdNode t) (Q h))"
    let ?s = "rem_node (ThdNode t) s"
    have sub: "set (?Q k) \<subseteq> set (Q k)" for k by (simp add: set_remove1_subset)
    have keep: "n \<noteq> ThdNode t \<Longrightarrow> n \<in> set (Q k) \<Longrightarrow> n \<in> set (?Q k)" for n k by auto
    have "inv_but b E (insert t X) N P H ?D ?Q ?s"
      unfolding inv_but_def
    proof (intro conjI)
      show "queues (lists ?s) H ?D ?Q" using queues_rem [OF q h] by simp
      show "nodes_ok H ?D ?Q (dom (thds ?s)) (group_of ?s) (dom (wraps ?s))"
        using n t set_remove1_subset [of "ThdNode t" "Q h"] by (auto simp: nodes_ok_def detached_ok_def)
      show "groups_ok H ?Q (group_of ?s)" using g keep by (fastforce simp: groups_ok_def)
      show "\<forall>t'\<in>N. ThdNode t' \<notin> ?D \<and> (\<forall>k\<in>H. ThdNode t' \<notin> set (?Q k))"
        using inv_butD(11,12) [OF i] sub t(2) by blast
      show "\<forall>u st. status_of ?s u = Some st \<longrightarrow> u \<notin> insert t X \<longrightarrow> u \<notin> N \<longrightarrow> located H ?D ?Q u st"
        by (intro allI impI, rule located_mono [OF l]) auto
    qed (use i in \<open>auto simp: inv_but_def owners_ok_def quiet_def\<close>)
    then show ?thesis by (auto simp: mid_inv_def)
  qed
qed

text \<open>An unlinked or new thread enters a queue.\<close>

lemma mid_inv_enter:
  assumes m: "mid_inv b E X N P s" and t: "t \<in> X \<union> N" "thds s t = Some x"
    and h: "\<And>H. heads_ok H (dom (chans s)) (dom (grps s)) (hosted s \<union> E) \<Longrightarrow> h \<in> H"
      "home h (tstate x, block_for x)"
    and own: "t \<in> N \<Longrightarrow> owner_kthd x \<in> hosted s"
    and L: "\<And>H D Q. queues (lists s) H D Q \<Longrightarrow> h \<in> H \<Longrightarrow> ThdNode t \<notin> H \<Longrightarrow>
      (\<And>g. g \<in> H \<Longrightarrow> ThdNode t \<notin> set (Q g)) \<Longrightarrow>
      \<exists>ys. queues L H (D - {ThdNode t}) (Q(h := ys)) \<and> set ys = insert (ThdNode t) (set (Q h))"
  shows "mid_inv b E (X - {t}) (N - {t}) P (s\<lparr>lists := L\<rparr>)"
proof -
  obtain H D Q where i: "inv_but b E X N P H D Q s" by (rule mid_invE [OF m])
  note q = inv_butD(1) [OF i] and hd = inv_butD(2) [OF i] and n = inv_butD(3) [OF i]
    and g = inv_butD(4) [OF i] and l = inv_butD(13) [OF i]
  have hH: "h \<in> H" using h(1) [OF hd] .
  have fr: "ThdNode t \<notin> set (Q k)" if "k \<in> H" for k
    using t(1) inv_butD(10) [OF i] inv_butD(12) [OF i _ that] queuesD(4) [OF q that] by blast
  obtain ys where ys: "queues L H (D - {ThdNode t}) (Q(h := ys))" "set ys = insert (ThdNode t) (set (Q h))"
    using L [OF q hH _ fr] head_in(6) [OF hd] by auto
  let ?D = "D - {ThdNode t}" and ?Q = "Q(h := ys)" and ?s = "s\<lparr>lists := L\<rparr>"
  have "node_ok (dom (thds s)) (group_of s) (dom (wraps s)) h (ThdNode t)"
    using h(2) t(2) by (cases h) (auto simp: node_ok_def)
  then have n': "\<forall>k\<in>H. \<forall>n\<in>set (?Q k). node_ok (dom (thds s)) (group_of s) (dom (wraps s)) k n"
    using n ys(2) hH by (auto simp: nodes_ok_def)
  have keep: "n \<in> set (Q k) \<Longrightarrow> n \<in> set (?Q k)" for n k using ys(2) by auto
  have "inv_but b E (X - {t}) (N - {t}) P H ?D ?Q ?s"
    unfolding inv_but_def
  proof (intro conjI)
    show "queues (lists ?s) H ?D ?Q" using ys(1) by simp
    show "nodes_ok H ?D ?Q (dom (thds ?s)) (group_of ?s) (dom (wraps ?s))"
      using n n' by (simp add: nodes_ok_def)
    show "groups_ok H ?Q (group_of ?s)" using g keep by (fastforce simp: groups_ok_def)
    show "owners_ok (N - {t}) ?s"
      using inv_butD(5) [OF i] t(2) own by (cases "t \<in> N") (auto simp: owners_ok_def)
    show "\<forall>u\<in>N - {t}. ThdNode u \<notin> ?D \<and> (\<forall>k\<in>H. ThdNode u \<notin> set (?Q k))"
      using inv_butD(11,12) [OF i] ys(2) hH by auto
    show "\<forall>u\<in>X - {t}. ThdNode u \<in> ?D" using inv_butD(10) [OF i] by auto
    show "\<forall>u st. status_of ?s u = Some st \<longrightarrow> u \<notin> X - {t} \<longrightarrow> u \<notin> N - {t} \<longrightarrow> located H ?D ?Q u st"
    proof (intro allI impI)
      fix u st assume u: "status_of ?s u = Some st" "u \<notin> X - {t}" "u \<notin> N - {t}"
      show "located H ?D ?Q u st"
      proof (cases "u = t")
        case True
        then have "st \<noteq> (LWT_BLOCKED, BLOCKED_RECEIVING)" "home h st" using u(1) t(2) h(2) by (cases h; auto)+
        then show ?thesis using True hH ys(2) unfolding located_def by auto
      next
        case False
        then show ?thesis using u by (intro located_mono [OF l]) (auto simp: ys(2))
      qed
    qed
  qed (use i in \<open>auto simp: inv_but_def quiet_def\<close>)
  then show ?thesis by (auto simp: mid_inv_def)
qed


lemma run_queue_in: "heads_ok H (dom (chans s)) (dom (grps s)) (hosted s \<union> E) \<Longrightarrow> k \<in> hosted s \<union> E \<Longrightarrow> RunQ k \<in> H \<and> RecQ k \<in> H"
  by (simp add: head_in)

lemma mid_inv_add:
  assumes "mid_inv b E X N P s" "t \<in> X \<union> N" "thds s t = Some x"
    and "\<And>H. heads_ok H (dom (chans s)) (dom (grps s)) (hosted s \<union> E) \<Longrightarrow> h \<in> H"
    and "home h (tstate x, block_for x)" "t \<in> N \<Longrightarrow> owner_kthd x \<in> hosted s"
  shows "mid_inv b E (X - {t}) (N - {t}) P (add_node h (ThdNode t) s)"
proof -
  have "mid_inv b E (X - {t}) (N - {t}) P (s\<lparr>lists := list_head_add h (ThdNode t) (lists s)\<rparr>)"
  proof (rule mid_inv_enter [OF assms])
    fix H D and Q :: "lnode \<Rightarrow> lnode list"
    assume "queues (lists s) H D Q" "h \<in> H" "ThdNode t \<notin> H" "\<And>g. g \<in> H \<Longrightarrow> ThdNode t \<notin> set (Q g)"
    from queues_add [OF this] show "\<exists>ys. queues (list_head_add h (ThdNode t) (lists s)) H (D - {ThdNode t}) (Q(h := ys)) \<and>
        set ys = insert (ThdNode t) (set (Q h))"
      by (intro exI [of _ "Q h @ [ThdNode t]"]) auto
  qed
  then show ?thesis by simp
qed

lemma mid_inv_append:
  assumes "mid_inv b E X N P s" "t \<in> X \<union> N" "thds s t = Some x"
    and "\<And>H. heads_ok H (dom (chans s)) (dom (grps s)) (hosted s \<union> E) \<Longrightarrow> h \<in> H"
    and "home h (tstate x, block_for x)" "t \<in> N \<Longrightarrow> owner_kthd x \<in> hosted s"
  shows "mid_inv b E (X - {t}) (N - {t}) P (append_node h (ThdNode t) s)"
proof -
  have "mid_inv b E (X - {t}) (N - {t}) P (s\<lparr>lists := list_head_append h (ThdNode t) (lists s)\<rparr>)"
  proof (rule mid_inv_enter [OF assms])
    fix H D and Q :: "lnode \<Rightarrow> lnode list"
    assume "queues (lists s) H D Q" "h \<in> H" "ThdNode t \<notin> H" "\<And>g. g \<in> H \<Longrightarrow> ThdNode t \<notin> set (Q g)"
    from queues_append [OF this] show "\<exists>ys. queues (list_head_append h (ThdNode t) (lists s)) H (D - {ThdNode t}) (Q(h := ys)) \<and>
        set ys = insert (ThdNode t) (set (Q h))"
      by (intro exI [of _ "insert_before_last (ThdNode t) (Q h)"]) auto
  qed
  then show ?thesis by simp
qed

text \<open>While a thread is on its way its status may change freely.\<close>

lemma mid_inv_status:
  assumes m: "mid_inv b E X N P s" and t: "t \<in> X \<union> N" "thds s t = Some x"
    and own: "t \<in> N \<or> owner_kthd y = owner_kthd x \<or> owner_kthd y \<in> hosted s"
  shows "mid_inv b E X N P (s\<lparr>thds := (thds s)(t \<mapsto> y)\<rparr>)"
proof -
  obtain H D Q where i: "inv_but b E X N P H D Q s" by (rule mid_invE [OF m])
  have d: "dom ((thds s)(t \<mapsto> y)) = dom (thds s)" using t by auto
  have "owners_ok N (s\<lparr>thds := (thds s)(t \<mapsto> y)\<rparr>)" using inv_butD(5) [OF i] t own by (auto simp: owners_ok_def)
  moreover have "quiet (s\<lparr>thds := (thds s)(t \<mapsto> y)\<rparr>)" using inv_butD(6) [OF i] by (simp add: quiet_def)
  ultimately have "inv_but b E X N P H D Q (s\<lparr>thds := (thds s)(t \<mapsto> y)\<rparr>)"
    using i t(1) d unfolding inv_but_def by (simp add: dom_def) blast
  then show ?thesis by (auto simp: mid_inv_def)
qed

text \<open>A thread blocked for a message is in no queue.\<close>

lemma mid_inv_park:
  assumes m: "mid_inv b E X N P s" and t: "thds s t = Some x" "tstate x = LWT_BLOCKED" "block_for x = BLOCKED_RECEIVING"
    and X: "t \<in> X"
  shows "mid_inv b E (X - {t}) N P s"
proof -
  obtain H D Q where i: "inv_but b E X N P H D Q s" by (rule mid_invE [OF m])
  have "located H D Q u st" if "status_of s u = Some st" "u \<notin> X - {t}" "u \<notin> N" for u st
    using that t inv_butD(13) [OF i that(1)] inv_butD(10) [OF i X] by (cases "u = t") (auto simp: located_def)
  then have "inv_but b E (X - {t}) N P H D Q s" using i unfolding inv_but_def by blast
  then show ?thesis by (auto simp: mid_inv_def)
qed

text \<open>The status of a thread in a run queue is that of a running or runnable thread.\<close>

lemma queued_runnable:
  assumes i: "inv_but b E X N P H D Q s" and k: "RunQ k \<in> H" "ThdNode t \<in> set (Q (RunQ k))"
    and t: "thds s t = Some x"
  shows "tstate x = LWT_RUNNABLE \<or> tstate x = LWT_RUNNING"
proof -
  note q = inv_butD(1) [OF i]
  have "ThdNode t \<notin> D" using queuesD(4) [OF q k] by simp
  moreover have "t \<notin> N" using inv_butD(12) [OF i _ k(1)] k(2) by auto
  moreover have "t \<notin> X" using inv_butD(10) [OF i, of t] calculation(1) by blast
  ultimately have "located H D Q t (tstate x, block_for x)" using inv_butD(13) [OF i, of t] t by simp
  then obtain h where h: "h \<in> H" "ThdNode t \<in> set (Q h)" "home h (tstate x, block_for x)"
    using \<open>ThdNode t \<notin> D\<close> unfolding located_def by (metis (no_types))
  then have "h = RunQ k" using queuesD(5) [OF q h(1) k(1) h(2) k(2)] by simp
  then show ?thesis using h(3) by simp
qed

lemma mid_inv_run:
  assumes m: "mid_inv b E X N P s" and k: "k \<in> hosted s \<union> E" "list_head_first (RunQ k) (lists s) = ThdNode t"
    and t: "thds s t = Some x" and y: "y = x\<lparr>tstate := LWT_RUNNING\<rparr>"
  shows "mid_inv b E X N P (s\<lparr>thds := (thds s)(t \<mapsto> y)\<rparr>)"
proof -
  obtain H D Q where i: "inv_but b E X N P H D Q s" by (rule mid_invE [OF m])
  note q = inv_butD(1) [OF i]
  have kH: "RunQ k \<in> H" using head_in(3) [OF inv_butD(2) [OF i]] k(1) by simp
  have "Q (RunQ k) \<noteq> []" using lq.first_not_head [OF q kH] k(2) by auto
  then have tk: "ThdNode t \<in> set (Q (RunQ k))" using lq.first_in [OF q kH] k(2) by simp
  have d: "dom ((thds s)(t \<mapsto> y)) = dom (thds s)" using t by auto
  have "owners_ok N (s\<lparr>thds := (thds s)(t \<mapsto> y)\<rparr>)" using inv_butD(5) [OF i] t y by (auto simp: owners_ok_def)
  moreover have "quiet (s\<lparr>thds := (thds s)(t \<mapsto> y)\<rparr>)" using inv_butD(6) [OF i] by (simp add: quiet_def)
  moreover have "located H D Q u st" if "((status_of s)(t \<mapsto> (tstate y, block_for y))) u = Some st" "u \<notin> X" "u \<notin> N" for u st
  proof (cases "u = t")
    case True
    then show ?thesis using that(1) tk kH y unfolding located_def by (auto intro!: bexI [of _ "RunQ k"])
  next
    case False
    then show ?thesis using that inv_butD(13) [OF i, of u st] by simp
  qed
  ultimately have "inv_but b E X N P H D Q (s\<lparr>thds := (thds s)(t \<mapsto> y)\<rparr>)"
    using i d unfolding inv_but_def by (simp add: dom_def)
  then show ?thesis by (auto simp: mid_inv_def)
qed

end
