(* ===== verification/Lwt_Objects.thy ===== *)
theory Lwt_Objects
  imports Lwt_Inv
begin

text \<open>
  The invariant when objects come and go: blocks of the allocator, new threads, channels,
  groups, wake-up cells and kernel threads, channels that join and leave a group, and the
  release of a channel or a group.
\<close>

section \<open>Blocks\<close>

lemma mid_invI: "inv_but b E X N P H D Q s \<Longrightarrow> mid_inv b E X N P s"
  unfolding mid_inv_def by blast

lemma memory_okI: "uheap m B \<Longrightarrow> T \<union> C \<union> G \<union> W \<union> P \<subseteq> B \<Longrightarrow> separate T C G W P \<Longrightarrow> memory_ok m T C G W P"
  unfolding memory_ok_def by blast

lemma memory_okE:
  assumes "memory_ok m T C G W P"
  obtains B where "uheap m B" "T \<union> C \<union> G \<union> W \<union> P \<subseteq> B" "separate T C G W P"
  using assms unfolding memory_ok_def by blast

lemma memory_leak:
  assumes "memory_ok m T C G W P" "P' \<subseteq> P"
  shows "memory_ok m T C G W P'"
proof -
  obtain B where B: "uheap m B" "T \<union> C \<union> G \<union> W \<union> P \<subseteq> B" and sp: "separate T C G W P"
    by (rule memory_okE [OF assms(1)])
  show ?thesis by (rule memory_okI [OF B(1)]) (use B(2) sp assms(2) in \<open>auto simp: separate_def\<close>)
qed

lemma separate_take:
  assumes "separate T C G W P" "p \<in> P"
  shows "separate (insert p T) C G W (P - {p})" "separate T (insert p C) G W (P - {p})"
    "separate T C (insert p G) W (P - {p})" "separate T C G (insert p W) (P - {p})"
    "p \<notin> T" "p \<notin> C" "p \<notin> G" "p \<notin> W"
  using assms unfolding separate_def by auto

lemma memory_take:
  assumes "memory_ok m T C G W P" "p \<in> P"
  shows "memory_ok m (insert p T) C G W (P - {p})" "memory_ok m T (insert p C) G W (P - {p})"
    "memory_ok m T C (insert p G) W (P - {p})" "memory_ok m T C G (insert p W) (P - {p})"
    "p \<notin> T" "p \<notin> C" "p \<notin> G" "p \<notin> W"
proof -
  obtain B where B: "uheap m B" "T \<union> C \<union> G \<union> W \<union> P \<subseteq> B" and sp: "separate T C G W P"
    by (rule memory_okE [OF assms(1)])
  note st = separate_take [OF sp assms(2)]
  show "p \<notin> T" "p \<notin> C" "p \<notin> G" "p \<notin> W" by (fact st(5-8))+
  show "memory_ok m (insert p T) C G W (P - {p})"
    by (rule memory_okI [OF B(1) _ st(1)]) (use B(2) assms(2) in auto)
  show "memory_ok m T (insert p C) G W (P - {p})"
    by (rule memory_okI [OF B(1) _ st(2)]) (use B(2) assms(2) in auto)
  show "memory_ok m T C (insert p G) W (P - {p})"
    by (rule memory_okI [OF B(1) _ st(3)]) (use B(2) assms(2) in auto)
  show "memory_ok m T C G (insert p W) (P - {p})"
    by (rule memory_okI [OF B(1) _ st(4)]) (use B(2) assms(2) in auto)
qed

lemma mid_inv_leak:
  assumes "mid_inv b E X N P s" "P' \<subseteq> P"
  shows "mid_inv b E X N P' s"
proof -
  obtain H D Q where i: "inv_but b E X N P H D Q s" by (rule mid_invE [OF assms(1)])
  have "inv_but b E X N P' H D Q s"
    using i memory_leak [OF inv_butD(7) [OF i] assms(2)] unfolding inv_but_def by blast
  then show ?thesis by (rule mid_invI)
qed

lemma mid_inv_malloc:
  assumes m: "mid_inv b E X N P s" and a: "malloc n s = Inr (p, s')" and n: "n + 16 \<le> 2 ^ 32"
  shows "mid_inv b E X N (if p = 0 then P else insert p P) s'"
    and "\<exists>m. s' = s\<lparr>mem := m\<rparr>"
proof -
  obtain m' where u: "umalloc n (mem s) = Some (p, m')" and s': "s' = s\<lparr>mem := m'\<rparr>"
    using a by (auto simp: malloc_eq_Inr)
  obtain H D Q where i: "inv_but b E X N P H D Q s" by (rule mid_invE [OF m])
  obtain B where B: "uheap (mem s) B" "dom (thds s) \<union> dom (chans s) \<union> dom (grps s) \<union> dom (wraps s) \<union> P \<subseteq> B"
    using inv_butD(7) [OF i] unfolding memory_ok_def by blast
  have B': "uheap m' (if p = 0 then B else insert p B)" by (rule um.alloc_heap [OF B(1) n u])
  have fresh: "p \<noteq> 0 \<Longrightarrow> p \<notin> B" using um.alloc_fresh [OF B(1) n u] by simp
  have "memory_ok m' (dom (thds s)) (dom (chans s)) (dom (grps s)) (dom (wraps s)) (if p = 0 then P else insert p P)"
  proof (rule memory_okI [OF B'])
    show "dom (thds s) \<union> dom (chans s) \<union> dom (grps s) \<union> dom (wraps s) \<union> (if p = 0 then P else insert p P)
        \<subseteq> (if p = 0 then B else insert p B)"
      using B(2) by auto
    show "separate (dom (thds s)) (dom (chans s)) (dom (grps s)) (dom (wraps s)) (if p = 0 then P else insert p P)"
      using inv_butD(7) [OF i] fresh B(2) unfolding memory_ok_def separate_def by auto
  qed
  then have "inv_but b E X N (if p = 0 then P else insert p P) H D Q s'"
    using i unfolding s' inv_but_def by (simp add: owners_ok_def quiet_def)
  then show "mid_inv b E X N (if p = 0 then P else insert p P) s'" by (rule mid_invI)
  show "\<exists>m. s' = s\<lparr>mem := m\<rparr>" using s' by blast
qed

section \<open>New objects\<close>

text \<open>A node of a type whose address holds no object of that type is linked nowhere.\<close>

lemma nodes_fresh:
  assumes "nodes_ok H D Q T C W"
  shows "t \<notin> T \<Longrightarrow> ThdNode t \<notin> D" "t \<notin> T \<Longrightarrow> h \<in> H \<Longrightarrow> ThdNode t \<notin> set (Q h)"
    "h \<in> H \<Longrightarrow> SendQ c \<notin> set (Q h)" "h \<in> H \<Longrightarrow> GrpQ c \<notin> set (Q h)" "h \<in> H \<Longrightarrow> RunQ k \<notin> set (Q h)"
    "h \<in> H \<Longrightarrow> RecQ k \<notin> set (Q h)" "h \<in> H \<Longrightarrow> WakeQ k \<notin> set (Q h)"
    "SendQ c \<notin> D" "GrpQ c \<notin> D" "RunQ k \<notin> D" "RecQ k \<notin> D" "WakeQ k \<notin> D"
    "w \<notin> W \<Longrightarrow> h \<in> H \<Longrightarrow> WrapNode w \<notin> set (Q h)" "WrapNode w \<notin> D"
    "ChanNode c \<in> D \<Longrightarrow> C c = Some 0" "h \<in> H \<Longrightarrow> ChanNode c \<in> set (Q h) \<Longrightarrow> \<exists>g. h = GrpQ g \<and> C c = Some g"
proof -
  have n: "h \<in> H \<Longrightarrow> n \<in> set (Q h) \<Longrightarrow> node_ok T C W h n" for h n using assms by (simp add: nodes_ok_def)
  have d: "n \<in> D \<Longrightarrow> detached_ok T C n" for n using assms by (simp add: nodes_ok_def)
  show "t \<notin> T \<Longrightarrow> h \<in> H \<Longrightarrow> ThdNode t \<notin> set (Q h)" "h \<in> H \<Longrightarrow> SendQ c \<notin> set (Q h)"
    "h \<in> H \<Longrightarrow> GrpQ c \<notin> set (Q h)" "h \<in> H \<Longrightarrow> RunQ k \<notin> set (Q h)" "h \<in> H \<Longrightarrow> RecQ k \<notin> set (Q h)"
    "h \<in> H \<Longrightarrow> WakeQ k \<notin> set (Q h)" "w \<notin> W \<Longrightarrow> h \<in> H \<Longrightarrow> WrapNode w \<notin> set (Q h)"
    "h \<in> H \<Longrightarrow> ChanNode c \<in> set (Q h) \<Longrightarrow> \<exists>g. h = GrpQ g \<and> C c = Some g"
    by (auto dest!: n simp: node_ok_def split: lnode.splits)
  show "t \<notin> T \<Longrightarrow> ThdNode t \<notin> D" "SendQ c \<notin> D" "GrpQ c \<notin> D" "RunQ k \<notin> D" "RecQ k \<notin> D" "WakeQ k \<notin> D"
    "WrapNode w \<notin> D" "ChanNode c \<in> D \<Longrightarrow> C c = Some 0"
    by (auto dest!: d simp: detached_ok_def)
qed

lemma nodes_ok_mono:
  assumes "nodes_ok H D Q T C W" "T \<subseteq> T'" "\<And>c g. C c = Some g \<Longrightarrow> C' c = Some g" "W \<subseteq> W'"
  shows "nodes_ok H D Q T' C' W'"
proof -
  have "node_ok T C W h n \<Longrightarrow> node_ok T' C' W' h n" for h n
    using assms(2-4) by (cases h) (auto simp: node_ok_def)
  moreover have "detached_ok T C n \<Longrightarrow> detached_ok T' C' n" for n
    using assms(2,3) by (auto simp: detached_ok_def)
  ultimately show ?thesis using assms(1) by (auto simp: nodes_ok_def)
qed

lemma mid_inv_new_thd:
  assumes m: "mid_inv b E X N P s" and t: "t \<in> P"
  shows "mid_inv b E X (insert t N) (P - {t}) (s\<lparr>thds := (thds s)(t \<mapsto> x)\<rparr>)"
proof -
  obtain H D Q where i: "inv_but b E X N P H D Q s" by (rule mid_invE [OF m])
  let ?s = "s\<lparr>thds := (thds s)(t \<mapsto> x)\<rparr>"
  note mt = memory_take [OF inv_butD(7) [OF i] t]
  note fr = nodes_fresh [OF inv_butD(3) [OF i]]
  have "inv_but b E X (insert t N) (P - {t}) H D Q ?s"
    unfolding inv_but_def
  proof (intro conjI)
    show "nodes_ok H D Q (dom (thds ?s)) (group_of ?s) (dom (wraps ?s))"
      by (rule nodes_ok_mono [OF inv_butD(3) [OF i]]) auto
    show "owners_ok (insert t N) ?s" using inv_butD(5) [OF i] by (auto simp: owners_ok_def)
    show "memory_ok (mem ?s) (dom (thds ?s)) (dom (chans ?s)) (dom (grps ?s)) (dom (wraps ?s)) (P - {t})"
      using mt(1) by simp
    show "\<forall>u\<in>insert t N. ThdNode u \<notin> D \<and> (\<forall>h\<in>H. ThdNode u \<notin> set (Q h))"
      using inv_butD(11,12) [OF i] fr(1,2) mt(5) by blast
    show "\<forall>u st. status_of ?s u = Some st \<longrightarrow> u \<notin> X \<longrightarrow> u \<notin> insert t N \<longrightarrow> located H D Q u st"
      using inv_butD(13) [OF i] by auto
  qed (use i in \<open>auto simp: inv_but_def quiet_def\<close>)
  then show ?thesis by (rule mid_invI)
qed

text \<open>New heads: the list store gains an empty queue per head.\<close>

lemma nodes_ok_head:
  assumes "nodes_ok H D Q T C W"
  shows "nodes_ok (insert h H) D (Q(h := [])) T C W"
  using assms by (auto simp: nodes_ok_def)

lemma located_head:
  assumes "located H D Q t st" "h \<notin> H"
  shows "located (insert h H) D (Q(h := [])) t st"
  using assms by (auto simp: located_def split: if_splits)

lemma groups_ok_head: "groups_ok H Q C \<Longrightarrow> h \<notin> H \<Longrightarrow> groups_ok (insert h H) (Q(h := [])) C"
  by (auto simp: groups_ok_def)

lemma mid_inv_new_head:
  assumes i: "inv_but b E X N P H D Q s" and h: "h \<notin> H" "h \<notin> D" "\<And>g. g \<in> H \<Longrightarrow> h \<notin> set (Q g)"
    and s': "thds s' = thds s" "wraps s' = wraps s" "kthds s' = kthds s" "lists s' = list_head_init h (lists s)"
      "raw_chan s' = raw_chan s" "current_kthd s' = current_kthd s"
    and hd: "heads_ok (insert h H) (dom (chans s')) (dom (grps s')) (hosted s' \<union> E')"
    and g: "nodes_ok H D Q (dom (thds s)) (group_of s') (dom (wraps s))" "groups_ok H Q (group_of s')"
    and mm: "memory_ok (mem s') (dom (thds s')) (dom (chans s')) (dom (grps s')) (dom (wraps s')) P'"
  shows "inv_but b E' X N P' (insert h H) D (Q(h := [])) s'"
  unfolding inv_but_def
proof (intro conjI)
  have st: "status_of s' = status_of s" by (simp add: status_of_def s' fun_eq_iff)
  have ho: "hosted s' = hosted s" by (simp add: hosted_def s')
  show "queues (lists s') (insert h H) D (Q(h := []))" using queues_init [OF inv_butD(1) [OF i] h] s' by simp
  show "nodes_ok (insert h H) D (Q(h := [])) (dom (thds s')) (group_of s') (dom (wraps s'))"
    using nodes_ok_head [OF g(1)] s' by simp
  show "owners_ok N s'" using inv_butD(5) [OF i] ho s' by (simp add: owners_ok_def)
  show "quiet s'" using inv_butD(6) [OF i] s' by (simp add: quiet_def)
  show "\<forall>t\<in>N. ThdNode t \<notin> D \<and> (\<forall>k\<in>insert h H. ThdNode t \<notin> set ((Q(h := [])) k))"
    using inv_butD(11,12) [OF i] by auto
  show "\<forall>t st. status_of s' t = Some st \<longrightarrow> t \<notin> X \<longrightarrow> t \<notin> N \<longrightarrow> located (insert h H) D (Q(h := [])) t st"
    using inv_butD(13) [OF i] located_head h(1) st by metis
  show "b \<longrightarrow> current_kthd s' \<in> hosted s'" using inv_butD(8) [OF i] s' ho by simp
qed (use i s' hd mm groups_ok_head [OF g(2) h(1)] in \<open>auto simp: inv_but_def\<close>)

lemma mid_inv_new_chan:
  assumes m: "mid_inv b E X N P s" and c: "c \<in> P" and g: "cgroup ch = 0"
  shows "mid_inv b E X N (P - {c}) (s\<lparr>chans := (chans s)(c \<mapsto> ch), lists := list_head_init (SendQ c) (lists s)\<rparr>)"
    (is "mid_inv _ _ _ _ _ ?s")
proof -
  obtain H D Q where i: "inv_but b E X N P H D Q s" by (rule mid_invE [OF m])
  note mt = memory_take [OF inv_butD(7) [OF i] c]
  note fr = nodes_fresh [OF inv_butD(3) [OF i]] and hd = inv_butD(2) [OF i]
  have gf: "group_of ?s = (group_of s)(c \<mapsto> 0)" using g by (auto simp: group_of_def)
  have old: "group_of s c = None" using mt(6) by (auto simp: group_of_def domIff)
  have "inv_but b E X N (P - {c}) (insert (SendQ c) H) D (Q(SendQ c := [])) ?s"
  proof (rule mid_inv_new_head [OF i])
    show "SendQ c \<notin> H" using mt(6) head_in(1) [OF hd] by blast
    show "heads_ok (insert (SendQ c) H) (dom (chans ?s)) (dom (grps ?s)) (hosted ?s \<union> E)"
      using hd by (auto simp: heads_ok_def)
    show "nodes_ok H D Q (dom (thds s)) (group_of ?s) (dom (wraps s))"
      by (rule nodes_ok_mono [OF inv_butD(3) [OF i]]) (use old gf in auto)
    show "groups_ok H Q (group_of ?s)" using inv_butD(4) [OF i] unfolding gf by (auto simp: groups_ok_def)
    show "memory_ok (mem ?s) (dom (thds ?s)) (dom (chans ?s)) (dom (grps ?s)) (dom (wraps ?s)) (P - {c})"
      using mt(2) by simp
  qed (use fr(3,8) in auto)
  then show ?thesis by (rule mid_invI)
qed

lemma mid_inv_new_grp:
  assumes m: "mid_inv b E X N P s" and g: "g \<in> P"
  shows "mid_inv b E X N (P - {g}) (s\<lparr>lists := list_head_init (GrpQ g) (lists s), grps := (grps s)(g \<mapsto> x)\<rparr>)"
    (is "mid_inv _ _ _ _ _ ?s")
proof -
  obtain H D Q where i: "inv_but b E X N P H D Q s" by (rule mid_invE [OF m])
  note mt = memory_take [OF inv_butD(7) [OF i] g]
  note fr = nodes_fresh [OF inv_butD(3) [OF i]] and hd = inv_butD(2) [OF i]
  have "inv_but b E X N (P - {g}) (insert (GrpQ g) H) D (Q(GrpQ g := [])) ?s"
  proof (rule mid_inv_new_head [OF i])
    show "GrpQ g \<notin> H" using mt(7) head_in(2) [OF hd] by blast
    show "heads_ok (insert (GrpQ g) H) (dom (chans ?s)) (dom (grps ?s)) (hosted ?s \<union> E)"
      using hd by (auto simp: heads_ok_def)
    show "nodes_ok H D Q (dom (thds s)) (group_of ?s) (dom (wraps s))" "groups_ok H Q (group_of ?s)"
      using inv_butD(3,4) [OF i] by simp_all
    show "memory_ok (mem ?s) (dom (thds ?s)) (dom (chans ?s)) (dom (grps ?s)) (dom (wraps ?s)) (P - {g})"
      using mt(3) by simp
  qed (use fr(4,9) in auto)
  then show ?thesis by (rule mid_invI)
qed

lemma node_ok_wrap: "w \<in> W \<Longrightarrow> node_ok T C W (WakeQ k) (WrapNode w)"
  by (simp add: node_ok_def)

lemma node_ok_chan: "C c = Some g \<Longrightarrow> node_ok T C W (GrpQ g) (ChanNode c)"
  by (simp add: node_ok_def)

lemma node_ok_other:
  assumes "n \<noteq> ChanNode c" "node_ok T C W h n"
  shows "node_ok T (C(c \<mapsto> g)) W h n"
  using assms by (cases h) (auto simp: node_ok_def)

text \<open>A wake-up cell on the wake-up queue of a kernel thread.\<close>

lemma mid_inv_new_wrap:
  assumes m: "mid_inv b E X N P s" and w: "w \<in> P" and k: "k \<in> hosted s"
  shows "mid_inv b E X N (P - {w}) (add_node (WakeQ k) (WrapNode w) (s\<lparr>wraps := (wraps s)(w \<mapsto> t)\<rparr>))"
    (is "mid_inv _ _ _ _ _ ?s")
proof -
  obtain H D Q where i: "inv_but b E X N P H D Q s" by (rule mid_invE [OF m])
  note mt = memory_take [OF inv_butD(7) [OF i] w] and fr = nodes_fresh [OF inv_butD(3) [OF i]]
    and hd = inv_butD(2) [OF i] and q = inv_butD(1) [OF i]
  have kH: "WakeQ k \<in> H" using head_in(5) [OF hd] k by blast
  let ?Q = "Q(WakeQ k := Q (WakeQ k) @ [WrapNode w])"
  have n: "nodes_ok H D Q (dom (thds s)) (group_of s) (insert w (dom (wraps s)))"
    by (rule nodes_ok_mono [OF inv_butD(3) [OF i]]) auto
  have "inv_but b E X N (P - {w}) H D ?Q ?s"
    unfolding inv_but_def
  proof (intro conjI)
    show "queues (lists ?s) H D ?Q"
      using queues_add [OF q kH head_in(8) [OF hd] fr(13) [OF mt(8)]] fr(14) by simp
    show "nodes_ok H D ?Q (dom (thds ?s)) (group_of ?s) (dom (wraps ?s))"
      using n node_ok_wrap [of w "insert w (dom (wraps s))" "dom (thds s)" "group_of s" k] by (auto simp: nodes_ok_def)
    show "groups_ok H ?Q (group_of ?s)" using inv_butD(4) [OF i] by (simp add: groups_ok_def)
    show "memory_ok (mem ?s) (dom (thds ?s)) (dom (chans ?s)) (dom (grps ?s)) (dom (wraps ?s)) (P - {w})"
      using mt(4) by simp
    show "\<forall>u\<in>N. ThdNode u \<notin> D \<and> (\<forall>h\<in>H. ThdNode u \<notin> set (?Q h))" using inv_butD(11,12) [OF i] by auto
    show "\<forall>u st. status_of ?s u = Some st \<longrightarrow> u \<notin> X \<longrightarrow> u \<notin> N \<longrightarrow> located H D ?Q u st"
      by (intro allI impI, rule located_mono [OF inv_butD(13) [OF i]]) auto
  qed (use i in \<open>auto simp: inv_but_def owners_ok_def quiet_def\<close>)
  then show ?thesis by (rule mid_invI)
qed

section \<open>Groups\<close>

lemma mid_inv_join_group:
  assumes m: "mid_inv b E X N P s" and c: "chans s c = Some ch" "cgroup ch = 0" "cgroup ch' = g"
    and g: "g \<in> dom (grps s)"
  shows "mid_inv b E X N P (append_node (GrpQ g) (ChanNode c) (s\<lparr>chans := (chans s)(c \<mapsto> ch')\<rparr>))"
    (is "mid_inv _ _ _ _ _ ?s")
proof -
  obtain H D Q where i: "inv_but b E X N P H D Q s" by (rule mid_invE [OF m])
  note fr = nodes_fresh [OF inv_butD(3) [OF i]] and hd = inv_butD(2) [OF i] and q = inv_butD(1) [OF i]
  have gH: "GrpQ g \<in> H" using head_in(2) [OF hd] g by blast
  have cg: "group_of s c = Some 0" using c by (simp add: group_of_def)
  have out: "ChanNode c \<notin> set (Q h)" if h: "h \<in> H" for h
  proof
    assume "ChanNode c \<in> set (Q h)"
    then have "h = GrpQ 0" using fr(16) [OF h, of c] cg by auto
    moreover have "0 \<notin> dom (grps s)"
    proof -
      obtain B where "uheap (mem s) B" "dom (grps s) \<subseteq> B" using inv_butD(7) [OF i] by (auto elim: memory_okE)
      then show ?thesis using um.heap_nonnull by blast
    qed
    ultimately show False using head_in(2) [OF hd] h by blast
  qed
  let ?Q = "Q(GrpQ g := insert_before_last (ChanNode c) (Q (GrpQ g)))" and ?D = "D - {ChanNode c}"
  have gf: "group_of ?s = (group_of s)(c \<mapsto> g)" using c(3) by simp
  have d: "dom (chans ?s) = dom (chans s)" using c(1) by auto
  have keep: "n \<in> set (Q k) \<Longrightarrow> n \<in> set (?Q k)" for n k by auto
  have "inv_but b E X N P H ?D ?Q ?s"
    unfolding inv_but_def
  proof (intro conjI)
    show "queues (lists ?s) H ?D ?Q"
      using queues_append [OF q gH head_in(7) [OF hd] out] by simp
    have "node_ok (dom (thds s)) (group_of ?s) (dom (wraps s)) h n"
      if "h \<in> H" "n \<in> set (Q h)" for h n
    proof -
      have "n \<noteq> ChanNode c" using out [OF that(1)] that(2) by blast
      moreover have "node_ok (dom (thds s)) (group_of s) (dom (wraps s)) h n"
        using inv_butD(3) [OF i] that by (simp add: nodes_ok_def)
      ultimately show ?thesis unfolding gf by (rule node_ok_other)
    qed
    moreover have "detached_ok (dom (thds s)) (group_of ?s) n" if "n \<in> ?D" for n
      using that inv_butD(3) [OF i] unfolding gf by (auto simp: nodes_ok_def detached_ok_def)
    ultimately show "nodes_ok H ?D ?Q (dom (thds ?s)) (group_of ?s) (dom (wraps ?s))"
      using node_ok_chan [of "group_of ?s" c g] gf c(3) by (auto simp: nodes_ok_def)
    show "groups_ok H ?Q (group_of ?s)" using inv_butD(4) [OF i] gH unfolding gf by (auto simp: groups_ok_def)
    show "heads_ok H (dom (chans ?s)) (dom (grps ?s)) (hosted ?s \<union> E)" using hd d by simp
    show "memory_ok (mem ?s) (dom (thds ?s)) (dom (chans ?s)) (dom (grps ?s)) (dom (wraps ?s)) P"
      using inv_butD(7) [OF i] d by simp
    show "\<forall>u\<in>N. ThdNode u \<notin> ?D \<and> (\<forall>h\<in>H. ThdNode u \<notin> set (?Q h))" using inv_butD(11,12) [OF i] by auto
    show "\<forall>u\<in>X. ThdNode u \<in> ?D" using inv_butD(10) [OF i] by auto
    show "\<forall>u st. status_of ?s u = Some st \<longrightarrow> u \<notin> X \<longrightarrow> u \<notin> N \<longrightarrow> located H ?D ?Q u st"
      by (intro allI impI, rule located_mono [OF inv_butD(13) [OF i]]) auto
  qed (use i in \<open>auto simp: inv_but_def owners_ok_def quiet_def\<close>)
  then show ?thesis by (rule mid_invI)
qed

lemma mid_inv_leave_group:
  assumes m: "mid_inv b E X N P s" and c: "chans s c = Some ch" "cgroup ch = g" "g \<noteq> 0" "cgroup ch' = 0"
  shows "mid_inv b E X N P (rem_node (ChanNode c) (s\<lparr>chans := (chans s)(c \<mapsto> ch')\<rparr>))"
    (is "mid_inv _ _ _ _ _ ?s")
proof -
  obtain H D Q where i: "inv_but b E X N P H D Q s" by (rule mid_invE [OF m])
  note fr = nodes_fresh [OF inv_butD(3) [OF i]] and hd = inv_butD(2) [OF i] and q = inv_butD(1) [OF i]
  have cg: "group_of s c = Some g" using c by (simp add: group_of_def)
  then have gH: "GrpQ g \<in> H" and cq: "ChanNode c \<in> set (Q (GrpQ g))"
    using inv_butD(4) [OF i] c(3) by (auto simp: groups_ok_def)
  let ?Q = "Q(GrpQ g := remove1 (ChanNode c) (Q (GrpQ g)))" and ?D = "insert (ChanNode c) D"
  have gf: "group_of ?s = (group_of s)(c \<mapsto> 0)" using c(4) by simp
  have d: "dom (chans ?s) = dom (chans s)" using c(1) by auto
  have keep: "n \<noteq> ChanNode c \<Longrightarrow> n \<in> set (Q k) \<Longrightarrow> n \<in> set (?Q k)" for n k by auto
  have sub: "n \<in> set (?Q k) \<Longrightarrow> n \<in> set (Q k)" for n k using set_remove1_subset [of "ChanNode c" "Q (GrpQ g)"] by (auto split: if_splits)
  have "inv_but b E X N P H ?D ?Q ?s"
    unfolding inv_but_def
  proof (intro conjI)
    show "queues (lists ?s) H ?D ?Q" using queues_rem [OF q gH cq] by simp
    have "node_ok (dom (thds s)) (group_of ?s) (dom (wraps s)) h n"
      if "h \<in> H" "n \<in> set (?Q h)" for h n
    proof -
      have "n \<noteq> ChanNode c" using lq.removed_free [OF q gH cq that(1)] that(2) by blast
      moreover have "node_ok (dom (thds s)) (group_of s) (dom (wraps s)) h n"
        using inv_butD(3) [OF i] that(1) sub [OF that(2)] by (simp add: nodes_ok_def)
      ultimately show ?thesis unfolding gf by (rule node_ok_other)
    qed
    moreover have "detached_ok (dom (thds s)) (group_of ?s) n" if "n \<in> ?D" for n
      using that inv_butD(3) [OF i] unfolding gf by (auto simp: nodes_ok_def detached_ok_def)
    ultimately show "nodes_ok H ?D ?Q (dom (thds ?s)) (group_of ?s) (dom (wraps ?s))"
      by (simp add: nodes_ok_def)
    show "groups_ok H ?Q (group_of ?s)"
      using inv_butD(4) [OF i] keep unfolding gf groups_ok_def by (metis fun_upd_apply lnode.inject(2) option.inject)
    show "heads_ok H (dom (chans ?s)) (dom (grps ?s)) (hosted ?s \<union> E)" using hd d by simp
    show "memory_ok (mem ?s) (dom (thds ?s)) (dom (chans ?s)) (dom (grps ?s)) (dom (wraps ?s)) P"
      using inv_butD(7) [OF i] d by simp
    show "\<forall>u\<in>N. ThdNode u \<notin> ?D \<and> (\<forall>h\<in>H. ThdNode u \<notin> set (?Q h))"
      using inv_butD(11,12) [OF i] sub by blast
    show "\<forall>u st. status_of ?s u = Some st \<longrightarrow> u \<notin> X \<longrightarrow> u \<notin> N \<longrightarrow> located H ?D ?Q u st"
      by (intro allI impI, rule located_mono [OF inv_butD(13) [OF i]]) auto
  qed (use i in \<open>auto simp: inv_but_def owners_ok_def quiet_def\<close>)
  then show ?thesis by (rule mid_invI)
qed

section \<open>Release\<close>

lemma queues_drop:
  assumes "queues L H D Q" "H' \<subseteq> H" "D' \<subseteq> D"
  shows "queues L H' D' Q"
  using assms unfolding queues_def by blast

lemma memory_free:
  assumes m: "memory_ok m T C G W P" and p: "p \<in> C \<union> G" and f: "ufree p m = Some m'"
  shows "memory_ok m' T (C - {p}) (G - {p}) W P"
proof -
  obtain B where B: "uheap m B" "T \<union> C \<union> G \<union> W \<union> P \<subseteq> B" "separate T C G W P" by (rule memory_okE [OF m])
  then have pB: "p \<in> B" using p by auto
  have "uheap m' (B - {p})" using um.free_ok [OF B(1) pB] f by auto
  then show ?thesis by (rule memory_okI) (use B(2,3) p in \<open>auto simp: separate_def\<close>)
qed

text \<open>Heads with an empty queue and channels in no group can be forgotten.\<close>

lemma mid_inv_free_chan:
  assumes m: "mid_inv b E X N P s" and c: "chans s c = Some ch" "cgroup ch = 0" "list_head_empty (SendQ c) (lists s)"
    and f: "mfree c s = Inr s1"
  shows "mid_inv b E X N P (s1\<lparr>chans := (chans s1)(c := None), raw_chan := (raw_chan s1)(c := ch)\<rparr>)"
    (is "mid_inv _ _ _ _ _ ?s")
proof -
  obtain m' where u: "ufree c (mem s) = Some m'" and s1: "s1 = s\<lparr>mem := m'\<rparr>" using f by (auto simp: mfree_eq_Inr)
  obtain H D Q where i: "inv_but b E X N P H D Q s" by (rule mid_invE [OF m])
  note hd = inv_butD(2) [OF i] and q = inv_butD(1) [OF i] and mm = inv_butD(7) [OF i]
  have cH: "SendQ c \<in> H" using head_in(1) [OF hd] c(1) by blast
  have e: "Q (SendQ c) = []" using lq.empty_rep [OF q cH] c(3) by simp
  have gf: "group_of ?s = (group_of s)(c := None)" by (auto simp: group_of_def s1)
  have cg: "group_of s c = Some 0" using c by (simp add: group_of_def)
  have ng: "c \<notin> dom (grps s)" using mm c(1) unfolding memory_ok_def separate_def by blast
  have nz: "GrpQ 0 \<notin> H"
  proof -
    obtain B where "uheap (mem s) B" "dom (grps s) \<subseteq> B" using mm by (auto elim: memory_okE)
    then show ?thesis using um.heap_nonnull head_in(2) [OF hd] by blast
  qed
  let ?H = "H - {SendQ c}" and ?D = "D - {ChanNode c}"
  have "inv_but b E X N P ?H ?D Q ?s"
    unfolding inv_but_def
  proof (intro conjI)
    show "queues (lists ?s) ?H ?D Q" using queues_drop [OF q] s1 by simp
    show "heads_ok ?H (dom (chans ?s)) (dom (grps ?s)) (hosted ?s \<union> E)"
      using hd unfolding heads_ok_def s1 by auto
    have "node_ok (dom (thds s)) (group_of ?s) (dom (wraps s)) h n" if "h \<in> ?H" "n \<in> set (Q h)" for h n
    proof -
      have n: "node_ok (dom (thds s)) (group_of s) (dom (wraps s)) h n"
        using inv_butD(3) [OF i] that by (simp add: nodes_ok_def)
      have "n \<noteq> ChanNode c"
        using nodes_fresh(16) [OF inv_butD(3) [OF i], of h c] that cg nz by auto
      then show ?thesis using n unfolding gf by (cases h) (auto simp: node_ok_def)
    qed
    moreover have "detached_ok (dom (thds s)) (group_of ?s) n" if "n \<in> ?D" for n
      using that inv_butD(3) [OF i] unfolding gf by (auto simp: nodes_ok_def detached_ok_def)
    ultimately show "nodes_ok ?H ?D Q (dom (thds ?s)) (group_of ?s) (dom (wraps ?s))"
      by (simp add: nodes_ok_def s1)
    show "groups_ok ?H Q (group_of ?s)" using inv_butD(4) [OF i] unfolding gf by (auto simp: groups_ok_def)
    show "owners_ok N ?s" using inv_butD(5) [OF i] by (simp add: owners_ok_def s1)
    show "quiet ?s" using inv_butD(6) [OF i] c(2) by (simp add: quiet_def s1)
    show "memory_ok (mem ?s) (dom (thds ?s)) (dom (chans ?s)) (dom (grps ?s)) (dom (wraps ?s)) P"
      using memory_free [OF mm _ u] c(1) ng by (auto simp: s1)
    show "\<forall>t\<in>X. ThdNode t \<in> ?D" using inv_butD(10) [OF i] by blast
    show "\<forall>t\<in>N. ThdNode t \<notin> ?D \<and> (\<forall>h\<in>?H. ThdNode t \<notin> set (Q h))" using inv_butD(11,12) [OF i] by blast
    show "\<forall>u st. status_of ?s u = Some st \<longrightarrow> u \<notin> X \<longrightarrow> u \<notin> N \<longrightarrow> located ?H ?D Q u st"
    proof (intro allI impI)
      fix u st assume "status_of ?s u = Some st" "u \<notin> X" "u \<notin> N"
      then have "located H D Q u st" using inv_butD(13) [OF i] s1 by simp
      then show "located ?H ?D Q u st" using e unfolding located_def by (auto split: if_splits)
    qed
  qed (use i in \<open>auto simp: inv_but_def s1\<close>)
  then show ?thesis by (rule mid_invI)
qed

lemma mid_inv_free_grp:
  assumes m: "mid_inv b E X N P s" and g: "grps s g = Some x" "g \<noteq> 0" "list_head_empty (GrpQ g) (lists s)"
    and f: "mfree g s = Inr s1"
  shows "mid_inv b E X N P (s1\<lparr>grps := (grps s1)(g := None)\<rparr>)"
    (is "mid_inv _ _ _ _ _ ?s")
proof -
  obtain m' where u: "ufree g (mem s) = Some m'" and s1: "s1 = s\<lparr>mem := m'\<rparr>" using f by (auto simp: mfree_eq_Inr)
  obtain H D Q where i: "inv_but b E X N P H D Q s" by (rule mid_invE [OF m])
  note hd = inv_butD(2) [OF i] and q = inv_butD(1) [OF i] and mm = inv_butD(7) [OF i]
  have gH: "GrpQ g \<in> H" using head_in(2) [OF hd] g(1) by blast
  have e: "Q (GrpQ g) = []" using lq.empty_rep [OF q gH] g(3) by simp
  have ng: "g \<notin> dom (chans s)" using mm g(1) unfolding memory_ok_def separate_def by blast
  let ?H = "H - {GrpQ g}"
  have "inv_but b E X N P ?H D Q ?s"
    unfolding inv_but_def
  proof (intro conjI)
    show "queues (lists ?s) ?H D Q" using queues_drop [OF q] s1 by simp
    show "heads_ok ?H (dom (chans ?s)) (dom (grps ?s)) (hosted ?s \<union> E)"
      using hd unfolding heads_ok_def s1 by auto
    show "nodes_ok ?H D Q (dom (thds ?s)) (group_of ?s) (dom (wraps ?s))"
      using inv_butD(3) [OF i] by (simp add: nodes_ok_def s1)
    show "groups_ok ?H Q (group_of ?s)" using inv_butD(4) [OF i] e by (fastforce simp: groups_ok_def s1)
    show "owners_ok N ?s" using inv_butD(5) [OF i] by (simp add: owners_ok_def s1)
    show "quiet ?s" using inv_butD(6) [OF i] by (simp add: quiet_def s1)
    show "memory_ok (mem ?s) (dom (thds ?s)) (dom (chans ?s)) (dom (grps ?s)) (dom (wraps ?s)) P"
      using memory_free [OF mm _ u] g(1) ng by (auto simp: s1)
    show "\<forall>t\<in>N. ThdNode t \<notin> D \<and> (\<forall>h\<in>?H. ThdNode t \<notin> set (Q h))" using inv_butD(11,12) [OF i] by blast
    show "\<forall>u st. status_of ?s u = Some st \<longrightarrow> u \<notin> X \<longrightarrow> u \<notin> N \<longrightarrow> located ?H D Q u st"
    proof (intro allI impI)
      fix u st assume "status_of ?s u = Some st" "u \<notin> X" "u \<notin> N"
      then have "located H D Q u st" using inv_butD(13) [OF i] s1 by simp
      then show "located ?H D Q u st" using e unfolding located_def by (auto split: if_splits)
    qed
  qed (use i in \<open>auto simp: inv_but_def s1\<close>)
  then show ?thesis by (rule mid_invI)
qed

section \<open>Kernel threads\<close>

lemma heads_ok_kthd:
  "heads_ok H C G K \<Longrightarrow> heads_ok (insert (WakeQ k) (insert (RecQ k) (insert (RunQ k) H))) C G (insert k K)"
  unfolding heads_ok_def by (simp only: image_insert) blast

lemma mid_inv_init_kthd:
  assumes m: "mid_inv b E X N P s" and k: "k \<notin> hosted s \<union> E"
  shows "mid_inv b (insert k E) X N P (init_kthd k s)"
proof -
  obtain H D Q where i: "inv_but b E X N P H D Q s" by (rule mid_invE [OF m])
  note hd = inv_butD(2) [OF i] and q = inv_butD(1) [OF i] and fr = nodes_fresh [OF inv_butD(3) [OF i]]
  have new: "RunQ k \<notin> H" "RecQ k \<notin> H" "WakeQ k \<notin> H" using head_in(3-5) [OF hd] k by auto
  let ?Q = "Q(RunQ k := [], RecQ k := [], WakeQ k := [])" and ?s = "init_kthd k s"
  let ?H = "insert (WakeQ k) (insert (RecQ k) (insert (RunQ k) H))"
  have "inv_but b (insert k E) X N P ?H D ?Q ?s"
    unfolding inv_but_def
  proof (intro conjI)
    have "queues (list_head_init (RunQ k) (lists s)) (insert (RunQ k) H) D (Q(RunQ k := []))"
      by (rule queues_init [OF q new(1) fr(10,5)])
    then have "queues (list_head_init (RecQ k) (list_head_init (RunQ k) (lists s)))
        (insert (RecQ k) (insert (RunQ k) H)) D (Q(RunQ k := [], RecQ k := []))"
      by (rule queues_init) (use new(2) fr(6) [of _ k] fr(11) [of k] in auto)
    then have "queues (list_head_init (WakeQ k) (list_head_init (RecQ k) (list_head_init (RunQ k) (lists s)))) ?H D ?Q"
      by (rule queues_init) (use new(3) fr(7) [of _ k] fr(12) [of k] in auto)
    then show "queues (lists ?s) ?H D ?Q" by (simp add: init_kthd_def Let_def)
    have ho: "hosted ?s = hosted s" by (auto simp: hosted_def init_kthd_def Let_def)
    have gf: "group_of ?s = group_of s" "status_of ?s = status_of s" by (simp_all add: init_kthd_def Let_def)
    show "heads_ok ?H (dom (chans ?s)) (dom (grps ?s)) (hosted ?s \<union> insert k E)"
      using heads_ok_kthd [OF hd, of k] ho by (simp add: init_kthd_def Let_def)
    show "nodes_ok ?H D ?Q (dom (thds ?s)) (group_of ?s) (dom (wraps ?s))"
      using inv_butD(3) [OF i] gf by (auto simp: nodes_ok_def init_kthd_def Let_def)
    show "groups_ok ?H ?Q (group_of ?s)" using inv_butD(4) [OF i] gf by (simp add: groups_ok_def)
    show "owners_ok N ?s" using inv_butD(5) [OF i] ho by (simp add: owners_ok_def init_kthd_def Let_def)
    show "quiet ?s" using inv_butD(6) [OF i] by (simp add: quiet_def init_kthd_def Let_def)
    show "b \<longrightarrow> current_kthd ?s \<in> hosted ?s" using inv_butD(8) [OF i] ho by (simp add: init_kthd_def Let_def)
    show "\<forall>t\<in>N. ThdNode t \<notin> D \<and> (\<forall>h\<in>?H. ThdNode t \<notin> set (?Q h))" using inv_butD(11,12) [OF i] by auto
    show "\<forall>u st. status_of ?s u = Some st \<longrightarrow> u \<notin> X \<longrightarrow> u \<notin> N \<longrightarrow> located ?H D ?Q u st"
      unfolding gf by (intro allI impI, rule located_mono [OF inv_butD(13) [OF i]]) (use new in auto)
  qed (use i in \<open>auto simp: inv_but_def init_kthd_def Let_def\<close>)
  then show ?thesis by (rule mid_invI)
qed

lemma mid_inv_host:
  assumes m: "mid_inv b (insert k E) X N P s" and t: "main_thread x \<noteq> 0" "polling_flag x = 0"
    and E: "k \<notin> E"
  shows "mid_inv b E X N P (s\<lparr>kthds := (kthds s)(k := x)\<rparr>)" (is "mid_inv _ _ _ _ _ ?s")
    and "hosted (s\<lparr>kthds := (kthds s)(k := x)\<rparr>) = insert k (hosted s)"
proof -
  show ho: "hosted ?s = insert k (hosted s)" using t by (auto simp: hosted_def)
  obtain H D Q where i: "inv_but b (insert k E) X N P H D Q s" by (rule mid_invE [OF m])
  have "heads_ok H (dom (chans ?s)) (dom (grps ?s)) (hosted ?s \<union> E)" using inv_butD(2) [OF i] ho by simp
  moreover have "owners_ok N ?s" using inv_butD(5) [OF i] ho by (simp add: owners_ok_def)
  moreover have "quiet ?s" using inv_butD(6) [OF i] t by (simp add: quiet_def)
  moreover have "b \<longrightarrow> current_kthd ?s \<in> hosted ?s" using inv_butD(8) [OF i] ho by simp
  ultimately have "inv_but b E X N P H D Q ?s" using i unfolding inv_but_def by simp
  then show "mid_inv b E X N P ?s" by (rule mid_invI)
qed

end
