(* ===== verification/Lwt_Preserve.thy ===== *)
theory Lwt_Preserve
  imports Lwt_Objects
begin

text \<open>
  Every operation of the library preserves the invariant, whenever it returns; hence
  every step of the machine does, and the invariant holds in every reachable state.
\<close>

named_theorems keeps \<open>operations preserve the invariant\<close>

section \<open>Scheduling\<close>

lemma code_label_other [simp]: "l \<noteq> Trampoline \<longleftrightarrow> l = RetDispatch"
  by (cases l) simp_all

lemma block_status_other [simp]: "w \<noteq> BLOCKED_RECEIVING \<longleftrightarrow> w = BLOCKED_SENDING"
  by (cases w) simp_all

lemma inv_current: "mid_inv True E X N P s \<Longrightarrow> current_kthd s \<in> hosted s"
  by (auto simp: mid_inv_def inv_but_def)

lemma inv_quiet: "mid_inv b E X N P s \<Longrightarrow> polling_flag (kthds s k) = 0"
  by (auto simp: mid_inv_def inv_but_def quiet_def)

lemma inv_raw: "mid_inv b E X N P s \<Longrightarrow> cgroup (raw_chan s p) = 0"
  by (auto simp: mid_inv_def inv_but_def quiet_def)

lemma inv_owner: "mid_inv b E X N P s \<Longrightarrow> thds s t = Some x \<Longrightarrow> t \<notin> N \<Longrightarrow> owner_kthd x \<in> hosted s"
  by (auto simp: mid_inv_def inv_but_def owners_ok_def)

lemma run_head: "heads_ok H C G K \<Longrightarrow> k \<in> K \<Longrightarrow> RunQ k \<in> H"
  by (simp add: head_in)

lemma poll_quiet: "polling_flag (kthds s (current_kthd s)) = 0 \<Longrightarrow> poll_wakeups s = Inr s"
  by (simp add: poll_wakeups_def Let_def)

text \<open>Counters and the current thread of a kernel thread are no part of the invariant.\<close>

lemma mid_inv_kthd_do:
  assumes "mid_inv b E X N P s" "\<And>i. polling_flag (f i) = polling_flag i" "\<And>i. main_thread (f i) = main_thread i"
  shows "mid_inv b E X N P (kthd_do k f s)"
  using mid_inv_kthd [OF assms(1), of "f (kthds s k)" k] inv_quiet [OF assms(1)] assms(2,3) by simp

lemma lwt_dispatch_keeps [keeps]:
  assumes "lwt_dispatch old new s = Inr (v, s')" "mid_inv b E X N P s"
  shows "mid_inv b E X N P s'"
proof -
  obtain x where x: "old \<noteq> 0" "thds s old = Some x"
    using assms(1) by (auto simp: lwt_dispatch_def res_elims)
  let ?s1 = "s\<lparr>thds := (thds s)(old \<mapsto> x\<lparr>ctx := (ctx x)\<lparr>ip := RetDispatch\<rparr>\<rparr>)\<rparr>"
  have "mid_inv b E X N P ?s1" by (rule mid_inv_thd [OF assms(2) x(2)]) simp_all
  then show ?thesis
    using assms(1) x by (auto simp: lwt_dispatch_def res_elims split: code_label.splits)
qed

lemma lwt_schedule_keeps [keeps]:
  assumes r: "lwt_schedule s = Inr (v, s')" and i: "mid_inv True E X N P s"
  shows "mid_inv True E X N P s'"
proof -
  let ?k = "current_kthd s"
  obtain t x where t: "list_head_first (RunQ ?k) (lists s) = ThdNode t" "thds s t = Some x"
    and d: "lwt_dispatch (lwt_current s) t (kthd_do ?k (\<lambda>i. i\<lparr>current_thread := t\<rparr>)
      (s\<lparr>thds := (thds s)(t \<mapsto> x\<lparr>tstate := LWT_RUNNING\<rparr>)\<rparr>)) = Inr (v, s')"
    using r inv_quiet [OF i]
    by (auto simp: lwt_schedule_def res_elims Let_def poll_quiet current_run_queue_def)
  have "mid_inv True E X N P (s\<lparr>thds := (thds s)(t \<mapsto> x\<lparr>tstate := LWT_RUNNING\<rparr>)\<rparr>)"
    by (rule mid_inv_run [OF i _ t refl]) (simp add: inv_current [OF i])
  from lwt_dispatch_keeps [OF d] mid_inv_kthd_do [OF this] show ?thesis by simp
qed

lemma lwt_yield_keeps [keeps]:
  assumes r: "lwt_yield to s = Inr (v, s')" and i: "mid_inv True E {} {} P s"
  shows "mid_inv True E {} {} P s'"
proof -
  have move: "mid_inv True E {} {} P (add_node (RunQ k) (ThdNode t) (rem_node (ThdNode t) s))"
    "mid_inv True E {} {} P (append_node (RunQ k) (ThdNode t) (rem_node (ThdNode t) s))"
    if t: "thds s t = Some x" "may_run x" and k: "k \<in> hosted s" for t x k
  proof -
    have m: "mid_inv True E {t} {} P (rem_node (ThdNode t) s)" by (rule mid_inv_rem [OF i]) (use t in auto)
    show "mid_inv True E {} {} P (add_node (RunQ k) (ThdNode t) (rem_node (ThdNode t) s))"
      using mid_inv_add [OF m, of t x "RunQ k"] t k by (auto simp: may_run_def intro: run_head)
    show "mid_inv True E {} {} P (append_node (RunQ k) (ThdNode t) (rem_node (ThdNode t) s))"
      using mid_inv_append [OF m, of t x "RunQ k"] t k by (auto simp: may_run_def intro: run_head)
  qed
  show ?thesis
    using r i move lwt_schedule_keeps inv_owner [OF i]
    unfolding lwt_yield_def Let_def owner_run_queue_def
    by (auto simp: res_elims simp del: add_node_def append_node_def split: if_splits)
qed

section \<open>Blocking and resuming\<close>

text \<open>A live thread is taken off its queue and marked.\<close>

lemma mid_inv_mark:
  assumes "mid_inv b E {} {} P s" "thds s t = Some x" "owner_kthd y = owner_kthd x"
  shows "mid_inv b E {t} {} P (s\<lparr>lists := list_ll_rem (ThdNode t) (lists s), thds := (thds s)(t \<mapsto> y)\<rparr>)"
proof -
  have "mid_inv b E {t} {} P (rem_node (ThdNode t) s)" by (rule mid_inv_rem [OF assms(1)]) (use assms(2) in auto)
  from mid_inv_status [OF this, of t x y] assms show ?thesis by simp
qed

lemma block_receiving_inv:
  assumes "mid_inv b E {} {} P s" "thds s t = Some x" "owner_kthd y = owner_kthd x"
    "tstate y = LWT_BLOCKED" "block_for y = BLOCKED_RECEIVING"
  shows "mid_inv b E {} {} P (s\<lparr>lists := list_ll_rem (ThdNode t) (lists s), thds := (thds s)(t \<mapsto> y)\<rparr>)"
  using mid_inv_park [OF mid_inv_mark [OF assms(1-3)], of t y] assms(4,5) by simp

lemma block_sending_inv:
  assumes "mid_inv b E {} {} P s" "thds s t = Some x" "owner_kthd y = owner_kthd x"
    "tstate y = LWT_BLOCKED" "block_for y = BLOCKED_SENDING" "c \<in> dom (chans s)"
  shows "mid_inv b E {} {} P (s\<lparr>lists := list_head_add (SendQ c) (ThdNode t) (list_ll_rem (ThdNode t) (lists s)),
    thds := (thds s)(t \<mapsto> y)\<rparr>)" (is "mid_inv _ _ _ _ _ ?s")
proof -
  let ?m = "s\<lparr>lists := list_ll_rem (ThdNode t) (lists s), thds := (thds s)(t \<mapsto> y)\<rparr>"
  have eq: "add_node (SendQ c) (ThdNode t) ?m = ?s" by (cases s) simp
  have "mid_inv b E ({t} - {t}) ({} - {t}) P (add_node (SendQ c) (ThdNode t) ?m)"
    by (rule mid_inv_add [OF mid_inv_mark [OF assms(1-3)]]) (use assms(4-6) in \<open>auto simp: head_in\<close>)
  then show ?thesis unfolding eq by simp
qed

lemma block_thread_keeps [keeps]:
  assumes r: "block_thread t why c s = Inr (v, s')" and i: "mid_inv True E {} {} P s"
    and c: "why = BLOCKED_SENDING \<Longrightarrow> c \<in> dom (chans s)"
  shows "mid_inv True E {} {} P s'"
proof -
  let ?k = "current_kthd s" and ?L = "list_ll_rem (ThdNode t) (lists s)"
  obtain x where x: "t \<noteq> 0" "thds s t = Some x"
    using r by (cases why) (auto simp: block_thread_def Let_def res_elims)
  let ?y = "x\<lparr>tstate := LWT_BLOCKED, block_for := why\<rparr>"
  show ?thesis
  proof (cases why)
    case BLOCKED_RECEIVING
    have m: "mid_inv True E {} {} P (s\<lparr>lists := ?L, thds := (thds s)(t \<mapsto> ?y)\<rparr>)"
      by (rule block_receiving_inv [OF i x(2)]) (simp_all add: BLOCKED_RECEIVING)
    have "lwt_yield 0 (kthd_do ?k (\<lambda>i. i\<lparr>nrcving := nrcving i + 1, block_counter := block_counter i + 1\<rparr>)
        (s\<lparr>lists := ?L, thds := (thds s)(t \<mapsto> ?y)\<rparr>)) = Inr (v, s')"
      using r x BLOCKED_RECEIVING by (simp add: block_thread_def Let_def)
    then show ?thesis by (rule lwt_yield_keeps) (rule mid_inv_kthd_do [OF m], simp_all)
  next
    case BLOCKED_SENDING
    let ?L = "list_head_add (SendQ c) (ThdNode t) ?L"
    have m: "mid_inv True E {} {} P (s\<lparr>lists := ?L, thds := (thds s)(t \<mapsto> ?y)\<rparr>)"
      by (rule block_sending_inv [OF i x(2)]) (simp_all add: BLOCKED_SENDING c)
    have "lwt_yield 0 (kthd_do ?k (\<lambda>i. i\<lparr>nsnding := nsnding i + 1, block_counter := block_counter i + 1\<rparr>)
        (s\<lparr>lists := ?L, thds := (thds s)(t \<mapsto> ?y)\<rparr>)) = Inr (v, s')"
      using r x BLOCKED_SENDING by (simp add: block_thread_def Let_def)
    then show ?thesis by (rule lwt_yield_keeps) (rule mid_inv_kthd_do [OF m], simp_all)
  qed
qed

lemma resume_thread_keeps [keeps]:
  assumes r: "resume_thread t s = Inr s'" and i: "mid_inv b E {} {} P s"
  shows "mid_inv b E {} {} P s'"
proof -
  let ?k = "current_kthd s"
  obtain x where x: "t \<noteq> 0" "thds s t = Some x" using r by (auto simp: resume_thread_def Let_def res_elims)
  let ?y = "x\<lparr>tstate := LWT_RUNNABLE\<rparr>"
  let ?f = "\<lambda>i. i\<lparr>nrcving := nrcving i - (if block_for x = BLOCKED_RECEIVING then 1 else 0),
      nsnding := nsnding i - (if block_for x = BLOCKED_SENDING then 1 else 0), block_counter := block_counter i - 1\<rparr>"
  let ?m = "s\<lparr>lists := list_ll_rem (ThdNode t) (lists s), thds := (thds s)(t \<mapsto> ?y)\<rparr>"
  let ?s = "kthd_do ?k ?f ?m"
  have "mid_inv b E {t} {} P ?m"
    by (rule mid_inv_mark [OF i x(2)]) simp
  then have m: "mid_inv b E {t} {} P ?s" by (rule mid_inv_kthd_do) simp_all
  obtain q where q: "owner_run_queue ?s = Inr q" "s' = append_node q (ThdNode t) ?s"
    using r x by (auto simp: resume_thread_def Let_def res_elims)
  then obtain cx where cx: "thds ?s (lwt_current ?s) = Some cx" "q = RunQ (owner_kthd cx)"
    unfolding owner_run_queue_def by (auto simp only: res_elims thd_eq_Inr sum.inject)
  then obtain k where k: "q = RunQ k" "k \<in> hosted ?s" using inv_owner [OF m cx(1)] by blast
  have "mid_inv b E ({t} - {t}) ({} - {t}) P (append_node q (ThdNode t) ?s)"
    unfolding k(1) by (rule mid_inv_append [OF m]) (use k(2) in \<open>auto intro: run_head\<close>)
  then show ?thesis using q(2) by simp
qed

lemma upd_thd_keeps:
  assumes "upd_thd t f s = Inr s'" "mid_inv b E X N P s"
    "\<And>x. tstate (f x) = tstate x" "\<And>x. block_for (f x) = block_for x" "\<And>x. owner_kthd (f x) = owner_kthd x"
  shows "mid_inv b E X N P s'"
  using assms mid_inv_thd [OF assms(2)] by auto

lemma upd_chan_keeps:
  assumes "upd_chan c f s = Inr s'" "mid_inv b E X N P s" "\<And>x. cgroup (f x) = cgroup x"
  shows "mid_inv b E X N P s'"
  using assms mid_inv_chan [OF assms(2)] by auto

lemma upd_grp_keeps:
  assumes "upd_grp c f s = Inr s'" "mid_inv b E X N P s"
  shows "mid_inv b E X N P s'"
  using assms mid_inv_grp [OF assms(2)] by auto

section \<open>Channels\<close>

lemma init_chan_keeps:
  assumes r: "init_chan c sz s = Inr s'" and i: "mid_inv b E X N {c} s" and sz: "0 \<le> sz" "4 * sz + 16 \<le> 2 ^ 32"
  shows "mid_inv b E X N {} s'" "thds s' = thds s" "kthds s' = kthds s" "current_kthd s' = current_kthd s"
proof -
  let ?n = "nat ((sz * int sizeof_uint) mod 2 ^ 32)"
  obtain d s1 where a: "malloc ?n s = Inr (d, s1)" and c: "c \<noteq> 0"
    using r by (auto simp: init_chan_def Let_def res_elims)
  have n: "?n + 16 \<le> 2 ^ 32" using sz by (simp add: sizeof_uint_def nat_le_iff)
  note m = mid_inv_malloc [OF i a n]
  obtain mm where s1: "s1 = s\<lparr>mem := mm\<rparr>" using m(2) by blast
  have "mid_inv b E X N {c} s1" by (rule mid_inv_leak [OF m(1)]) auto
  note mid_inv_new_chan [OF this, of c]
  then have new: "cgroup ch = 0 \<Longrightarrow> mid_inv b E X N {} (s1\<lparr>chans := (chans s1)(c \<mapsto> ch), lists := list_head_init (SendQ c) (lists s1)\<rparr>)" for ch
    by simp
  obtain ch where g: "cgroup ch = 0" and s': "s' = (s1\<lparr>chans := (chans s1)(c \<mapsto> ch), lists := list_head_init (SendQ c) (lists s1)\<rparr>)
      \<lparr>chan_counter := chan_counter s1 + 1\<rparr>"
  proof -
    obtain ch where "s' = s1\<lparr>chans := (chans s1)(c \<mapsto> ch), chan_counter := chan_counter s1 + 1,
              lists := list_head_init (SendQ c) (lists s1)\<rparr>" and g: "cgroup ch = 0"
      using r a c inv_raw [OF i, of c] by (auto simp: init_chan_def Let_def s1)
    moreover from this(1) have "s' = (s1\<lparr>chans := (chans s1)(c \<mapsto> ch), lists := list_head_init (SendQ c) (lists s1)\<rparr>)
        \<lparr>chan_counter := chan_counter s1 + 1\<rparr>" by (cases s1) simp
    ultimately show ?thesis using that by blast
  qed
  show "mid_inv b E X N {} s'" unfolding s' mid_inv_frame by (rule new [OF g])
  show "thds s' = thds s" "kthds s' = kthds s" "current_kthd s' = current_kthd s" by (simp_all add: s' s1)
qed

lemma lwt_chan_keeps:
  assumes r: "lwt_chan sz s = Inr (c, s')" and i: "mid_inv b E X N {} s" and sz: "0 \<le> sz" "4 * sz + 16 \<le> 2 ^ 32"
  shows "mid_inv b E X N {} s'" "thds s' = thds s" "kthds s' = kthds s" "current_kthd s' = current_kthd s"
proof -
  obtain s1 where a: "malloc sizeof_lwt_channel s = Inr (c, s1)" and r1: "init_chan c sz s1 = Inr s'"
    using r by (auto simp: lwt_chan_def res_elims)
  have c: "c \<noteq> 0" using r1 by (auto simp: init_chan_def res_elims)
  have "sizeof_lwt_channel + 16 \<le> 2 ^ 32" by (simp add: sizeof_lwt_channel_def)
  note m = mid_inv_malloc [OF i a this]
  have "mid_inv b E X N {c} s1" using m(1) c by simp
  note k = init_chan_keeps [OF r1 this sz]
  then show "mid_inv b E X N {} s'" "thds s' = thds s" "kthds s' = kthds s" "current_kthd s' = current_kthd s"
    using m(2) by auto
qed

lemma set_chan_type_keeps:
  "set_chan_type c ty s = Inr s' \<Longrightarrow> mid_inv b E X N P s \<Longrightarrow> mid_inv b E X N P s'"
  unfolding set_chan_type_def by (erule (1) upd_chan_keeps) simp

lemma lwt_chan_mark_set_keeps:
  "lwt_chan_mark_set c m s = Inr s' \<Longrightarrow> mid_inv b E X N P s \<Longrightarrow> mid_inv b E X N P s'"
  unfolding lwt_chan_mark_set_def by (erule (1) upd_chan_keeps) simp

text \<open>A channel is freed when nobody is queued on it and it is in no group.\<close>

lemma free_chan_keeps:
  assumes r: "free_chan c s = Inr s'" and i: "mid_inv b E X N P s"
    and c: "chans s c = Some ch" "cgroup ch = 0" "list_head_empty (SendQ c) (lists s)"
  shows "mid_inv b E X N P s'"
proof -
  obtain s1 where "mfree c s = Inr s1" "s' = s1\<lparr>chans := (chans s1)(c := None), raw_chan := (raw_chan s1)(c := ch)\<rparr>"
    using r c(1) by (auto simp: free_chan_def res_elims)
  then show ?thesis using mid_inv_free_chan [OF i c] by simp
qed

lemma lwt_chan_deref_keeps:
  assumes r: "lwt_chan_deref c s = Inr s'" and i: "mid_inv b E X N P s" and ok: "call_ok (Deref c) s"
  shows "mid_inv b E X N P s'"
proof -
  obtain ch where c: "c \<noteq> 0" "chans s c = Some ch" using r by (auto simp: lwt_chan_deref_def res_elims)
  let ?ch = "if receiver ch = lwt_current s then ch\<lparr>receiver := 0\<rparr> else ch\<lparr>snd_cnt := snd_cnt ch - 1\<rparr>"
  let ?s = "s\<lparr>chans := (chans s)(c \<mapsto> ?ch)\<rparr>"
  have m: "mid_inv b E X N P ?s" by (rule mid_inv_chan [OF i c(2)]) simp
  show ?thesis
  proof (cases "snd_cnt ?ch = 0 \<and> receiver ?ch = 0")
    case True
    then have "last_deref c s" using c by (auto simp: last_deref_def split: if_splits)
    then have e: "list_head_empty (SendQ c) (lists s)" "cgroup ch = 0" using ok c by auto
    have "free_chan c ?s = Inr s'" using r c True by (simp add: lwt_chan_deref_def)
    from free_chan_keeps [OF this m, of ?ch] e show ?thesis by simp
  next
    case False
    then have "s' = ?s" using r c by (auto simp: lwt_chan_deref_def)
    then show ?thesis using m by simp
  qed
qed

section \<open>Messages\<close>

text \<open>A successful run of a longer operation taken apart, without touching its states.\<close>

lemmas run_simps = res_elims Let_def guard_eq_Inr of_opt_eq_Inr split_paired_Ex prod.case prod.inject
  sum.inject chan_eq_Inr thd_eq_Inr grp_eq_Inr thd_of_eq_Inr chan_of_eq_Inr

lemma resume_thread_chans: "resume_thread t s = Inr s' \<Longrightarrow> chans s' = chans s"
  by (auto simp: resume_thread_def Let_def res_elims)

lemma wake_group_keeps:
  assumes "wake_group c s = Inr s'" "mid_inv b E {} {} P s"
  shows "mid_inv b E {} {} P s'" "chans s' = chans s"
  using assms resume_thread_keeps resume_thread_chans
  by (auto simp: wake_group_def res_elims split: if_splits)

lemma lwt_sync_snd_keeps:
  assumes r: "lwt_sync_snd c d s = Inr (v, s')" and i: "mid_inv b E {} {} {} s"
  shows "mid_inv b E {} {} {} s'"
proof -
  obtain ch x bf s1 lw s2 where c: "chans s c = Some ch" and x: "thds s (receiver ch) = Some x"
    and u: "upd_chan c (\<lambda>ch. ch\<lparr>buffer := bf, rb_occupied := 0\<rparr>) s = Inr s1"
    and a: "malloc sizeof_lwt_wrap s1 = Inr (lw, s2)" "lw \<noteq> 0"
    and s': "s' = kthd_do (owner_kthd x) (\<lambda>i. i\<lparr>wq_occupied := 0\<rparr>)
        (add_node (WakeQ (owner_kthd x)) (WrapNode lw) (s2\<lparr>wraps := (wraps s2)(lw \<mapsto> receiver ch)\<rparr>))"
    using r unfolding lwt_sync_snd_def
    by (auto simp only: run_simps)
  have m1: "mid_inv b E {} {} {} s1" by (rule upd_chan_keeps [OF u i]) simp
  have "sizeof_lwt_wrap + 16 \<le> 2 ^ 32" by (simp add: sizeof_lwt_wrap_def)
  note m = mid_inv_malloc [OF m1 a(1) this]
  have "mid_inv b E {} {} {lw} s2" using m(1) a(2) by simp
  moreover have "owner_kthd x \<in> hosted s2" using inv_owner [OF i x] m(2) u by auto
  ultimately have "mid_inv b E {} {} ({lw} - {lw})
      (add_node (WakeQ (owner_kthd x)) (WrapNode lw) (s2\<lparr>wraps := (wraps s2)(lw \<mapsto> receiver ch)\<rparr>))"
    by (intro mid_inv_new_wrap) auto
  then show ?thesis unfolding s' by (intro mid_inv_kthd_do) simp_all
qed


lemma lwt_snd_keeps:
  assumes r: "lwt_snd c d s = Inr (v, s')" and i: "mid_inv True E {} {} {} s"
  shows "mid_inv True E {} {} {} s'"
proof -
  obtain ch where c: "c \<noteq> 0" "chans s c = Some ch" using r by (auto simp: lwt_snd_def res_elims)
  show ?thesis
  proof (cases "chan_ty ch = GLOBAL_CHAN \<or> receiver ch = 0")
    case True
    then consider s1 where "set_chan_type c GLOBAL_CHAN s = Inr s1" "lwt_sync_snd c d s1 = Inr (v, s')" | "s' = s"
      using r c by (auto simp: lwt_snd_def res_elims split: if_splits)
    then show ?thesis using lwt_sync_snd_keeps set_chan_type_keeps i by cases metis+
  next
    case False
    then have "receiver ch \<noteq> 0" "chan_ty ch \<noteq> GLOBAL_CHAN" by auto
    then obtain x where x: "thds s (receiver ch) = Some x" using r c by (auto simp: lwt_snd_def res_elims)
    show ?thesis
    proof (cases "receiver_waits ch c x")
      case True
      then obtain s1 where "upd_thd (receiver ch) (\<lambda>x. x\<lparr>message_data := d\<rparr>) s = Inr s1"
          "resume_thread (receiver ch) s1 = Inr s'"
        using r c x \<open>receiver ch \<noteq> 0\<close> \<open>chan_ty ch \<noteq> GLOBAL_CHAN\<close>
        by (auto simp: lwt_snd_def run_simps simp del: upd_thd_eq_Inr upd_thd_live)
      then show ?thesis using upd_thd_keeps [OF _ i] resume_thread_keeps by simp
    next
      case False
      then obtain s1 s2 where s1: "upd_chan c (\<lambda>ch. ch\<lparr>ready := 1\<rparr>) s = Inr s1" and s2: "wake_group c s1 = Inr s2"
        and rest: "(\<exists>bf. upd_chan c (\<lambda>ch. ch\<lparr>buffer := bf\<rparr>) s2 = Inr s') \<or>
          (\<exists>s3. upd_thd (lwt_current s) (\<lambda>x. x\<lparr>message_data := d\<rparr>) s2 = Inr s3 \<and>
             block_thread (lwt_current s) BLOCKED_SENDING c (push KSnd s3) = Inr (v, s'))"
        using r c x \<open>receiver ch \<noteq> 0\<close> \<open>chan_ty ch \<noteq> GLOBAL_CHAN\<close>
        by (cases "ring_not_full (chan_size ch) (buffer ch)")
          (simp_all add: lwt_snd_def run_simps del: upd_thd_eq_Inr upd_thd_live upd_chan_eq_Inr upd_chan_live, blast+)
      have m: "mid_inv True E {} {} {} s1" by (rule upd_chan_keeps [OF s1 i]) simp
      note m2 = wake_group_keeps [OF s2 m]
      have c2: "c \<in> dom (chans s2)" using m2(2) s1 by auto
      from rest show ?thesis
      proof (elim disjE exE conjE)
        fix bf assume u: "upd_chan c (\<lambda>ch. ch\<lparr>buffer := bf\<rparr>) s2 = Inr s'"
        show ?thesis by (rule upd_chan_keeps [OF u m2(1)]) simp
      next
        fix s3 assume u: "upd_thd (lwt_current s) (\<lambda>x. x\<lparr>message_data := d\<rparr>) s2 = Inr s3"
          and b: "block_thread (lwt_current s) BLOCKED_SENDING c (push KSnd s3) = Inr (v, s')"
        have "mid_inv True E {} {} {} s3" by (rule upd_thd_keeps [OF u m2(1)]) simp_all
        moreover have "c \<in> dom (chans s3)" using u c2 by auto
        ultimately show ?thesis by (intro block_thread_keeps [OF b]) (simp_all add: push_def)
      qed
    qed
  qed
qed


lemma kthds_thds: "s\<lparr>kthds := K, thds := T\<rparr> = s\<lparr>thds := T, kthds := K\<rparr>"
  by (cases s) simp

text \<open>The common end of a receiver's and a group waiter's loop: park and yield.\<close>

lemma park_yield_keeps:
  assumes i: "mid_inv True E {} {} P s" and x: "thds s t = Some x"
    and y: "owner_kthd y = owner_kthd x" "tstate y = LWT_BLOCKED" "block_for y = BLOCKED_RECEIVING"
    and f: "\<And>i. polling_flag (f i) = polling_flag i" "\<And>i. main_thread (f i) = main_thread i"
    and r: "lwt_yield 0 (push k (kthd_do (current_kthd s) f
      (s\<lparr>lists := list_ll_rem (ThdNode t) (lists s), thds := (thds s)(t \<mapsto> y)\<rparr>))) = Inr (v, s')"
  shows "mid_inv True E {} {} P s'"
  by (rule lwt_yield_keeps [OF r], unfold mid_inv_push, rule mid_inv_kthd_do [OF _ f])
    (rule block_receiving_inv [OF i x y])

lemma sync_rcv_loop_keeps:
  assumes r: "sync_rcv_loop c t s = Inr (v, s')" and i: "mid_inv True E {} {} P s"
  shows "mid_inv True E {} {} P s'"
proof -
  obtain ch where c: "c \<noteq> 0" "chans s c = Some ch" using r by (auto simp: sync_rcv_loop_def res_elims)
  show ?thesis
  proof (cases "ring_nonempty (buffer ch)")
    case True
    then obtain bf where "upd_chan c (\<lambda>ch. ch\<lparr>buffer := bf\<rparr>) s = Inr s'"
      using r c by (auto simp: sync_rcv_loop_def res_elims)
    then show ?thesis by (rule upd_chan_keeps [OF _ i]) simp
  next
    case False
    then obtain x where x: "thds s t = Some x" using r c by (auto simp: sync_rcv_loop_def Let_def res_elims)
    have "lwt_yield 0 (push (KSyncRcv c t) (kthd_do (current_kthd s)
        (\<lambda>i. i\<lparr>nrcving := nrcving i + 1, block_counter := block_counter i + 1\<rparr>)
        (s\<lparr>lists := list_ll_rem (ThdNode t) (lists s),
           thds := (thds s)(t \<mapsto> x\<lparr>now_rcving := c, tstate := LWT_BLOCKED, block_for := BLOCKED_RECEIVING\<rparr>)\<rparr>))) = Inr (v, s')"
      using r c x False by (cases "t = 0") (simp_all add: sync_rcv_loop_def Let_def upd_thd_def thd_def)
    from park_yield_keeps [OF i x _ _ _ _ _ this] show ?thesis by simp
  qed
qed

lemma lwt_sync_rcv_keeps:
  assumes "lwt_sync_rcv c s = Inr (v, s')" "mid_inv True E {} {} P s"
  shows "mid_inv True E {} {} P s'"
  using assms sync_rcv_loop_keeps by (auto simp: lwt_sync_rcv_def res_elims)

lemma refill_keeps:
  assumes "refill c s = Inr s'" "mid_inv True E {} {} P s"
  shows "mid_inv True E {} {} P s'"
proof (cases "list_head_empty (SendQ c) (lists s)")
  case True
  then show ?thesis using assms by (simp add: refill_def)
next
  case False
  then obtain t s1 bf where t: "resume_thread t s = Inr s1" "upd_chan c (\<lambda>ch. ch\<lparr>buffer := bf\<rparr>) s1 = Inr s'"
    using assms(1) by (auto simp: refill_def run_simps simp del: upd_chan_eq_Inr)
  show ?thesis by (rule upd_chan_keeps [OF t(2) resume_thread_keeps [OF t(1) assms(2)]]) simp
qed

lemma lwt_rcv_keeps:
  assumes r: "lwt_rcv c s = Inr (v, s')" and i: "mid_inv True E {} {} P s"
  shows "mid_inv True E {} {} P s'"
proof -
  obtain ch where c: "c \<noteq> 0" "chans s c = Some ch" using r by (auto simp: lwt_rcv_def res_elims)
  note no_state = upd_chan_eq_Inr upd_thd_eq_Inr upd_thd_live upd_chan_live
  show ?thesis
  proof (cases "chan_ty ch = GLOBAL_CHAN")
    case True
    then have "lwt_sync_rcv c s = Inr (v, s')" using r c by (simp add: lwt_rcv_def)
    then show ?thesis by (rule lwt_sync_rcv_keeps [OF _ i])
  next
    case local: False
    show ?thesis
    proof (cases "ring_nonempty (buffer ch)")
      case True
      then obtain bf s1 s2 f where u: "upd_chan c (\<lambda>ch. ch\<lparr>buffer := bf\<rparr>) s = Inr s1" "refill c s1 = Inr s2"
        "upd_chan c (\<lambda>ch. ch\<lparr>ready := f ch\<rparr>) s2 = Inr s'"
        using r c local by (auto simp: lwt_rcv_def run_simps simp del: no_state)
      have "mid_inv True E {} {} P s1" by (rule upd_chan_keeps [OF u(1) i]) simp
      from refill_keeps [OF u(2) this] show ?thesis by (rule upd_chan_keeps [OF u(3)]) simp
    next
      case empty: False
      show ?thesis
      proof (cases "list_head_empty (SendQ c) (lists s)")
        case False
        then obtain t s1 n where u: "resume_thread t s = Inr s1" "upd_chan c (\<lambda>ch. ch\<lparr>ready := n\<rparr>) s1 = Inr s'"
          using r c local empty by (auto simp: lwt_rcv_def run_simps simp del: no_state)
        from resume_thread_keeps [OF u(1) i] show ?thesis by (rule upd_chan_keeps [OF u(2)]) simp
      next
        case True
        then obtain s1 where u: "upd_thd (lwt_current s) (\<lambda>x. x\<lparr>now_rcving := c\<rparr>) s = Inr s1"
          and bl: "block_thread (lwt_current s) BLOCKED_RECEIVING c (push (KRcv (lwt_current s)) s1) = Inr (v, s')"
          using r c local empty by (auto simp: lwt_rcv_def run_simps simp del: no_state)
        have "mid_inv True E {} {} P s1" by (rule upd_thd_keeps [OF u i]) simp_all
        then show ?thesis by (intro block_thread_keeps [OF bl]) simp_all
      qed
    qed
  qed
qed

lemma rcv_chan_rest_keeps:
  assumes "rcv_chan_rest v s = Inr (w, s')" "mid_inv b E X N P s"
  shows "mid_inv b E X N P s'"
proof (cases "val_ptr v = 0")
  case False
  then have "upd_chan (val_ptr v) (\<lambda>ch. ch\<lparr>snd_cnt := snd_cnt ch + 1\<rparr>) s = Inr s'"
    using assms(1) by (auto simp: rcv_chan_rest_def Let_def run_simps simp del: upd_chan_eq_Inr)
  then show ?thesis by (rule upd_chan_keeps [OF _ assms(2)]) simp
qed (use assms in \<open>simp add: rcv_chan_rest_def Let_def\<close>)

section \<open>Groups\<close>

lemma lwt_cgrp_new_keeps:
  assumes r: "lwt_cgrp_new s = Inr (g, s')" and i: "mid_inv b E X N {} s"
  shows "mid_inv b E X N {} s'"
proof -
  obtain p s1 where a: "malloc sizeof_lwt_cgrp s = Inr (p, s1)"
    and s': "s' = (if p = 0 then s1 else s1\<lparr>lists := list_head_init (GrpQ p) (lists s1),
        grps := (grps s1)(p \<mapsto> \<lparr>owner = lwt_current s1, blocked = 0\<rparr>)\<rparr>)"
    using r by (auto simp: lwt_cgrp_new_def res_elims split: if_splits)
  have "sizeof_lwt_cgrp + 16 \<le> 2 ^ 32" by (simp add: sizeof_lwt_cgrp_def)
  note m = mid_inv_malloc(1) [OF i a this]
  show ?thesis
  proof (cases "p = 0")
    case False
    then have "mid_inv b E X N {p} s1" using m by simp
    from mid_inv_new_grp [OF this, of p] show ?thesis using False s' by simp
  qed (use m s' in simp)
qed

lemma lwt_cgrp_add_keeps:
  assumes r: "lwt_cgrp_add g c s = Inr (v, s')" and i: "mid_inv b E X N P s"
  shows "mid_inv b E X N P s'"
proof -
  obtain ch where c: "c \<noteq> 0" "chans s c = Some ch" using r by (auto simp: lwt_cgrp_add_def res_elims)
  show ?thesis
  proof (cases "cgroup ch = 0")
    case True
    then have g: "g \<in> dom (grps s)" and s': "s' = (append_node (GrpQ g) (ChanNode c) s)\<lparr>chans := (chans s)(c \<mapsto> ch\<lparr>cgroup := g\<rparr>)\<rparr>"
      using r c by (auto simp: lwt_cgrp_add_def res_elims)
    have "s' = append_node (GrpQ g) (ChanNode c) (s\<lparr>chans := (chans s)(c \<mapsto> ch\<lparr>cgroup := g\<rparr>)\<rparr>)"
      unfolding s' by (cases s) simp
    then show ?thesis using mid_inv_join_group [OF i c(2) True, of "ch\<lparr>cgroup := g\<rparr>"] g by simp
  qed (use r c i in \<open>simp add: lwt_cgrp_add_def\<close>)
qed

lemma lwt_cgrp_rem_keeps:
  assumes r: "lwt_cgrp_rem g c s = Inr (v, s')" and i: "mid_inv b E X N P s" and g: "g \<noteq> 0"
  shows "mid_inv b E X N P s'"
proof -
  obtain ch where c: "c \<noteq> 0" "chans s c = Some ch" using r by (auto simp: lwt_cgrp_rem_def res_elims)
  show ?thesis
  proof (cases "ready ch = 0 \<and> cgroup ch = g")
    case True
    then have s': "s' = (rem_node (ChanNode c) s)\<lparr>chans := (chans s)(c \<mapsto> ch\<lparr>cgroup := 0\<rparr>)\<rparr>"
      using r c by (auto simp: lwt_cgrp_rem_def res_elims)
    have "s' = rem_node (ChanNode c) (s\<lparr>chans := (chans s)(c \<mapsto> ch\<lparr>cgroup := 0\<rparr>)\<rparr>)"
      unfolding s' by (cases s) simp
    then show ?thesis using mid_inv_leave_group [OF i c(2) _ g, of "ch\<lparr>cgroup := 0\<rparr>"] True by simp
  qed (use r c i in \<open>auto simp: lwt_cgrp_rem_def split: if_splits\<close>)
qed

lemma foreach_empty:
  assumes "list_head_first h L = h"
  shows "list_foreach h L = Some []"
  using assms by (simp add: list_foreach_def visit.simps)

lemma lwt_cgrp_free_keeps:
  assumes r: "lwt_cgrp_free g s = Inr (v, s')" and i: "mid_inv b E X N P s"
  shows "mid_inv b E X N P s'"
proof -
  obtain x where g: "g \<noteq> 0" "grps s g = Some x" using r by (auto simp: lwt_cgrp_free_def res_elims)
  show ?thesis
  proof (cases "list_head_first (GrpQ g) (lists s) = GrpQ g")
    case True
    then obtain s1 where "mfree g s = Inr s1" "s' = s1\<lparr>grps := (grps s1)(g := None)\<rparr>"
      using r g foreach_empty [OF True] by (auto simp: lwt_cgrp_free_def res_elims)
    moreover have "list_head_empty (GrpQ g) (lists s)"
      using True by (simp add: list_head_empty_def list_ll_empty_def list_head_first_def)
    ultimately show ?thesis using mid_inv_free_grp [OF i g(2,1)] by simp
  next
    case False
    then have "s' = s" using r g by (auto simp: lwt_cgrp_free_def res_elims)
    then show ?thesis using i by simp
  qed
qed

lemma cgrp_wait_loop_keeps:
  assumes r: "cgrp_wait_loop g t s = Inr (v, s')" and i: "mid_inv True E {} {} P s"
  shows "mid_inv True E {} {} P s'"
proof -
  obtain x0 found where g: "g \<noteq> 0" "grps s g = Some x0"
    and f: "scan_ready s (GrpQ g) (list_head_first (GrpQ g) (lists s)) = Some found"
    using r by (auto simp: cgrp_wait_loop_def run_simps)
  show ?thesis
  proof (cases found)
    case (Some n)
    then have "upd_grp g (\<lambda>x. x\<lparr>blocked := 0\<rparr>) s = Inr s'"
      using r g f by (auto simp: cgrp_wait_loop_def run_simps)
    then show ?thesis by (rule upd_grp_keeps [OF _ i])
  next
    case None
    let ?s = "s\<lparr>grps := (grps s)(g \<mapsto> x0\<lparr>blocked := 1\<rparr>)\<rparr>"
    obtain x where x: "t \<noteq> 0" "thds s t = Some x" using r g f None by (auto simp: cgrp_wait_loop_def run_simps)
    have m: "mid_inv True E {} {} P ?s" by (rule mid_inv_grp [OF i g(2)])
    have "lwt_yield 0 (push (KCgrpWait g t) (kthd_do (current_kthd ?s)
        (\<lambda>i. i\<lparr>block_counter := block_counter i + 1, nrcving := nrcving i + 1\<rparr>)
        (?s\<lparr>lists := list_ll_rem (ThdNode t) (lists ?s),
           thds := (thds ?s)(t \<mapsto> x\<lparr>tstate := LWT_BLOCKED, block_for := BLOCKED_RECEIVING\<rparr>)\<rparr>))) = Inr (v, s')"
      using r g f None x by (simp add: cgrp_wait_loop_def Let_def kthds_thds)
    from park_yield_keeps [OF m _ _ _ _ _ _ this, of x] x show ?thesis by simp
  qed
qed

lemma lwt_cgrp_wait_keeps:
  assumes "lwt_cgrp_wait g s = Inr (v, s')" "mid_inv True E {} {} P s"
  shows "mid_inv True E {} {} P s'"
  using assms cgrp_wait_loop_keeps by (auto simp: lwt_cgrp_wait_def res_elims split: if_splits)

end
