(* ===== verification/Lwt_Safety.thy ===== *)
theory Lwt_Safety
  imports Lwt_Preserve
begin

text \<open>
  The invariant over the life of threads and kernel threads, over the whole API and every
  continuation of a suspended call; it holds in every reachable state of the machine.
\<close>

section \<open>Threads\<close>

lemma upd_thd_mid:
  assumes "upd_thd t f s = Inr s'" "mid_inv b E X N P s" "t \<in> X \<union> N"
    "t \<in> N \<or> (\<forall>x. owner_kthd (f x) = owner_kthd x \<or> owner_kthd (f x) \<in> hosted s)"
  shows "mid_inv b E X N P s'"
  using assms mid_inv_status [OF assms(2,3)] by auto

lemma hosted_kthds: "kthds s' = kthds s \<Longrightarrow> hosted s' = hosted s"
  by (simp add: hosted_def)

lemma init_thread_keeps:
  assumes r: "init_thread t k s = Inr s'" and i: "mid_inv b E X N {} s" and t: "t \<in> X \<union> N"
    and k: "t \<in> N \<or> k \<in> hosted s"
  shows "mid_inv b E X N {} s'" "kthds s' = kthds s" "current_kthd s' = current_kthd s"
    "\<exists>x. thds s' t = Some x \<and> tstate x = LWT_RUNNING \<and> owner_kthd x = k"
proof -
  obtain s1 s2 c s3 s4 s5 where u1: "upd_thd t (\<lambda>x. x\<lparr>lwt_id := lwt_counter s\<rparr>) s = Inr s1"
    and u2: "upd_thd t (\<lambda>x. x\<lparr>tstate := LWT_RUNNING, parent := 0, message_data := 0\<rparr>)
              (s1\<lparr>lwt_counter := lwt_counter s1 + 1\<rparr>) = Inr s2"
    and c: "lwt_chan 0 s2 = Inr (c, s3)" and u3: "upd_thd t (\<lambda>x. x\<lparr>chl := c\<rparr>) s3 = Inr s4"
    and u4: "upd_chan c (\<lambda>ch. ch\<lparr>snd_cnt := snd_cnt ch + 1\<rparr>) s4 = Inr s5"
    and u5: "upd_thd t (\<lambda>x. x\<lparr>nojoin := 0, owner_kthd := k\<rparr>) s5 = Inr s'"
    using r unfolding init_thread_def by (auto simp only: run_simps)
  have "mid_inv b E X N {} s1" by (rule upd_thd_mid [OF u1 i t]) simp
  then have "mid_inv b E X N {} (s1\<lparr>lwt_counter := lwt_counter s1 + 1\<rparr>)" by simp
  then have m2: "mid_inv b E X N {} s2" by (rule upd_thd_mid [OF u2 _ t]) simp
  note m3 = lwt_chan_keeps [OF c m2 order_refl]
  have "mid_inv b E X N {} s4" by (rule upd_thd_mid [OF u3 m3(1) t]) simp_all
  then have m5: "mid_inv b E X N {} s5" by (rule upd_chan_keeps [OF u4]) simp
  have fr: "kthds s5 = kthds s" "current_kthd s5 = current_kthd s" using u1 u2 m3(3,4) u3 u4 by auto
  show "mid_inv b E X N {} s'" by (rule upd_thd_mid [OF u5 m5 t]) (use k hosted_kthds [OF fr(1)] in auto)
  show "kthds s' = kthds s" "current_kthd s' = current_kthd s" using fr u5 by auto
  show "\<exists>x. thds s' t = Some x \<and> tstate x = LWT_RUNNING \<and> owner_kthd x = k"
    using u2 m3(2) u3 u4 u5 by auto
qed

text \<open>A control block is either a recycled one, unlinked, or new.\<close>

lemma take_tcb_keeps:
  assumes r: "take_tcb s = Inr (t, sp0, s')" and i: "mid_inv True {} {} {} {} s"
  shows "\<exists>X N. X \<union> N = {t} \<and> mid_inv True {} X N {} s'" "current_kthd s' = current_kthd s" "kthds s' = kthds s"
proof -
  show *: "\<exists>X N. X \<union> N = {t} \<and> mid_inv True {} X N {} s'"
  proof (cases "list_head_empty (current_recycle_queue s) (lists s)")
    case False
    then have s': "s' = rem_node (ThdNode t) s" "t \<in> dom (thds s)"
      using r by (auto simp: take_tcb_def Let_def res_elims)
    have "mid_inv True {} {t} {} {} s'" unfolding s'(1) by (rule mid_inv_rem [OF i s'(2)]) simp
    then show ?thesis by (intro exI [of _ "{t}"] exI [of _ "{}"]) simp
  next
    case True
    then obtain s1 stk s2 where a1: "malloc sizeof_lwt_t s = Inr (t, s1)" and a2: "malloc MAX_STACK_SIZE s1 = Inr (stk, s2)"
      and t: "t \<noteq> 0" and s': "\<exists>x. s' = s2\<lparr>thds := (thds s2)(t \<mapsto> x)\<rparr>"
      using r unfolding take_tcb_def by (auto simp: run_simps)
    have b1: "sizeof_lwt_t + 16 \<le> 2 ^ 32" by (simp add: sizeof_lwt_t_def)
    have b2: "MAX_STACK_SIZE + 16 \<le> 2 ^ 32" by (simp add: MAX_STACK_SIZE_def)
    have "mid_inv True {} {} {} {t} s1" using mid_inv_malloc(1) [OF i a1 b1] t by simp
    from mid_inv_malloc(1) [OF this a2 b2] have "mid_inv True {} {} {} {t} s2" by (rule mid_inv_leak) auto
    from mid_inv_new_thd [OF this, of t] have "mid_inv True {} {} {t} {} s'" using s' by auto
    then show ?thesis by (intro exI [of _ "{}"] exI [of _ "{t}"]) simp
  qed
  show "current_kthd s' = current_kthd s" "kthds s' = kthds s"
    using r by (auto simp: take_tcb_def Let_def res_elims malloc_eq_Inr split: if_splits)
qed

lemma lwt_create_keeps:
  assumes r: "lwt_create fn d fl s = Inr (t, s')" and i: "mid_inv True {} {} {} {} s"
  shows "mid_inv True {} {} {} {} s'"
proof -
  obtain t' sp0 s1 s2 where tk: "take_tcb s = Inr (t', sp0, s1)" and it: "init_thread t' (current_kthd s1) s1 = Inr s2"
    using r unfolding lwt_create_def by (auto simp only: run_simps)
  obtain X N where XN: "X \<union> N = {t'}" and m1: "mid_inv True {} X N {} s1" using take_tcb_keeps(1) [OF tk i] by blast
  have hk: "current_kthd s1 \<in> hosted s1" by (rule inv_current [OF m1])
  have tXN: "t' \<in> X \<union> N" using XN by simp
  note m2 = init_thread_keeps [OF it m1 tXN disjI2 [OF hk]]
  obtain x where x: "thds s2 t' = Some x" "tstate x = LWT_RUNNING" "owner_kthd x = current_kthd s1"
    using m2(4) XN by auto
  obtain s3 w s6 f where u3: "upd_thd t' (\<lambda>x. x\<lparr>parent := lwt_current s2\<rparr>) s2 = Inr s3"
    and u6: "upd_thd t' f (s3\<lparr>stackw := w\<rparr>) = Inr s6"
    and f: "\<And>x. tstate (f x) = tstate x" "\<And>x. owner_kthd (f x) = owner_kthd x"
    and s': "s' = add_node (current_run_queue s6) (ThdNode t') s6"
    using r tk it by (auto simp: lwt_create_def run_simps simp del: upd_thd_eq_Inr upd_thd_live add_node_def)
  have m3: "mid_inv True {} X N {} s3" by (rule upd_thd_mid [OF u3 m2(1)]) (use XN in auto)
  have "mid_inv True {} X N {} (s3\<lparr>stackw := w\<rparr>)" using m3 by simp
  then have m6: "mid_inv True {} X N {} s6" by (rule upd_thd_mid [OF u6]) (use XN f in auto)
  have k6: "current_kthd s6 = current_kthd s1" "hosted s6 = hosted s1" using u3 u6 m2(2,3) by (auto simp: hosted_def)
  obtain x6 where x6: "thds s6 t' = Some x6" "tstate x6 = LWT_RUNNING" "owner_kthd x6 = current_kthd s1"
    using x u3 u6 f by auto
  have "mid_inv True {} (X - {t'}) (N - {t'}) {} s'"
    unfolding s' current_run_queue_def
    by (rule mid_inv_add [OF m6 _ x6(1)]) (use XN x6 hk k6 in \<open>auto intro: run_head\<close>)
  moreover have "X - {t'} = {}" "N - {t'} = {}" using XN by auto
  ultimately show ?thesis by simp
qed


lemma lwt_create_chan_keeps:
  assumes "lwt_create_chan fn c s = Inr (t, s')" "mid_inv True {} {} {} {} s"
  shows "mid_inv True {} {} {} {} s'"
proof -
  obtain s1 where s1: "lwt_create fn c 0 s = Inr (t, s1)" and u: "upd_chan c (\<lambda>ch. ch\<lparr>snd_cnt := snd_cnt ch + 1\<rparr>) s1 = Inr s'"
    using assms(1) unfolding lwt_create_chan_def by (auto simp only: run_simps)
  show ?thesis by (rule upd_chan_keeps [OF u lwt_create_keeps [OF s1 assms(2)]]) simp
qed

lemma lwt_die_keeps:
  assumes r: "lwt_die m s = Inr (v, s')" and i: "mid_inv True {} {} {} {} s"
  shows "mid_inv True {} {} {} {} s'"
proof -
  let ?s1 = "kthd_do (current_kthd s) (\<lambda>i. i\<lparr>zombie_counter := zombie_counter i + 1\<rparr>) s"
  obtain s2 and x :: lwt_thread where u: "upd_thd (lwt_current s) (\<lambda>x. x\<lparr>message_data := m\<rparr>) ?s1 = Inr s2"
    and sn: "lwt_snd (chl x) m (push (KDie (lwt_current s)) s2) = Inr (v, s')"
    using r unfolding lwt_die_def by (simp only: run_simps) blast
  have "mid_inv True {} {} {} {} ?s1" by (rule mid_inv_kthd_do [OF i]) simp_all
  then have "mid_inv True {} {} {} {} s2" by (rule upd_thd_keeps [OF u]) simp_all
  then show ?thesis by (intro lwt_snd_keeps [OF sn]) simp
qed

lemma die_rest_keeps:
  assumes r: "die_rest t s = Inr (v, s')" and i: "mid_inv True {} {} {} {} s"
  shows "mid_inv True {} {} {} {} s'"
proof -
  let ?k = "current_kthd s"
  obtain x where x: "t \<noteq> 0" "thds s t = Some x" using r by (auto simp: die_rest_def res_elims)
  let ?m = "s\<lparr>lists := list_ll_rem (ThdNode t) (lists s), thds := (thds s)(t \<mapsto> x\<lparr>tstate := LWT_ZOMBIES\<rparr>)\<rparr>"
  let ?z = "kthd_do ?k (\<lambda>i. i\<lparr>zombie_counter := zombie_counter i - 1\<rparr>) ?m"
  have "mid_inv True {} {t} {} {} ?m" by (rule mid_inv_mark [OF i x(2)]) simp
  then have m: "mid_inv True {} {t} {} {} ?z" by (rule mid_inv_kthd_do) simp_all
  have "mid_inv True {} ({t} - {t}) ({} - {t}) {} (add_node (RecQ ?k) (ThdNode t) ?z)"
    by (rule mid_inv_add [OF m]) (use inv_current [OF m] in \<open>auto simp: head_in\<close>)
  moreover have "lwt_schedule (add_node (RecQ ?k) (ThdNode t) ?z) = Inr (v, s')"
  proof -
    have "add_node (RecQ ?k) (ThdNode t) ?z = add_node (RecQ ?k) (ThdNode t) (rem_node (ThdNode t)
        (kthd_do ?k (\<lambda>i. i\<lparr>zombie_counter := zombie_counter i - 1\<rparr>) (s\<lparr>thds := (thds s)(t \<mapsto> x\<lparr>tstate := LWT_ZOMBIES\<rparr>)\<rparr>)))"
      by (cases s) simp
    then show ?thesis using r x by (simp add: die_rest_def Let_def current_recycle_queue_def)
  qed
  ultimately show ?thesis using lwt_schedule_keeps by simp
qed

lemma lwt_join_keeps:
  assumes "lwt_join t s = Inr (v, s')" "mid_inv True {} {} {} {} s"
  shows "mid_inv True {} {} {} {} s'"
proof -
  from assms(1) consider "s' = s" | x :: lwt_thread where "lwt_rcv (chl x) (push (KJoin t) s) = Inr (v, s')"
    by (auto simp: lwt_join_def res_elims split: if_splits)
  then show ?thesis using assms(2) lwt_rcv_keeps [of _ "push (KJoin t) s"] by cases auto
qed

lemma join_rest_keeps:
  "join_rest t v s = Inr (w, s') \<Longrightarrow> mid_inv True {} {} {} {} s \<Longrightarrow> mid_inv True {} {} {} {} s'"
  unfolding join_rest_def by (erule lwt_yield_keeps) simp

lemma rcv_thd_rest_keeps:
  assumes r: "rcv_thd_rest v s = Inr (w, s')" and i: "mid_inv True {} {} {} {} s"
  shows "mid_inv True {} {} {} {} s'"
proof -
  let ?t = "val_ptr v"
  obtain x where x: "?t \<noteq> 0" "thds s ?t = Some x" using r by (auto simp: rcv_thd_rest_def Let_def res_elims)
  let ?s = "s\<lparr>thds := (thds s)(?t \<mapsto> x\<lparr>owner_kthd := current_kthd s\<rparr>)\<rparr>"
  have m: "mid_inv True {} {} {} {} ?s" by (rule mid_inv_thd [OF i x(2)]) (use inv_current [OF i] in simp_all)
  show ?thesis
  proof (cases "tstate x = LWT_RUNNABLE")
    case True
    let ?r = "rem_node (ThdNode ?t) ?s"
    have mr: "mid_inv True {} {?t} {} {} ?r" by (rule mid_inv_rem [OF m]) auto
    have own: "owner_kthd y \<in> hosted ?r" if "thds ?r u = Some y" for u y using inv_owner [OF mr that] by simp
    obtain q where q: "owner_run_queue ?r = Inr q" "s' = append_node q (ThdNode ?t) ?r"
      using r x True unfolding rcv_thd_rest_def by (auto simp: run_simps simp del: append_node_def rem_node_def)
    then obtain k where k: "q = RunQ k" "k \<in> hosted ?r"
      using own unfolding owner_run_queue_def by (auto simp only: run_simps)
    have "mid_inv True {} ({?t} - {?t}) ({} - {?t}) {} (append_node q (ThdNode ?t) ?r)"
      unfolding k(1) by (rule mid_inv_append [OF mr]) (use k(2) True in \<open>auto intro: run_head\<close>)
    then show ?thesis using q(2) by simp
  next
    case False
    then have "s' = ?s" using r x by (auto simp: rcv_thd_rest_def Let_def res_elims split: if_splits)
    then show ?thesis using m by simp
  qed
qed

section \<open>Kernel threads\<close>

lemma initiate_keeps:
  assumes r: "initiate k s = Inr s'" and i: "mid_inv b {} {} {} P s" and k: "k \<notin> hosted s"
  shows "mid_inv b {} {} {} {} s'" "hosted s' = insert k (hosted s)" "current_kthd s' = current_kthd s"
proof -
  obtain t s1 s3 s4 where a: "malloc sizeof_lwt_t (init_kthd k s) = Inr (t, s1)" and t: "t \<noteq> 0"
    and it: "init_thread t k (kthd_do k (\<lambda>i. i\<lparr>current_thread := t\<rparr>) (s1\<lparr>thds := (thds s1)(t \<mapsto> raw_thd s1 t)\<rparr>)) = Inr s3"
    and u: "upd_thd t (\<lambda>x. x\<lparr>tstate := LWT_RUNNING\<rparr>) s3 = Inr s4"
    and s': "s' = append_node (RunQ k) (ThdNode t) (kthd_do k (\<lambda>i. i\<lparr>main_thread := current_thread i\<rparr>) s4)"
    using r unfolding initiate_def by (auto simp only: run_simps)
  have "mid_inv b {k} {} {} {} (init_kthd k s)"
    using mid_inv_init_kthd [OF mid_inv_leak [OF i, of "{}"]] k by simp
  note m1 = mid_inv_malloc [OF this a]
  have b: "sizeof_lwt_t + 16 \<le> 2 ^ 32" by (simp add: sizeof_lwt_t_def)
  have "mid_inv b {k} {} {} {t} s1" using m1(1) [OF b] t by simp
  from mid_inv_new_thd [OF this, of t] have "mid_inv b {k} {} {t} {} (s1\<lparr>thds := (thds s1)(t \<mapsto> raw_thd s1 t)\<rparr>)" by simp
  then have m2: "mid_inv b {k} {} {t} {} (kthd_do k (\<lambda>i. i\<lparr>current_thread := t\<rparr>) (s1\<lparr>thds := (thds s1)(t \<mapsto> raw_thd s1 t)\<rparr>))"
    by (rule mid_inv_kthd_do) simp_all
  have "t \<in> {} \<union> {t}" "t \<in> {t} \<or> k \<in> hosted (kthd_do k (\<lambda>i. i\<lparr>current_thread := t\<rparr>) (s1\<lparr>thds := (thds s1)(t \<mapsto> raw_thd s1 t)\<rparr>))"
    by simp_all
  note m3 = init_thread_keeps [OF it m2 this]
  have m4: "mid_inv b {k} {} {t} {} s4" by (rule upd_thd_mid [OF u m3(1)]) simp_all
  have ct: "current_thread (kthds s4 k) = t" using m3(2) u by auto
  let ?s5 = "s4\<lparr>kthds := (kthds s4)(k := (kthds s4 k)\<lparr>main_thread := current_thread (kthds s4 k)\<rparr>)\<rparr>"
  note m5 = mid_inv_host [OF m4, of "(kthds s4 k)\<lparr>main_thread := current_thread (kthds s4 k)\<rparr>"]
  have i5: "mid_inv b {} {} {t} {} ?s5" "hosted ?s5 = insert k (hosted s4)"
    using m5 ct t inv_quiet [OF m4] by simp_all
  obtain x where x: "thds s4 t = Some x" "tstate x = LWT_RUNNING" "owner_kthd x = k" using m3(4) u by auto
  have "mid_inv b {} ({} - {t}) ({t} - {t}) {} (append_node (RunQ k) (ThdNode t) ?s5)"
    by (rule mid_inv_append [OF i5(1)]) (use x i5(2) in \<open>auto intro: run_head\<close>)
  then show "mid_inv b {} {} {} {} s'" unfolding s' by simp
  have "hosted s4 = hosted s" using u m3(2) m1(2) [OF b] by (auto simp: hosted_def init_kthd_def Let_def split: if_splits)
  then show "hosted s' = insert k (hosted s)" unfolding s' using i5(2) by simp
  show "current_kthd s' = current_kthd s" unfolding s' using u m3(3) m1(2) [OF b] by (auto simp: init_kthd_def Let_def)
qed

lemma lwt_kthd_create_keeps:
  assumes r: "lwt_kthd_create fn c ko s = Inr (p, s')" and i: "mid_inv True {} {} {} {} s" and ok: "call_ok (KthdCreate fn c ko) s"
  shows "mid_inv True {} {} {} {} s'"
proof -
  obtain s1 k where a: "malloc func_param_size s = Inr (p, s1)" and k: "ko = Some k"
    and it: "initiate k (s1\<lparr>stackw := (stackw s1)(p := fn, p + sizeof_uint := c)\<rparr>) = Inr s'"
    using r unfolding lwt_kthd_create_def by (auto simp: rbind_eq_Inr Let_def)
  have b: "func_param_size + 16 \<le> 2 ^ 32" by (simp add: func_param_size_def)
  note m1 = mid_inv_malloc [OF i a b]
  let ?s2 = "s1\<lparr>stackw := (stackw s1)(p := fn, p + sizeof_uint := c)\<rparr>"
  have "mid_inv True {} {} {} (if p = 0 then {} else {p}) ?s2" using m1(1) by simp
  moreover have "k \<notin> hosted ?s2" using ok k m1(2) by (auto simp: hosted_def)
  ultimately show ?thesis by (rule initiate_keeps(1) [OF it])
qed

section \<open>The machine\<close>

theorem call_keeps:
  assumes "call a s = Inr (v, s')" "call_ok a s" "mid_inv True {} {} {} {} s"
  shows "mid_inv True {} {} {} {} s'"
proof (cases a)
  case (NewChan sz)
  then show ?thesis using assms lwt_chan_keeps(1) by (auto simp: ret_ptr_def res_elims)
next
  case (Deref c)
  then show ?thesis using assms lwt_chan_deref_keeps by (auto simp: ret_void_def res_elims simp del: call_ok.simps)
next
  case (KthdCreate fn c k)
  then show ?thesis using assms lwt_kthd_create_keeps by (auto simp: ret_ptr_def res_elims simp del: call_ok.simps)
next
  case (Create f d fl)
  then show ?thesis using assms lwt_create_keeps by (auto simp: ret_ptr_def res_elims)
next
  case (CreateChan f c)
  then show ?thesis using assms lwt_create_chan_keeps by (auto simp: ret_ptr_def res_elims)
next
  case (SetType c ty)
  then show ?thesis using assms set_chan_type_keeps by (auto simp: ret_void_def res_elims)
next
  case (MarkSet c m)
  then show ?thesis using assms lwt_chan_mark_set_keeps by (auto simp: ret_void_def res_elims)
next
  case NewGrp
  then show ?thesis using assms lwt_cgrp_new_keeps by (auto simp: ret_ptr_def res_elims)
next
  case (GrpRem g c)
  then show ?thesis using assms lwt_cgrp_rem_keeps by auto
next
  case (SndThd c t)
  then show ?thesis using assms lwt_snd_keeps [of c t "push KSndThd s"] by (auto simp: lwt_snd_thd_def res_elims)
qed (use assms lwt_yield_keeps lwt_die_keeps lwt_join_keeps lwt_snd_keeps lwt_rcv_keeps
    lwt_snd_keeps [of _ _ "push _ s"] lwt_rcv_keeps [of _ "push _ s"] lwt_cgrp_add_keeps
    lwt_cgrp_free_keeps lwt_cgrp_wait_keeps
  in \<open>auto simp: lwt_snd_chan_def lwt_rcv_chan_def lwt_rcv_thd_def\<close>)


lemma resume_keeps:
  assumes "resume k v s = Inr (w, s')" "mid_inv True {} {} {} {} s"
  shows "mid_inv True {} {} {} {} s'"
proof (cases k)
  case (KRcv t)
  then show ?thesis using assms by (auto simp: rcv_rest_def res_elims)
next
  case KSndChan
  then show ?thesis using assms lwt_yield_keeps [of 0 "push (KRet v) s"] by (auto simp: snd_chan_rest_def)
qed (use assms rcv_chan_rest_keeps rcv_thd_rest_keeps join_rest_keeps die_rest_keeps sync_rcv_loop_keeps
    cgrp_wait_loop_keeps in auto)

lemma continue_keeps:
  assumes "continue v s = Inr (w, s')" "mid_inv True {} {} {} {} s"
  shows "mid_inv True {} {} {} {} s'"
  using assms resume_keeps [of _ v "pop s"] by (auto simp: continue_def split: list.splits)

lemma kthd_idle_round_keeps:
  assumes "kthd_idle_round s = Inr (f, v, s')" "mid_inv True {} {} {} {} s"
  shows "mid_inv True {} {} {} {} s'"
  using assms lwt_schedule_keeps by (auto simp: kthd_idle_round_def res_elims split: if_splits)

lemma kernel_switch_keeps:
  assumes "mid_inv b E X N P s" "main_thread (kthds s k) \<noteq> 0"
  shows "mid_inv True E X N P (s\<lparr>current_kthd := k\<rparr>)"
proof -
  obtain H D Q where i: "inv_but b E X N P H D Q s" by (rule mid_invE [OF assms(1)])
  have "k \<in> hosted s" using assms(2) by (simp add: hosted_def)
  then have "inv_but True E X N P H D Q (s\<lparr>current_kthd := k\<rparr>)"
    using i by (auto simp: inv_but_def owners_ok_def quiet_def)
  then show ?thesis by (rule mid_invI)
qed

inductive_cases lwt_stepE: "lwt_step (v, s) (w, s')"
inductive_simps lwt_step_iff: "lwt_step (v, s) c"

text \<open>A thread inside a call of the library can only go on in it; its step is determined.\<close>

lemma suspended_step: "frames s (lwt_current s) \<noteq> [] \<Longrightarrow> lwt_step (v, s) c \<longleftrightarrow> continue v s = Inr c"
  by (simp add: lwt_step_iff)

lemma lwt_step_keeps: "lwt_step (v, s) (w, s') \<Longrightarrow> lwt_inv s \<Longrightarrow> lwt_inv s'"
  unfolding lwt_inv_def
proof (elim lwt_stepE)
  fix m assume "trampoline_return m s = Inr (w, s')" "mid_inv True {} {} {} {} s"
  then show "mid_inv True {} {} {} {} s'" using lwt_die_keeps by (simp add: trampoline_return_def)
qed (use call_keeps continue_keeps kthd_idle_round_keeps kernel_switch_keeps in blast)+

text \<open>Boot: the first kernel thread.\<close>

lemma blank_inv:
  assumes "uheap m {}" "\<forall>p. cgroup (rc p) = 0"
  shows "mid_inv False {} {} {} {} (blank m rt rc rw)"
proof -
  have "inv_but False {} {} {} {} {} {} (\<lambda>_. []) (blank m rt rc rw)"
    unfolding inv_but_def
  proof (intro conjI)
    show "memory_ok (mem (blank m rt rc rw)) (dom (thds (blank m rt rc rw))) (dom (chans (blank m rt rc rw)))
        (dom (grps (blank m rt rc rw))) (dom (wraps (blank m rt rc rw))) {}"
      unfolding blank_def by (rule memory_okI [of _ "{}"]) (use assms(1) in \<open>simp_all add: separate_def\<close>)
  qed (use assms(2) in \<open>simp_all add: blank_def queues_def heads_ok_def nodes_ok_def groups_ok_def owners_ok_def
      quiet_def hosted_def group_of_def\<close>)
  then show ?thesis by (rule mid_invI)
qed

lemma boot_inv:
  assumes "uheap m {}" "\<forall>p. cgroup (rc p) = 0" "initiate k (blank m rt rc rw) = Inr s"
  shows "lwt_inv (s\<lparr>current_kthd := k\<rparr>)"
proof -
  have "k \<notin> hosted (blank m rt rc rw)" by (simp add: hosted_def blank_def)
  note i = initiate_keeps [OF assms(3) blank_inv [OF assms(1,2)] this]
  have "main_thread (kthds s k) \<noteq> 0" using i(2) by (auto simp: hosted_def)
  from kernel_switch_keeps [OF i(1) this] show ?thesis by (simp add: lwt_inv_def)
qed

lemma reachable_inv: "reachable c \<Longrightarrow> lwt_inv (snd c)"
proof (induction rule: reachable.induct)
  case (step c c')
  then show ?case using lwt_step_keeps [of "fst c" "snd c" "fst c'" "snd c'"] by simp
qed (simp add: boot_inv)

end
