(* ===== verification/Lwt_Views.thy ===== *)
theory Lwt_Views
  imports Lwt_Safety
begin

text \<open>
  What a client sees of a state: the queue of every list head, as the iteration macro of
  the library lists it, and how the primitives of the library change these queues. The
  functional properties of the operations are stated over these views.
\<close>

section \<open>Queues of a state\<close>

definition heads :: "sys \<Rightarrow> lnode set" where
  "heads s = SendQ ` dom (chans s) \<union> GrpQ ` dom (grps s) \<union> RunQ ` hosted s \<union> RecQ ` hosted s \<union> WakeQ ` hosted s"

definition queue_of :: "lnode \<Rightarrow> sys \<Rightarrow> lnode list" where
  "queue_of h s = (case list_foreach h (lists s) of Some ns \<Rightarrow> ns | None \<Rightarrow> [])"

text \<open>\<open>linked D s\<close>: the list store is intact and the nodes of \<open>D\<close> are detached.\<close>

definition linked :: "lnode set \<Rightarrow> sys \<Rightarrow> bool" where
  "linked D s \<longleftrightarrow> queues (lists s) (heads s) D (\<lambda>h. queue_of h s)"

lemma queues_cong: "queues L H D Q \<Longrightarrow> (\<And>h. h \<in> H \<Longrightarrow> Q' h = Q h) \<Longrightarrow> queues L H D Q'"
  unfolding queues_def by auto

lemma queue_of_queues: "queues (lists s) H D Q \<Longrightarrow> h \<in> H \<Longrightarrow> queue_of h s = Q h"
  by (simp add: queue_of_def list_foreach_queue)

lemma linkedI: "queues (lists s) (heads s) D Q \<Longrightarrow> linked D s"
  unfolding linked_def using queues_cong queue_of_queues by metis

lemma foreach_linked: "linked D s \<Longrightarrow> h \<in> heads s \<Longrightarrow> list_foreach h (lists s) = Some (queue_of h s)"
  unfolding linked_def by (rule list_foreach_queue)

lemma queue_of_lists: "lists s' = lists s \<Longrightarrow> queue_of h s' = queue_of h s"
  by (simp add: queue_of_def)

lemma inv_heads: "inv_but b {} X N P H D Q s \<Longrightarrow> H = heads s"
  using inv_butD(2) by (fastforce simp: heads_ok_def heads_def)

text \<open>What the invariant says in these terms.\<close>

lemma lwt_invE:
  assumes "lwt_inv s"
  obtains D where "linked D s" "inv_but True {} {} {} {} (heads s) D (\<lambda>h. queue_of h s) s"
proof -
  obtain H D Q where i: "inv_but True {} {} {} {} H D Q s"
    using assms unfolding lwt_inv_def by (rule mid_invE)
  have H: "H = heads s" by (rule inv_heads [OF i])
  have q: "queues (lists s) (heads s) D Q" using inv_butD(1) [OF i] H by simp
  have e: "queue_of h s = Q h" if "h \<in> H" for h using queue_of_queues [OF q] that H by simp
  have "nodes_ok H D (\<lambda>h. queue_of h s) T C W = nodes_ok H D Q T C W" for T C W
    by (simp add: nodes_ok_def e)
  moreover have "groups_ok H (\<lambda>h. queue_of h s) C = groups_ok H Q C" for C
    using e unfolding groups_ok_def by metis
  moreover have "located H D (\<lambda>h. queue_of h s) t st = located H D Q t st" for t st
    by (simp add: located_def e cong: bex_cong)
  moreover have "queues (lists s) H D (\<lambda>h. queue_of h s)" using linkedI [OF q] H by (simp add: linked_def)
  ultimately have "inv_but True {} {} {} {} H D (\<lambda>h. queue_of h s) s"
    using i unfolding inv_but_def by simp
  then show ?thesis using that linkedI [OF q] H by blast
qed

lemma heads_current: "lwt_inv s \<Longrightarrow> RunQ (current_kthd s) \<in> heads s"
  unfolding lwt_inv_def by (drule inv_current) (simp add: heads_def)

lemma live_nonnull:
  assumes "inv_but b E X N P H D Q s"
  shows "thds s t = Some x \<Longrightarrow> t \<noteq> 0" "chans s c = Some ch \<Longrightarrow> c \<noteq> 0" "grps s g = Some y \<Longrightarrow> g \<noteq> 0"
proof -
  obtain B where B: "uheap (mem s) B" "dom (thds s) \<union> dom (chans s) \<union> dom (grps s) \<union> dom (wraps s) \<union> P \<subseteq> B"
    by (rule memory_okE [OF inv_butD(7) [OF assms]])
  show "thds s t = Some x \<Longrightarrow> t \<noteq> 0" "chans s c = Some ch \<Longrightarrow> c \<noteq> 0" "grps s g = Some y \<Longrightarrow> g \<noteq> 0"
    using um.heap_nonnull [OF B(1)] B(2) by blast+
qed

section \<open>How the primitives change the queues\<close>

text \<open>
  \<open>requeue s s' Q\<close>: \<open>s'\<close> has the heads of \<open>s\<close>, an intact list store, and the queues \<open>Q\<close>.
\<close>

definition requeue :: "sys \<Rightarrow> sys \<Rightarrow> (lnode \<Rightarrow> lnode list) \<Rightarrow> bool" where
  "requeue s s' Q \<longleftrightarrow> heads s' = heads s \<and> (\<forall>h\<in>heads s. list_foreach h (lists s') = Some (Q h))"

lemma requeueI:
  "queues (lists s') (heads s) D Q \<Longrightarrow> heads s' = heads s \<Longrightarrow> requeue s s' Q"
  by (simp add: requeue_def list_foreach_queue)

lemma heads_frame [simp]:
  "heads (s\<lparr>lists := l\<rparr>) = heads s" "heads (s\<lparr>mem := m\<rparr>) = heads s" "heads (s\<lparr>frames := f\<rparr>) = heads s"
  "heads (s\<lparr>ufn := u\<rparr>) = heads s" "heads (s\<lparr>stackw := w\<rparr>) = heads s" "heads (s\<lparr>lwt_counter := i\<rparr>) = heads s"
  "heads (s\<lparr>chan_counter := i\<rparr>) = heads s" "heads (s\<lparr>wraps := W\<rparr>) = heads s" "heads (s\<lparr>thds := T\<rparr>) = heads s"
  by (simp_all add: heads_def)

lemma heads_chan [simp]: "c \<in> dom (chans s) \<Longrightarrow> heads (s\<lparr>chans := (chans s)(c \<mapsto> ch)\<rparr>) = heads s"
  by (simp add: heads_def insert_absorb)

lemma heads_same:
  assumes "dom (chans s') = dom (chans s)" "dom (grps s') = dom (grps s)"
    "\<And>k. main_thread (kthds s' k) = main_thread (kthds s k)"
  shows "heads s' = heads s"
  using assms by (simp add: heads_def hosted_def)

lemma heads_kthd: "main_thread i = main_thread (kthds s k) \<Longrightarrow> heads (s\<lparr>kthds := (kthds s)(k := i)\<rparr>) = heads s"
  by (simp add: heads_def hosted_upd)

text \<open>Dispatch leaves lists, channels and counters alone and goes to the new thread.\<close>

definition saved :: "lwt_thread \<Rightarrow> lwt_thread" where
  "saved x = x\<lparr>ctx := (ctx x)\<lparr>ip := RetDispatch\<rparr>\<rparr>"

lemma saved_fields [simp]:
  "tstate (saved x) = tstate x" "block_for (saved x) = block_for x" "owner_kthd (saved x) = owner_kthd x"
  "message_data (saved x) = message_data x" "now_rcving (saved x) = now_rcving x" "chl (saved x) = chl x"
  "parent (saved x) = parent x" "nojoin (saved x) = nojoin x" "ip (ctx (saved x)) = RetDispatch"
  by (simp_all add: saved_def)

lemma lwt_dispatch_runs:
  assumes "old \<noteq> 0" "thds s old = Some x" "new \<noteq> 0" "new \<in> dom (thds s)"
  shows "\<exists>v s'. lwt_dispatch old new s = Inr (v, s') \<and> lists s' = lists s \<and> chans s' = chans s \<and>
    grps s' = grps s \<and> kthds s' = kthds s \<and> current_kthd s' = current_kthd s \<and> mem s' = mem s \<and>
    thds s' = (thds s)(old \<mapsto> saved x) \<and> (\<forall>w. w \<noteq> new \<longrightarrow> frames s' w = frames s w) \<and>
    (new = old \<or> map_option (\<lambda>x. ip (ctx x)) (thds s new) = Some RetDispatch \<longrightarrow> frames s' = frames s)"
proof -
  obtain y where y: "((thds s)(old \<mapsto> saved x)) new = Some y" using assms(4) by (cases "new = old") auto
  then show ?thesis using assms(1-3)
    by (cases "ip (ctx y)"; cases "new = old") (auto simp: lwt_dispatch_def saved_def)
qed

text \<open>
  \<^verbatim>\<open>__lwt_schedule\<close> runs the first thread of the run queue. Of the threads it marks the new
  one as running and the old one as suspended in a dispatch.
\<close>

definition dispatched :: "ptr \<Rightarrow> ptr \<Rightarrow> (ptr \<Rightarrow> lwt_thread option) \<Rightarrow> ptr \<Rightarrow> lwt_thread option" where
  "dispatched old new T u =
     map_option (if u = old then saved else id)
       (map_option (if u = new then tstate_update (\<lambda>_. LWT_RUNNING) else id) (T u))"

lemma dispatched_fields [simp]:
  "map_option message_data (dispatched old new T u) = map_option message_data (T u)"
  "map_option block_for (dispatched old new T u) = map_option block_for (T u)"
  "map_option owner_kthd (dispatched old new T u) = map_option owner_kthd (T u)"
  "u \<noteq> new \<Longrightarrow> map_option tstate (dispatched old new T u) = map_option tstate (T u)"
  by (cases "T u"; simp add: dispatched_def)+

lemma dispatched_new: "new \<in> dom T \<Longrightarrow> map_option tstate (dispatched old new T new) = Some LWT_RUNNING"
  by (auto simp: dispatched_def)

lemma dispatched_other: "u \<noteq> old \<Longrightarrow> u \<noteq> new \<Longrightarrow> dispatched old new T u = T u"
  by (simp add: dispatched_def option.map_id0)

text \<open>\<open>switched s s' u\<close>: all that a switch from the current thread to \<open>u\<close> changes.\<close>

definition waits_in_dispatch :: "sys \<Rightarrow> ptr \<Rightarrow> bool" where
  "waits_in_dispatch s u \<longleftrightarrow> u = lwt_current s \<or> map_option (\<lambda>x. ip (ctx x)) (thds s u) = Some RetDispatch"

definition switched :: "sys \<Rightarrow> sys \<Rightarrow> ptr \<Rightarrow> bool" where
  "switched s s' u \<longleftrightarrow>
     thds s' = dispatched (lwt_current s) u (thds s) \<and> lwt_current s' = u \<and>
     kthds s' = (kthds s)(current_kthd s := (kthds s (current_kthd s))\<lparr>current_thread := u\<rparr>) \<and>
     current_kthd s' = current_kthd s \<and> chans s' = chans s \<and> grps s' = grps s \<and> mem s' = mem s \<and>
     (\<forall>w. w \<noteq> u \<longrightarrow> frames s' w = frames s w) \<and> (waits_in_dispatch s u \<longrightarrow> frames s' = frames s)"

lemma switched_heads: "switched s s' u \<Longrightarrow> heads s' = heads s"
proof -
  assume w: "switched s s' u"
  then have "main_thread (kthds s' k) = main_thread (kthds s k)" for k by (simp add: switched_def)
  then have "hosted s' = hosted s" by (simp add: hosted_def)
  then show ?thesis using w by (simp add: switched_def heads_def)
qed

lemma lwt_schedule_runs:
  assumes i: "\<And>k. polling_flag (kthds s k) = 0" and t: "list_head_first (RunQ (current_kthd s)) (lists s) = ThdNode t"
    and live: "t \<noteq> 0" "t \<in> dom (thds s)" "lwt_current s \<noteq> 0" "lwt_current s \<in> dom (thds s)"
  shows "\<exists>v s'. lwt_schedule s = Inr (v, s') \<and> lists s' = lists s \<and> switched s s' t"
proof -
  obtain y where y: "thds s t = Some y" using live(2) by blast
  let ?s = "kthd_do (current_kthd s) (\<lambda>k. k\<lparr>current_thread := t\<rparr>) (s\<lparr>thds := (thds s)(t \<mapsto> y\<lparr>tstate := LWT_RUNNING\<rparr>)\<rparr>)"
  obtain x where x: "thds ?s (lwt_current s) = Some x" using live(4) by (cases "lwt_current s = t") auto
  have "t \<in> dom (thds ?s)" by auto
  then obtain v s' where d: "lwt_dispatch (lwt_current s) t ?s = Inr (v, s')" "lists s' = lists ?s" "chans s' = chans ?s"
    "grps s' = grps ?s" "kthds s' = kthds ?s" "current_kthd s' = current_kthd ?s" "mem s' = mem ?s"
    "thds s' = (thds ?s)(lwt_current s \<mapsto> saved x)" "\<forall>w. w \<noteq> t \<longrightarrow> frames s' w = frames ?s w"
    "t = lwt_current s \<or> map_option (\<lambda>x. ip (ctx x)) (thds ?s t) = Some RetDispatch \<longrightarrow> frames s' = frames ?s"
    using lwt_dispatch_runs [OF live(3) x live(1)] by blast
  have "lwt_schedule s = Inr (v, s')"
    using d(1) t y live(1) i by (simp add: lwt_schedule_def Let_def current_run_queue_def poll_quiet)
  moreover have "thds s' = dispatched (lwt_current s) t (thds s)"
    using d(8) x y by (auto simp: dispatched_def fun_eq_iff option.map_id0)
  moreover have "waits_in_dispatch s t \<longrightarrow> frames s' = frames s"
    using d(10) y by (auto simp: waits_in_dispatch_def)
  ultimately show ?thesis using d(2-7,9)
    by (intro exI [of _ v] exI [of _ s']) (simp add: switched_def lwt_current_def)
qed

text \<open>Scheduling in a state whose queues are known.\<close>

lemma schedule_head:
  assumes q: "queues (lists s) (heads s) D Q" "RunQ (current_kthd s) \<in> heads s" "Q (RunQ (current_kthd s)) = ThdNode t # ns"
    and p: "\<And>k. polling_flag (kthds s k) = 0"
    and live: "t \<noteq> 0" "t \<in> dom (thds s)" "lwt_current s \<noteq> 0" "lwt_current s \<in> dom (thds s)"
  shows "\<exists>v s'. lwt_schedule s = Inr (v, s') \<and> requeue s s' Q \<and> switched s s' t"
proof -
  have "list_head_first (RunQ (current_kthd s)) (lists s) = ThdNode t" using lq.first_rep [OF q(1,2)] q(3) by simp
  from lwt_schedule_runs [OF p this live] obtain v s' where
    s': "lwt_schedule s = Inr (v, s')" "lists s' = lists s" "switched s s' t" by blast
  then show ?thesis using requeueI [of s' s D Q] q(1) switched_heads by auto
qed

end
