(* ===== verification/Lwt_SchedProps.thy ===== *)
theory Lwt_SchedProps
  imports Lwt_Views
begin

text \<open>
  What \<^verbatim>\<open>lwt_yield\<close> does to the run queue: the plain yield rotates it and runs its new head,
  so that every thread gets its turn; the directed yield puts its target before the last
  thread, which is the front of the queue only when two threads share it.
\<close>

section \<open>The thread on the CPU\<close>

text \<open>
  \<open>on_cpu s q\<close>: the run queue of the current kernel thread is \<open>q\<close>, the current thread is in
  it and belongs to this kernel thread.
\<close>

definition on_cpu :: "sys \<Rightarrow> lnode list \<Rightarrow> bool" where
  "on_cpu s q \<longleftrightarrow> lwt_inv s \<and> list_foreach (RunQ (current_kthd s)) (lists s) = Some q \<and>
     ThdNode (lwt_current s) \<in> set q \<and>
     map_option owner_kthd (thds s (lwt_current s)) = Some (current_kthd s)"

lemma on_cpu_queue: "on_cpu s q \<Longrightarrow> queue_of (RunQ (current_kthd s)) s = q"
  by (simp add: on_cpu_def queue_of_def)

lemma run_queue_threads:
  assumes "inv_but b {} X N P (heads s) D (\<lambda>h. queue_of h s) s" "RunQ k \<in> heads s" "n \<in> set (queue_of (RunQ k) s)"
  obtains t x where "n = ThdNode t" "t \<noteq> 0" "thds s t = Some x" "may_run x"
proof -
  obtain t x where t: "n = ThdNode t" "thds s t = Some x"
  proof -
    have "node_ok (dom (thds s)) (group_of s) (dom (wraps s)) (RunQ k) n"
      using inv_butD(3) [OF assms(1)] assms(2,3) unfolding nodes_ok_def by blast
    then show ?thesis using that by (auto simp: node_ok_def)
  qed
  have "t \<noteq> 0" by (rule live_nonnull(1) [OF assms(1) t(2)])
  moreover have "may_run x" using queued_runnable [OF assms(1,2) _ t(2)] assms(3) t(1) by (simp add: may_run_def)
  ultimately show ?thesis using that t by blast
qed

lemma inv_polling: "lwt_inv s \<Longrightarrow> polling_flag (kthds s k) = 0"
  unfolding lwt_inv_def by (rule inv_quiet)

section \<open>\<^verbatim>\<open>lwt_yield\<close>\<close>

text \<open>
  The common part: the thread \<open>y\<close> of the run queue \<open>q\<close> has been moved, giving \<open>q'\<close>.
\<close>

lemma requeue_run:
  assumes c: "on_cpu s q" and L: "queues L (heads s) D ((\<lambda>h. queue_of h s)(RunQ (current_kthd s) := q'))"
    and q': "set q' = set q" "q' \<noteq> []"
  shows "\<exists>v s' u. lwt_schedule (s\<lparr>lists := L\<rparr>) = Inr (v, s') \<and>
    requeue s s' ((\<lambda>h. queue_of h s)(RunQ (current_kthd s) := q')) \<and> hd q' = ThdNode u \<and> switched s s' u"
proof -
  let ?k = "current_kthd s" and ?s = "s\<lparr>lists := L\<rparr>" and ?t = "lwt_current s"
  have i: "lwt_inv s" using c by (simp add: on_cpu_def)
  obtain D0 where i0: "inv_but True {} {} {} {} (heads s) D0 (\<lambda>h. queue_of h s) s" by (rule lwt_invE [OF i])
  note kH = heads_current [OF i] and qk = on_cpu_queue [OF c]
  obtain n ns where n: "q' = n # ns" using q'(2) by (cases q') auto
  then have "n \<in> set (queue_of (RunQ ?k) s)" using q'(1) qk by auto
  then obtain u x where u: "n = ThdNode u" "u \<noteq> 0" "thds s u = Some x" by (rule run_queue_threads [OF i0 kH])
  have "ThdNode ?t \<in> set (queue_of (RunQ ?k) s)" using c qk by (simp add: on_cpu_def)
  then obtain x' where t: "?t \<noteq> 0" "thds s ?t = Some x'" by (rule run_queue_threads [OF i0 kH]) auto
  have [simp]: "lwt_current ?s = ?t" "current_kthd ?s = ?k" by (simp_all add: lwt_current_def)
  have "\<exists>v s'. lwt_schedule ?s = Inr (v, s') \<and> requeue ?s s' ((\<lambda>h. queue_of h s)(RunQ ?k := q')) \<and> switched ?s s' u"
    using schedule_head [of ?s D "(\<lambda>h. queue_of h s)(RunQ ?k := q')" u ns] L kH n u t inv_polling [OF i]
    by (simp add: domIff)
  moreover have "switched ?s s' u = switched s s' u" "requeue ?s s' Q = requeue s s' Q" for s' Q
    by (simp_all add: switched_def requeue_def waits_in_dispatch_def)
  ultimately show ?thesis using n u(1) by auto
qed

lemma yield_null_effect:
  assumes c: "on_cpu s q"
  shows "\<exists>v s' u. lwt_yield 0 s = Inr (v, s') \<and>
    requeue s s' ((\<lambda>h. queue_of h s)(RunQ (current_kthd s) := remove1 (ThdNode (lwt_current s)) q @ [ThdNode (lwt_current s)])) \<and>
    hd (remove1 (ThdNode (lwt_current s)) q @ [ThdNode (lwt_current s)]) = ThdNode u \<and> switched s s' u"
proof -
  let ?k = "current_kthd s" and ?t = "lwt_current s"
  have i: "lwt_inv s" using c by (simp add: on_cpu_def)
  obtain D where l: "linked D s" and i0: "inv_but True {} {} {} {} (heads s) D (\<lambda>h. queue_of h s) s"
    by (rule lwt_invE [OF i])
  note kH = heads_current [OF i] and qk = on_cpu_queue [OF c] and qs = l [unfolded linked_def]
  have tq: "ThdNode ?t \<in> set (queue_of (RunQ ?k) s)" using c qk by (simp add: on_cpu_def)
  then obtain x where t: "?t \<noteq> 0" "thds s ?t = Some x" "may_run x" by (rule run_queue_threads [OF i0 kH]) auto
  then have o: "owner_kthd x = ?k" using c by (simp add: on_cpu_def)
  let ?L = "list_head_add (RunQ ?k) (ThdNode ?t) (list_ll_rem (ThdNode ?t) (lists s))"
  have y: "lwt_yield 0 s = lwt_schedule (s\<lparr>lists := ?L\<rparr>)"
    using t o by (simp add: lwt_yield_def Let_def owner_run_queue_def lwt_current_def)
  have "queues ?L (heads s) D ((\<lambda>h. queue_of h s)(RunQ ?k := remove1 (ThdNode ?t) q @ [ThdNode ?t]))"
    using lq.rotate_rep [OF qs kH tq] qk by simp
  then show ?thesis unfolding y
    by (rule requeue_run [OF c]) (use tq qk lq.rep_distinct [OF qs kH] in auto)
qed

lemma yield_to_effect:
  assumes c: "on_cpu s q" and y: "y \<noteq> lwt_current s" "ThdNode y \<in> set q"
  shows "\<exists>v s' u. lwt_yield y s = Inr (v, s') \<and>
    requeue s s' ((\<lambda>h. queue_of h s)(RunQ (current_kthd s) := insert_before_last (ThdNode y) (remove1 (ThdNode y) q))) \<and>
    hd (insert_before_last (ThdNode y) (remove1 (ThdNode y) q)) = ThdNode u \<and> switched s s' u"
proof -
  let ?k = "current_kthd s" and ?t = "lwt_current s"
  have i: "lwt_inv s" using c by (simp add: on_cpu_def)
  obtain D where l: "linked D s" and i0: "inv_but True {} {} {} {} (heads s) D (\<lambda>h. queue_of h s) s"
    by (rule lwt_invE [OF i])
  note kH = heads_current [OF i] and qk = on_cpu_queue [OF c] and qs = l [unfolded linked_def]
  have tq: "ThdNode ?t \<in> set (queue_of (RunQ ?k) s)" using c qk by (simp add: on_cpu_def)
  then obtain x where t: "?t \<noteq> 0" "thds s ?t = Some x" by (rule run_queue_threads [OF i0 kH]) auto
  then have o: "owner_kthd x = ?k" using c by (simp add: on_cpu_def)
  have yq: "ThdNode y \<in> set (queue_of (RunQ ?k) s)" using y qk by simp
  then obtain z where z: "y \<noteq> 0" "thds s y = Some z" "may_run z" by (rule run_queue_threads [OF i0 kH]) auto
  let ?L = "list_head_append (RunQ ?k) (ThdNode y) (list_ll_rem (ThdNode y) (lists s))"
  have e: "lwt_yield y s = lwt_schedule (s\<lparr>lists := ?L\<rparr>)"
    using t o z y(1) by (simp add: lwt_yield_def Let_def owner_run_queue_def lwt_current_def)
  have "queues ?L (heads s) D ((\<lambda>h. queue_of h s)(RunQ ?k := insert_before_last (ThdNode y) (remove1 (ThdNode y) q)))"
    using lq.move_append_rep [OF qs kH yq kH] qk by simp
  then show ?thesis unfolding e
    by (rule requeue_run [OF c]) (use yq qk lq.rep_distinct [OF qs kH] in \<open>auto simp: set_remove1_eq\<close>)
qed

section \<open>Every thread gets its turn\<close>

fun yields :: "nat \<Rightarrow> sys \<Rightarrow> sys res" where
  "yields 0 s = Inr s"
| "yields (Suc n) s = rbind (lwt_yield 0 s) (\<lambda>(v, s1). yields n s1)"

text \<open>
  The threads of the run queue belong to this kernel thread and its first thread runs.
\<close>

definition in_turn :: "sys \<Rightarrow> lnode list \<Rightarrow> bool" where
  "in_turn s q \<longleftrightarrow> lwt_inv s \<and> list_foreach (RunQ (current_kthd s)) (lists s) = Some q \<and>
     q \<noteq> [] \<and> hd q = ThdNode (lwt_current s) \<and>
     (\<forall>t. ThdNode t \<in> set q \<longrightarrow> map_option owner_kthd (thds s t) = Some (current_kthd s))"

lemma in_turn_on_cpu: "in_turn s q \<Longrightarrow> on_cpu s q"
  unfolding in_turn_def on_cpu_def using hd_in_set by metis

lemma yield_in_turn:
  assumes t: "in_turn s q"
  shows "\<exists>v s'. lwt_yield 0 s = Inr (v, s') \<and> in_turn s' (rotate1 q) \<and> current_kthd s' = current_kthd s"
proof -
  let ?n = "ThdNode (lwt_current s)"
  obtain ns where q: "q = ?n # ns" using t by (cases q) (auto simp: in_turn_def)
  obtain v s' u where y: "lwt_yield 0 s = Inr (v, s')"
    "requeue s s' ((\<lambda>h. queue_of h s)(RunQ (current_kthd s) := remove1 ?n q @ [?n]))" "hd (remove1 ?n q @ [?n]) = ThdNode u" "switched s s' u"
    using yield_null_effect [OF in_turn_on_cpu [OF t]] by blast
  have i: "lwt_inv s" using t by (simp add: in_turn_def)
  then have i': "lwt_inv s'" using lwt_yield_keeps [OF y(1)] by (simp add: lwt_inv_def)
  have "list_foreach (RunQ (current_kthd s)) (lists s') = Some (rotate1 q)"
    using y(2) heads_current [OF i] by (simp add: requeue_def q)
  then have "in_turn s' (rotate1 q)"
    using t i' y(3,4) unfolding in_turn_def switched_def by (simp add: q)
  then show ?thesis using y(1,4) unfolding switched_def by blast
qed

lemma yields_in_turn:
  "in_turn s q \<Longrightarrow> \<exists>s'. yields n s = Inr s' \<and> in_turn s' (rotate n q)"
proof (induction n arbitrary: s q)
  case (Suc n)
  obtain v s1 where s1: "lwt_yield 0 s = Inr (v, s1)" "in_turn s1 (rotate1 q)" using yield_in_turn [OF Suc.prems] by blast
  then show ?case using Suc.IH [OF s1(2)] by (simp add: rotate1_rotate_swap)
qed simp

end
