(* ===== verification/Lwt_MsgProps.thy ===== *)
theory Lwt_MsgProps
  imports Lwt_SchedProps
begin

text \<open>
  Messages: what blocking and resuming do to the queues, and the refinement of a local
  channel to a first-in first-out queue, which holds the buffered words followed by the
  words that blocked senders carry.
\<close>

section \<open>Unlinking any thread\<close>

lemma unlink_thread:
  assumes i: "inv_but b E {} {} P H D Q s" and t: "t \<in> dom (thds s)"
  shows "queues (list_ll_rem (ThdNode t) (lists s)) H (insert (ThdNode t) D) (\<lambda>h. remove1 (ThdNode t) (Q h))"
proof -
  note q = inv_butD(1) [OF i]
  have same: "remove1 (ThdNode t) (Q h) = Q h" if "ThdNode t \<notin> set (Q h)" for h
    using that by (rule remove1_idem)
  show ?thesis
  proof (cases "ThdNode t \<in> D")
    case True
    then have "ThdNode t \<notin> set (Q h)" if "h \<in> H" for h using queuesD(4) [OF q that] by blast
    then have "queues (lists s) H D (\<lambda>h. remove1 (ThdNode t) (Q h))"
      by (intro queues_cong [OF q] same)
    then show ?thesis using queues_rem_detached [OF q True] True by (simp add: insert_absorb)
  next
    case False
    then obtain h where h: "h \<in> H" "ThdNode t \<in> set (Q h)"
      using inv_butD(13) [OF i, of t] t by (auto simp: located_def split: if_splits)
    have "ThdNode t \<notin> set (Q g)" if "g \<in> H" "g \<noteq> h" for g
      using queuesD(5) [OF q that(1) h(1) _ h(2)] that(2) by blast
    then show ?thesis using h by (intro queues_cong [OF queues_rem [OF q h]]) (auto simp: same)
  qed
qed

lemma unlinked:
  assumes i: "inv_but b E {} {} P H D Q s" and t: "t \<in> dom (thds s)" and h: "h \<in> H"
  shows "ThdNode t \<notin> H" "ThdNode t \<notin> set (remove1 (ThdNode t) (Q h))"
  using head_in(6) [OF inv_butD(2) [OF i]] lq.rep_distinct [OF inv_butD(1) [OF i] h] by (simp_all add: set_remove1_eq)

section \<open>Resuming\<close>

text \<open>
  A resumed thread is runnable and enters the run queue of the current thread's kernel
  thread before the last thread; it leaves whatever queue it was in.
\<close>

definition woken :: "ptr \<Rightarrow> nat \<Rightarrow> (lnode \<Rightarrow> lnode list) \<Rightarrow> lnode \<Rightarrow> lnode list" where
  "woken t k Q = (\<lambda>h. remove1 (ThdNode t) (Q h))
     (RunQ k := insert_before_last (ThdNode t) (remove1 (ThdNode t) (Q (RunQ k))))"

lemma resume_thread_effect:
  assumes i: "lwt_inv s" and t: "thds s t = Some x" and cur: "thds s (lwt_current s) = Some y"
  shows "\<exists>s'. resume_thread t s = Inr s' \<and> requeue s s' (woken t (owner_kthd y) (\<lambda>h. queue_of h s)) \<and>
    thds s' = (thds s)(t \<mapsto> x\<lparr>tstate := LWT_RUNNABLE\<rparr>) \<and> chans s' = chans s \<and> grps s' = grps s \<and>
    lwt_current s' = lwt_current s \<and> current_kthd s' = current_kthd s \<and> frames s' = frames s \<and> mem s' = mem s"
proof -
  let ?k = "current_kthd s" and ?c = "lwt_current s" and ?o = "owner_kthd y"
  obtain D where i0: "inv_but True {} {} {} {} (heads s) D (\<lambda>h. queue_of h s) s" by (rule lwt_invE [OF i])
  have td: "t \<in> dom (thds s)" using t by blast
  have nn: "t \<noteq> 0" "?c \<noteq> 0" using live_nonnull(1) [OF i0] t cur by blast+
  have "?o \<in> hosted s" using inv_butD(5) [OF i0] cur by (auto simp: owners_ok_def)
  then have oH: "RunQ ?o \<in> heads s" by (simp add: heads_def)
  let ?f = "\<lambda>i. i\<lparr>nrcving := nrcving i - (if block_for x = BLOCKED_RECEIVING then 1 else 0),
      nsnding := nsnding i - (if block_for x = BLOCKED_SENDING then 1 else 0), block_counter := block_counter i - 1\<rparr>"
  let ?L = "list_ll_rem (ThdNode t) (lists s)" and ?T = "(thds s)(t \<mapsto> x\<lparr>tstate := LWT_RUNNABLE\<rparr>)"
  let ?s = "s\<lparr>lists := ?L, thds := ?T, kthds := (kthds s)(?k := ?f (kthds s ?k)),
      lists := list_head_append (RunQ ?o) (ThdNode t) ?L\<rparr>"
  obtain z where z: "?T ?c = Some z" "owner_kthd z = ?o" using cur t by (cases "?c = t") auto
  have r: "resume_thread t s = Inr ?s"
    using nn t z by (simp add: resume_thread_def Let_def owner_run_queue_def lwt_current_def)
  have "queues (list_head_append (RunQ ?o) (ThdNode t) ?L) (heads s) (insert (ThdNode t) D - {ThdNode t})
      (woken t ?o (\<lambda>h. queue_of h s))"
    unfolding woken_def using unlinked [OF i0 td] oH
    by (intro queues_append [OF unlink_thread [OF i0 td]]) auto
  moreover have "heads ?s = heads s" by (rule heads_same) simp_all
  ultimately have "requeue s ?s (woken t ?o (\<lambda>h. queue_of h s))" by (intro requeueI) auto
  then show ?thesis using r by (intro exI [of _ ?s]) (simp add: lwt_current_def)
qed

section \<open>Blocking\<close>

definition parked :: "ptr \<Rightarrow> block_status \<Rightarrow> ptr \<Rightarrow> (lnode \<Rightarrow> lnode list) \<Rightarrow> lnode \<Rightarrow> lnode list" where
  "parked t why c Q = (let Q1 = (\<lambda>h. remove1 (ThdNode t) (Q h))
     in if why = BLOCKED_SENDING then Q1(SendQ c := Q1 (SendQ c) @ [ThdNode t]) else Q1)"

text \<open>
  \<open>slept s s' u y ks\<close>: the current thread, now with record \<open>y\<close> and frames \<open>ks\<close>, has stopped
  running and \<open>u\<close> runs.
\<close>

definition slept :: "sys \<Rightarrow> sys \<Rightarrow> ptr \<Rightarrow> lwt_thread \<Rightarrow> frame list \<Rightarrow> bool" where
  "slept s s' u y ks \<longleftrightarrow>
     thds s' = dispatched (lwt_current s) u ((thds s)(lwt_current s \<mapsto> y)) \<and> lwt_current s' = u \<and>
     current_kthd s' = current_kthd s \<and> grps s' = grps s \<and> mem s' = mem s \<and>
     (\<forall>w. w \<noteq> u \<longrightarrow> frames s' w = ((frames s)(lwt_current s := ks)) w) \<and>
     (waits_in_dispatch s u \<longrightarrow> frames s' u = ((frames s)(lwt_current s := ks)) u)"

lemma switched_slept:
  assumes "switched s1 s' u" "thds s1 = (thds s)(lwt_current s \<mapsto> y)" "lwt_current s1 = lwt_current s"
    "current_kthd s1 = current_kthd s" "grps s1 = grps s" "frames s1 = (frames s)(lwt_current s := ks)" "mem s1 = mem s"
  shows "slept s s' u y ks"
proof -
  have "waits_in_dispatch s u \<Longrightarrow> waits_in_dispatch s1 u" using assms(2,3) by (auto simp: waits_in_dispatch_def)
  then show ?thesis using assms by (auto simp: switched_def slept_def)
qed

lemma slept_other:
  assumes "slept s s' u y ks" "w \<noteq> u" "w \<noteq> lwt_current s"
  shows "thds s' w = thds s w" "frames s' w = frames s w"
  using assms by (simp_all add: slept_def dispatched_other)

lemma slept_old:
  assumes "slept s s' u y ks" "lwt_current s \<noteq> u"
  shows "thds s' (lwt_current s) = Some (saved y)" "frames s' (lwt_current s) = ks"
  using assms by (simp_all add: slept_def dispatched_def)

lemma slept_new:
  assumes "slept s s' u y ks" "lwt_current s \<noteq> u" "thds s u = Some x"
  shows "thds s' u = Some (x\<lparr>tstate := LWT_RUNNING\<rparr>)" "waits_in_dispatch s u \<Longrightarrow> frames s' u = frames s u"
  using assms by (simp_all add: slept_def dispatched_def)

lemma slept_cpu:
  "slept s s' u y ks \<Longrightarrow> lwt_current s' = u" "slept s s' u y ks \<Longrightarrow> current_kthd s' = current_kthd s"
  "slept s s' u y ks \<Longrightarrow> grps s' = grps s" "slept s s' u y ks \<Longrightarrow> mem s' = mem s"
  by (simp_all add: slept_def)

lemma block_thread_effect:
  assumes c: "on_cpu s q" and n: "remove1 (ThdNode (lwt_current s)) q = ThdNode u # ns"
    and w: "why = BLOCKED_SENDING \<Longrightarrow> c \<in> dom (chans s)" and t: "thds s (lwt_current s) = Some x"
  shows "\<exists>v s' s1. block_thread (lwt_current s) why c s = Inr (v, s') \<and>
    requeue s s' (parked (lwt_current s) why c (\<lambda>h. queue_of h s)) \<and> switched s1 s' u \<and>
    thds s1 = (thds s)(lwt_current s \<mapsto> x\<lparr>tstate := LWT_BLOCKED, block_for := why\<rparr>) \<and>
    chans s1 = chans s \<and> grps s1 = grps s \<and> lwt_current s1 = lwt_current s \<and> current_kthd s1 = current_kthd s \<and>
    frames s1 = frames s \<and> mem s1 = mem s"
proof -
  let ?k = "current_kthd s" and ?t = "lwt_current s"
  have i: "lwt_inv s" using c by (simp add: on_cpu_def)
  obtain D where i0: "inv_but True {} {} {} {} (heads s) D (\<lambda>h. queue_of h s) s" by (rule lwt_invE [OF i])
  note kH = heads_current [OF i] and qk = on_cpu_queue [OF c]
  have td: "?t \<in> dom (thds s)" and nn: "?t \<noteq> 0" using t live_nonnull(1) [OF i0 t] by auto
  have "ThdNode u \<in> set (queue_of (RunQ ?k) s)" using n qk by (metis list.set_intros(1) notin_set_remove1)
  then obtain y where u: "u \<noteq> 0" "thds s u = Some y" by (rule run_queue_threads [OF i0 kH]) auto
  let ?L = "list_ll_rem (ThdNode ?t) (lists s)"
  let ?L' = "if why = BLOCKED_SENDING then list_head_add (SendQ c) (ThdNode ?t) ?L else ?L"
  let ?T = "(thds s)(?t \<mapsto> x\<lparr>tstate := LWT_BLOCKED, block_for := why\<rparr>)"
  let ?Q = "parked ?t why c (\<lambda>h. queue_of h s)"
  let ?f = "\<lambda>i. if why = BLOCKED_RECEIVING then i\<lparr>nrcving := nrcving i + 1, block_counter := block_counter i + 1\<rparr>
      else i\<lparr>nsnding := nsnding i + 1, block_counter := block_counter i + 1\<rparr>"
  let ?s1 = "s\<lparr>lists := ?L', thds := ?T, kthds := (kthds s)(?k := ?f (kthds s ?k))\<rparr>"
  have cH: "why = BLOCKED_SENDING \<Longrightarrow> SendQ c \<in> heads s" using w by (simp add: heads_def)
  have mt: "main_thread (?f i) = main_thread i" "polling_flag (?f i) = polling_flag i" for i by simp_all
  have h1: "heads ?s1 = heads s" by (rule heads_same) simp_all
  have [simp]: "lwt_current ?s1 = ?t" "current_kthd ?s1 = ?k" by (simp_all add: lwt_current_def)
  have "\<exists>D'. queues ?L' (heads s) D' ?Q"
  proof (cases "why = BLOCKED_SENDING")
    case True
    have "queues (list_head_add (SendQ c) (ThdNode ?t) ?L) (heads s) (insert (ThdNode ?t) D - {ThdNode ?t})
        ((\<lambda>h. remove1 (ThdNode ?t) (queue_of h s))(SendQ c := remove1 (ThdNode ?t) (queue_of (SendQ c) s) @ [ThdNode ?t]))"
      using unlinked [OF i0 td] cH [OF True] by (intro queues_add [OF unlink_thread [OF i0 td]]) auto
    then show ?thesis using True by (auto simp: parked_def Let_def)
  next
    case False
    then show ?thesis using unlink_thread [OF i0 td] by (auto simp: parked_def Let_def)
  qed
  then obtain D' where q': "queues (lists ?s1) (heads ?s1) D' ?Q" using h1 by auto
  have hd: "?Q (RunQ ?k) = ThdNode u # ns" using n qk by (simp add: parked_def Let_def)
  have pf: "polling_flag (kthds ?s1 j) = 0" for j using inv_polling [OF i] by simp
  have "\<exists>v s'. lwt_schedule ?s1 = Inr (v, s') \<and> requeue ?s1 s' ?Q \<and> switched ?s1 s' u"
    by (rule schedule_head [OF q' _ _ pf]) (use h1 kH hd u nn td in auto)
  then obtain v s' where s': "lwt_schedule ?s1 = Inr (v, s')" "requeue ?s1 s' ?Q" "switched ?s1 s' u" by blast
  have "block_thread ?t why c s = lwt_schedule ?s1"
    using nn t by (cases why) (simp_all add: block_thread_def lwt_yield_def lwt_current_def Let_def may_run_def)
  then show ?thesis using s' h1 by (intro exI [of _ v] exI [of _ s'] exI [of _ ?s1]) (auto simp: requeue_def)
qed

section \<open>The contents of a channel\<close>

definition msg :: "ptr \<Rightarrow> sys \<Rightarrow> ptr" where
  "msg t s = (case thds s t of Some x \<Rightarrow> message_data x | None \<Rightarrow> 0)"

definition node_thd :: "lnode \<Rightarrow> ptr" where
  "node_thd n = (case n of ThdNode t \<Rightarrow> t | _ \<Rightarrow> 0)"

definition senders :: "ptr \<Rightarrow> sys \<Rightarrow> ptr list" where
  "senders c s = map node_thd (queue_of (SendQ c) s)"

definition buffered :: "ptr \<Rightarrow> sys \<Rightarrow> ptr list" where
  "buffered c s = (case chans s c of Some ch \<Rightarrow> ring_items (chan_size ch) (buffer ch) | None \<Rightarrow> [])"

definition pending :: "ptr \<Rightarrow> sys \<Rightarrow> ptr list" where
  "pending c s = buffered c s @ map (\<lambda>t. msg t s) (senders c s)"

text \<open>A local channel in order: senders wait only while the ring is full.\<close>

definition local_chan :: "ptr \<Rightarrow> sys \<Rightarrow> bool" where
  "local_chan c s \<longleftrightarrow> (case chans s c of None \<Rightarrow> False | Some ch \<Rightarrow>
     chan_ty ch = LOCAL_CHAN \<and> ring_ok (chan_size ch) (buffer ch) \<and>
     (senders c s \<noteq> [] \<longrightarrow> \<not> ring_not_full (chan_size ch) (buffer ch)))"

text \<open>No thread waits in the channel's group.\<close>

definition group_idle :: "lwt_channel \<Rightarrow> sys \<Rightarrow> bool" where
  "group_idle ch s \<longleftrightarrow> cgroup ch = 0 \<or> (case grps s (cgroup ch) of Some g \<Rightarrow> blocked g = 0 | None \<Rightarrow> False)"

text \<open>The receiver exists and is not waiting for this channel.\<close>

definition receiver_busy :: "ptr \<Rightarrow> sys \<Rightarrow> bool" where
  "receiver_busy c s \<longleftrightarrow> (case chans s c of None \<Rightarrow> False | Some ch \<Rightarrow>
     receiver ch \<noteq> 0 \<and> (case thds s (receiver ch) of None \<Rightarrow> False | Some r \<Rightarrow> \<not> receiver_waits ch c r) \<and>
     group_idle ch s)"

lemma wake_group_idle:
  assumes "chans s c = Some ch" "c \<noteq> 0" "group_idle ch s" "grps s 0 = None"
  shows "wake_group c s = Inr s"
  using assms by (auto simp: wake_group_def group_idle_def grp_def split: option.splits)

lemma inv_chan:
  assumes i: "lwt_inv s" and c: "chans s c = Some ch"
  shows "c \<noteq> 0" "SendQ c \<in> heads s"
proof -
  obtain D where i0: "inv_but True {} {} {} {} (heads s) D (\<lambda>h. queue_of h s) s" by (rule lwt_invE [OF i])
  show "c \<noteq> 0" by (rule live_nonnull(2) [OF i0 c])
  show "SendQ c \<in> heads s" using c by (auto simp: heads_def)
qed

lemma inv_no_null_grp:
  assumes i: "lwt_inv s"
  shows "grps s 0 = None"
proof -
  obtain D where i0: "inv_but True {} {} {} {} (heads s) D (\<lambda>h. queue_of h s) s" by (rule lwt_invE [OF i])
  show ?thesis using live_nonnull(3) [OF i0, of 0] by (cases "grps s 0") auto
qed

text \<open>What is known of the threads queued on a channel.\<close>

lemma inv_senders:
  assumes i: "lwt_inv s" and c: "chans s c = Some ch"
  shows "queue_of (SendQ c) s = map ThdNode (senders c s)" "distinct (senders c s)"
    "t \<in> set (senders c s) \<Longrightarrow> t \<in> dom (thds s)"
    "t \<in> set (senders c s) \<Longrightarrow> h \<in> heads s \<Longrightarrow> ThdNode t \<in> set (queue_of h s) \<Longrightarrow> h = SendQ c"
proof -
  obtain D where l: "linked D s" and i0: "inv_but True {} {} {} {} (heads s) D (\<lambda>h. queue_of h s) s"
    by (rule lwt_invE [OF i])
  note H = inv_chan(2) [OF i c] and qs = l [unfolded linked_def]
  have n: "\<exists>t \<in> dom (thds s). n = ThdNode t" if "n \<in> set (queue_of (SendQ c) s)" for n
  proof -
    have "node_ok (dom (thds s)) (group_of s) (dom (wraps s)) (SendQ c) n"
      using inv_butD(3) [OF i0] H that unfolding nodes_ok_def by blast
    then show ?thesis by (simp add: node_ok_def)
  qed
  show q: "queue_of (SendQ c) s = map ThdNode (senders c s)"
    unfolding senders_def map_map by (rule map_idI [symmetric]) (use n in \<open>fastforce simp: node_thd_def\<close>)
  show "distinct (senders c s)" using lq.rep_distinct [OF qs H] q by (simp add: distinct_map)
  show "t \<in> set (senders c s) \<Longrightarrow> t \<in> dom (thds s)" using n q by fastforce
  show "t \<in> set (senders c s) \<Longrightarrow> h \<in> heads s \<Longrightarrow> ThdNode t \<in> set (queue_of h s) \<Longrightarrow> h = SendQ c"
    using queuesD(5) [OF qs _ H, of h "ThdNode t"] q by auto
qed

section \<open>Sending to a busy receiver\<close>

lemma snd_busy_prefix:
  assumes i: "lwt_inv s" and l: "local_chan c s" and b: "receiver_busy c s" and ch: "chans s c = Some ch"
  defines "s1 \<equiv> s\<lparr>chans := (chans s)(c \<mapsto> ch\<lparr>ready := 1\<rparr>)\<rparr>"
  shows "lwt_snd c d s =
    (if ring_not_full (chan_size ch) (buffer ch) then
       rbind (ring_put (chan_size ch) d (buffer ch)) (\<lambda>b.
         rbind (upd_chan c (\<lambda>ch. ch\<lparr>buffer := b\<rparr>) s1) (\<lambda>s3. Inr (VInt 0, s3)))
     else rbind (upd_thd (lwt_current s) (\<lambda>x. x\<lparr>message_data := d\<rparr>) s1) (\<lambda>s3.
         block_thread (lwt_current s) BLOCKED_SENDING c (push KSnd s3)))"
proof -
  have c: "c \<noteq> 0" by (rule inv_chan(1) [OF i ch])
  obtain r where r: "receiver ch \<noteq> 0" "thds s (receiver ch) = Some r" "\<not> receiver_waits ch c r" "group_idle ch s"
    using b ch by (auto simp: receiver_busy_def split: option.splits)
  have "group_idle (ch\<lparr>ready := 1\<rparr>) s1" using r(4) by (simp add: group_idle_def s1_def)
  then have w: "wake_group c s1 = Inr s1"
    using c inv_no_null_grp [OF i] by (intro wake_group_idle) (simp_all add: s1_def)
  have "chan_ty ch \<noteq> GLOBAL_CHAN" using l ch by (simp add: local_chan_def)
  then show ?thesis using c ch r w by (simp add: lwt_snd_def s1_def Let_def)
qed

lemma pending_frame:
  assumes "lists s' = lists s" "\<And>t. t \<in> set (senders c s) \<Longrightarrow> msg t s' = msg t s" "buffered c s' = buffered c s"
  shows "pending c s' = pending c s"
  using assms by (simp add: pending_def senders_def queue_of_lists [OF assms(1)])

lemma snd_room_effect:
  assumes i: "lwt_inv s" and l: "local_chan c s" and b: "receiver_busy c s" and ch: "chans s c = Some ch"
    and room: "ring_not_full (chan_size ch) (buffer ch)" "tail (buffer ch) < int_max"
  shows "\<exists>s'. lwt_snd c d s = Inr (VInt 0, s') \<and> pending c s' = pending c s @ [d] \<and> local_chan c s' \<and>
    lists s' = lists s \<and> thds s' = thds s \<and> kthds s' = kthds s \<and> (\<forall>e. e \<noteq> c \<longrightarrow> chans s' e = chans s e) \<and>
    current_kthd s' = current_kthd s \<and>
    frames s' = frames s \<and> mem s' = mem s \<and> grps s' = grps s \<and>
    map_option (\<lambda>x. (tail (buffer x), receiver x, cgroup x, ready x, chan_size x)) (chans s' c) =
      Some (tail (buffer ch) + 1, receiver ch, cgroup ch, 1, chan_size ch)"
proof -
  have c: "c \<noteq> 0" by (rule inv_chan(1) [OF i ch])
  have ok: "ring_ok (chan_size ch) (buffer ch)" "senders c s = []"
    using l ch room by (auto simp: local_chan_def)
  have "tail (buffer ch) - head (buffer ch) < chan_size ch"
    using ok(1) room(1) by (auto simp: ring_ok_def ring_not_full_def)
  then obtain bf where bf: "ring_put (chan_size ch) d (buffer ch) = Inr bf" "ring_ok (chan_size ch) bf"
    "ring_items (chan_size ch) bf = ring_items (chan_size ch) (buffer ch) @ [d]" "tail bf = tail (buffer ch) + 1"
    using ring_put_ok [OF ok(1) _ room(2), of d] by auto
  let ?s' = "s\<lparr>chans := (chans s)(c \<mapsto> ch\<lparr>ready := 1, buffer := bf\<rparr>)\<rparr>"
  have "lwt_snd c d s = Inr (VInt 0, ?s')"
    using snd_busy_prefix [OF i l b ch, of d] room bf(1) c by simp
  moreover have e: "senders c ?s' = []" using ok(2) by (simp add: senders_def queue_of_def)
  then have "pending c ?s' = pending c s @ [d]" using ok(2) ch bf(3) by (simp add: pending_def buffered_def)
  moreover have "local_chan c ?s'" using l ch bf(2) e by (simp add: local_chan_def)
  ultimately show ?thesis using bf(4) by (intro exI [of _ ?s']) simp
qed

end
