(* ===== verification/Lwt_Progress.thy ===== *)
theory Lwt_Progress
  imports Lwt_MsgProps
begin

text \<open>
  What the constructors of the library build when the page allocator can supply memory:
  channels, threads (new and recycled), and the first kernel thread at boot.
\<close>

section \<open>Memory\<close>

definition supplied :: "sys \<Rightarrow> bool" where
  "supplied s \<longleftrightarrow> (\<forall>i. pages (mem s) i \<noteq> None)"

lemma malloc_ok:
  assumes u: "uheap (mem s) B" and n: "n + 16 \<le> 2 ^ 32" and p: "supplied s"
  obtains q m where "malloc n s = Inr (q, s\<lparr>mem := m\<rparr>)" "q \<noteq> 0" "q \<notin> B" "uheap m (insert q B)"
    "supplied (s\<lparr>mem := m\<rparr>)"
proof (rule uheap_umalloc [OF u n])
  fix m' assume "pages (mem s) (calls (mem s)) = None"
  then show thesis using p unfolding supplied_def by blast
next
  fix q m' assume "umalloc n (mem s) = Some (q, m')" "q \<noteq> 0" "q \<notin> B" "uheap m' (insert q B)"
    "pages m' = pages (mem s)"
  then show thesis using p by (intro that [of q m']) (simp_all add: supplied_def malloc_def)
qed

text \<open>The blocks of a state's objects.\<close>

lemma inv_uheap:
  assumes "mid_inv b E X N P s"
  obtains B where "uheap (mem s) B" "dom (thds s) \<union> dom (chans s) \<union> dom (grps s) \<union> dom (wraps s) \<union> P \<subseteq> B"
proof -
  obtain H D Q where i: "inv_but b E X N P H D Q s" by (rule mid_invE [OF assms])
  show ?thesis by (rule memory_okE [OF inv_butD(7) [OF i]]) (rule that)
qed

section \<open>Channels\<close>

definition new_channel :: "lwt_channel \<Rightarrow> int \<Rightarrow> ptr \<Rightarrow> int \<Rightarrow> bool" where
  "new_channel ch sz r i \<longleftrightarrow> chan_size ch = sz \<and> receiver ch = r \<and> chan_id ch = i \<and> snd_cnt ch = 0 \<and>
     chan_ty ch = LOCAL_CHAN \<and> tail (buffer ch) = 0 \<and> head (buffer ch) = 0 \<and> ring_ok sz (buffer ch)"

lemma lwt_chan_ok:
  assumes u: "uheap (mem s) B" and p: "supplied s" and sz: "0 \<le> sz" "4 * sz + 16 \<le> 2 ^ 32" "sz \<le> int_max"
  obtains c d ch m where "c \<noteq> 0" "c \<notin> B" "new_channel ch sz (lwt_current s) (chan_counter s)"
    "cgroup ch = cgroup (raw_chan s c)"
    "lwt_chan sz s = Inr (c, s\<lparr>mem := m, chans := (chans s)(c \<mapsto> ch), chan_counter := chan_counter s + 1,
       lists := list_head_init (SendQ c) (lists s)\<rparr>)"
    "uheap m (insert d (insert c B))" "supplied (s\<lparr>mem := m\<rparr>)"
proof -
  have n1: "sizeof_lwt_channel + 16 \<le> 2 ^ 32" by (simp add: sizeof_lwt_channel_def)
  obtain c m1 where c: "malloc sizeof_lwt_channel s = Inr (c, s\<lparr>mem := m1\<rparr>)" "c \<noteq> 0" "c \<notin> B"
    "uheap m1 (insert c B)" "supplied (s\<lparr>mem := m1\<rparr>)"
    by (rule malloc_ok [OF u n1 p])
  let ?n = "nat ((sz * int sizeof_uint) mod 2 ^ 32)"
  have e: "?n = nat (4 * sz)" using sz by (simp add: sizeof_uint_def)
  have n2: "?n + 16 \<le> 2 ^ 32" using sz e by (simp add: nat_le_iff)
  have u1: "uheap (mem (s\<lparr>mem := m1\<rparr>)) (insert c B)" using c(4) by simp
  obtain d m where d: "malloc ?n (s\<lparr>mem := m1\<rparr>) = Inr (d, (s\<lparr>mem := m1\<rparr>)\<lparr>mem := m\<rparr>)" "d \<noteq> 0"
    "uheap m (insert d (insert c B))" "supplied ((s\<lparr>mem := m1\<rparr>)\<lparr>mem := m\<rparr>)"
    by (rule malloc_ok [OF u1 n2 c(5)])
  let ?raw = "raw_chan s c"
  let ?buf = "(buffer ?raw)\<lparr>data_buffer := d, tail := 0, head := 0,
      words := map (\<lambda>i. raw_word s (d + sizeof_uint * i)) [0..<?n div sizeof_uint]\<rparr>"
  let ?ch = "?raw\<lparr>chan_size := sz, buffer := ?buf, chan_ty := LOCAL_CHAN, receiver := lwt_current s, snd_cnt := 0,
      chan_id := chan_counter s\<rparr>"
  have "nat (4 * sz) div 4 = nat sz" using sz(1) by (simp add: nat_mult_distrib)
  then have "ring_ok sz ?buf" using sz d(2) e by (simp add: ring_ok_def int_max_def sizeof_uint_def)
  then have nc: "new_channel ?ch sz (lwt_current s) (chan_counter s)" by (simp add: new_channel_def)
  have "lwt_current (s\<lparr>mem := m\<rparr>) = lwt_current s" by (simp add: lwt_current_def)
  then have "lwt_chan sz s = Inr (c, s\<lparr>mem := m, chans := (chans s)(c \<mapsto> ?ch), chan_counter := chan_counter s + 1,
       lists := list_head_init (SendQ c) (lists s)\<rparr>)"
    using c d by (simp add: lwt_chan_def init_chan_def Let_def)
  then show thesis using that [OF c(2,3) nc _ _ d(3)] d(4) by simp
qed

section \<open>Threads\<close>

lemma init_thread_ok:
  assumes u: "uheap (mem s) B" and p: "supplied s" and t: "t \<noteq> 0" "thds s t = Some x"
  obtains c ch m d where "c \<noteq> 0" "c \<notin> B" "new_channel (ch\<lparr>snd_cnt := 0\<rparr>) 0 (lwt_current s) (chan_counter s)" "snd_cnt ch = 1"
    "cgroup ch = cgroup (raw_chan s c)" "init_thread t k s = Inr (s\<lparr>lwt_counter := lwt_counter s + 1, chan_counter := chan_counter s + 1, mem := m,
       lists := list_head_init (SendQ c) (lists s), chans := (chans s)(c \<mapsto> ch),
       thds := (thds s)(t \<mapsto> x\<lparr>lwt_id := lwt_counter s, tstate := LWT_RUNNING, parent := 0, message_data := 0,
         chl := c, nojoin := 0, owner_kthd := k\<rparr>)\<rparr>)"
    "uheap m (insert d (insert c B))" "supplied (s\<lparr>mem := m\<rparr>)"
proof -
  let ?x = "x\<lparr>lwt_id := lwt_counter s, tstate := LWT_RUNNING, parent := 0, message_data := 0\<rparr>"
  let ?s = "s\<lparr>lwt_counter := lwt_counter s + 1, thds := (thds s)(t \<mapsto> ?x)\<rparr>"
  have u1: "uheap (mem ?s) B" and p1: "supplied ?s" using u p by (simp_all add: supplied_def)
  have z: "(0::int) \<le> 0" "4 * (0::int) + 16 \<le> 2 ^ 32" "0 \<le> int_max" by (simp_all add: int_max_def)
  obtain c d ch m where c: "c \<noteq> 0" "c \<notin> B" "new_channel ch 0 (lwt_current ?s) (chan_counter ?s)"
    and cg: "cgroup (ch\<lparr>snd_cnt := 1\<rparr>) = cgroup (raw_chan s c)"
    and c4: "lwt_chan 0 ?s = Inr (c, ?s\<lparr>mem := m, chans := (chans ?s)(c \<mapsto> ch), chan_counter := chan_counter ?s + 1,
       lists := list_head_init (SendQ c) (lists ?s)\<rparr>)"
    and c5: "uheap m (insert d (insert c B))" "supplied (?s\<lparr>mem := m\<rparr>)"
    by (rule lwt_chan_ok [OF u1 p1 z]) simp
  have e: "(s\<lparr>thds := (thds s)(t \<mapsto> x\<lparr>lwt_id := lwt_counter s\<rparr>), lwt_counter := lwt_counter s + 1\<rparr>)
      \<lparr>thds := (thds s)(t \<mapsto> ?x)\<rparr> = ?s" by (cases s) simp
  have sc: "snd_cnt ch = 0" "snd_cnt (ch\<lparr>snd_cnt := 1\<rparr>) = 1" using c(3) by (simp_all add: new_channel_def)
  have nc: "new_channel ((ch\<lparr>snd_cnt := 1\<rparr>)\<lparr>snd_cnt := 0\<rparr>) 0 (lwt_current s) (chan_counter s)"
    using c(3) by (simp add: new_channel_def lwt_current_def)
  have sp: "supplied (s\<lparr>mem := m\<rparr>)" using c5(2) by (simp add: supplied_def)
  have "init_thread t k s = Inr (s\<lparr>lwt_counter := lwt_counter s + 1, chan_counter := chan_counter s + 1, mem := m,
       lists := list_head_init (SendQ c) (lists s), chans := (chans s)(c \<mapsto> ch\<lparr>snd_cnt := 1\<rparr>),
       thds := (thds s)(t \<mapsto> ?x\<lparr>chl := c, nojoin := 0, owner_kthd := k\<rparr>)\<rparr>)"
    using t c(1) c4 sc by (cases s) (simp add: init_thread_def)
  then show thesis using that [OF c(1,2) nc sc(2) cg _ c5(1) sp] by simp
qed

text \<open>
  What \<^verbatim>\<open>lwt_create\<close> makes of a control block, wherever that came from: \<open>created\<close> says it
  of the thread's record, its channel and the words on its stack.
\<close>

definition created :: "ptr \<Rightarrow> ptr \<Rightarrow> int \<Rightarrow> sys \<Rightarrow> ptr \<Rightarrow> sys \<Rightarrow> bool" where
  "created fn d fl s t s' \<longleftrightarrow> (\<exists>x ch. thds s' t = Some x \<and> chans s' (chl x) = Some ch \<and>
     tstate x = LWT_RUNNING \<and> parent x = lwt_current s \<and> owner_kthd x = current_kthd s \<and>
     lwt_id x = lwt_counter s \<and> lwt_counter s' = lwt_counter s + 1 \<and>
     nojoin x = (if fl AND LWT_NOJOIN \<noteq> 0 then 1 else 0) \<and>
     ip (ctx x) = Trampoline \<and> init_sp x = sp (ctx x) + 12 \<and> trampoline_args x s' = (fn, d) \<and>
     chl x \<notin> dom (chans s) \<and> snd_cnt ch = 1 \<and> cgroup ch = 0 \<and>
     new_channel (ch\<lparr>snd_cnt := 0\<rparr>) 0 (lwt_current s) (chan_counter s) \<and>
     list_foreach (SendQ (chl x)) (lists s') = Some [])"

lemma create_core:
  assumes tk: "take_tcb s = Inr (t, sp0, s1)"
    and s1: "chans s1 = chans s" "kthds s1 = kthds s" "current_kthd s1 = current_kthd s" "lwt_counter s1 = lwt_counter s"
      "grps s1 = grps s" "chan_counter s1 = chan_counter s" and raw: "\<And>c. cgroup (raw_chan s1 c) = 0"
    and q: "queues (lists s1) (heads s) D Q" and kH: "RunQ (current_kthd s) \<in> heads s"
    and tn: "ThdNode t \<notin> heads s" "\<And>g. g \<in> heads s \<Longrightarrow> ThdNode t \<notin> set (Q g)"
    and fr: "\<And>c. SendQ c \<notin> D" "\<And>c g. g \<in> heads s \<Longrightarrow> SendQ c \<notin> set (Q g)"
    and u: "uheap (mem s1) B" "dom (chans s) \<subseteq> B" and p: "supplied s1"
    and t: "t \<noteq> 0" "thds s1 t = Some x0" and sp0: "12 \<le> sp0" "init_sp x0 = sp0"
  shows "\<exists>s'. lwt_create fn d fl s = Inr (t, s') \<and> created fn d fl s t s' \<and>
    lwt_current s' = lwt_current s \<and> current_kthd s' = current_kthd s \<and> supplied s' \<and> ufn s' = ufn s1 \<and> frames s' = frames s1 \<and>
    (\<forall>v. v \<noteq> t \<longrightarrow> thds s' v = thds s1 v) \<and> (\<forall>c\<in>dom (chans s). chans s' c = chans s c) \<and>
    (\<forall>h\<in>heads s. list_foreach h (lists s') = Some ((Q(RunQ (current_kthd s) := Q (RunQ (current_kthd s)) @ [ThdNode t])) h))"
proof -
  let ?k = "current_kthd s"
  have cur: "lwt_current s1 = lwt_current s" using s1 by (simp add: lwt_current_def)
  obtain c ch m d' where c: "c \<noteq> 0" "c \<notin> B" "new_channel (ch\<lparr>snd_cnt := 0\<rparr>) 0 (lwt_current s1) (chan_counter s1)" "snd_cnt ch = 1"
    "cgroup ch = cgroup (raw_chan s1 c)"
    and it: "init_thread t ?k s1 = Inr (s1\<lparr>lwt_counter := lwt_counter s1 + 1, chan_counter := chan_counter s1 + 1, mem := m,
       lists := list_head_init (SendQ c) (lists s1), chans := (chans s1)(c \<mapsto> ch),
       thds := (thds s1)(t \<mapsto> x0\<lparr>lwt_id := lwt_counter s1, tstate := LWT_RUNNING, parent := 0, message_data := 0,
         chl := c, nojoin := 0, owner_kthd := ?k\<rparr>)\<rparr>)" (is "_ = Inr ?s2")
    and um: "uheap m (insert d' (insert c B))" and sm: "supplied (s1\<lparr>mem := m\<rparr>)"
    by (rule init_thread_ok [OF u(1) p t])
  have cur2: "lwt_current ?s2 = lwt_current s" using s1 by (simp add: lwt_current_def)
  let ?x = "x0\<lparr>lwt_id := lwt_counter s1, tstate := LWT_RUNNING, parent := lwt_current s, message_data := 0,
      chl := c, nojoin := (if fl AND LWT_NOJOIN \<noteq> 0 then 1 else 0), owner_kthd := ?k, ctx := \<lparr>ip = Trampoline, sp = sp0 - 12\<rparr>\<rparr>"
  let ?w = "(stackw s1)(sp0 - 4 := d, sp0 - 8 := fn)"
  let ?A = "list_head_init (SendQ c) (lists s1)"
  let ?L = "list_head_add (RunQ ?k) (ThdNode t) ?A"
  let ?s' = "?s2\<lparr>stackw := ?w, thds := (thds s1)(t \<mapsto> ?x), lists := ?L\<rparr>"
  have sp: "sp0 - 4 - 4 = sp0 - 8" "sp0 - 8 - 4 = sp0 - 12" by simp_all
  have cr: "lwt_create fn d fl s = Inr (t, ?s')"
    using tk it t(1) cur2 s1(3)
    by (cases s1, cases x0) (simp add: lwt_create_def Let_def current_run_queue_def sizeof_uint_def sp)
  obtain s' where s': "lwt_create fn d fl s = Inr (t, s')" "thds s' = (thds s1)(t \<mapsto> ?x)" "stackw s' = ?w"
    "lists s' = ?L" "chans s' = (chans s1)(c \<mapsto> ch)" "kthds s' = kthds s1" "current_kthd s' = ?k"
    "lwt_counter s' = lwt_counter s1 + 1" "mem s' = m" "ufn s' = ufn s1" "frames s' = frames s1"
    by (rule that [OF cr]) (simp_all add: s1(3))
  have args: "trampoline_args ?x s' = (fn, d)"
    using s'(3) sp0(1) by (simp add: trampoline_args_def) arith
  have cn: "c \<notin> dom (chans s)" using c(2) u(2) by blast
  have cH: "SendQ c \<notin> heads s" using cn by (auto simp: heads_def)
  have q1: "queues ?A (insert (SendQ c) (heads s)) D (Q(SendQ c := []))"
    by (rule queues_init [OF q cH fr])
  have q2: "queues ?L (insert (SendQ c) (heads s)) (D - {ThdNode t})
        ((Q(SendQ c := []))(RunQ ?k := (Q(SendQ c := [])) (RunQ ?k) @ [ThdNode t]))"
    by (rule queues_add [OF q1]) (use kH tn in \<open>auto split: if_splits\<close>)
  have sq: "list_foreach (SendQ c) (lists s') = Some []"
    using list_foreach_queue [OF q2, of "SendQ c"] cH unfolding s'(4) by simp
  have "created fn d fl s t s'"
    using c(3-5) raw s'(2,5,8) s1 cur args cn sq sp0 unfolding created_def by auto
  moreover have "list_foreach h (lists s') = Some ((Q(RunQ ?k := Q (RunQ ?k) @ [ThdNode t])) h)" if h: "h \<in> heads s" for h
    using list_foreach_queue [OF q2, of h] h cH unfolding s'(4) by auto
  moreover have "lwt_current s' = lwt_current s" using s'(6,7) s1 by (simp add: lwt_current_def)
  moreover have "supplied s'" using sm s'(9) by (simp add: supplied_def)
  ultimately show ?thesis using s'(1,2,5,7,10,11) s1(1) cn by auto
qed

section \<open>Boot\<close>

lemma initiate_ok:
  assumes u: "uheap (mem s) B" and p: "supplied s" and k: "k < MAX_KTHD_NUM"
  shows "\<exists>t s'. initiate k s = Inr s' \<and> t \<noteq> 0 \<and> t \<notin> B \<and> dom (thds s') = insert t (dom (thds s)) \<and> (\<forall>j. j \<noteq> k \<longrightarrow> kthds s' j = kthds s j) \<and> main_thread (kthds s' k) = t \<and>
    current_thread (kthds s' k) = t \<and> frames s' = frames s \<and> supplied s' \<and>
    map_option tstate (thds s' t) = Some LWT_RUNNING \<and> map_option owner_kthd (thds s' t) = Some k \<and>
    (\<forall>v. v \<noteq> t \<longrightarrow> thds s' v = thds s v) \<and> stackw s' = stackw s \<and> current_kthd s' = current_kthd s \<and>
    (\<exists>c. c \<notin> B \<and> (\<forall>e. e \<noteq> c \<longrightarrow> chans s' e = chans s e) \<and>
       lists s' = list_head_append (RunQ k) (ThdNode t) (list_head_init (SendQ c) (lists (init_kthd k s))))"
proof -
  let ?s0 = "init_kthd k s"
  have m0: "mem ?s0 = mem s" by (simp add: init_kthd_def Let_def)
  then have u0: "uheap (mem ?s0) B" and p0: "supplied ?s0" using u p by (simp_all add: supplied_def)
  have n: "sizeof_lwt_t + 16 \<le> 2 ^ 32" by (simp add: sizeof_lwt_t_def)
  obtain t m where t: "malloc sizeof_lwt_t ?s0 = Inr (t, ?s0\<lparr>mem := m\<rparr>)" "t \<noteq> 0" "t \<notin> B" "uheap m (insert t B)"
    "supplied (?s0\<lparr>mem := m\<rparr>)"
    by (rule malloc_ok [OF u0 n p0])
  let ?s1 = "kthd_do k (\<lambda>i. i\<lparr>current_thread := t\<rparr>) ((?s0\<lparr>mem := m\<rparr>)\<lparr>thds := (thds ?s0)(t \<mapsto> raw_thd ?s0 t)\<rparr>)"
  have u1: "uheap (mem ?s1) (insert t B)" and p1: "supplied ?s1" using t by (simp_all add: supplied_def)
  have x: "thds ?s1 t = Some (raw_thd ?s0 t)" by simp
  show ?thesis
  proof (rule init_thread_ok [OF u1 p1 t(2) x, of k])
    fix c ch m' d
    let ?s2 = "?s1\<lparr>lwt_counter := lwt_counter ?s1 + 1, chan_counter := chan_counter ?s1 + 1, mem := m',
       lists := list_head_init (SendQ c) (lists ?s1), chans := (chans ?s1)(c \<mapsto> ch),
       thds := (thds ?s1)(t \<mapsto> (raw_thd ?s0 t)\<lparr>lwt_id := lwt_counter ?s1, tstate := LWT_RUNNING, parent := 0, message_data := 0,
         chl := c, nojoin := 0, owner_kthd := k\<rparr>)\<rparr>"
    assume cB: "c \<notin> insert t B" and r: "init_thread t k ?s1 = Inr ?s2" and sp: "supplied (?s1\<lparr>mem := m'\<rparr>)"
    have fr: "frames ?s0 = frames s" "thds ?s0 = thds s" "chans ?s0 = chans s" "stackw ?s0 = stackw s" "current_kthd ?s0 = current_kthd s"
      "\<And>j. j \<noteq> k \<Longrightarrow> kthds ?s0 j = kthds s j"
      by (simp_all add: init_kthd_def Let_def)
    obtain s' where s': "initiate k s = Inr s'" "kthds s' = (kthds ?s1)(k := (kthds ?s1 k)\<lparr>main_thread := t\<rparr>)"
      "frames s' = frames s" "dom (thds s') = insert t (dom (thds s))" "mem s' = m'" "map_option tstate (thds s' t) = Some LWT_RUNNING"
      "map_option owner_kthd (thds s' t) = Some k" "\<forall>v. v \<noteq> t \<longrightarrow> thds s' v = thds s v" "stackw s' = stackw s"
      "current_kthd s' = current_kthd s" "\<forall>e. e \<noteq> c \<longrightarrow> chans s' e = chans s e"
      "lists s' = list_head_append (RunQ k) (ThdNode t) (list_head_init (SendQ c) (lists ?s0))"
      using r t k fr unfolding initiate_def by simp
    have sp': "supplied s'" using sp s'(5) by (simp add: supplied_def)
    have "main_thread (kthds s' k) = t" "current_thread (kthds s' k) = t" using s'(2) by simp_all
    moreover have "\<forall>j. j \<noteq> k \<longrightarrow> kthds s' j = kthds s j" using s'(2) fr(6) by simp
    moreover have "c \<notin> B" using cB by simp
    ultimately show ?thesis using s'(1,3,4,6-12) sp' t(2,3) by blast
  qed
qed

text \<open>The queues after it: those of the new kernel thread, with its main thread, and the old ones.\<close>

lemma initiate_queues:
  assumes i: "lwt_inv s" and k: "k \<notin> hosted s" and t: "t \<notin> dom (thds s)" and c: "c \<notin> dom (chans s)"
    and L: "L = list_head_append (RunQ k) (ThdNode t) (list_head_init (SendQ c) (lists (init_kthd k s)))"
  shows "list_foreach (RunQ k) L = Some [ThdNode t]" "list_foreach (RecQ k) L = Some []" "list_foreach (WakeQ k) L = Some []"
    "\<forall>h\<in>heads s. list_foreach h L = list_foreach h (lists s)"
proof -
  obtain D where l: "linked D s" and i0: "inv_but True {} {} {} {} (heads s) D (\<lambda>h. queue_of h s) s"
    by (rule lwt_invE [OF i])
  note q = l [unfolded linked_def] and hd = inv_butD(2) [OF i0] and fr = nodes_fresh [OF inv_butD(3) [OF i0]]
  have new: "RunQ k \<notin> heads s" "RecQ k \<notin> heads s" "WakeQ k \<notin> heads s" "SendQ c \<notin> heads s" "ThdNode t \<notin> heads s"
    using head_in(1,3-6) [OF hd] k c by auto
  let ?Q = "(\<lambda>h. queue_of h s)(RunQ k := [], RecQ k := [], WakeQ k := [], SendQ c := [])"
  let ?H = "insert (SendQ c) (insert (WakeQ k) (insert (RecQ k) (insert (RunQ k) (heads s))))"
  have "queues (list_head_init (RunQ k) (lists s)) (insert (RunQ k) (heads s)) D ((\<lambda>h. queue_of h s)(RunQ k := []))"
    by (rule queues_init [OF q new(1) fr(10,5)])
  then have "queues (list_head_init (RecQ k) (list_head_init (RunQ k) (lists s)))
      (insert (RecQ k) (insert (RunQ k) (heads s))) D ((\<lambda>h. queue_of h s)(RunQ k := [], RecQ k := []))"
    by (rule queues_init) (use new(2) fr(6) [of _ k] fr(11) [of k] in auto)
  then have "queues (lists (init_kthd k s)) (insert (WakeQ k) (insert (RecQ k) (insert (RunQ k) (heads s)))) D
      ((\<lambda>h. queue_of h s)(RunQ k := [], RecQ k := [], WakeQ k := []))"
    unfolding init_kthd_def Let_def by simp (rule queues_init, use new(3) fr(7) [of _ k] fr(12) [of k] in auto)
  then have "queues (list_head_init (SendQ c) (lists (init_kthd k s))) ?H D ?Q"
    by (rule queues_init) (use new(4) fr(3) [of _ c] fr(8) [of c] in auto)
  then have "queues L ?H (D - {ThdNode t}) (?Q(RunQ k := insert_before_last (ThdNode t) (?Q (RunQ k))))"
    unfolding L by (rule queues_append) (use new(5) fr(2) [OF t] in auto)
  note f = list_foreach_queue [OF this]
  show "list_foreach (RunQ k) L = Some [ThdNode t]" "list_foreach (RecQ k) L = Some []" "list_foreach (WakeQ k) L = Some []"
    using f [of "RunQ k"] f [of "RecQ k"] f [of "WakeQ k"] by simp_all
  show "\<forall>h\<in>heads s. list_foreach h L = list_foreach h (lists s)"
  proof
    fix h assume "h \<in> heads s"
    then show "list_foreach h L = list_foreach h (lists s)" using f [of h] foreach_linked [OF l] new by auto
  qed
qed

section \<open>Where the control block comes from\<close>

lemma heads_recycle: "lwt_inv s \<Longrightarrow> RecQ (current_kthd s) \<in> heads s"
  unfolding lwt_inv_def by (drule inv_current) (simp add: heads_def)

lemma take_new_tcb:
  assumes i: "lwt_inv s" and p: "supplied s" and e: "list_foreach (current_recycle_queue s) (lists s) = Some []"
  obtains t sp0 m x B where "take_tcb s = Inr (t, sp0, s\<lparr>mem := m, thds := (thds s)(t \<mapsto> x)\<rparr>)"
    "t \<noteq> 0" "t \<notin> dom (thds s)" "12 \<le> sp0" "init_sp x = sp0" "uheap m B" "dom (chans s) \<subseteq> B" "supplied (s\<lparr>mem := m\<rparr>)"
proof -
  obtain D where l: "linked D s" by (rule lwt_invE [OF i])
  note rH = heads_recycle [OF i]
  have "queue_of (RecQ (current_kthd s)) s = []" using e by (simp add: queue_of_def current_recycle_queue_def)
  then have em: "list_head_empty (current_recycle_queue s) (lists s)"
    using lq.empty_rep [OF l [unfolded linked_def] rH] by (simp add: current_recycle_queue_def)
  obtain B where B: "uheap (mem s) B" "dom (thds s) \<union> dom (chans s) \<union> dom (grps s) \<union> dom (wraps s) \<union> {} \<subseteq> B"
    by (rule inv_uheap [OF i [unfolded lwt_inv_def]])
  have n1: "sizeof_lwt_t + 16 \<le> 2 ^ 32" by (simp add: sizeof_lwt_t_def)
  have n2: "MAX_STACK_SIZE + 16 \<le> 2 ^ 32" by (simp add: MAX_STACK_SIZE_def)
  obtain t m1 where t: "malloc sizeof_lwt_t s = Inr (t, s\<lparr>mem := m1\<rparr>)" "t \<noteq> 0" "t \<notin> B" "uheap m1 (insert t B)"
    "supplied (s\<lparr>mem := m1\<rparr>)"
    by (rule malloc_ok [OF B(1) n1 p])
  have u1: "uheap (mem (s\<lparr>mem := m1\<rparr>)) (insert t B)" using t(4) by simp
  obtain k m where k: "malloc MAX_STACK_SIZE (s\<lparr>mem := m1\<rparr>) = Inr (k, (s\<lparr>mem := m1\<rparr>)\<lparr>mem := m\<rparr>)" "k \<noteq> 0"
    "uheap m (insert k (insert t B))" "supplied ((s\<lparr>mem := m1\<rparr>)\<lparr>mem := m\<rparr>)"
    by (rule malloc_ok [OF u1 n2 t(5)])
  have "take_tcb s = Inr (t, k + MAX_STACK_SIZE, s\<lparr>mem := m, thds := (thds s)(t \<mapsto> (raw_thd s t)\<lparr>init_sp := k + MAX_STACK_SIZE\<rparr>)\<rparr>)"
    using em t k by (simp add: take_tcb_def Let_def)
  moreover have "t \<notin> dom (thds s)" "dom (chans s) \<subseteq> insert k (insert t B)" using B(2) t(3) by auto
  moreover have "12 \<le> k + MAX_STACK_SIZE" by (simp add: MAX_STACK_SIZE_def)
  ultimately show thesis using that [OF _ t(2) _ _ _ k(3)] k(4) by simp
qed

lemma take_recycled_tcb:
  assumes i: "lwt_inv s" and r: "list_foreach (current_recycle_queue s) (lists s) = Some (ThdNode t # rs)"
    and x: "thds s t = Some x"
  shows "take_tcb s = Inr (t, init_sp x, rem_node (ThdNode t) s)"
proof -
  obtain D where l: "linked D s" and i0: "inv_but True {} {} {} {} (heads s) D (\<lambda>h. queue_of h s) s"
    by (rule lwt_invE [OF i])
  note rH = heads_recycle [OF i] and qs = l [unfolded linked_def]
  have q: "queue_of (RecQ (current_kthd s)) s = ThdNode t # rs" using r by (simp add: queue_of_def current_recycle_queue_def)
  have "\<not> list_head_empty (current_recycle_queue s) (lists s)"
    using lq.empty_rep [OF qs rH] q by (simp add: current_recycle_queue_def)
  moreover have "list_head_first (current_recycle_queue s) (lists s) = ThdNode t"
    using lq.first_rep [OF qs rH] q by (simp add: current_recycle_queue_def)
  moreover have "t \<noteq> 0" by (rule live_nonnull(1) [OF i0 x])
  ultimately show ?thesis using x by (simp add: take_tcb_def Let_def)
qed

section \<open>Properties\<close>

lemma create_fresh:
  assumes "lwt_inv s" "supplied s" "list_foreach (current_recycle_queue s) (lists s) = Some []"
    "list_foreach (current_run_queue s) (lists s) = Some q"
  shows "\<exists>t s'. lwt_create fn d fl s = Inr (t, s') \<and> lwt_inv s' \<and> t \<notin> dom (thds s) \<and> created fn d fl s t s' \<and>
    list_foreach (current_run_queue s) (lists s') = Some (q @ [ThdNode t]) \<and> lwt_current s' = lwt_current s \<and>
    current_kthd s' = current_kthd s \<and> supplied s' \<and> frames s' = frames s \<and>
    (\<forall>h\<in>heads s - {current_run_queue s}. list_foreach h (lists s') = list_foreach h (lists s)) \<and>
    (\<forall>v. v \<noteq> t \<longrightarrow> thds s' v = thds s v) \<and> (\<forall>c\<in>dom (chans s). chans s' c = chans s c)"
proof -
  let ?k = "current_kthd s"
  obtain t sp0 m x B where tk: "take_tcb s = Inr (t, sp0, s\<lparr>mem := m, thds := (thds s)(t \<mapsto> x)\<rparr>)"
    "t \<noteq> 0" "t \<notin> dom (thds s)" "12 \<le> sp0" "init_sp x = sp0" "uheap m B" "dom (chans s) \<subseteq> B" "supplied (s\<lparr>mem := m\<rparr>)"
    by (rule take_new_tcb [OF assms(1-3)])
  obtain D where l: "linked D s" and i0: "inv_but True {} {} {} {} (heads s) D (\<lambda>h. queue_of h s) s"
    by (rule lwt_invE [OF assms(1)])
  note fr = nodes_fresh [OF inv_butD(3) [OF i0]]
  let ?s1 = "s\<lparr>mem := m, thds := (thds s)(t \<mapsto> x)\<rparr>"
  have "\<exists>s'. lwt_create fn d fl s = Inr (t, s') \<and> created fn d fl s t s' \<and>
    lwt_current s' = lwt_current s \<and> current_kthd s' = ?k \<and> supplied s' \<and> ufn s' = ufn ?s1 \<and> frames s' = frames ?s1 \<and>
    (\<forall>v. v \<noteq> t \<longrightarrow> thds s' v = thds ?s1 v) \<and> (\<forall>c\<in>dom (chans s). chans s' c = chans s c) \<and>
    (\<forall>h\<in>heads s. list_foreach h (lists s') = Some (((\<lambda>h. queue_of h s)(RunQ ?k := queue_of (RunQ ?k) s @ [ThdNode t])) h))"
  proof (rule create_core [OF tk(1)])
    show "cgroup (raw_chan ?s1 c) = 0" for c using inv_butD(6) [OF i0] by (simp add: quiet_def)
    show "queues (lists ?s1) (heads s) D (\<lambda>h. queue_of h s)" using l by (simp add: linked_def)
    show "ThdNode t \<notin> heads s" using head_in(6) [OF inv_butD(2) [OF i0]] .
    show "ThdNode t \<notin> set (queue_of g s)" if "g \<in> heads s" for g by (rule fr(2) [OF tk(3) that])
    show "SendQ c \<notin> D" "g \<in> heads s \<Longrightarrow> SendQ c \<notin> set (queue_of g s)" for c g by (fact fr(8) fr(3))+
    show "uheap (mem ?s1) B" "dom (chans s) \<subseteq> B" "supplied ?s1" "t \<noteq> 0" "thds ?s1 t = Some x" "12 \<le> sp0" "init_sp x = sp0"
      using tk by (simp_all add: supplied_def)
  qed (use heads_current [OF assms(1)] in simp_all)
  then obtain s' where s': "lwt_create fn d fl s = Inr (t, s')" "created fn d fl s t s'" "lwt_current s' = lwt_current s"
    "current_kthd s' = ?k" "supplied s'" "ufn s' = ufn s" "frames s' = frames s" "\<forall>v. v \<noteq> t \<longrightarrow> thds s' v = thds s v" "\<forall>c\<in>dom (chans s). chans s' c = chans s c"
    "\<forall>h\<in>heads s. list_foreach h (lists s') = Some (((\<lambda>h. queue_of h s)(RunQ ?k := queue_of (RunQ ?k) s @ [ThdNode t])) h)"
    by auto
  have "lwt_inv s'" using lwt_create_keeps [OF s'(1)] assms(1) by (simp add: lwt_inv_def)
  moreover have "queue_of (RunQ ?k) s = q" using assms(4) by (simp add: queue_of_def current_run_queue_def)
  ultimately show ?thesis using s' tk(3) heads_current [OF assms(1)] foreach_linked [OF l]
    by (intro exI [of _ t] exI [of _ s']) (auto simp: current_run_queue_def)
qed

lemma create_reused:
  assumes "lwt_inv s" "supplied s" "list_foreach (current_recycle_queue s) (lists s) = Some (ThdNode t # rs)"
    "list_foreach (current_run_queue s) (lists s) = Some q" "thds s t = Some x" "12 \<le> init_sp x"
  shows "\<exists>s'. lwt_create fn d fl s = Inr (t, s') \<and> lwt_inv s' \<and> created fn d fl s t s' \<and>
    list_foreach (current_run_queue s) (lists s') = Some (q @ [ThdNode t]) \<and>
    list_foreach (current_recycle_queue s) (lists s') = Some rs \<and> lwt_current s' = lwt_current s \<and>
    current_kthd s' = current_kthd s \<and> supplied s' \<and> frames s' = frames s \<and>
    (\<forall>h\<in>heads s - {current_run_queue s, current_recycle_queue s}. list_foreach h (lists s') = list_foreach h (lists s)) \<and>
    (\<forall>v. v \<noteq> t \<longrightarrow> thds s' v = thds s v) \<and> (\<forall>c\<in>dom (chans s). chans s' c = chans s c)"
proof -
  let ?k = "current_kthd s" and ?s1 = "rem_node (ThdNode t) s"
  note tk = take_recycled_tcb [OF assms(1,3,5)] and rH = heads_recycle [OF assms(1)] and kH = heads_current [OF assms(1)]
  obtain D where l: "linked D s" and i0: "inv_but True {} {} {} {} (heads s) D (\<lambda>h. queue_of h s) s"
    by (rule lwt_invE [OF assms(1)])
  note fr = nodes_fresh [OF inv_butD(3) [OF i0]] and qs = l [unfolded linked_def]
  have q: "queue_of (RecQ ?k) s = ThdNode t # rs" "queue_of (RunQ ?k) s = q"
    using assms(3,4) by (simp_all add: queue_of_def current_recycle_queue_def current_run_queue_def)
  obtain B where B: "uheap (mem s) B" "dom (thds s) \<union> dom (chans s) \<union> dom (grps s) \<union> dom (wraps s) \<union> {} \<subseteq> B"
    by (rule inv_uheap [OF assms(1) [unfolded lwt_inv_def]])
  have td: "t \<in> dom (thds s)" using assms(5) by blast
  let ?Q = "(\<lambda>h. remove1 (ThdNode t) (queue_of h s))"
  have "\<exists>s'. lwt_create fn d fl s = Inr (t, s') \<and> created fn d fl s t s' \<and>
    lwt_current s' = lwt_current s \<and> current_kthd s' = ?k \<and> supplied s' \<and> ufn s' = ufn ?s1 \<and> frames s' = frames ?s1 \<and>
    (\<forall>v. v \<noteq> t \<longrightarrow> thds s' v = thds ?s1 v) \<and> (\<forall>c\<in>dom (chans s). chans s' c = chans s c) \<and>
    (\<forall>h\<in>heads s. list_foreach h (lists s') = Some ((?Q(RunQ ?k := ?Q (RunQ ?k) @ [ThdNode t])) h))"
  proof (rule create_core [OF tk])
    show "cgroup (raw_chan ?s1 c) = 0" for c using inv_butD(6) [OF i0] by (simp add: quiet_def)
    show "queues (lists ?s1) (heads s) (insert (ThdNode t) D) ?Q" using unlink_thread [OF i0 td] by simp
    show "ThdNode t \<notin> heads s" using head_in(6) [OF inv_butD(2) [OF i0]] .
    show "ThdNode t \<notin> set (?Q g)" if "g \<in> heads s" for g using unlinked(2) [OF i0 td that] .
    show "SendQ c \<notin> insert (ThdNode t) D" for c using fr(8) by simp
    show "g \<in> heads s \<Longrightarrow> SendQ c \<notin> set (?Q g)" for c g using fr(3) by (meson notin_set_remove1)
    show "uheap (mem ?s1) B" "dom (chans s) \<subseteq> B" using B by auto
    show "supplied ?s1" using assms(2) by (simp add: supplied_def)
    show "t \<noteq> 0" by (rule live_nonnull(1) [OF i0 assms(5)])
    show "thds ?s1 t = Some x" using assms(5) by simp
  qed (use kH assms(6) in simp_all)
  then obtain s' where s': "lwt_create fn d fl s = Inr (t, s')" "created fn d fl s t s'" "lwt_current s' = lwt_current s"
    "current_kthd s' = ?k" "supplied s'" "ufn s' = ufn s" "frames s' = frames s" "\<forall>v. v \<noteq> t \<longrightarrow> thds s' v = thds s v" "\<forall>c\<in>dom (chans s). chans s' c = chans s c"
    "\<forall>h\<in>heads s. list_foreach h (lists s') = Some ((?Q(RunQ ?k := ?Q (RunQ ?k) @ [ThdNode t])) h)"
    by auto
  have "lwt_inv s'" using lwt_create_keeps [OF s'(1)] assms(1) by (simp add: lwt_inv_def)
  moreover have "ThdNode t \<notin> set (queue_of (RunQ ?k) s)" using queuesD(5) [OF qs rH kH, of "ThdNode t"] q(1) by auto
  then have "?Q (RunQ ?k) = q" using q(2) by (simp add: remove1_idem)
  moreover have "list_foreach h (lists s') = list_foreach h (lists s)" if h: "h \<in> heads s" "h \<noteq> RunQ ?k" "h \<noteq> RecQ ?k" for h
  proof -
    have "ThdNode t \<notin> set (queue_of h s)" using queuesD(5) [OF qs rH h(1), of "ThdNode t"] q(1) h(3) by auto
    then show ?thesis using s'(10) h foreach_linked [OF l h(1)] by (simp add: remove1_idem)
  qed
  ultimately show ?thesis using s' q rH kH
    by (intro exI [of _ s']) (auto simp: current_run_queue_def current_recycle_queue_def)
qed

text \<open>
  \<^verbatim>\<open>lwt_create\<close> recycles: when a dead thread is in the recycle queue of this kernel
  thread, the first one is taken out of it and its control block and stack are used again
  (only its channel needs new memory); the new thread is as in the case above.
\<close>

theorem create_recycled:
  assumes "lwt_inv s" "supplied s" "list_foreach (current_recycle_queue s) (lists s) = Some (ThdNode t # rs)"
    "list_foreach (current_run_queue s) (lists s) = Some q" "thds s t = Some x" "12 \<le> init_sp x"
  shows "\<exists>s'. lwt_create fn d fl s = Inr (t, s') \<and> lwt_inv s' \<and> created fn d fl s t s' \<and>
    list_foreach (current_run_queue s) (lists s') = Some (q @ [ThdNode t]) \<and>
    list_foreach (current_recycle_queue s) (lists s') = Some rs \<and> lwt_current s' = lwt_current s \<and>
    current_kthd s' = current_kthd s \<and> supplied s' \<and> frames s' = frames s \<and>
    (\<forall>h\<in>heads s - {current_run_queue s, current_recycle_queue s}. list_foreach h (lists s') = list_foreach h (lists s)) \<and>
    (\<forall>v. v \<noteq> t \<longrightarrow> thds s' v = thds s v) \<and> (\<forall>c\<in>dom (chans s). chans s' c = chans s c)"
  by (rule create_reused [OF assms])

lemma chan_fresh:
  assumes "lwt_inv s" "supplied s" "0 \<le> sz" "4 * sz + 16 \<le> 2 ^ 32" "sz \<le> int_max"
  shows "\<exists>c s' ch. lwt_chan sz s = Inr (c, s') \<and> lwt_inv s' \<and> c \<notin> dom (chans s) \<and> chans s' c = Some ch \<and>
    new_channel ch sz (lwt_current s) (chan_counter s) \<and> local_chan c s' \<and> pending c s' = [] \<and>
    chan_counter s' = chan_counter s + 1 \<and> cgroup ch = 0 \<and> supplied s' \<and> lwt_current s' = lwt_current s \<and>
    current_kthd s' = current_kthd s \<and> frames s' = frames s \<and> grps s' = grps s \<and>
    (\<forall>h\<in>heads s. list_foreach h (lists s') = list_foreach h (lists s)) \<and> thds s' = thds s \<and> (\<forall>e. e \<noteq> c \<longrightarrow> chans s' e = chans s e)"
proof -
  obtain B where B: "uheap (mem s) B" "dom (thds s) \<union> dom (chans s) \<union> dom (grps s) \<union> dom (wraps s) \<union> {} \<subseteq> B"
    by (rule inv_uheap [OF assms(1) [unfolded lwt_inv_def]])
  obtain c d ch m where c: "c \<noteq> 0" "c \<notin> B" "new_channel ch sz (lwt_current s) (chan_counter s)"
    "cgroup ch = cgroup (raw_chan s c)"
    "lwt_chan sz s = Inr (c, s\<lparr>mem := m, chans := (chans s)(c \<mapsto> ch), chan_counter := chan_counter s + 1,
       lists := list_head_init (SendQ c) (lists s)\<rparr>)" (is "_ = Inr (c, ?s')")
    "uheap m (insert d (insert c B))" "supplied (s\<lparr>mem := m\<rparr>)"
    by (rule lwt_chan_ok [OF B(1) assms(2-5)])
  have i: "lwt_inv ?s'" using lwt_chan_keeps(1) [OF c(5) assms(1) [unfolded lwt_inv_def] assms(3,4)] by (simp add: lwt_inv_def)
  have "list_foreach (SendQ c) (list_head_init (SendQ c) (lists s)) = Some []"
    by (rule foreach_empty) (simp add: list_head_first_def list_head_init_def list_ll_init_def set_n_def set_p_def)
  then have e: "senders c ?s' = []" by (simp add: senders_def queue_of_def)
  have "local_chan c ?s'" using c(3) e by (simp add: local_chan_def new_channel_def)
  moreover have "pending c ?s' = []" using c(3) e by (simp add: pending_def buffered_def new_channel_def ring_items_def)
  moreover have "cgroup ch = 0"
    using c(4) i [unfolded lwt_inv_def] by (auto simp: mid_inv_def inv_but_def quiet_def)
  moreover have "list_foreach h (lists ?s') = list_foreach h (lists s)" if h: "h \<in> heads s" for h
  proof -
    obtain D where l: "linked D s" and i0: "inv_but True {} {} {} {} (heads s) D (\<lambda>h. queue_of h s) s"
      by (rule lwt_invE [OF assms(1)])
    note fr = nodes_fresh [OF inv_butD(3) [OF i0]]
    have cH: "SendQ c \<notin> heads s" using c(2) B(2) by (auto simp: heads_def)
    have "queues (lists ?s') (insert (SendQ c) (heads s)) D ((\<lambda>h. queue_of h s)(SendQ c := []))"
      using queues_init [OF l [unfolded linked_def] cH fr(8) fr(3)] by simp
    from list_foreach_queue [OF this, of h] show ?thesis using h cH foreach_linked [OF l h] by auto
  qed
  moreover have "supplied ?s'" "lwt_current ?s' = lwt_current s" using c(7) by (simp_all add: supplied_def lwt_current_def)
  ultimately show ?thesis using c i B(2) by (intro exI [of _ c] exI [of _ ?s'] exI [of _ ch]) auto
qed

text \<open>
  \<^verbatim>\<open>lwt_chan\<close>: given memory it succeeds for every size from 0 up whose buffer fits in the
  address space, keeps the invariant, and returns a channel that is new, local, of that
  size, received by the caller, with no sender counted or queued and an empty well-formed
  ring; the other channels and the threads are untouched.
\<close>

theorem chan_created:
  assumes "lwt_inv s" "supplied s" "0 \<le> sz" "4 * sz + 16 \<le> 2 ^ 32" "sz \<le> int_max"
  shows "\<exists>c s' ch. lwt_chan sz s = Inr (c, s') \<and> lwt_inv s' \<and> c \<notin> dom (chans s) \<and> chans s' c = Some ch \<and>
    new_channel ch sz (lwt_current s) (chan_counter s) \<and> local_chan c s' \<and> pending c s' = [] \<and>
    chan_counter s' = chan_counter s + 1 \<and> cgroup ch = 0 \<and> supplied s' \<and> lwt_current s' = lwt_current s \<and>
    current_kthd s' = current_kthd s \<and> frames s' = frames s \<and> grps s' = grps s \<and>
    (\<forall>h\<in>heads s. list_foreach h (lists s') = list_foreach h (lists s)) \<and> thds s' = thds s \<and> (\<forall>e. e \<noteq> c \<longrightarrow> chans s' e = chans s e)"
  by (rule chan_fresh [OF assms])

text \<open>
  Boot: when the page allocator can supply memory, the first kernel thread (any id
  inside the table) is initialised without a fault, whatever uninitialised memory holds;
  its main thread is running, belongs to it and is the current thread.
\<close>

theorem boot_succeeds:
  assumes "uheap m {}" "\<forall>i. pages m i \<noteq> None" "k < MAX_KTHD_NUM"
  shows "\<exists>t s. initiate k (blank m rt rc rw) = Inr s \<and> t \<noteq> 0 \<and> lwt_current (s\<lparr>current_kthd := k\<rparr>) = t \<and>
    main_thread (kthds s k) = t \<and> map_option tstate (thds s t) = Some LWT_RUNNING \<and>
    map_option owner_kthd (thds s t) = Some k"
proof -
  have "uheap (mem (blank m rt rc rw)) {}" "supplied (blank m rt rc rw)"
    using assms(1,2) by (simp_all add: blank_def supplied_def)
  from initiate_ok [OF this assms(3)] show ?thesis by (auto simp: lwt_current_def)
qed

end
