(* ===== verification/Lwt_Reach.thy ===== *)
theory Lwt_Reach
  imports Lwt_Progress
begin

text \<open>
  The invariant in every reachable state of the machine, and what it means for a client:
  iteration over every queue ends, a thread is in exactly the queue its status asks for,
  group membership is consistent, the status queries answer, and nobody polls.
\<close>

section \<open>Iteration with a counter\<close>

lemma queue_size_seg:
  "seg L (xs @ [h]) \<Longrightarrow> h \<notin> set xs \<Longrightarrow> queue_size_loop L h (hd (xs @ [h])) n = Some (n + int (length xs))"
proof (induction xs arbitrary: n)
  case Nil
  show ?case by (simp add: queue_size_loop.simps)
next
  case (Cons x xs)
  then show ?case by (subst queue_size_loop.simps) (auto simp: seg_Cons)
qed

lemma get_queue_size_queue:
  assumes "queues L H D Q" "h \<in> H"
  shows "get_queue_size h L = Some (int (length (Q h)))"
proof -
  have r: "ring L h (Q h)" by (rule queuesD(1) [OF assms])
  then have s: "seg L (Q h @ [h])" "h \<notin> set (Q h)" by (auto simp: ring_def seg_Cons)
  show ?thesis using queue_size_seg [OF s, of 0] ring_first [OF r] by (simp add: get_queue_size_def)
qed

section \<open>Properties\<close>

text \<open>
  C1 The structural invariant holds in every state the machine can reach from boot, with
  any interleaving of API calls of user threads, returns of their functions, continuations
  of suspended library calls, idle rounds and switches of the kernel between kernel
  threads, as long as callers respect \<open>call_ok\<close>.
\<close>

theorem reachable_invariant: "reachable (v, s) \<Longrightarrow> lwt_inv s"
  by (drule reachable_inv) simp

definition demo_thread :: lwt_thread where
  "demo_thread = \<lparr>lwt_id = 77, tstate = LWT_BLOCKED, block_for = BLOCKED_SENDING, parent = 3, message_data = 5,
     init_sp = 1, ctx = \<lparr>ip = RetDispatch, sp = 0\<rparr>, chl = 9, now_rcving = 4, nojoin = 6, owner_kthd = 8\<rparr>"

definition demo_channel :: lwt_channel where
  "demo_channel = \<lparr>chan_id = 77, chan_ty = GLOBAL_CHAN, sq_occupied = 1, snd_cnt = 3, receiver = 5,
     buffer = \<lparr>tail = 4, head = 9, count = 2, data_buffer = 6, words = []\<rparr>, chan_size = 8, rb_occupied = 0,
     cgroup = 0, ready = 0, mark = 0\<rparr>"

lemma demo_boot:
  obtains s where "reachable (VVoid, s\<lparr>current_kthd := 0\<rparr>)" "lwt_current (s\<lparr>current_kthd := 0\<rparr>) \<noteq> 0"
    "map_option tstate (thds s (lwt_current (s\<lparr>current_kthd := 0\<rparr>))) = Some LWT_RUNNING"
proof -
  have p: "uheap (mem (blank fresh_mem (\<lambda>_. demo_thread) (\<lambda>_. demo_channel) (\<lambda>_. 1))) {}"
    "supplied (blank fresh_mem (\<lambda>_. demo_thread) (\<lambda>_. demo_channel) (\<lambda>_. 1))" "0 < MAX_KTHD_NUM"
    using fresh_mem_uheap by (simp_all add: blank_def supplied_def fresh_mem_def MAX_KTHD_NUM_def)
  from initiate_ok [OF p] obtain t s where
    s: "initiate 0 (blank fresh_mem (\<lambda>_. demo_thread) (\<lambda>_. demo_channel) (\<lambda>_. 1)) = Inr s"
    "t \<noteq> 0" "current_thread (kthds s 0) = t" "map_option tstate (thds s t) = Some LWT_RUNNING"
    by blast
  have "reachable (VVoid, s\<lparr>current_kthd := 0\<rparr>)"
    by (rule reachable.boot [OF fresh_mem_uheap _ s(1)]) (simp add: demo_channel_def)
  then show thesis using that s by (simp add: lwt_current_def)
qed

theorem reachable_invariant_witness: "\<exists>s. reachable (VVoid, s) \<and> lwt_inv s"
  by (rule demo_boot) (use reachable_invariant in blast)

text \<open>
  C2 In every reachable state, iteration over the queue of every list head ends, visits no
  node twice, and finds each thread exactly where its status says: a running or runnable
  thread in exactly one run queue and in no other queue, a dead one in exactly one
  recycle queue, one blocked in a send in the sender queue of exactly one channel, and one
  blocked in a receive in no queue at all.
\<close>

theorem thread_in_one_queue:
  assumes "reachable (v, s)" "thds s t = Some x"
  shows "(\<forall>h\<in>heads s. list_foreach h (lists s) = Some (queue_of h s) \<and> distinct (queue_of h s)) \<and>
    (if tstate x = LWT_BLOCKED \<and> block_for x = BLOCKED_RECEIVING
     then \<forall>h\<in>heads s. ThdNode t \<notin> set (queue_of h s)
     else \<exists>h. home h (tstate x, block_for x) \<and> {g\<in>heads s. ThdNode t \<in> set (queue_of g s)} = {h})"
proof -
  have i: "lwt_inv s" using reachable_inv [OF assms(1)] by simp
  obtain D where l: "linked D s" and i0: "inv_but True {} {} {} {} (heads s) D (\<lambda>h. queue_of h s) s"
    by (rule lwt_invE [OF i])
  note q = l [unfolded linked_def]
  have loc: "located (heads s) D (\<lambda>h. queue_of h s) t (tstate x, block_for x)"
    using inv_butD(13) [OF i0] assms(2) by simp
  show ?thesis
  proof (intro conjI ballI)
    show "list_foreach h (lists s) = Some (queue_of h s)" "distinct (queue_of h s)" if "h \<in> heads s" for h
      using foreach_linked [OF l that] lq.rep_distinct [OF q that] by simp_all
    show "if tstate x = LWT_BLOCKED \<and> block_for x = BLOCKED_RECEIVING
     then \<forall>h\<in>heads s. ThdNode t \<notin> set (queue_of h s)
     else \<exists>h. home h (tstate x, block_for x) \<and> {g\<in>heads s. ThdNode t \<in> set (queue_of g s)} = {h}"
    proof (cases "tstate x = LWT_BLOCKED \<and> block_for x = BLOCKED_RECEIVING")
      case True
      then have "ThdNode t \<in> D" using loc by (simp add: located_def)
      then show ?thesis using True queuesD(4) [OF q] by auto
    next
      case False
      then obtain h where h: "h \<in> heads s" "ThdNode t \<in> set (queue_of h s)" "home h (tstate x, block_for x)"
        using loc by (auto simp: located_def)
      have "g = h" if "g \<in> heads s" "ThdNode t \<in> set (queue_of g s)" for g
        by (rule queuesD(5) [OF q that(1) h(1) that(2) h(2)])
      then have "{g\<in>heads s. ThdNode t \<in> set (queue_of g s)} = {h}" using h(1,2) by blast
      then show ?thesis unfolding if_not_P [OF False] using h(3) by blast
    qed
  qed
qed

theorem thread_in_one_queue_witness:
  "\<exists>s t h. reachable (VVoid, s) \<and> home h (LWT_RUNNING, BLOCKED_SENDING) \<and>
     {g\<in>heads s. ThdNode t \<in> set (queue_of g s)} = {h}"
proof (rule demo_boot)
  fix s assume r: "reachable (VVoid, s\<lparr>current_kthd := 0\<rparr>)"
    and t: "map_option tstate (thds s (lwt_current (s\<lparr>current_kthd := 0\<rparr>))) = Some LWT_RUNNING"
  let ?s = "s\<lparr>current_kthd := 0\<rparr>" and ?t = "lwt_current (s\<lparr>current_kthd := 0\<rparr>)"
  obtain x where x: "thds ?s ?t = Some x" "tstate x = LWT_RUNNING" using t by auto
  have "\<exists>h. home h (tstate x, block_for x) \<and> {g\<in>heads ?s. ThdNode ?t \<in> set (queue_of g ?s)} = {h}"
    using thread_in_one_queue [OF r x(1)] x(2) by simp
  then obtain h where h: "home h (tstate x, block_for x)" "{g\<in>heads ?s. ThdNode ?t \<in> set (queue_of g ?s)} = {h}" by blast
  have "home h (LWT_RUNNING, BLOCKED_SENDING)" using h(1) x(2) by (cases h) auto
  then show ?thesis using r h(2) by blast
qed

text \<open>
  C31 Group membership is consistent in every reachable state: a channel whose \<^verbatim>\<open>cgroup\<close> is
  set is on the list of that group, which exists, and the list of a group holds exactly
  the channels whose \<^verbatim>\<open>cgroup\<close> names it.
\<close>

theorem group_membership:
  assumes "reachable (v, s)" "g \<in> dom (grps s)"
  shows "set (queue_of (GrpQ g) s) = {ChanNode c | c. \<exists>ch. chans s c = Some ch \<and> cgroup ch = g} \<and>
    (\<forall>c ch. chans s c = Some ch \<longrightarrow> cgroup ch \<noteq> 0 \<longrightarrow> cgroup ch \<in> dom (grps s))"
proof -
  have i: "lwt_inv s" using reachable_inv [OF assms(1)] by simp
  obtain D where i0: "inv_but True {} {} {} {} (heads s) D (\<lambda>h. queue_of h s) s" by (rule lwt_invE [OF i])
  note g = inv_butD(4) [OF i0] and hd = inv_butD(2) [OF i0]
  have gH: "GrpQ g \<in> heads s" using assms(2) by (simp add: heads_def)
  have g0: "g \<noteq> 0" using live_nonnull(3) [OF i0] assms(2) by blast
  have "n \<in> {ChanNode c | c. \<exists>ch. chans s c = Some ch \<and> cgroup ch = g}" if "n \<in> set (queue_of (GrpQ g) s)" for n
  proof -
    have "node_ok (dom (thds s)) (group_of s) (dom (wraps s)) (GrpQ g) n"
      using inv_butD(3) [OF i0] gH that unfolding nodes_ok_def by blast
    then show ?thesis by (auto simp: node_ok_def group_of_def)
  qed
  moreover have "ChanNode c \<in> set (queue_of (GrpQ (cgroup ch)) s) \<and> GrpQ (cgroup ch) \<in> heads s"
    if "chans s c = Some ch" "cgroup ch \<noteq> 0" for c ch
    using g that by (auto simp: groups_ok_def group_of_def)
  moreover have "k \<in> dom (grps s)" if "GrpQ k \<in> heads s" for k using head_in(2) [OF hd] that by simp
  ultimately show ?thesis using g0 by (intro conjI set_eqI iffI) blast+
qed

text \<open>
  The status queries end and tell the truth: in every reachable state \<^verbatim>\<open>lwt_info\<close> returns
  the length of the current run queue, and of the current recycle queue.
\<close>

theorem info_counts_queues:
  assumes "reachable (v, s)"
  shows "lwt_info LWT_INFO_NTHD_RUNNABLE s = Inr (int (length (queue_of (current_run_queue s) s))) \<and>
    lwt_info LWT_INFO_NTHD_RECYCLE s = Inr (int (length (queue_of (current_recycle_queue s) s)))"
proof -
  have i: "lwt_inv s" using reachable_inv [OF assms] by simp
  obtain D where l: "linked D s" by (rule lwt_invE [OF i])
  show ?thesis
    using get_queue_size_queue [OF l [unfolded linked_def] heads_current [OF i]]
      get_queue_size_queue [OF l [unfolded linked_def] heads_recycle [OF i]]
    by (simp add: lwt_info_def current_run_queue_def current_recycle_queue_def)
qed

theorem info_counts_queues_witness:
  "\<exists>s. reachable (VVoid, s) \<and> lwt_info LWT_INFO_NTHD_RUNNABLE s = Inr (int (length (queue_of (current_run_queue s) s)))"
  by (rule demo_boot) (use info_counts_queues in blast)

text \<open>
  Nobody polls: in every reachable state \<^verbatim>\<open>polling_flag\<close> is 0 on every kernel thread, so
  \<^verbatim>\<open>__lwt_schedule\<close> never looks at the wake-up queue; and a send on a global channel, which
  relies on that queue, changes no thread. A receiver that is blocked on a global channel
  is therefore still blocked after the send.
\<close>

theorem global_send_wakes_nobody:
  assumes "reachable (v, s)" "lwt_sync_snd c d s = Inr (w, s')"
  shows "polling_flag (kthds s k) = 0 \<and> poll_wakeups s = Inr s \<and> thds s' = thds s"
proof -
  have "lwt_inv s" using reachable_inv [OF assms(1)] by simp
  then have p: "polling_flag (kthds s j) = 0" for j by (rule inv_polling)
  obtain b s1 lw s2 where "upd_chan c (\<lambda>ch. ch\<lparr>buffer := b, rb_occupied := 0\<rparr>) s = Inr s1"
    "malloc sizeof_lwt_wrap s1 = Inr (lw, s2)" "thds s' = thds s2"
    using assms(2) by (auto simp: lwt_sync_snd_def run_simps simp del: upd_chan_eq_Inr)
  then have "thds s' = thds s" by (auto simp: malloc_eq_Inr)
  then show ?thesis using p poll_quiet by blast
qed

end
