(* ===== verification/Lwt_ChanProps.thy ===== *)
theory Lwt_ChanProps
  imports Lwt_MsgProps
begin

text \<open>
  Sending and receiving on a local channel, branch by branch, as operations on the
  first-in first-out queue of its pending words.
\<close>

section \<open>Reading a state after a switch or a wake-up\<close>

lemma msg_switched:
  assumes "switched s1 s' u"
  shows "msg t s' = msg t s1"
proof -
  have "map_option message_data (thds s' t) = map_option message_data (thds s1 t)"
    using assms by (simp add: switched_def)
  then show ?thesis by (cases "thds s' t"; cases "thds s1 t") (auto simp: msg_def)
qed

lemma queue_of_requeue: "requeue s s' Q \<Longrightarrow> h \<in> heads s \<Longrightarrow> queue_of h s' = Q h"
  by (simp add: requeue_def queue_of_def)

lemma cur_not_sender:
  assumes c: "on_cpu s q" and ch: "chans s c = Some ch"
  shows "ThdNode (lwt_current s) \<notin> set (queue_of (SendQ c) s)" "lwt_current s \<notin> set (senders c s)"
proof -
  have i: "lwt_inv s" using c by (simp add: on_cpu_def)
  obtain D where l: "linked D s" by (rule lwt_invE [OF i])
  have "ThdNode (lwt_current s) \<in> set (queue_of (RunQ (current_kthd s)) s)"
    using c on_cpu_queue [OF c] by (simp add: on_cpu_def)
  then show n: "ThdNode (lwt_current s) \<notin> set (queue_of (SendQ c) s)"
    using queuesD(5) [OF l [unfolded linked_def] heads_current [OF i] inv_chan(2) [OF i ch]] by blast
  then show "lwt_current s \<notin> set (senders c s)" using inv_senders(1) [OF i ch] by auto
qed

text \<open>The state in which a thread is about to block: only its record, frames and a channel differ.\<close>

lemma on_cpu_prepared:
  assumes c: "on_cpu s q" and x: "thds s (lwt_current s) = Some x"
    and ch: "chans s c = Some ch" "cgroup ch' = cgroup ch"
    and y: "tstate y = tstate x" "block_for y = block_for x" "owner_kthd y = owner_kthd x"
  shows "on_cpu (push k (s\<lparr>chans := (chans s)(c \<mapsto> ch'), thds := (thds s)(lwt_current s \<mapsto> y)\<rparr>)) q"
proof -
  let ?s1 = "s\<lparr>chans := (chans s)(c \<mapsto> ch')\<rparr>"
  let ?s2 = "?s1\<lparr>thds := (thds ?s1)(lwt_current s \<mapsto> y)\<rparr>"
  have i: "mid_inv True {} {} {} {} s" using c by (simp add: on_cpu_def lwt_inv_def)
  have "mid_inv True {} {} {} {} ?s1" by (rule mid_inv_chan [OF i ch])
  then have "mid_inv True {} {} {} {} ?s2" by (rule mid_inv_thd [of _ _ _ _ _ _ _ x]) (use x y in simp_all)
  then have "lwt_inv (push k ?s2)" by (simp add: lwt_inv_def)
  moreover have "lwt_current (push k ?s2) = lwt_current s" by (simp add: lwt_current_def push_def)
  ultimately show ?thesis using c x y by (simp add: on_cpu_def push_def)
qed

section \<open>Sending\<close>

lemma snd_full_effect:
  assumes cpu: "on_cpu s q" and l: "local_chan c s" and b: "receiver_busy c s" and ch: "chans s c = Some ch"
    and full: "\<not> ring_not_full (chan_size ch) (buffer ch)"
    and n: "remove1 (ThdNode (lwt_current s)) q = ThdNode u # ns" and x: "thds s (lwt_current s) = Some x"
  shows "\<exists>v s'. lwt_snd c d s = Inr (v, s') \<and> pending c s' = pending c s @ [d] \<and> local_chan c s' \<and>
    senders c s' = senders c s @ [lwt_current s] \<and> lwt_current s' = u \<and>
    list_foreach (RunQ (current_kthd s)) (lists s') = Some (ThdNode u # ns) \<and>
    map_option tstate (thds s' (lwt_current s)) = Some LWT_BLOCKED \<and>
    map_option block_for (thds s' (lwt_current s)) = Some BLOCKED_SENDING \<and>
    frames s' (lwt_current s) = KSnd # frames s (lwt_current s) \<and> u \<noteq> lwt_current s \<and>
    chans s' = (chans s)(c \<mapsto> ch\<lparr>ready := 1\<rparr>) \<and>
    (\<forall>h\<in>heads s. list_foreach h (lists s') = Some (parked (lwt_current s) BLOCKED_SENDING c (\<lambda>h. queue_of h s) h)) \<and>
    slept s s' u (x\<lparr>message_data := d, tstate := LWT_BLOCKED, block_for := BLOCKED_SENDING\<rparr>) (KSnd # frames s (lwt_current s))"
proof -
  let ?t = "lwt_current s" and ?k = "current_kthd s"
  have i: "lwt_inv s" using cpu by (simp add: on_cpu_def)
  obtain D where li: "linked D s" by (rule lwt_invE [OF i])
  have c: "c \<noteq> 0" and cH: "SendQ c \<in> heads s" using inv_chan [OF i ch] by auto
  have "distinct q" using lq.rep_distinct [OF li [unfolded linked_def] heads_current [OF i]] on_cpu_queue [OF cpu] by simp
  then have tu: "u \<noteq> ?t" using n by (metis list.set_intros(1) set_remove1_eq Diff_iff singletonI)
  let ?y = "x\<lparr>message_data := d\<rparr>" and ?ch = "ch\<lparr>ready := 1\<rparr>"
  let ?s3 = "push KSnd (s\<lparr>chans := (chans s)(c \<mapsto> ?ch), thds := (thds s)(?t \<mapsto> ?y)\<rparr>)"
  have cpu3: "on_cpu ?s3 q" by (rule on_cpu_prepared [OF cpu x ch]) simp_all
  have e3: "lwt_current ?s3 = ?t" "current_kthd ?s3 = ?k" "lists ?s3 = lists s" "chans ?s3 = (chans s)(c \<mapsto> ?ch)"
    "thds ?s3 ?t = Some ?y" "heads ?s3 = heads s"
    using ch by (auto simp: push_def lwt_current_def heads_def)
  have q3: "queue_of h ?s3 = queue_of h s" for h by (rule queue_of_lists [OF e3(3)])
  have "\<exists>v s' s1. block_thread (lwt_current ?s3) BLOCKED_SENDING c ?s3 = Inr (v, s') \<and>
    requeue ?s3 s' (parked (lwt_current ?s3) BLOCKED_SENDING c (\<lambda>h. queue_of h ?s3)) \<and> switched s1 s' u \<and>
    thds s1 = (thds ?s3)(lwt_current ?s3 \<mapsto> ?y\<lparr>tstate := LWT_BLOCKED, block_for := BLOCKED_SENDING\<rparr>) \<and>
    chans s1 = chans ?s3 \<and> grps s1 = grps ?s3 \<and> lwt_current s1 = lwt_current ?s3 \<and> current_kthd s1 = current_kthd ?s3 \<and>
    frames s1 = frames ?s3 \<and> mem s1 = mem ?s3"
    by (rule block_thread_effect [OF cpu3]) (use n e3(1,4,5) in auto)
  then obtain v s' s1 where r: "block_thread ?t BLOCKED_SENDING c ?s3 = Inr (v, s')"
    "requeue ?s3 s' (parked ?t BLOCKED_SENDING c (\<lambda>h. queue_of h s))" "switched s1 s' u"
    "thds s1 = (thds ?s3)(?t \<mapsto> ?y\<lparr>tstate := LWT_BLOCKED, block_for := BLOCKED_SENDING\<rparr>)" "chans s1 = chans ?s3"
    "frames s1 = frames ?s3" "lwt_current s1 = ?t" "current_kthd s1 = ?k" "grps s1 = grps ?s3" "mem s1 = mem ?s3"
    unfolding e3(1,2) q3 by blast
  have sn: "lwt_snd c d s = Inr (v, s')"
    using snd_busy_prefix [OF i l b ch, of d] full r(1) x cpu ch
    by (auto simp: upd_thd_def thd_def on_cpu_def dest: live_nonnull(1) elim: lwt_invE)
  note nt = cur_not_sender [OF cpu ch]
  have sq: "queue_of (SendQ c) s' = queue_of (SendQ c) s @ [ThdNode ?t]"
    using queue_of_requeue [OF r(2), of "SendQ c"] e3(6) cH nt(1) by (simp add: parked_def Let_def remove1_idem)
  then have se: "senders c s' = senders c s @ [?t]" by (simp add: senders_def node_thd_def)
  have ch': "chans s' c = Some ?ch" using r(3,5) e3(4) by (simp add: switched_def)
  have "msg v s' = (if v = ?t then d else msg v s)" for v
    using msg_switched [OF r(3)] r(4) by (simp add: msg_def push_def)
  then have "map (\<lambda>v. msg v s') (senders c s') = map (\<lambda>v. msg v s) (senders c s) @ [d]"
    using nt(2) se by (auto intro: map_cong)
  then have "pending c s' = pending c s @ [d]" using ch ch' by (simp add: pending_def buffered_def)
  moreover have "local_chan c s'" using l ch ch' full by (simp add: local_chan_def)
  moreover have "lwt_current s' = u" using r(3) by (simp add: switched_def)
  moreover have "list_foreach (RunQ ?k) (lists s') = Some (ThdNode u # ns)"
    using r(2) e3(6) heads_current [OF i] n on_cpu_queue [OF cpu] by (simp add: requeue_def parked_def Let_def)
  moreover have "map_option tstate (thds s' ?t) = map_option tstate (thds s1 ?t)"
    "map_option block_for (thds s' ?t) = map_option block_for (thds s1 ?t)"
    using r(3) tu by (simp_all add: switched_def)
  then have "map_option tstate (thds s' ?t) = Some LWT_BLOCKED" "map_option block_for (thds s' ?t) = Some BLOCKED_SENDING"
    using r(4) by simp_all
  moreover have "frames s' ?t = KSnd # frames s ?t"
    using r(3,6) tu by (simp add: switched_def push_def lwt_current_def)
  moreover have "chans s' = (chans s)(c \<mapsto> ?ch)" using r(3,5) e3(4) by (simp add: switched_def)
  moreover have "\<forall>h\<in>heads s. list_foreach h (lists s') = Some (parked ?t BLOCKED_SENDING c (\<lambda>h. queue_of h s) h)"
    using r(2) e3(6) by (simp add: requeue_def)
  moreover have "slept s s' u (?y\<lparr>tstate := LWT_BLOCKED, block_for := BLOCKED_SENDING\<rparr>) (KSnd # frames s ?t)"
    by (rule switched_slept [OF r(3)]) (use r(4,6-10) in \<open>simp_all add: push_def lwt_current_def\<close>)
  ultimately show ?thesis using sn se tu by blast
qed

text \<open>A waiting receiver gets the word directly.\<close>

lemma snd_direct_effect:
  assumes i: "lwt_inv s" and ch: "chans s c = Some ch" "chan_ty ch = LOCAL_CHAN"
    and r: "thds s (receiver ch) = Some r" "receiver_waits ch c r" and cur: "thds s (lwt_current s) = Some y"
  shows "\<exists>s'. lwt_snd c d s = Inr (VInt 0, s') \<and> chans s' = chans s \<and> msg (receiver ch) s' = d \<and>
    map_option tstate (thds s' (receiver ch)) = Some LWT_RUNNABLE \<and> lwt_current s' = lwt_current s \<and> frames s' = frames s \<and>
    current_kthd s' = current_kthd s \<and> thds s' (receiver ch) = Some (r\<lparr>message_data := d, tstate := LWT_RUNNABLE\<rparr>) \<and>
    list_foreach (RunQ (owner_kthd y)) (lists s') =
      Some (insert_before_last (ThdNode (receiver ch)) (queue_of (RunQ (owner_kthd y)) s)) \<and>
    (\<forall>v. v \<noteq> receiver ch \<longrightarrow> thds s' v = thds s v) \<and> grps s' = grps s \<and> mem s' = mem s \<and>
    requeue s s' (woken (receiver ch) (owner_kthd y) (\<lambda>h. queue_of h s))"
proof -
  let ?r = "receiver ch" and ?s1 = "s\<lparr>thds := (thds s)(receiver ch \<mapsto> r\<lparr>message_data := d\<rparr>)\<rparr>"
  obtain D where l: "linked D s" and i0: "inv_but True {} {} {} {} (heads s) D (\<lambda>h. queue_of h s) s" by (rule lwt_invE [OF i])
  have nn: "c \<noteq> 0" "?r \<noteq> 0" using inv_chan(1) [OF i ch(1)] live_nonnull(1) [OF i0 r(1)] by auto
  have i1: "lwt_inv ?s1"
    unfolding lwt_inv_def by (rule mid_inv_thd [OF i [unfolded lwt_inv_def] r(1)]) simp_all
  have c1: "lwt_current ?s1 = lwt_current s" by (simp add: lwt_current_def)
  obtain y' where y': "thds ?s1 (lwt_current ?s1) = Some y'" "owner_kthd y' = owner_kthd y"
    using cur r(1) c1 by (cases "lwt_current s = ?r") auto
  have q1: "queue_of h ?s1 = queue_of h s" for h by (rule queue_of_lists) simp
  have x1: "thds ?s1 ?r = Some (r\<lparr>message_data := d\<rparr>)" by simp
  obtain s' where s': "resume_thread ?r ?s1 = Inr s'" "requeue ?s1 s' (woken ?r (owner_kthd y) (\<lambda>h. queue_of h s))"
    "thds s' = (thds ?s1)(?r \<mapsto> (r\<lparr>message_data := d\<rparr>)\<lparr>tstate := LWT_RUNNABLE\<rparr>)" "chans s' = chans ?s1"
    "lwt_current s' = lwt_current ?s1" "frames s' = frames ?s1" "current_kthd s' = current_kthd ?s1" "grps s' = grps ?s1"
    "mem s' = mem ?s1"
    using resume_thread_effect [OF i1 x1 y'(1)] y'(2) q1 by auto
  have "lwt_snd c d s = Inr (VInt 0, s')"
    using nn ch r s'(1) by (simp add: lwt_snd_def)
  moreover have oH: "RunQ (owner_kthd y) \<in> heads s"
  proof -
    have "owner_kthd y \<in> hosted s" using inv_butD(5) [OF i0] cur by (auto simp: owners_ok_def)
    then show ?thesis by (simp add: heads_def)
  qed
  moreover have "ThdNode ?r \<in> D"
    using inv_butD(13) [OF i0, of ?r] r by (simp add: receiver_waits_def located_def)
  then have "ThdNode ?r \<notin> set (queue_of (RunQ (owner_kthd y)) s)"
    using queuesD(4) [OF l [unfolded linked_def] oH] by blast
  ultimately show ?thesis using s'(2-9) c1
    by (intro exI [of _ s']) (auto simp: requeue_def woken_def remove1_idem msg_def)
qed

section \<open>Receiving\<close>

text \<open>Resuming the first blocked sender of a channel.\<close>

lemma resume_sender:
  assumes i: "lwt_inv s" and ch: "chans s c = Some ch" and t: "senders c s = t # ts"
    and cur: "lwt_current s \<in> dom (thds s)"
  shows "\<exists>s' x. thds s t = Some x \<and> resume_thread t s = Inr s' \<and> senders c s' = ts \<and> chans s' = chans s \<and>
    (\<forall>v. msg v s' = msg v s) \<and> thds s' = (thds s)(t \<mapsto> x\<lparr>tstate := LWT_RUNNABLE\<rparr>) \<and>
    (\<exists>k\<in>hosted s. ThdNode t \<in> set (queue_of (RunQ k) s')) \<and> lwt_current s' = lwt_current s \<and>
    current_kthd s' = current_kthd s \<and> frames s' = frames s \<and> grps s' = grps s \<and>
    requeue s s' (woken t (owner_kthd (the (thds s (lwt_current s)))) (\<lambda>h. queue_of h s))"
proof -
  obtain D where i0: "inv_but True {} {} {} {} (heads s) D (\<lambda>h. queue_of h s) s" by (rule lwt_invE [OF i])
  have td: "t \<in> dom (thds s)" using inv_senders(3) [OF i ch] t by simp
  then obtain x y where x: "thds s t = Some x" and y: "thds s (lwt_current s) = Some y" using cur by blast
  obtain s' where s': "resume_thread t s = Inr s'" "requeue s s' (woken t (owner_kthd y) (\<lambda>h. queue_of h s))"
    "thds s' = (thds s)(t \<mapsto> x\<lparr>tstate := LWT_RUNNABLE\<rparr>)" "chans s' = chans s" "lwt_current s' = lwt_current s"
    "current_kthd s' = current_kthd s" "frames s' = frames s" "grps s' = grps s"
    using resume_thread_effect [OF i x y] by blast
  have o: "owner_kthd y \<in> hosted s" using inv_butD(5) [OF i0] y by (auto simp: owners_ok_def)
  have "queue_of (SendQ c) s' = map ThdNode ts"
    using queue_of_requeue [OF s'(2) inv_chan(2) [OF i ch]] inv_senders(1) [OF i ch] t by (simp add: woken_def)
  then have "senders c s' = ts" by (simp add: senders_def comp_def node_thd_def)
  moreover have "ThdNode t \<in> set (queue_of (RunQ (owner_kthd y)) s')"
    using queue_of_requeue [OF s'(2), of "RunQ (owner_kthd y)"] o by (simp add: heads_def woken_def)
  moreover have "msg v s' = msg v s" for v using s'(3) x by (simp add: msg_def)
  moreover have "requeue s s' (woken t (owner_kthd (the (thds s (lwt_current s)))) (\<lambda>h. queue_of h s))" using s'(2) y by simp
  ultimately show ?thesis using s' x o by blast
qed

text \<open>
  What a receive does to the threads: nothing, unless a sender is blocked, in which case the
  first one is resumed.
\<close>

definition unblocked :: "sys \<Rightarrow> sys \<Rightarrow> ptr list \<Rightarrow> bool" where
  "unblocked s s' ts \<longleftrightarrow> lwt_current s' = lwt_current s \<and> current_kthd s' = current_kthd s \<and> frames s' = frames s \<and>
     grps s' = grps s \<and> (case ts of [] \<Rightarrow> thds s' = thds s \<and> lists s' = lists s \<and> mem s' = mem s \<and> kthds s' = kthds s
      | t # _ \<Rightarrow> thds s' = (thds s)(t := map_option (tstate_update (\<lambda>_. LWT_RUNNABLE)) (thds s t)) \<and>
          (\<forall>h\<in>heads s. list_foreach h (lists s') =
             Some (woken t (owner_kthd (the (thds s (lwt_current s)))) (\<lambda>h. queue_of h s) h)))"

lemma local_facts:
  assumes i: "lwt_inv s" and l: "local_chan c s" and ch: "chans s c = Some ch"
  shows "c \<noteq> 0" "chan_ty ch = LOCAL_CHAN" "ring_ok (chan_size ch) (buffer ch)"
    "senders c s \<noteq> [] \<Longrightarrow> \<not> ring_not_full (chan_size ch) (buffer ch)"
    "list_head_empty (SendQ c) (lists s) \<longleftrightarrow> senders c s = []"
    "senders c s = t # ts \<Longrightarrow> list_head_first (SendQ c) (lists s) = ThdNode t"
    "pending c s = ring_items (chan_size ch) (buffer ch) @ map (\<lambda>t. msg t s) (senders c s)"
proof -
  have cH: "SendQ c \<in> heads s" using inv_chan [OF i ch] by auto
  obtain D where li: "linked D s" by (rule lwt_invE [OF i])
  show "c \<noteq> 0" using inv_chan [OF i ch] by auto
  show "chan_ty ch = LOCAL_CHAN" "ring_ok (chan_size ch) (buffer ch)"
    "senders c s \<noteq> [] \<Longrightarrow> \<not> ring_not_full (chan_size ch) (buffer ch)" using l ch by (auto simp: local_chan_def)
  show "list_head_empty (SendQ c) (lists s) \<longleftrightarrow> senders c s = []"
    using lq.empty_rep [OF li [unfolded linked_def] cH] inv_senders(1) [OF i ch] by simp
  show "list_head_first (SendQ c) (lists s) = ThdNode t" if "senders c s = t # ts"
    using lq.first_rep [OF li [unfolded linked_def] cH] inv_senders(1) [OF i ch] that by simp
  show "pending c s = ring_items (chan_size ch) (buffer ch) @ map (\<lambda>t. msg t s) (senders c s)"
    using ch by (simp add: pending_def buffered_def)
qed

text \<open>
  What a receive that finds the pending words \<open>d # ds\<close> leaves: \<open>ds\<close>, the first blocked sender
  runnable, the ready flag exact.
\<close>

definition took :: "ptr \<Rightarrow> lwt_channel \<Rightarrow> ptr list \<Rightarrow> sys \<Rightarrow> sys \<Rightarrow> bool" where
  "took c ch ds s s' \<longleftrightarrow> pending c s' = ds \<and> local_chan c s' \<and> senders c s' = tl (senders c s) \<and>
     (\<forall>t ts. senders c s = t # ts \<longrightarrow> map_option tstate (thds s' t) = Some LWT_RUNNABLE \<and>
        (\<exists>k\<in>hosted s. ThdNode t \<in> set (queue_of (RunQ k) s'))) \<and> unblocked s s' (senders c s) \<and>
     (\<exists>x. chans s' c = Some x \<and> receiver x = receiver ch \<and> cgroup x = cgroup ch \<and> chan_size x = chan_size ch \<and>
        ready x = (if ds = [] then 0 else 1) \<and> tail (buffer x) \<le> tail (buffer ch) + 1) \<and>
     (\<forall>e. e \<noteq> c \<longrightarrow> chans s' e = chans s e)"

text \<open>From the ring, nobody blocked.\<close>

lemma rcv_unblocked:
  assumes i: "lwt_inv s" and l: "local_chan c s" and ch: "chans s c = Some ch" and ne: "pending c s = d # ds" and se0: "senders c s = []"
  shows "\<exists>s'. lwt_rcv c s = Inr (VPtr d, s') \<and> took c ch ds s s'"
proof -
  note f = local_facts [OF i l ch]
  have it: "ring_items (chan_size ch) (buffer ch) = d # ds" using f(7) ne se0 by simp
  then have rn: "ring_nonempty (buffer ch)" using ring_items_empty [OF f(3)] by auto
  obtain bf where bf: "ring_get (chan_size ch) (buffer ch) = Inr (d, bf)" "ring_ok (chan_size ch) bf" "ring_items (chan_size ch) bf = ds"
    "tail bf = tail (buffer ch)" using ring_get_ok [OF f(3) rn] it by auto
  define r :: int where "r = (if head bf = tail bf then 0 else 1)"
  let ?s' = "s\<lparr>chans := (chans s)(c \<mapsto> ch\<lparr>buffer := bf, ready := r\<rparr>)\<rparr>"
  have r: "lwt_rcv c s = Inr (VPtr d, ?s')"
    using f(1,2,5) ch rn bf(1) se0 by (auto simp: lwt_rcv_def refill_def r_def)
  have se: "senders c ?s' = []" using se0 by (simp add: senders_def queue_of_def)
  have "pending c ?s' = ds" using se bf(3) by (simp add: pending_def [of c ?s'] buffered_def)
  moreover have "r = (if ds = [] then 0 else 1)" using bf(3) ring_items_empty [OF bf(2)] by (auto simp: r_def ring_nonempty_def)
  moreover have "local_chan c ?s'" using f(2) bf(2) se by (simp add: local_chan_def)
  moreover have "unblocked s ?s' (senders c s)" using se0 by (simp add: unblocked_def lwt_current_def)
  ultimately have "took c ch ds s ?s'" using se se0 bf(4) by (auto simp: took_def)
  then show ?thesis using r by blast
qed

text \<open>From the ring, which the first blocked sender refills.\<close>

lemma rcv_refills:
  assumes i: "lwt_inv s" and l: "local_chan c s" and ch: "chans s c = Some ch" and ne: "pending c s = d # ds"
    and cur: "lwt_current s \<in> dom (thds s)" and sp: "tail (buffer ch) < int_max"
    and rn: "ring_nonempty (buffer ch)" and t: "senders c s = t # ts"
  shows "\<exists>s'. lwt_rcv c s = Inr (VPtr d, s') \<and> took c ch ds s s'"
proof -
  note f = local_facts [OF i l ch]
  obtain xs where it: "ring_items (chan_size ch) (buffer ch) = d # xs" and ds: "ds = xs @ msg t s # map (\<lambda>t. msg t s) ts"
    using f(7) ne t ring_items_empty [OF f(3)] rn by (cases "ring_items (chan_size ch) (buffer ch)") auto
  obtain bf where bf: "ring_get (chan_size ch) (buffer ch) = Inr (d, bf)" "ring_ok (chan_size ch) bf" "ring_items (chan_size ch) bf = xs"
    "tail bf = tail (buffer ch)" "head bf = head (buffer ch) + 1" using ring_get_ok [OF f(3) rn] it by auto
  let ?s1 = "s\<lparr>chans := (chans s)(c \<mapsto> ch\<lparr>buffer := bf\<rparr>)\<rparr>"
  have i1: "lwt_inv ?s1" unfolding lwt_inv_def by (rule mid_inv_chan [OF i [unfolded lwt_inv_def] ch]) simp
  have s1: "chans ?s1 c = Some (ch\<lparr>buffer := bf\<rparr>)" "senders c ?s1 = t # ts" "lwt_current ?s1 = lwt_current s" "lists ?s1 = lists s"
    using t by (simp_all add: senders_def queue_of_def lwt_current_def)
  have cur1: "lwt_current ?s1 \<in> dom (thds ?s1)" using cur s1(3) by simp
  obtain s2 x where s2: "thds s t = Some x" "resume_thread t ?s1 = Inr s2" "senders c s2 = ts" "chans s2 = chans ?s1"
    "\<forall>v. msg v s2 = msg v ?s1" "thds s2 = (thds s)(t \<mapsto> x\<lparr>tstate := LWT_RUNNABLE\<rparr>)"
    "\<exists>k\<in>hosted ?s1. ThdNode t \<in> set (queue_of (RunQ k) s2)"
    "lwt_current s2 = lwt_current s" "current_kthd s2 = current_kthd s" "frames s2 = frames s" "grps s2 = grps s"
    "requeue ?s1 s2 (woken t (owner_kthd (the (thds ?s1 (lwt_current ?s1)))) (\<lambda>h. queue_of h ?s1))"
    using resume_sender [OF i1 s1(1,2) cur1] s1(3) by auto
  have m: "msg v s2 = msg v s" for v using s2(5) by (simp add: msg_def)
  have tx: "thds s2 t = Some (x\<lparr>tstate := LWT_RUNNABLE\<rparr>)" "message_data x = msg t s" using s2(1,6) by (simp_all add: msg_def)
  have t0: "t \<noteq> 0" using i s2(1) by (auto elim!: lwt_invE dest: live_nonnull(1))
  have room: "tail bf - head bf < chan_size ch" "tail bf < int_max" using f(4) t bf(4,5) sp by (simp_all add: ring_not_full_def)
  obtain bg where bg: "ring_put (chan_size ch) (msg t s) bf = Inr bg" "ring_ok (chan_size ch) bg"
    "ring_items (chan_size ch) bg = xs @ [msg t s]" "tail bg = tail bf + 1" "head bg = head bf"
    using ring_put_ok [OF bf(2) room] bf(3) by auto
  have rf: "refill c ?s1 = Inr (s2\<lparr>chans := (chans s2)(c \<mapsto> ch\<lparr>buffer := bg\<rparr>)\<rparr>)"
    using f(1,5,6) t s2(2,4) tx t0 bg(1) by (simp add: refill_def)
  have hd: "head bg \<noteq> tail bg" using ring_items_empty [OF bg(2)] bg(3) by (simp add: ring_nonempty_def)
  let ?s' = "s2\<lparr>chans := (chans s2)(c \<mapsto> ch\<lparr>buffer := bg, ready := 1\<rparr>)\<rparr>"
  have r: "lwt_rcv c s = Inr (VPtr d, ?s')" using f(1,2) ch rn bf(1) rf hd by (auto simp: lwt_rcv_def)
  have se: "senders c ?s' = ts" using s2(3) by (simp add: senders_def queue_of_def)
  have ms: "msg v ?s' = msg v s" for v using m by (simp add: msg_def)
  have "pending c ?s' = ds" using se ms bg(3) ds by (simp add: pending_def buffered_def)
  moreover have "local_chan c ?s'" using f(2,4) bg(2,4,5) bf(4,5) t by (simp add: local_chan_def ring_not_full_def)
  moreover have "map_option tstate (thds ?s' t) = Some LWT_RUNNABLE" using tx by simp
  moreover have "\<exists>k\<in>hosted s. ThdNode t \<in> set (queue_of (RunQ k) ?s')" using s2(7) by (simp add: queue_of_def)
  moreover have q1: "queue_of h ?s1 = queue_of h s" for h by (rule queue_of_lists) simp
  have hh: "heads ?s1 = heads s" using ch by (intro heads_chan) blast
  have "unblocked s ?s' (senders c s)"
    using s2(1,6,8-12) t s1(3) unfolding unblocked_def requeue_def q1 hh by (auto simp: lwt_current_def)
  ultimately have "took c ch ds s ?s'" using se t ds bf(4) bg(4) s2(4) by (auto simp: took_def)
  then show ?thesis using r by blast
qed

text \<open>From the first blocked sender directly.\<close>

lemma rcv_direct:
  assumes i: "lwt_inv s" and l: "local_chan c s" and ch: "chans s c = Some ch" and ne: "pending c s = d # ds"
    and cur: "lwt_current s \<in> dom (thds s)" and rn: "\<not> ring_nonempty (buffer ch)"
  shows "\<exists>s'. lwt_rcv c s = Inr (VPtr d, s') \<and> took c ch ds s s'"
proof -
  note f = local_facts [OF i l ch]
  have ie: "ring_items (chan_size ch) (buffer ch) = []" using ring_items_empty [OF f(3)] rn by simp
  then obtain t ts where t: "senders c s = t # ts" "d = msg t s" "ds = map (\<lambda>t. msg t s) ts" using f(7) ne by auto
  obtain s1 x where s1: "thds s t = Some x" "resume_thread t s = Inr s1" "senders c s1 = ts" "chans s1 = chans s"
    "\<forall>v. msg v s1 = msg v s" "thds s1 = (thds s)(t \<mapsto> x\<lparr>tstate := LWT_RUNNABLE\<rparr>)"
    "\<exists>k\<in>hosted s. ThdNode t \<in> set (queue_of (RunQ k) s1)"
    "lwt_current s1 = lwt_current s" "current_kthd s1 = current_kthd s" "frames s1 = frames s" "grps s1 = grps s"
    "requeue s s1 (woken t (owner_kthd (the (thds s (lwt_current s)))) (\<lambda>h. queue_of h s))"
    using resume_sender [OF i ch t(1) cur] by blast
  have t0: "t \<noteq> 0" using i s1(1) by (auto elim!: lwt_invE dest: live_nonnull(1))
  have dx: "message_data x = d" using t(2) s1(1) by (simp add: msg_def)
  define r :: int where "r = (if list_head_empty (SendQ c) (lists s1) then 0 else 1)"
  let ?s' = "s1\<lparr>chans := (chans s1)(c \<mapsto> ch\<lparr>ready := r\<rparr>)\<rparr>"
  have r: "lwt_rcv c s = Inr (VPtr d, ?s')"
    using f(1,2,5,6) ch rn t(1) t0 s1 dx by (auto simp: lwt_rcv_def r_def)
  obtain D1 where l1: "linked D1 s1" using lwt_invE resume_thread_keeps [OF s1(2) i [unfolded lwt_inv_def]] unfolding lwt_inv_def by metis
  have cH1: "SendQ c \<in> heads s1" unfolding heads_def s1(4) using ch by blast
  have "queue_of (SendQ c) s1 = [] \<longleftrightarrow> ts = []" using s1(3) by (auto simp: senders_def)
  then have "list_head_empty (SendQ c) (lists s1) \<longleftrightarrow> ts = []" using lq.empty_rep [OF l1 [unfolded linked_def] cH1] by simp
  then have rr: "r = (if ds = [] then 0 else 1)" using t(3) by (simp add: r_def)
  have se: "senders c ?s' = ts" using s1(3) by (simp add: senders_def queue_of_def)
  have "msg v ?s' = msg v s" for v using s1(5) by (simp add: msg_def)
  then have "pending c ?s' = ds" using se ie t(3) by (simp add: pending_def buffered_def)
  moreover have "local_chan c ?s'" using f(2-4) t(1) by (simp add: local_chan_def)
  moreover have "\<exists>k\<in>hosted s. ThdNode t \<in> set (queue_of (RunQ k) ?s')" using s1(7) by (simp add: queue_of_def)
  moreover have "unblocked s ?s' (senders c s)"
    using s1(1,6,8-12) t(1) unfolding unblocked_def requeue_def by (auto simp: lwt_current_def)
  ultimately have "took c ch ds s ?s'" using rr se t(1) s1(4,6) by (auto simp: took_def)
  then show ?thesis using r by blast
qed

lemma rcv_effect:
  assumes i: "lwt_inv s" and l: "local_chan c s" and ch: "chans s c = Some ch" and ne: "pending c s = d # ds"
    and cur: "lwt_current s \<in> dom (thds s)" and sp: "tail (buffer ch) < int_max"
  shows "\<exists>s'. lwt_rcv c s = Inr (VPtr d, s') \<and> pending c s' = ds \<and> local_chan c s' \<and> senders c s' = tl (senders c s) \<and>
    (\<forall>t ts. senders c s = t # ts \<longrightarrow> map_option tstate (thds s' t) = Some LWT_RUNNABLE \<and>
       (\<exists>k\<in>hosted s. ThdNode t \<in> set (queue_of (RunQ k) s'))) \<and> unblocked s s' (senders c s) \<and>
    (\<exists>x. chans s' c = Some x \<and> receiver x = receiver ch \<and> cgroup x = cgroup ch \<and> chan_size x = chan_size ch \<and>
       ready x = (if ds = [] then 0 else 1) \<and> tail (buffer x) \<le> tail (buffer ch) + 1)"
proof (cases "ring_nonempty (buffer ch)")
  case True
  show ?thesis
  proof (cases "senders c s")
    case Nil
    show ?thesis using rcv_unblocked [OF i l ch ne Nil] unfolding took_def by blast
  next
    case (Cons t ts)
    show ?thesis using rcv_refills [OF i l ch ne cur sp True Cons] unfolding took_def by blast
  qed
next
  case False
  show ?thesis using rcv_direct [OF i l ch ne cur False] unfolding took_def by blast
qed

lemma rcv_blocks_effect:
  assumes cpu: "on_cpu s q" and l: "local_chan c s" and ch: "chans s c = Some ch" and e: "pending c s = []"
    and n: "remove1 (ThdNode (lwt_current s)) q = ThdNode u # ns" and x: "thds s (lwt_current s) = Some x"
  shows "\<exists>v s'. lwt_rcv c s = Inr (v, s') \<and> lwt_current s' = u \<and> chans s' = chans s \<and>
    list_foreach (RunQ (current_kthd s)) (lists s') = Some (ThdNode u # ns) \<and>
    (\<exists>x. thds s' (lwt_current s) = Some x \<and> tstate x = LWT_BLOCKED \<and> block_for x = BLOCKED_RECEIVING \<and> now_rcving x = c) \<and>
    frames s' (lwt_current s) = KRcv (lwt_current s) # frames s (lwt_current s) \<and> u \<noteq> lwt_current s \<and>
    requeue s s' (\<lambda>h. remove1 (ThdNode (lwt_current s)) (queue_of h s)) \<and>
    slept s s' u (x\<lparr>now_rcving := c, tstate := LWT_BLOCKED, block_for := BLOCKED_RECEIVING\<rparr>) (KRcv (lwt_current s) # frames s (lwt_current s))"
proof -
  let ?t = "lwt_current s" and ?k = "current_kthd s"
  have i: "lwt_inv s" using cpu by (simp add: on_cpu_def)
  obtain D where li: "linked D s" and i0: "inv_but True {} {} {} {} (heads s) D (\<lambda>h. queue_of h s) s" by (rule lwt_invE [OF i])
  have c: "c \<noteq> 0" and cH: "SendQ c \<in> heads s" using inv_chan [OF i ch] by auto
  have t0: "?t \<noteq> 0" by (rule live_nonnull(1) [OF i0 x])
  have ok: "chan_ty ch = LOCAL_CHAN" "ring_ok (chan_size ch) (buffer ch)" using l ch by (auto simp: local_chan_def)
  have em: "ring_items (chan_size ch) (buffer ch) = []" "senders c s = []" using e ch by (auto simp: pending_def buffered_def)
  have b1: "\<not> ring_nonempty (buffer ch)" using ring_items_empty [OF ok(2)] em(1) by simp
  have b2: "list_head_empty (SendQ c) (lists s)"
    using lq.empty_rep [OF li [unfolded linked_def] cH] inv_senders(1) [OF i ch] em(2) by simp
  have "distinct q" using lq.rep_distinct [OF li [unfolded linked_def] heads_current [OF i]] on_cpu_queue [OF cpu] by simp
  then have tu: "u \<noteq> ?t" using n by (metis list.set_intros(1) set_remove1_eq Diff_iff singletonI)
  let ?y = "x\<lparr>now_rcving := c\<rparr>"
  let ?s3 = "push (KRcv ?t) (s\<lparr>thds := (thds s)(?t \<mapsto> ?y)\<rparr>)"
  have same: "s\<lparr>chans := (chans s)(c \<mapsto> ch), thds := T\<rparr> = s\<lparr>thds := T\<rparr>" for T
    using ch by (cases s) (simp add: fun_upd_idem)
  have cpu3: "on_cpu ?s3 q" using on_cpu_prepared [OF cpu x ch refl, of ?y "KRcv ?t"] unfolding same by simp
  have e3: "lwt_current ?s3 = ?t" "current_kthd ?s3 = ?k" "lists ?s3 = lists s" "chans ?s3 = chans s"
    "thds ?s3 ?t = Some ?y" "heads ?s3 = heads s"
    by (auto simp: push_def lwt_current_def heads_def)
  have q3: "queue_of h ?s3 = queue_of h s" for h by (rule queue_of_lists [OF e3(3)])
  have "\<exists>v s' s1. block_thread (lwt_current ?s3) BLOCKED_RECEIVING c ?s3 = Inr (v, s') \<and>
    requeue ?s3 s' (parked (lwt_current ?s3) BLOCKED_RECEIVING c (\<lambda>h. queue_of h ?s3)) \<and> switched s1 s' u \<and>
    thds s1 = (thds ?s3)(lwt_current ?s3 \<mapsto> ?y\<lparr>tstate := LWT_BLOCKED, block_for := BLOCKED_RECEIVING\<rparr>) \<and>
    chans s1 = chans ?s3 \<and> grps s1 = grps ?s3 \<and> lwt_current s1 = lwt_current ?s3 \<and> current_kthd s1 = current_kthd ?s3 \<and>
    frames s1 = frames ?s3 \<and> mem s1 = mem ?s3"
    by (rule block_thread_effect [OF cpu3]) (use n e3(1,4,5) in auto)
  then obtain v s' s1 where r: "block_thread ?t BLOCKED_RECEIVING c ?s3 = Inr (v, s')"
    "requeue ?s3 s' (parked ?t BLOCKED_RECEIVING c (\<lambda>h. queue_of h s))" "switched s1 s' u"
    "thds s1 = (thds ?s3)(?t \<mapsto> ?y\<lparr>tstate := LWT_BLOCKED, block_for := BLOCKED_RECEIVING\<rparr>)" "chans s1 = chans ?s3"
    "frames s1 = frames ?s3" "lwt_current s1 = ?t" "current_kthd s1 = ?k" "grps s1 = grps ?s3" "mem s1 = mem ?s3"
    unfolding e3(1,2) q3 by blast
  have "lwt_rcv c s = Inr (v, s')"
    using c ch ok(1) b1 b2 t0 x r(1) by (simp add: lwt_rcv_def Let_def)
  moreover have "list_foreach (RunQ ?k) (lists s') = Some (ThdNode u # ns)"
    using r(2) e3(6) heads_current [OF i] n on_cpu_queue [OF cpu] by (simp add: requeue_def parked_def Let_def)
  moreover have "thds s' ?t = Some (saved (?y\<lparr>tstate := LWT_BLOCKED, block_for := BLOCKED_RECEIVING\<rparr>))"
    using r(3,4,7) tu by (simp add: switched_def dispatched_def)
  moreover have "frames s' ?t = KRcv ?t # frames s ?t"
    using r(3,6) tu by (simp add: switched_def push_def lwt_current_def)
  moreover have "lwt_current s' = u" "chans s' = chans s" using r(3,5) e3(4) by (simp_all add: switched_def)
  moreover have "requeue s s' (\<lambda>h. remove1 (ThdNode ?t) (queue_of h s))"
    using r(2) e3(6) by (simp add: requeue_def parked_def)
  moreover have "slept s s' u (?y\<lparr>tstate := LWT_BLOCKED, block_for := BLOCKED_RECEIVING\<rparr>) (KRcv ?t # frames s ?t)"
    by (rule switched_slept [OF r(3)]) (use r(4,6-10) in \<open>simp_all add: push_def lwt_current_def\<close>)
  ultimately show ?thesis using tu by simp
qed

end
