(* ===== verification/Lwt_Demo.thy ===== *)
theory Lwt_Demo
  imports Lwt_Reach Lwt_ChanProps
begin

text \<open>
  A sample run of the machine: boot, two threads and a channel. Its states, all of them
  reachable, are the concrete inputs at which the properties of the library are applied.
\<close>

lemma list_only: "distinct xs \<Longrightarrow> set xs = {x} \<Longrightarrow> xs = [x]"
  by (cases xs; cases "tl xs") auto

section \<open>Boot\<close>

text \<open>\<open>stage s q\<close>: a reachable state whose run queue \<open>q\<close> takes turns, with memory left.\<close>

definition stage :: "sys \<Rightarrow> lnode list \<Rightarrow> bool" where
  "stage s q \<longleftrightarrow> (\<exists>v. reachable (v, s)) \<and> in_turn s q \<and> supplied s \<and> frames s (lwt_current s) = [] \<and>
     list_foreach (current_recycle_queue s) (lists s) = Some []"

lemma stage_inv: "stage s q \<Longrightarrow> lwt_inv s"
  by (simp add: stage_def in_turn_def)

lemma stage_heads: "stage s q \<Longrightarrow> current_run_queue s \<in> heads s \<and> current_recycle_queue s \<in> heads s"
  using heads_current heads_recycle stage_inv by (simp add: current_run_queue_def current_recycle_queue_def)

text \<open>A kernel thread starts with all counters at 0.\<close>

lemma initiate_counts:
  assumes "initiate k s = Inr s'"
  shows "block_counter (kthds s' k) = 0" "zombie_counter (kthds s' k) = 0" "nrcving (kthds s' k) = 0" "nsnding (kthds s' k) = 0"
proof -
  have n: "kthds s2 = kthds s1" if "init_chan c z s1 = Inr s2" for c z s1 s2
    using that by (auto simp: init_chan_def run_simps malloc_eq_Inr)
  have l: "kthds s2 = kthds s1" if "lwt_chan z s1 = Inr (c, s2)" for c z s1 s2
    using that n by (fastforce simp: lwt_chan_def run_simps malloc_eq_Inr)
  have t: "kthds s2 = kthds s1" if "init_thread t j s1 = Inr s2" for t j s1 s2
    using that l by (fastforce simp: init_thread_def run_simps)
  show "block_counter (kthds s' k) = 0" "zombie_counter (kthds s' k) = 0" "nrcving (kthds s' k) = 0" "nsnding (kthds s' k) = 0"
    using assms t by (fastforce simp: initiate_def run_simps malloc_eq_Inr init_kthd_def)+
qed

lemma boot_stage:
  obtains s t where "stage s [ThdNode t]" "lwt_current s = t" "dom (thds s) = {t}" "hosted s \<subseteq> {0}" "main_thread (kthds s 0) = t"
    "\<forall>j. j \<noteq> 0 \<longrightarrow> current_thread (kthds s j) = 0 \<and> main_thread (kthds s j) = 0" "current_kthd s = 0"
    "block_counter (kthds s 0) = 0" "zombie_counter (kthds s 0) = 0" "nrcving (kthds s 0) = 0" "nsnding (kthds s 0) = 0"
proof -
  let ?b = "blank fresh_mem (\<lambda>_. demo_thread) (\<lambda>_. demo_channel) (\<lambda>_. 1)"
  have p: "uheap (mem ?b) {}" "supplied ?b" "0 < MAX_KTHD_NUM"
    using fresh_mem_uheap by (simp_all add: blank_def supplied_def fresh_mem_def MAX_KTHD_NUM_def)
  obtain t s0 where s0: "initiate 0 ?b = Inr s0" "t \<noteq> 0" "dom (thds s0) = insert t (dom (thds ?b))"
    "\<forall>j. j \<noteq> 0 \<longrightarrow> kthds s0 j = kthds ?b j" "main_thread (kthds s0 0) = t" "current_thread (kthds s0 0) = t" "frames s0 = frames ?b" "supplied s0"
    "map_option tstate (thds s0 t) = Some LWT_RUNNING" "map_option owner_kthd (thds s0 t) = Some 0"
    using initiate_ok [OF p] by blast
  let ?s = "s0\<lparr>current_kthd := 0\<rparr>"
  have r: "reachable (VVoid, ?s)"
    by (rule reachable.boot [OF fresh_mem_uheap _ s0(1)]) (simp add: demo_channel_def)
  have d: "dom (thds ?s) = {t}" using s0(3) by (simp add: blank_def)
  have c: "lwt_current ?s = t" "current_kthd ?s = 0" using s0(6) by (simp_all add: lwt_current_def)
  obtain x where x: "thds ?s t = Some x" "tstate x = LWT_RUNNING" "owner_kthd x = 0" using s0(9,10) by auto
  have i: "lwt_inv ?s" using reachable_inv [OF r] by simp
  obtain D where l: "linked D ?s" and i0: "inv_but True {} {} {} {} (heads ?s) D (\<lambda>h. queue_of h ?s) ?s"
    by (rule lwt_invE [OF i])
  note q = l [unfolded linked_def]
  have host: "hosted ?s \<subseteq> {0}" using s0(4) by (auto simp: hosted_def blank_def)
  have kH: "RunQ 0 \<in> heads ?s" "RecQ 0 \<in> heads ?s" using heads_current [OF i] heads_recycle [OF i] c(2) by simp_all
  have only: "n = ThdNode t" if "h \<in> {RunQ 0, RecQ 0}" "n \<in> set (queue_of h ?s)" for h n
  proof -
    have "node_ok (dom (thds ?s)) (group_of ?s) (dom (wraps ?s)) h n"
      using inv_butD(3) [OF i0] kH that unfolding nodes_ok_def by auto
    then show ?thesis using that(1) unfolding d by (auto simp: node_ok_def)
  qed
  have "located (heads ?s) D (\<lambda>h. queue_of h ?s) t (tstate x, block_for x)"
    using inv_butD(13) [OF i0] x(1) by simp
  then obtain h where h: "h \<in> heads ?s" "ThdNode t \<in> set (queue_of h ?s)" "home h (tstate x, block_for x)"
    using x(2) by (auto simp: located_def)
  have "h = RunQ 0" using h(1,3) x(2) host by (cases h) (auto simp: heads_def)
  then have tq: "ThdNode t \<in> set (queue_of (RunQ 0) ?s)" using h(2) by simp
  moreover have "distinct (queue_of (RunQ 0) ?s)" by (rule lq.rep_distinct [OF q kH(1)])
  ultimately have run: "queue_of (RunQ 0) ?s = [ThdNode t]"
    using only [of "RunQ 0"] by (intro list_only) blast+
  have "ThdNode t \<notin> set (queue_of (RecQ 0) ?s)" using queuesD(5) [OF q kH(2,1) _ tq] by blast
  then have rec: "queue_of (RecQ 0) ?s = []" using only [of "RecQ 0"] by (cases "queue_of (RecQ 0) ?s") auto
  have "in_turn ?s [ThdNode t]"
    using i run foreach_linked [OF l kH(1)] c x by (simp add: in_turn_def)
  moreover have "list_foreach (current_recycle_queue ?s) (lists ?s) = Some []"
    using rec foreach_linked [OF l kH(2)] by (simp add: current_recycle_queue_def)
  moreover have "frames ?s (lwt_current ?s) = []" using s0(7) by (simp add: blank_def)
  ultimately have "stage ?s [ThdNode t]" using r s0(8) by (auto simp: stage_def supplied_def)
  then show thesis using that c d host s0(4,5) initiate_counts [OF s0(1)] by (simp add: blank_def)
qed

lemma stage_boot:
  obtains s t where "stage s [ThdNode t]" "lwt_current s = t" "dom (thds s) = {t}" "hosted s \<subseteq> {0}" "main_thread (kthds s 0) = t"
    "\<forall>j. j \<noteq> 0 \<longrightarrow> current_thread (kthds s j) = 0"
proof (rule boot_stage)
  fix s t assume "stage s [ThdNode t]" "lwt_current s = t" "dom (thds s) = {t}" "hosted s \<subseteq> {0}" "main_thread (kthds s 0) = t"
    "\<forall>j. j \<noteq> 0 \<longrightarrow> current_thread (kthds s j) = 0 \<and> main_thread (kthds s j) = 0"
  then show thesis using that by blast
qed

section \<open>Threads and channels\<close>

text \<open>
  The facts that the theorems about creation state, as needed here: a stage stays a stage.
\<close>

lemma stage_create:
  assumes "stage s q"
  obtains t s' where "lwt_create fn d fl s = Inr (t, s')" "stage s' (q @ [ThdNode t])" "t \<notin> dom (thds s)"
    "created fn d fl s t s'" "lwt_current s' = lwt_current s" "\<forall>v. v \<noteq> t \<longrightarrow> thds s' v = thds s v"
    "frames s' = frames s"
proof -
  obtain v where r: "reachable (v, s)" using assms by (auto simp: stage_def)
  note i = stage_inv [OF assms] and hh = stage_heads [OF assms]
  have q: "list_foreach (current_run_queue s) (lists s) = Some q" "q \<noteq> []" "hd q = ThdNode (lwt_current s)"
    "\<forall>t. ThdNode t \<in> set q \<longrightarrow> map_option owner_kthd (thds s t) = Some (current_kthd s)"
    "list_foreach (current_recycle_queue s) (lists s) = Some []" "supplied s" "frames s (lwt_current s) = []"
    using assms by (simp_all add: stage_def in_turn_def current_run_queue_def)
  obtain t s' where s': "lwt_create fn d fl s = Inr (t, s')" "lwt_inv s'" "t \<notin> dom (thds s)" "created fn d fl s t s'"
    "list_foreach (current_run_queue s) (lists s') = Some (q @ [ThdNode t])" "lwt_current s' = lwt_current s"
    "current_kthd s' = current_kthd s" "supplied s'" "frames s' = frames s"
    "\<forall>h\<in>heads s - {current_run_queue s}. list_foreach h (lists s') = list_foreach h (lists s)"
    "\<forall>v. v \<noteq> t \<longrightarrow> thds s' v = thds s v"
    using create_fresh [OF i q(6,5,1)] by blast
  have "lwt_step (v, s) (VPtr t, s')"
    by (rule user_call [of s "Create fn d fl"]) (use q(7) s'(1) in \<open>simp_all add: ret_ptr_def\<close>)
  then have "reachable (VPtr t, s')" by (rule reachable.step [OF r])
  moreover have "map_option owner_kthd (thds s' t) = Some (current_kthd s)" using s'(4) by (auto simp: created_def)
  then have "in_turn s' (q @ [ThdNode t])"
    using s'(2,5-7,11) q(2-4) by (auto simp: in_turn_def current_run_queue_def)
  moreover have "list_foreach (current_recycle_queue s') (lists s') = Some []"
    using s'(7,10) q(5) hh by (simp add: current_recycle_queue_def current_run_queue_def)
  ultimately have "stage s' (q @ [ThdNode t])" using s'(6,8,9) q(7) by (auto simp: stage_def)
  then show thesis using that s' by blast
qed

lemma stage_chan:
  assumes "stage s q" "0 \<le> sz" "4 * sz + 16 \<le> 2 ^ 32" "sz \<le> int_max"
  obtains c ch s' where "lwt_chan sz s = Inr (c, s')" "stage s' q" "c \<notin> dom (chans s)" "chans s' c = Some ch"
    "new_channel ch sz (lwt_current s) (chan_counter s)" "cgroup ch = 0" "local_chan c s'" "pending c s' = []"
    "lwt_current s' = lwt_current s" "thds s' = thds s" "frames s' = frames s" "grps s' = grps s"
    "\<forall>e. e \<noteq> c \<longrightarrow> chans s' e = chans s e"
proof -
  obtain v where r: "reachable (v, s)" using assms(1) by (auto simp: stage_def)
  note i = stage_inv [OF assms(1)] and hh = stage_heads [OF assms(1)]
  have q: "supplied s" "in_turn s q" "frames s (lwt_current s) = []"
    "list_foreach (current_recycle_queue s) (lists s) = Some []" using assms(1) by (simp_all add: stage_def)
  obtain c s' ch where s': "lwt_chan sz s = Inr (c, s')" "lwt_inv s'" "c \<notin> dom (chans s)" "chans s' c = Some ch"
    "new_channel ch sz (lwt_current s) (chan_counter s)" "local_chan c s'" "pending c s' = []" "cgroup ch = 0" "supplied s'"
    "lwt_current s' = lwt_current s" "current_kthd s' = current_kthd s" "frames s' = frames s" "grps s' = grps s"
    "\<forall>h\<in>heads s. list_foreach h (lists s') = list_foreach h (lists s)" "thds s' = thds s"
    "\<forall>e. e \<noteq> c \<longrightarrow> chans s' e = chans s e"
    using chan_fresh [OF i q(1) assms(2-4)] by blast
  have "lwt_step (v, s) (VPtr c, s')"
    by (rule user_call [of s "NewChan sz"]) (use q(3) s'(1) assms(2,3) in \<open>simp_all add: ret_ptr_def\<close>)
  then have "reachable (VPtr c, s')" by (rule reachable.step [OF r])
  moreover have "in_turn s' q" using q(2) s'(2,10,11,14,15) hh by (simp add: in_turn_def current_run_queue_def)
  moreover have "list_foreach (current_recycle_queue s') (lists s') = Some []"
    using q(4) s'(11,14) hh by (simp add: current_recycle_queue_def)
  ultimately have "stage s' q" using q(3) s'(9,10,12) by (auto simp: stage_def)
  then show thesis using that s' by blast
qed

end
