(* ===== verification/Lwt_Contract.thy ===== *)
theory Lwt_Contract
  imports Lwt_Demo
begin

text \<open>
  The contract of the scheduler and of local channels, as properties of the calls a client
  makes, each applied in a reachable state of the sample run.
\<close>

section \<open>Yielding\<close>

text \<open>
  C9 Round robin: when the threads of the run queue take turns, repeated
  \<^verbatim>\<open>lwt_yield(NULL)\<close> brings every one of them to the CPU after fewer yields than the queue
  is long, without a fault and with the queue rotated.
\<close>

theorem yield_takes_turns:
  assumes "in_turn s q" "ThdNode t \<in> set q"
  shows "\<exists>n s'. n < length q \<and> yields n s = Inr s' \<and> lwt_current s' = t \<and> in_turn s' (rotate n q)"
proof -
  obtain n where n: "n < length q" "q ! n = ThdNode t" using assms(2) by (auto simp: in_set_conv_nth)
  obtain s' where s': "yields n s = Inr s'" "in_turn s' (rotate n q)" using yields_in_turn [OF assms(1)] by blast
  have "hd (rotate n q) = ThdNode t" using n by (subst hd_rotate_conv_nth) auto
  then have "lwt_current s' = t" using s'(2) by (simp add: in_turn_def)
  then show ?thesis using n(1) s' by blast
qed

text \<open>
  C35 Directed yield: the target is put just before the last thread of the run queue. It
  runs next when the two threads are alone; but when the caller heads a queue of three or
  more, the caller itself is scheduled again. Either way the invariant is kept and no
  other queue changes.
\<close>

theorem directed_yield:
  assumes "on_cpu s q" "y \<noteq> lwt_current s" "ThdNode y \<in> set q"
  shows "\<exists>v s'. lwt_yield y s = Inr (v, s') \<and> lwt_inv s' \<and>
    list_foreach (RunQ (current_kthd s)) (lists s') = Some (insert_before_last (ThdNode y) (remove1 (ThdNode y) q)) \<and>
    (\<forall>h\<in>heads s - {RunQ (current_kthd s)}. list_foreach h (lists s') = list_foreach h (lists s)) \<and>
    (length q = 2 \<longrightarrow> lwt_current s' = y) \<and>
    (3 \<le> length q \<and> hd q = ThdNode (lwt_current s) \<longrightarrow> lwt_current s' = lwt_current s)"
proof -
  let ?k = "current_kthd s" and ?q = "remove1 (ThdNode y) q"
  have i: "lwt_inv s" using assms(1) by (simp add: on_cpu_def)
  obtain D where l: "linked D s" by (rule lwt_invE [OF i])
  obtain v s' u where s': "lwt_yield y s = Inr (v, s')"
    "requeue s s' ((\<lambda>h. queue_of h s)(RunQ ?k := insert_before_last (ThdNode y) ?q))"
    "hd (insert_before_last (ThdNode y) ?q) = ThdNode u" "switched s s' u"
    using yield_to_effect [OF assms] by blast
  have "lwt_inv s'" using lwt_yield_keeps [OF s'(1)] i by (simp add: lwt_inv_def)
  moreover have "\<forall>h\<in>heads s - {RunQ ?k}. list_foreach h (lists s') = list_foreach h (lists s)"
    using s'(2) foreach_linked [OF l] by (simp add: requeue_def)
  moreover have len: "length ?q = length q - 1" using assms(3) by (simp add: length_remove1)
  have "u = y" if "length q = 2"
  proof -
    have "length ?q = Suc 0" using that len by simp
    then obtain z where "?q = [z]" by (auto simp: length_Suc_conv)
    then show ?thesis using s'(3) by simp
  qed
  moreover have "u = lwt_current s" if "3 \<le> length q" "hd q = ThdNode (lwt_current s)"
  proof -
    have "Suc (Suc (Suc 0)) \<le> length q" using that(1) by simp
    then obtain a b c zs where q: "q = a # b # c # zs" by (metis Suc_le_length_iff)
    then have "a = ThdNode (lwt_current s)" "a \<noteq> ThdNode y" using that(2) assms(2) by auto
    moreover obtain d ds where "remove1 (ThdNode y) (b # c # zs) = d # ds" by (cases "b = ThdNode y") auto
    ultimately have "remove1 (ThdNode y) q = a # d # ds" using q by simp
    then show ?thesis using s'(3) \<open>a = ThdNode (lwt_current s)\<close> by simp
  qed
  moreover have "lwt_current s' = u" using s'(4) by (simp add: switched_def)
  ultimately show ?thesis using s'(1,2) heads_current [OF i] by (intro exI [of _ v] exI [of _ s']) (simp add: requeue_def)
qed

section \<open>Sample states\<close>

lemma stage_on_cpu: "stage s q \<Longrightarrow> on_cpu s q"
  unfolding stage_def by (blast intro: in_turn_on_cpu)

lemma stage_two:
  obtains s a b where "stage s [ThdNode a, ThdNode b]" "lwt_current s = a" "a \<noteq> b" "dom (thds s) = {a, b}"
proof -
  obtain s0 a where s0: "stage s0 [ThdNode a]" "lwt_current s0 = a" "dom (thds s0) = {a}" by (rule stage_boot)
  obtain b s where s: "lwt_create 1 2 0 s0 = Inr (b, s)" "stage s ([ThdNode a] @ [ThdNode b])" "b \<notin> dom (thds s0)"
    "created 1 2 0 s0 b s" "lwt_current s = lwt_current s0" "\<forall>v. v \<noteq> b \<longrightarrow> thds s v = thds s0 v"
    by (rule stage_create [OF s0(1), of 1 2 0]) blast
  have "b \<in> dom (thds s)" using s(4) by (auto simp: created_def)
  then have "v \<in> dom (thds s) \<longleftrightarrow> v = b \<or> v \<in> dom (thds s0)" for v using s(6) by (cases "v = b") (simp_all add: domIff)
  then have "dom (thds s) = {a, b}" using s0(3) by blast
  then show thesis using that s s0 by auto
qed

lemma stage_three:
  obtains s a b c where "stage s [ThdNode a, ThdNode b, ThdNode c]" "lwt_current s = a" "a \<noteq> b" "a \<noteq> c" "b \<noteq> c"
proof -
  obtain s0 a b where s0: "stage s0 [ThdNode a, ThdNode b]" "lwt_current s0 = a" "a \<noteq> b" "dom (thds s0) = {a, b}"
    by (rule stage_two)
  obtain c s where s: "stage s ([ThdNode a, ThdNode b] @ [ThdNode c])" "c \<notin> dom (thds s0)" "lwt_current s = lwt_current s0"
    by (rule stage_create [OF s0(1), of 1 2 0]) blast
  then show thesis using that s0 by auto
qed

lemma stage_live:
  assumes "stage s q"
  obtains x where "lwt_current s \<noteq> 0" "thds s (lwt_current s) = Some x" "may_run x" "owner_kthd x = current_kthd s"
    "RunQ (current_kthd s) \<in> heads s" "queue_of (RunQ (current_kthd s)) s = q"
proof -
  note c = stage_on_cpu [OF assms]
  have i: "lwt_inv s" by (rule stage_inv [OF assms])
  obtain D where i0: "inv_but True {} {} {} {} (heads s) D (\<lambda>h. queue_of h s) s" by (rule lwt_invE [OF i])
  have "ThdNode (lwt_current s) \<in> set (queue_of (RunQ (current_kthd s)) s)" using c on_cpu_queue [OF c] by (simp add: on_cpu_def)
  then obtain t x where "ThdNode (lwt_current s) = ThdNode t" "t \<noteq> 0" "thds s t = Some x" "may_run x"
    by (rule run_queue_threads [OF i0 heads_current [OF i]])
  then show thesis using that c heads_current [OF i] on_cpu_queue [OF c] by (simp add: on_cpu_def)
qed

text \<open>A stage with two threads, and a channel of a given size that the current one receives from.\<close>

lemma stage_with_chan:
  assumes "0 \<le> sz" "4 * sz + 16 \<le> 2 ^ 32" "sz \<le> int_max"
  obtains s a b c ch where "stage s [ThdNode a, ThdNode b]" "lwt_current s = a" "a \<noteq> b" "chans s c = Some ch" "local_chan c s"
    "pending c s = []" "new_channel ch sz a (chan_id ch)" "cgroup ch = 0" "receiver_busy c s"
proof -
  obtain s0 a b where s0: "stage s0 [ThdNode a, ThdNode b]" "lwt_current s0 = a" "a \<noteq> b" by (rule stage_two)
  obtain c ch s where s: "stage s [ThdNode a, ThdNode b]" "chans s c = Some ch" "new_channel ch sz a (chan_counter s0)"
    "cgroup ch = 0" "local_chan c s" "pending c s = []" "lwt_current s = a"
    by (rule stage_chan [OF s0(1) assms]) (use s0(2) in metis)
  obtain x where x: "a \<noteq> 0" "thds s a = Some x" "may_run x" by (rule stage_live [OF s(1)]) (use s(7) in metis)
  have "receiver_busy c s"
    using s(2-4) x by (auto simp: receiver_busy_def new_channel_def group_idle_def receiver_waits_def may_run_def)
  moreover have "new_channel ch sz a (chan_id ch)" using s(3) by (simp add: new_channel_def)
  ultimately show thesis using that s s0(3) by blast
qed

theorem yield_takes_turns_witness:
  "\<exists>s a b c n s'. in_turn s [ThdNode a, ThdNode b, ThdNode c] \<and> c \<noteq> a \<and> n < 3 \<and> yields n s = Inr s' \<and> lwt_current s' = c"
proof (rule stage_three)
  fix s a b c assume s: "stage s [ThdNode a, ThdNode b, ThdNode c]" "a \<noteq> c"
  then have t: "in_turn s [ThdNode a, ThdNode b, ThdNode c]" by (simp add: stage_def)
  have c: "ThdNode c \<in> set [ThdNode a, ThdNode b, ThdNode c]" by simp
  obtain n s' where "n < length [ThdNode a, ThdNode b, ThdNode c]" "yields n s = Inr s'" "lwt_current s' = c"
    using yield_takes_turns [OF t c] by blast
  moreover have "length [ThdNode a, ThdNode b, ThdNode c] = 3" by simp
  ultimately show ?thesis using t s(2) by metis
qed

theorem directed_yield_witness:
  "\<exists>s a b c v s'. on_cpu s [ThdNode a, ThdNode b, ThdNode c] \<and> lwt_current s = a \<and> a \<noteq> b \<and>
     lwt_yield b s = Inr (v, s') \<and> lwt_current s' = a \<and>
     list_foreach (RunQ (current_kthd s)) (lists s') = Some [ThdNode a, ThdNode b, ThdNode c]"
proof (rule stage_three)
  fix s a b c assume s: "stage s [ThdNode a, ThdNode b, ThdNode c]" "lwt_current s = a" "a \<noteq> b" "b \<noteq> c"
  note o = stage_on_cpu [OF s(1)]
  have "b \<noteq> lwt_current s" "ThdNode b \<in> set [ThdNode a, ThdNode b, ThdNode c]" using s by auto
  from directed_yield [OF o this] obtain v s' where d: "lwt_yield b s = Inr (v, s')"
    "list_foreach (RunQ (current_kthd s)) (lists s') =
       Some (insert_before_last (ThdNode b) (remove1 (ThdNode b) [ThdNode a, ThdNode b, ThdNode c]))"
    "3 \<le> length [ThdNode a, ThdNode b, ThdNode c] \<and> hd [ThdNode a, ThdNode b, ThdNode c] = ThdNode (lwt_current s) \<longrightarrow>
       lwt_current s' = lwt_current s"
    by blast
  have "lwt_current s' = a" using d(3) s(2) by simp
  moreover have "insert_before_last (ThdNode b) (remove1 (ThdNode b) [ThdNode a, ThdNode b, ThdNode c]) =
      [ThdNode a, ThdNode b, ThdNode c]" using s(3) by simp
  ultimately show ?thesis using o s(2,3) d(1,2) by metis
qed

section \<open>Sending and receiving on a local channel\<close>

text \<open>
  Sending with room in the buffer, to a receiver that is not waiting: the call returns 0
  at once, the word is the last one pending on the channel, and no thread, queue, kernel
  thread or other channel changes.
\<close>

theorem snd_buffers:
  assumes "lwt_inv s" "local_chan c s" "receiver_busy c s" "chans s c = Some ch"
    "ring_not_full (chan_size ch) (buffer ch)" "tail (buffer ch) < int_max"
  shows "\<exists>s'. lwt_snd c d s = Inr (VInt 0, s') \<and> pending c s' = pending c s @ [d] \<and> local_chan c s' \<and>
    lists s' = lists s \<and> thds s' = thds s \<and> kthds s' = kthds s \<and> (\<forall>e. e \<noteq> c \<longrightarrow> chans s' e = chans s e)"
  using snd_room_effect [OF assms] by blast

text \<open>
  C22 Sending on a full channel whose receiver waits neither in \<^verbatim>\<open>lwt_rcv\<close> on this channel nor on its
  group (\<open>receiver_busy\<close>; a waiting receiver is handed the word instead, also by a channel
  without slots, whose ring is always full): the sender leaves the run queue, is blocked in its send at
  the end of the sender queue with the word, which is thereby the last one pending, and
  the next thread of the run queue runs.
\<close>

theorem snd_blocks:
  assumes "on_cpu s q" "local_chan c s" "receiver_busy c s" "chans s c = Some ch"
    "\<not> ring_not_full (chan_size ch) (buffer ch)" "remove1 (ThdNode (lwt_current s)) q = ThdNode u # ns"
  shows "\<exists>v s'. lwt_snd c d s = Inr (v, s') \<and> pending c s' = pending c s @ [d] \<and> local_chan c s' \<and>
    senders c s' = senders c s @ [lwt_current s] \<and> lwt_current s' = u \<and>
    list_foreach (RunQ (current_kthd s)) (lists s') = Some (ThdNode u # ns) \<and>
    map_option tstate (thds s' (lwt_current s)) = Some LWT_BLOCKED \<and>
    map_option block_for (thds s' (lwt_current s)) = Some BLOCKED_SENDING \<and>
    frames s' (lwt_current s) = KSnd # frames s (lwt_current s)"
proof -
  obtain x where "thds s (lwt_current s) = Some x" using assms(1) by (auto simp: on_cpu_def)
  from snd_full_effect [OF assms this] show ?thesis by blast
qed

text \<open>
  C23 Sending to a waiting receiver: the call returns 0 and the sender keeps running; the
  receiver is runnable again, before the last thread of the run queue, and the
  \<^verbatim>\<open>lwt_rcv\<close> it is suspended in returns exactly the word sent. No other thread changes.
\<close>

theorem snd_hands_over:
  assumes "lwt_inv s" "chans s c = Some ch" "chan_ty ch = LOCAL_CHAN" "thds s (receiver ch) = Some r"
    "receiver_waits ch c r" "thds s (lwt_current s) = Some y"
  shows "\<exists>s'. lwt_snd c d s = Inr (VInt 0, s') \<and> lwt_current s' = lwt_current s \<and> chans s' = chans s \<and>
    map_option tstate (thds s' (receiver ch)) = Some LWT_RUNNABLE \<and>
    list_foreach (RunQ (owner_kthd y)) (lists s') =
      Some (insert_before_last (ThdNode (receiver ch)) (queue_of (RunQ (owner_kthd y)) s)) \<and>
    rcv_rest (receiver ch) s' = Inr (VPtr d, s') \<and> (\<forall>v. v \<noteq> receiver ch \<longrightarrow> thds s' v = thds s v)"
proof -
  obtain s' where s': "lwt_snd c d s = Inr (VInt 0, s')" "chans s' = chans s" "msg (receiver ch) s' = d"
    "map_option tstate (thds s' (receiver ch)) = Some LWT_RUNNABLE" "lwt_current s' = lwt_current s"
    "list_foreach (RunQ (owner_kthd y)) (lists s') =
       Some (insert_before_last (ThdNode (receiver ch)) (queue_of (RunQ (owner_kthd y)) s))"
    "\<forall>v. v \<noteq> receiver ch \<longrightarrow> thds s' v = thds s v"
    using snd_direct_effect [OF assms(1-6)] by blast
  have "receiver ch \<noteq> 0" using assms(1,4) by (auto elim!: lwt_invE dest: live_nonnull(1))
  then have "rcv_rest (receiver ch) s' = Inr (VPtr d, s')" using s'(3,4) by (auto simp: rcv_rest_def msg_def)
  then show ?thesis using s' by blast
qed

text \<open>
  C21 Receiving is first-in first-out: when words are pending, whether buffered or carried by
  blocked senders, \<^verbatim>\<open>lwt_rcv\<close> returns the oldest, exactly the others stay pending, and the
  first blocked sender, if any, leaves the sender queue and is runnable in a run queue.
\<close>

theorem rcv_takes_oldest:
  assumes "lwt_inv s" "local_chan c s" "chans s c = Some ch" "pending c s = d # ds"
    "lwt_current s \<in> dom (thds s)" "tail (buffer ch) < int_max"
  shows "\<exists>s'. lwt_rcv c s = Inr (VPtr d, s') \<and> pending c s' = ds \<and> local_chan c s' \<and> senders c s' = tl (senders c s) \<and>
    (\<forall>t ts. senders c s = t # ts \<longrightarrow> map_option tstate (thds s' t) = Some LWT_RUNNABLE \<and>
       (\<exists>k\<in>hosted s. ThdNode t \<in> set (queue_of (RunQ k) s'))) \<and>
    map_option ready (chans s' c) = Some (if ds = [] then 0 else 1)"
proof -
  from rcv_effect [OF assms] obtain s' where s': "lwt_rcv c s = Inr (VPtr d, s')" "pending c s' = ds" "local_chan c s'"
    "senders c s' = tl (senders c s)" "\<forall>t ts. senders c s = t # ts \<longrightarrow> map_option tstate (thds s' t) = Some LWT_RUNNABLE \<and>
       (\<exists>k\<in>hosted s. ThdNode t \<in> set (queue_of (RunQ k) s'))"
    "\<exists>x. chans s' c = Some x \<and> ready x = (if ds = [] then 0 else 1)" by blast
  from s'(6) have "map_option ready (chans s' c) = Some (if ds = [] then 0 else 1)" by (elim exE conjE) (simp only: option.map)
  then show ?thesis using s'(1-5) by blast
qed

text \<open>
  C24 Receiving with nothing pending: the receiver leaves the run queue and waits for this
  channel, suspended in \<^verbatim>\<open>lwt_rcv\<close>; the next thread of the run queue runs.
\<close>

theorem rcv_blocks:
  assumes "on_cpu s q" "local_chan c s" "chans s c = Some ch" "pending c s = []"
    "remove1 (ThdNode (lwt_current s)) q = ThdNode u # ns"
  shows "\<exists>v s'. lwt_rcv c s = Inr (v, s') \<and> lwt_current s' = u \<and> chans s' = chans s \<and>
    list_foreach (RunQ (current_kthd s)) (lists s') = Some (ThdNode u # ns) \<and>
    (\<exists>x. thds s' (lwt_current s) = Some x \<and> tstate x = LWT_BLOCKED \<and> block_for x = BLOCKED_RECEIVING \<and> now_rcving x = c) \<and>
    frames s' (lwt_current s) = KRcv (lwt_current s) # frames s (lwt_current s)"
proof -
  obtain x where "thds s (lwt_current s) = Some x" using assms(1) by (auto simp: on_cpu_def)
  from rcv_blocks_effect [OF assms this] show ?thesis by blast
qed

section \<open>The same in the sample run\<close>

lemma new_channel_ring:
  assumes "new_channel ch sz r i"
  shows "ring_not_full (chan_size ch) (buffer ch) \<longleftrightarrow> sz \<noteq> 0" "tail (buffer ch) < int_max" "receiver ch = r"
    "chan_ty ch = LOCAL_CHAN"
  using assms by (auto simp: new_channel_def ring_not_full_def int_max_def)

lemma small_size: "0 \<le> sz \<Longrightarrow> sz \<le> 100 \<Longrightarrow> 4 * sz + 16 \<le> (2::int) ^ 32 \<and> sz \<le> int_max"
  by (simp add: int_max_def)

theorem snd_buffers_witness:
  "\<exists>s c s'. pending c s = [] \<and> lwt_snd c 7 s = Inr (VInt 0, s') \<and> pending c s' = [7]"
proof (rule stage_with_chan [of 2])
  fix s a b c ch assume s: "stage s [ThdNode a, ThdNode b]" "chans s c = Some ch" "local_chan c s" "pending c s = []"
    "new_channel ch 2 a (chan_id ch)" "receiver_busy c s"
  have r: "ring_not_full (chan_size ch) (buffer ch)" "tail (buffer ch) < int_max" using new_channel_ring [OF s(5)] by simp_all
  obtain s' where "lwt_snd c 7 s = Inr (VInt 0, s')" "pending c s' = pending c s @ [7]"
    using snd_buffers [OF stage_inv [OF s(1)] s(3,6,2) r, of 7] by blast
  then show ?thesis using s(4) by auto
qed (simp_all add: int_max_def)

theorem snd_blocks_witness:
  "\<exists>s c v s' a b. lwt_current s = a \<and> a \<noteq> b \<and> lwt_snd c 7 s = Inr (v, s') \<and> pending c s' = [7] \<and> senders c s' = [a] \<and>
     lwt_current s' = b"
proof (rule stage_with_chan [of 0])
  fix s a b c ch assume s: "stage s [ThdNode a, ThdNode b]" "chans s c = Some ch" "local_chan c s" "pending c s = []"
    "new_channel ch 0 a (chan_id ch)" "receiver_busy c s" "lwt_current s = a" "a \<noteq> b"
  have r: "\<not> ring_not_full (chan_size ch) (buffer ch)" using new_channel_ring [OF s(5)] by simp
  have n: "remove1 (ThdNode (lwt_current s)) [ThdNode a, ThdNode b] = ThdNode b # []" using s(7) by simp
  have e: "senders c s = []" using s(4) by (simp add: pending_def)
  obtain v s' where "lwt_snd c 7 s = Inr (v, s')" "pending c s' = pending c s @ [7]" "senders c s' = senders c s @ [lwt_current s]"
    "lwt_current s' = b"
    using snd_blocks [OF stage_on_cpu [OF s(1)] s(3,6,2) r n, of 7] by blast
  then show ?thesis using s(4,7,8) e by auto
qed (simp_all add: int_max_def)

theorem rcv_blocks_witness:
  "\<exists>s c v s' a b. lwt_current s = a \<and> a \<noteq> b \<and> lwt_rcv c s = Inr (v, s') \<and> lwt_current s' = b \<and>
     frames s' a = [KRcv a]"
proof (rule stage_with_chan [of 2])
  fix s a b c ch assume s: "stage s [ThdNode a, ThdNode b]" "chans s c = Some ch" "local_chan c s" "pending c s = []"
    "lwt_current s = a" "a \<noteq> b"
  have n: "remove1 (ThdNode (lwt_current s)) [ThdNode a, ThdNode b] = ThdNode b # []" using s(5) by simp
  have f: "frames s (lwt_current s) = []" using s(1) by (simp add: stage_def)
  obtain v s' where "lwt_rcv c s = Inr (v, s')" "lwt_current s' = b" "frames s' (lwt_current s) = KRcv (lwt_current s) # frames s (lwt_current s)"
    using rcv_blocks [OF stage_on_cpu [OF s(1)] s(3,2,4) n] by blast
  moreover have "frames s' a = [KRcv a]" using calculation(3) f s(5) by simp
  ultimately show ?thesis using s(5,6) by metis
qed (simp_all add: int_max_def)

theorem rcv_takes_oldest_witness:
  "\<exists>s c s' s''. pending c s = [] \<and> lwt_snd c 7 s = Inr (VInt 0, s') \<and> lwt_rcv c s' = Inr (VPtr 7, s'') \<and> pending c s'' = []"
proof (rule stage_with_chan [of 2])
  fix s a b c ch assume s: "stage s [ThdNode a, ThdNode b]" "chans s c = Some ch" "local_chan c s" "pending c s = []"
    "new_channel ch 2 a (chan_id ch)" "receiver_busy c s" "lwt_current s = a"
  note i = stage_inv [OF s(1)]
  have r: "ring_not_full (chan_size ch) (buffer ch)" "tail (buffer ch) < int_max" using new_channel_ring [OF s(5)] by simp_all
  obtain s' where s': "lwt_snd c 7 s = Inr (VInt 0, s')" "pending c s' = pending c s @ [7]" "local_chan c s'" "thds s' = thds s"
    "kthds s' = kthds s" "current_kthd s' = current_kthd s"
    "map_option (\<lambda>x. (tail (buffer x), receiver x, cgroup x, ready x, chan_size x)) (chans s' c) =
      Some (tail (buffer ch) + 1, receiver ch, cgroup ch, 1, chan_size ch)"
    using snd_room_effect [OF i s(3,6,2) r, of 7] by blast
  have i': "lwt_inv s'" using lwt_snd_keeps [OF s'(1)] i by (simp add: lwt_inv_def)
  obtain ch' where ch': "chans s' c = Some ch'" "tail (buffer ch') = 1"
    using s'(7) s(5) by (auto simp: new_channel_def)
  have c: "lwt_current s' \<in> dom (thds s')"
    by (rule stage_live [OF s(1)]) (use s'(4-6) in \<open>auto simp: lwt_current_def\<close>)
  have "pending c s' = 7 # []" "tail (buffer ch') < int_max" using s'(2) s(4) ch'(2) by (simp_all add: int_max_def)
  then obtain s'' where "lwt_rcv c s' = Inr (VPtr 7, s'')" "pending c s'' = []"
    using rcv_takes_oldest [OF i' s'(3) ch'(1) _ c] by blast
  then show ?thesis using s(4) s'(1) by blast
qed (simp_all add: int_max_def)

end
