(* ===== verification/Lwt_Rendezvous.thy ===== *)
theory Lwt_Rendezvous
  imports Lwt_Contract
begin

text \<open>
  Two threads together: what the calls of one do when the other is suspended in a call of
  its own. The first is the exchange of a word over a channel, the second the life of a
  child thread from its last word to the return of the join and its own recycling.
\<close>

section \<open>Two threads taking turns\<close>

lemma in_turn_facts:
  assumes "in_turn s q"
  shows "lwt_inv s" "distinct q" "RunQ (current_kthd s) \<in> heads s" "queue_of (RunQ (current_kthd s)) s = q"
    "ThdNode t \<in> set q \<Longrightarrow> \<exists>x. t \<noteq> 0 \<and> thds s t = Some x \<and> owner_kthd x = current_kthd s"
proof -
  show i: "lwt_inv s" using assms by (simp add: in_turn_def)
  obtain D where l: "linked D s" and i0: "inv_but True {} {} {} {} (heads s) D (\<lambda>h. queue_of h s) s" by (rule lwt_invE [OF i])
  show kH: "RunQ (current_kthd s) \<in> heads s" by (rule heads_current [OF i])
  show q: "queue_of (RunQ (current_kthd s)) s = q" by (rule on_cpu_queue [OF in_turn_on_cpu [OF assms]])
  show "distinct q" using lq.rep_distinct [OF l [unfolded linked_def] kH] q by simp
  show "\<exists>x. t \<noteq> 0 \<and> thds s t = Some x \<and> owner_kthd x = current_kthd s" if tq: "ThdNode t \<in> set q"
  proof -
    obtain x where "thds s t = Some x" "owner_kthd x = current_kthd s" using assms tq by (auto simp: in_turn_def)
    then show ?thesis using live_nonnull(1) [OF i0] by blast
  qed
qed

lemma continue_top: "frames s (lwt_current s) = k # ks \<Longrightarrow> continue v s = resume k v (pop s)"
  by (simp add: continue_def)

lemma pop_simps [simp]:
  "lwt_current (pop s) = lwt_current s" "thds (pop s) = thds s" "chans (pop s) = chans s" "lists (pop s) = lists s"
  "current_kthd (pop s) = current_kthd s" "kthds (pop s) = kthds s" "grps (pop s) = grps s"
  "frames (pop s) (lwt_current s) = tl (frames s (lwt_current s))"
  "w \<noteq> lwt_current s \<Longrightarrow> frames (pop s) w = frames s w"
  by (simp_all add: pop_def lwt_current_def)

text \<open>The second thread has woken the first and yields: the first runs, everything else as it was.\<close>

lemma yield_back:
  assumes c: "on_cpu s [ThdNode a, ThdNode b]" and b: "lwt_current s = b" "a \<noteq> b"
    and x: "thds s a = Some x" "ip (ctx x) = RetDispatch" "owner_kthd x = current_kthd s"
  obtains v s' where "lwt_yield 0 s = Inr (v, s')" "lwt_current s' = a" "current_kthd s' = current_kthd s"
    "on_cpu s' [ThdNode a, ThdNode b]" "frames s' = frames s" "chans s' = chans s" "grps s' = grps s" "heads s' = heads s"
    "\<forall>h\<in>heads s. list_foreach h (lists s') = Some (queue_of h s)" "thds s' a = Some (x\<lparr>tstate := LWT_RUNNING\<rparr>)"
    "thds s' b = map_option saved (thds s b)" "mem s' = mem s"
proof -
  obtain v s' u where s': "lwt_yield 0 s = Inr (v, s')"
    "requeue s s' ((\<lambda>h. queue_of h s)(RunQ (current_kthd s) :=
       remove1 (ThdNode (lwt_current s)) [ThdNode a, ThdNode b] @ [ThdNode (lwt_current s)]))"
    "hd (remove1 (ThdNode (lwt_current s)) [ThdNode a, ThdNode b] @ [ThdNode (lwt_current s)]) = ThdNode u" "switched s s' u"
    using yield_null_effect [OF c] by blast
  have u: "u = a" using s'(3) b by simp
  have i: "lwt_inv s" using c by (simp add: on_cpu_def)
  then have i': "lwt_inv s'" using lwt_yield_keeps [OF s'(1)] by (simp add: lwt_inv_def)
  have q: "\<forall>h\<in>heads s. list_foreach h (lists s') = Some (queue_of h s)"
    using s'(2) on_cpu_queue [OF c] b by (simp add: requeue_def)
  have th: "thds s' a = Some (x\<lparr>tstate := LWT_RUNNING\<rparr>)" using s'(4) u x(1) b by (simp add: switched_def dispatched_def)
  have "waits_in_dispatch s u" using x u by (simp add: waits_in_dispatch_def)
  then have e: "lwt_current s' = a" "current_kthd s' = current_kthd s" "frames s' = frames s" "chans s' = chans s" "grps s' = grps s"
    "mem s' = mem s" "thds s' b = map_option saved (thds s b)"
    using s'(4) u b by (simp_all add: switched_def dispatched_def option.map_id0)
  have "on_cpu s' [ThdNode a, ThdNode b]"
    using i' q heads_current [OF i] on_cpu_queue [OF c] th x(3) e(1,2) by (simp add: on_cpu_def)
  then show thesis using that s'(1) e q th s'(2) by (simp add: requeue_def)
qed

section \<open>Exchange of a word\<close>

text \<open>The first thread is taken out of the only queue it is in, is put back and runs again.\<close>

lemma requeued_twice:
  assumes t: "in_turn s [ThdNode a, ThdNode b]" and h: "h \<in> heads s"
    and s1: "requeue s s1 (\<lambda>h. remove1 (ThdNode a) (queue_of h s))"
    and s2: "requeue s1 s2 (woken a (current_kthd s) (\<lambda>h. queue_of h s1))"
  shows "list_foreach h (lists s2) = Some (queue_of h s)"
proof -
  let ?k = "current_kthd s"
  note f = in_turn_facts [OF t]
  obtain D where l: "linked D s" by (rule lwt_invE [OF f(1)])
  have q1: "queue_of g s1 = remove1 (ThdNode a) (queue_of g s)" if "g \<in> heads s" for g
    using s1 that by (simp add: requeue_def queue_of_def)
  have q2: "list_foreach h (lists s2) = Some (woken a ?k (\<lambda>h. queue_of h s1) h)" using s1 s2 h by (simp add: requeue_def)
  show ?thesis
  proof (cases "h = RunQ ?k")
    case True
    then show ?thesis using q2 q1 [OF f(3)] f(2,4) by (simp add: woken_def)
  next
    case False
    have "ThdNode a \<notin> set (queue_of h s)"
      using queuesD(5) [OF l [unfolded linked_def] h f(3)] f(4) False by auto
    then show ?thesis using q2 q1 [OF h] False by (simp add: woken_def remove1_idem)
  qed
qed

lemma rendezvous_effect:
  assumes t: "in_turn s [ThdNode a, ThdNode b]" and l: "local_chan c s" and ch: "chans s c = Some ch"
    and r: "receiver ch = a" and e: "pending c s = []"
  shows "\<exists>v1 s1 s2 v3 s3. lwt_rcv c s = Inr (v1, s1) \<and> lwt_current s1 = b \<and>
    lwt_snd c d s1 = Inr (VInt 0, s2) \<and> lwt_current s2 = b \<and> lwt_yield 0 s2 = Inr (v3, s3) \<and>
    lwt_current s3 = a \<and> continue v3 s3 = Inr (VPtr d, pop s3) \<and> frames (pop s3) a = frames s a \<and>
    in_turn (pop s3) [ThdNode a, ThdNode b] \<and> (\<forall>h\<in>heads s. list_foreach h (lists s3) = Some (queue_of h s)) \<and>
    chans s3 = chans s \<and> grps s3 = grps s \<and> mem s3 = mem s \<and> current_kthd s3 = current_kthd s \<and>
    map_option now_rcving (thds s3 a) = Some c"
proof -
  let ?k = "current_kthd s"
  note f = in_turn_facts [OF t]
  have a: "lwt_current s = a" using t by (simp add: in_turn_def)
  have ab: "a \<noteq> b" using f(2) by simp
  obtain x z where x: "a \<noteq> 0" "thds s a = Some x" "owner_kthd x = ?k" and z: "thds s b = Some z" "owner_kthd z = ?k"
    using f(5) [of a] f(5) [of b] by auto
  have n: "remove1 (ThdNode (lwt_current s)) [ThdNode a, ThdNode b] = ThdNode b # []" using a by simp
  have xa: "thds s (lwt_current s) = Some x" using x(2) a by simp
  let ?y = "x\<lparr>now_rcving := c, tstate := LWT_BLOCKED, block_for := BLOCKED_RECEIVING\<rparr>"
  obtain v1 s1 where s1: "lwt_rcv c s = Inr (v1, s1)" "chans s1 = chans s" "requeue s s1 (\<lambda>h. remove1 (ThdNode a) (queue_of h s))"
    "slept s s1 b ?y (KRcv (lwt_current s) # frames s (lwt_current s))"
    using rcv_blocks_effect [OF in_turn_on_cpu [OF t] l ch e n xa] unfolding a by blast
  have t1: "thds s1 a = Some (saved ?y)" "frames s1 a = KRcv a # frames s a" "thds s1 b = Some (z\<lparr>tstate := LWT_RUNNING\<rparr>)"
    using slept_old [OF s1(4)] slept_new(1) [OF s1(4) _ z(1)] a ab by simp_all
  note c1 = slept_cpu [OF s1(4)]
  have i1: "lwt_inv s1" using lwt_rcv_keeps [OF s1(1)] f(1) by (simp add: lwt_inv_def)
  have ch1: "chans s1 c = Some ch" "chan_ty ch = LOCAL_CHAN" "thds s1 (receiver ch) = Some (saved ?y)"
    "receiver_waits ch c (saved ?y)" "thds s1 (lwt_current s1) = Some (z\<lparr>tstate := LWT_RUNNING\<rparr>)"
    using ch l s1(2) r t1 c1 by (simp_all add: local_chan_def receiver_waits_def)
  let ?ya = "(saved ?y)\<lparr>message_data := d, tstate := LWT_RUNNABLE\<rparr>"
  obtain s2 where s2: "lwt_snd c d s1 = Inr (VInt 0, s2)" "lwt_current s2 = lwt_current s1" "frames s2 = frames s1"
    "current_kthd s2 = current_kthd s1" "chans s2 = chans s1" "grps s2 = grps s1" "mem s2 = mem s1" "thds s2 a = Some ?ya"
    "\<forall>v. v \<noteq> receiver ch \<longrightarrow> thds s2 v = thds s1 v" "requeue s1 s2 (woken a ?k (\<lambda>h. queue_of h s1))"
    using snd_direct_effect [OF i1 ch1, of d] r z(2) by auto
  have q2: "list_foreach h (lists s2) = Some (queue_of h s)" if "h \<in> heads s" for h
    by (rule requeued_twice [OF t that s1(3) s2(10)])
  have i2: "lwt_inv s2" using lwt_snd_keeps [OF s2(1)] i1 by (simp add: lwt_inv_def)
  have k2: "current_kthd s2 = ?k" "lwt_current s2 = b" "thds s2 b = Some (z\<lparr>tstate := LWT_RUNNING\<rparr>)"
    using s2(2,4,9) c1 t1(3) r ab by simp_all
  have cpu2: "on_cpu s2 [ThdNode a, ThdNode b]"
    using i2 q2 [OF f(3)] f(4) k2 z(2) by (simp add: on_cpu_def)
  have xs: "ip (ctx ?ya) = RetDispatch" "owner_kthd ?ya = current_kthd s2" using x(3) k2(1) by simp_all
  obtain v3 s3 where s3: "lwt_yield 0 s2 = Inr (v3, s3)" "lwt_current s3 = a" "current_kthd s3 = current_kthd s2"
    "on_cpu s3 [ThdNode a, ThdNode b]" "frames s3 = frames s2" "chans s3 = chans s2" "grps s3 = grps s2" "heads s3 = heads s2"
    "\<forall>h\<in>heads s2. list_foreach h (lists s3) = Some (queue_of h s2)" "thds s3 a = Some (?ya\<lparr>tstate := LWT_RUNNING\<rparr>)"
    "thds s3 b = map_option saved (thds s2 b)" "mem s3 = mem s2"
    by (rule yield_back [OF cpu2 k2(2) ab s2(8) xs])
  have fr: "frames s3 (lwt_current s3) = KRcv a # frames s a" using s3(2,5) s2(3) t1(2) by simp
  have "rcv_rest a (pop s3) = Inr (VPtr d, pop s3)" using x(1) s3(10) by (simp add: rcv_rest_def)
  then have "continue v3 s3 = Inr (VPtr d, pop s3)" using continue_top [OF fr] by simp
  moreover have "frames (pop s3) a = frames s a" using fr s3(2) by (metis pop_simps(8) list.sel(3))
  moreover have "in_turn (pop s3) [ThdNode a, ThdNode b]"
    using s3(2-4,10,11) x(3) z(2) k2 by (simp add: in_turn_def on_cpu_def lwt_inv_def)
  moreover have "heads s2 = heads s" using s1(3) s2(10) by (simp add: requeue_def)
  then have "\<forall>h\<in>heads s. list_foreach h (lists s3) = Some (queue_of h s)" using s3(9) q2 by (simp add: queue_of_def)
  moreover have "map_option now_rcving (thds s3 a) = Some c" using s3(10) by simp
  ultimately show ?thesis using s1(1,2) s2(1,2,5-7) s3(1-3,6,7,12) c1 k2(1)
    by (intro exI [of _ v1] exI [of _ s1] exI [of _ s2] exI [of _ v3] exI [of _ s3]) simp
qed

section \<open>Death\<close>

text \<open>The end of \<^verbatim>\<open>lwt_die\<close>: the thread is in the recycle queue and the next thread runs.\<close>

lemma die_rest_effect:
  assumes c: "on_cpu s q" and n: "remove1 (ThdNode (lwt_current s)) q = ThdNode u # ns"
    and t: "thds s (lwt_current s) = Some x"
  shows "\<exists>v s'. die_rest (lwt_current s) s = Inr (v, s') \<and> u \<noteq> lwt_current s \<and>
    requeue s s' ((\<lambda>h. remove1 (ThdNode (lwt_current s)) (queue_of h s))
      (RecQ (current_kthd s) := queue_of (RecQ (current_kthd s)) s @ [ThdNode (lwt_current s)])) \<and>
    chans s' = chans s \<and> slept s s' u (x\<lparr>tstate := LWT_ZOMBIES\<rparr>) (frames s (lwt_current s))"
proof -
  let ?k = "current_kthd s" and ?t = "lwt_current s"
  have i: "lwt_inv s" using c by (simp add: on_cpu_def)
  obtain D where l: "linked D s" and i0: "inv_but True {} {} {} {} (heads s) D (\<lambda>h. queue_of h s) s" by (rule lwt_invE [OF i])
  note kH = heads_current [OF i] and rH = heads_recycle [OF i] and qk = on_cpu_queue [OF c] and qs = l [unfolded linked_def]
  have td: "?t \<in> dom (thds s)" and nn: "?t \<noteq> 0" using t live_nonnull(1) [OF i0 t] by auto
  have tq: "ThdNode ?t \<in> set (queue_of (RunQ ?k) s)" using c qk by (simp add: on_cpu_def)
  have "distinct q" using lq.rep_distinct [OF qs kH] qk by simp
  then have tu: "u \<noteq> ?t" using n by (metis list.set_intros(1) set_remove1_eq Diff_iff singletonI)
  have "ThdNode u \<in> set (queue_of (RunQ ?k) s)" using n qk by (metis list.set_intros(1) notin_set_remove1)
  then obtain y where u: "u \<noteq> 0" "thds s u = Some y" by (rule run_queue_threads [OF i0 kH]) auto
  let ?Q1 = "\<lambda>h. remove1 (ThdNode ?t) (queue_of h s)"
  let ?Q = "?Q1(RecQ ?k := ?Q1 (RecQ ?k) @ [ThdNode ?t])"
  let ?L = "list_head_add (RecQ ?k) (ThdNode ?t) (list_ll_rem (ThdNode ?t) (lists s))"
  let ?T = "(thds s)(?t \<mapsto> x\<lparr>tstate := LWT_ZOMBIES\<rparr>)"
  let ?s1 = "s\<lparr>thds := ?T, kthds := (kthds s)(?k := (kthds s ?k)\<lparr>zombie_counter := zombie_counter (kthds s ?k) - 1\<rparr>), lists := ?L\<rparr>"
  have h1: "heads ?s1 = heads s" by (rule heads_same) simp_all
  have e1: "lwt_current ?s1 = ?t" "current_kthd ?s1 = ?k" by (simp_all add: lwt_current_def)
  have "ThdNode ?t \<notin> set (queue_of (RecQ ?k) s)" using queuesD(5) [OF qs rH kH _ tq] by auto
  then have Q: "?Q = ?Q1(RecQ ?k := queue_of (RecQ ?k) s @ [ThdNode ?t])" by (simp add: remove1_idem)
  have q1: "queues ?L (heads ?s1) (insert (ThdNode ?t) D - {ThdNode ?t}) ?Q"
    unfolding h1 using unlinked [OF i0 td] rH by (intro queues_add [OF unlink_thread [OF i0 td]]) auto
  have hd: "?Q (RunQ ?k) = ThdNode u # ns" using n qk by simp
  have pf: "polling_flag (kthds ?s1 j) = 0" for j using inv_polling [OF i] by simp
  have "\<exists>v s'. lwt_schedule ?s1 = Inr (v, s') \<and> requeue ?s1 s' ?Q \<and> switched ?s1 s' u"
    by (rule schedule_head [OF _ _ _ pf]) (use q1 h1 e1 kH hd u nn td in auto)
  then obtain v s' where s': "lwt_schedule ?s1 = Inr (v, s')" "requeue ?s1 s' ?Q" "switched ?s1 s' u" by blast
  have "die_rest ?t s = lwt_schedule ?s1"
    using nn t by (simp add: die_rest_def lwt_current_def Let_def current_recycle_queue_def)
  moreover have "slept s s' u (x\<lparr>tstate := LWT_ZOMBIES\<rparr>) (frames s ?t)"
    by (rule switched_slept [OF s'(3)]) (use e1 in simp_all)
  ultimately show ?thesis using s' h1 tu unfolding Q by (intro exI [of _ v] exI [of _ s']) (simp add: requeue_def switched_def)
qed

section \<open>Joining a child\<close>

text \<open>
  A child whose parent is waiting to run: the parent created it and is the receiver of the
  child's own channel, which is the unbuffered one \<^verbatim>\<open>__init_thread\<close> made.
\<close>

definition child_of :: "ptr \<Rightarrow> ptr \<Rightarrow> ptr \<Rightarrow> sys \<Rightarrow> bool" where
  "child_of p t c s \<longleftrightarrow> (\<exists>x ch. thds s t = Some x \<and> chl x = c \<and> parent x = p \<and> nojoin x = 0 \<and>
     chans s c = Some ch \<and> receiver ch = p \<and> chan_size ch = 0 \<and> tail (buffer ch) = head (buffer ch) \<and>
     tail (buffer ch) < int_max \<and> local_chan c s \<and> group_idle ch s)"

lemma on_cpu_counters:
  assumes "on_cpu s q" "polling_flag i = 0" "main_thread i = main_thread (kthds s k)" "current_thread i = current_thread (kthds s k)"
  shows "on_cpu (s\<lparr>kthds := (kthds s)(k := i)\<rparr>) q"
proof -
  let ?s = "s\<lparr>kthds := (kthds s)(k := i)\<rparr>"
  have "mid_inv True {} {} {} {} ?s"
    by (rule mid_inv_kthd) (use assms in \<open>simp_all add: on_cpu_def lwt_inv_def\<close>)
  moreover have "lwt_current ?s = lwt_current s" using assms(4) by (auto simp: lwt_current_def)
  ultimately show ?thesis using assms(1) by (simp add: on_cpu_def lwt_inv_def)
qed

lemma die_blocks:
  assumes i: "in_turn s [ThdNode t, ThdNode p]" and ch: "child_of p t c s" and e: "senders c s = []"
  shows "\<exists>v s' x. lwt_die m s = Inr (v, s') \<and> lwt_inv s' \<and> lwt_current s' = p \<and> current_kthd s' = current_kthd s \<and>
    list_foreach (RunQ (current_kthd s)) (lists s') = Some [ThdNode p] \<and>
    child_of p t c s' \<and> pending c s' = [m] \<and> senders c s' = [t] \<and>
    frames s' t = KSnd # KDie t # frames s t \<and> (waits_in_dispatch s p \<longrightarrow> frames s' p = frames s p) \<and>
    thds s' t = Some x \<and> ip (ctx x) = RetDispatch \<and> owner_kthd x = current_kthd s \<and>
    map_option owner_kthd (thds s' p) = Some (current_kthd s)"
proof -
  let ?k = "current_kthd s"
  note f = in_turn_facts [OF i]
  have t: "lwt_current s = t" "t \<noteq> p" using i f(2) by (simp_all add: in_turn_def)
  obtain x where x: "t \<noteq> 0" "thds s t = Some x" "owner_kthd x = ?k" using f(5) [of t] by auto
  obtain y where y: "p \<noteq> 0" "thds s p = Some y" "owner_kthd y = ?k" using f(5) [of p] by auto
  obtain D where i0: "inv_but True {} {} {} {} (heads s) D (\<lambda>h. queue_of h s) s" by (rule lwt_invE [OF f(1)])
  have "tstate y = LWT_RUNNABLE \<or> tstate y = LWT_RUNNING" by (rule queued_runnable [OF i0 f(3) _ y(2)]) (simp add: f(4))
  then have run: "tstate y \<noteq> LWT_BLOCKED" by auto
  obtain ch where ch: "chl x = c" "parent x = p" "nojoin x = 0" "chans s c = Some ch" "receiver ch = p" "chan_size ch = 0"
    "tail (buffer ch) = head (buffer ch)" "tail (buffer ch) < int_max" "local_chan c s" "group_idle ch s"
    using assms(2) x(2) by (auto simp: child_of_def)
  let ?x = "x\<lparr>message_data := m\<rparr>" and ?i = "(kthds s ?k)\<lparr>zombie_counter := zombie_counter (kthds s ?k) + 1\<rparr>"
  let ?s1 = "s\<lparr>kthds := (kthds s)(?k := ?i)\<rparr>"
  let ?sA = "push (KDie t) (?s1\<lparr>chans := (chans ?s1)(c \<mapsto> ch), thds := (thds ?s1)(lwt_current ?s1 \<mapsto> ?x)\<rparr>)"
  have c1: "lwt_current ?s1 = t" using t(1) by (simp add: lwt_current_def)
  have cpu1: "on_cpu ?s1 [ThdNode t, ThdNode p]"
    by (rule on_cpu_counters [OF in_turn_on_cpu [OF i]]) (use inv_polling [OF f(1)] in simp_all)
  have cpuA: "on_cpu ?sA [ThdNode t, ThdNode p]"
    by (rule on_cpu_prepared [OF cpu1, of x]) (use x(2) c1 ch(4) in simp_all)
  have A: "lwt_current ?sA = t" "current_kthd ?sA = ?k" "chans ?sA = chans s" "thds ?sA = (thds s)(t \<mapsto> ?x)"
    "lists ?sA = lists s" "grps ?sA = grps s" "frames ?sA t = KDie t # frames s t" "w \<noteq> t \<Longrightarrow> frames ?sA w = frames s w" for w
    using c1 ch(4) by (auto simp: push_def lwt_current_def fun_upd_idem)
  have sA: "senders c ?sA = []" using e A(5) by (simp add: senders_def queue_of_def)
  have die: "lwt_die m s = lwt_snd c m ?sA"
    using x ch(1,4) t(1) c1 by (simp add: lwt_die_def Let_def push_def lwt_current_def fun_upd_idem)
  have lA: "local_chan c ?sA" using ch(4,9) A(3) sA by (simp add: local_chan_def)
  have bA: "receiver_busy c ?sA"
    using ch(4,5,10) y run t(2) A(3,4,6) by (auto simp: receiver_busy_def receiver_waits_def group_idle_def)
  have chA: "chans ?sA c = Some ch" "\<not> ring_not_full (chan_size ch) (buffer ch)" using A(3) ch by (simp_all add: ring_not_full_def)
  have nA: "remove1 (ThdNode (lwt_current ?sA)) [ThdNode t, ThdNode p] = ThdNode p # []" using A(1) by simp
  have xA: "thds ?sA (lwt_current ?sA) = Some ?x" using A(1,4) by simp
  let ?z = "?x\<lparr>message_data := m, tstate := LWT_BLOCKED, block_for := BLOCKED_SENDING\<rparr>"
  obtain v s' where s': "lwt_snd c m ?sA = Inr (v, s')" "pending c s' = pending c ?sA @ [m]" "local_chan c s'"
    "senders c s' = senders c ?sA @ [lwt_current ?sA]" "list_foreach (RunQ (current_kthd ?sA)) (lists s') = Some [ThdNode p]"
    "chans s' = (chans ?sA)(c \<mapsto> ch\<lparr>ready := 1\<rparr>)" "slept ?sA s' p ?z (KSnd # frames ?sA (lwt_current ?sA))"
    using snd_full_effect [OF cpuA lA bA chA nA xA, of m] by blast
  have inv: "lwt_inv s'" using lwt_snd_keeps [OF s'(1)] cpuA by (simp add: on_cpu_def lwt_inv_def)
  have th: "thds s' t = Some (saved ?z)" "frames s' t = KSnd # KDie t # frames s t"
    using slept_old [OF s'(7)] A t by simp_all
  have pn: "thds s' p = Some (y\<lparr>tstate := LWT_RUNNING\<rparr>)" "waits_in_dispatch ?sA p \<Longrightarrow> frames s' p = frames ?sA p"
    using slept_new [OF s'(7), of y] A t(2) y by auto
  have "waits_in_dispatch s p \<longrightarrow> frames s' p = frames s p"
    using pn(2) A t by (auto simp: waits_in_dispatch_def)
  moreover have "ring_items (chan_size ch) (buffer ch) = []" using ch(7) by (simp add: ring_items_def)
  then have "pending c s' = [m]" using s'(2) sA A(3) ch(4) by (simp add: pending_def buffered_def)
  moreover have "group_idle (ch\<lparr>ready := 1\<rparr>) s'" using ch(10) A(6) slept_cpu(3) [OF s'(7)] by (simp add: group_idle_def)
  then have "child_of p t c s'" using th(1) s'(3,6) A(3) ch by (simp add: child_of_def)
  ultimately show ?thesis
    using die s'(1,4,5) inv slept_cpu(1,2) [OF s'(7)] A(1,2) sA th pn(1) x(3) y(3)
    by (intro exI [of _ v] exI [of _ s'] exI [of _ "saved ?z"]) simp
qed

lemma join_receives:
  assumes i: "lwt_inv s" and p: "lwt_current s = p" and q: "list_foreach (RunQ (current_kthd s)) (lists s) = Some [ThdNode p]"
    and ch: "child_of p t c s" and e: "pending c s = [m]" "senders c s = [t]" and tp: "t \<noteq> p"
    and t: "thds s t = Some x" "ip (ctx x) = RetDispatch" "owner_kthd x = current_kthd s"
    and o: "map_option owner_kthd (thds s p) = Some (current_kthd s)" and fr: "frames s t = KSnd # KDie t # ft"
  shows "\<exists>s2 v s'. lwt_join t s = Inr (VPtr m, s2) \<and> continue (VPtr m) s2 = Inr (v, s') \<and> on_cpu s' [ThdNode t, ThdNode p] \<and>
    lwt_current s' = t \<and> current_kthd s' = current_kthd s \<and> frames s' t = KSnd # KDie t # ft \<and>
    frames s' p = KRet (VPtr m) # frames s p \<and> map_option (\<lambda>x. ip (ctx x)) (thds s' p) = Some RetDispatch"
proof -
  let ?k = "current_kthd s" and ?sB = "push (KJoin t) s"
  obtain D where i0: "inv_but True {} {} {} {} (heads s) D (\<lambda>h. queue_of h s) s" by (rule lwt_invE [OF i])
  obtain y where y: "thds s p = Some y" "owner_kthd y = ?k" using o by auto
  have nn: "t \<noteq> 0" "p \<noteq> 0" using live_nonnull(1) [OF i0] t(1) y(1) by auto
  have kH: "RunQ ?k \<in> heads s" by (rule heads_current [OF i])
  obtain ch where ch: "chl x = c" "parent x = p" "nojoin x = 0" "chans s c = Some ch" "tail (buffer ch) < int_max" "local_chan c s"
    using assms(4) t(1) by (auto simp: child_of_def)
  have B: "lwt_current ?sB = p" "current_kthd ?sB = ?k" "chans ?sB = chans s" "thds ?sB = thds s" "lists ?sB = lists s"
    "frames ?sB p = KJoin t # frames s p" "frames ?sB t = frames s t" "heads ?sB = heads s" "queue_of h ?sB = queue_of h s" for h
    using p tp by (simp_all add: push_def lwt_current_def queue_of_def)
  have se: "senders c ?sB = senders c s" by (simp add: senders_def B(9))
  have "buffered c ?sB = buffered c s" "\<And>v. msg v ?sB = msg v s" using B(3,4) by (simp_all add: buffered_def msg_def)
  then have pe: "pending c ?sB = pending c s" using se by (simp add: pending_def)
  have lo: "local_chan c ?sB = local_chan c s" unfolding local_chan_def se B(3) ..
  have sB: "senders c ?sB = [t]" "pending c ?sB = m # []" "local_chan c ?sB" "lwt_inv ?sB" "lwt_current ?sB \<in> dom (thds ?sB)"
    using e ch(6) i y B(1,4) se pe lo by (simp_all add: lwt_inv_def domIff)
  have cB: "chans ?sB c = Some ch" using ch(4) B(3) by simp
  obtain s2 where s2: "lwt_rcv c ?sB = Inr (VPtr m, s2)" "unblocked ?sB s2 (senders c ?sB)"
    using rcv_effect [OF sB(4,3) cB sB(2,5) ch(5)] by blast
  have j: "lwt_join t s = Inr (VPtr m, s2)" using s2(1) t(1) nn(1) ch(1-3) p by (simp add: lwt_join_def)
  let ?x = "x\<lparr>tstate := LWT_RUNNABLE\<rparr>"
  have u: "lwt_current s2 = p" "current_kthd s2 = ?k" "frames s2 = frames ?sB" "thds s2 = (thds s)(t \<mapsto> ?x)"
    "\<And>h. h \<in> heads s \<Longrightarrow> list_foreach h (lists s2) = Some (woken t ?k (\<lambda>h. queue_of h s) h)"
    using s2(2) t(1) y B unfolding unblocked_def sB(1) by simp_all
  have i2: "lwt_inv s2" using lwt_rcv_keeps [OF s2(1)] sB(4) by (simp add: lwt_inv_def)
  have "list_foreach (RunQ ?k) (lists s2) = Some (insert_before_last (ThdNode t) (remove1 (ThdNode t) [ThdNode p]))"
    using u(5) [OF kH] q by (simp add: woken_def queue_of_def)
  then have q2: "list_foreach (RunQ ?k) (lists s2) = Some [ThdNode t, ThdNode p]" using tp by simp
  let ?sC = "push (KRet (VPtr m)) (pop s2)"
  have f2: "frames s2 (lwt_current s2) = KJoin t # frames s p" using u(1,3) B(6) by simp
  have C: "lwt_current ?sC = p" "current_kthd ?sC = ?k" "thds ?sC = thds s2" "lists ?sC = lists s2"
    "frames ?sC p = KRet (VPtr m) # frames s p" "frames ?sC t = KSnd # KDie t # ft"
    using u f2 tp fr B(7) by (simp_all add: push_def pop_def lwt_current_def)
  have cpuC: "on_cpu ?sC [ThdNode t, ThdNode p]"
    using i2 q2 y u(4) tp unfolding on_cpu_def C by (simp add: lwt_inv_def)
  have "t \<noteq> lwt_current ?sC" "ThdNode t \<in> set [ThdNode t, ThdNode p]" using C(1) tp by simp_all
  from yield_to_effect [OF cpuC this] obtain v s' w where s': "lwt_yield t ?sC = Inr (v, s')"
    "requeue ?sC s' ((\<lambda>h. queue_of h ?sC)(RunQ (current_kthd ?sC) := insert_before_last (ThdNode t) (remove1 (ThdNode t) [ThdNode t, ThdNode p])))"
    "hd (insert_before_last (ThdNode t) (remove1 (ThdNode t) [ThdNode t, ThdNode p])) = ThdNode w" "switched ?sC s' w"
    by blast
  have w: "w = t" using s'(3) by simp
  have cont: "continue (VPtr m) s2 = Inr (v, s')" using continue_top [OF f2, of "VPtr m"] s'(1) by (simp add: join_rest_def)
  have inv: "lwt_inv s'" using lwt_yield_keeps [OF s'(1)] cpuC by (simp add: on_cpu_def lwt_inv_def)
  have "heads ?sC = heads s2" by (rule heads_same) (simp_all add: push_def)
  moreover have "RunQ ?k \<in> heads s2" using heads_current [OF i2] u(2) by simp
  ultimately have q': "list_foreach (RunQ ?k) (lists s') = Some [ThdNode t, ThdNode p]"
    using s'(2) C(2) by (simp add: requeue_def)
  have "waits_in_dispatch ?sC w" using u(4) t(2) C(3) w by (simp add: waits_in_dispatch_def)
  then have fr': "frames s' = frames ?sC" using s'(4) by (simp add: switched_def)
  have th: "thds s' t = Some (?x\<lparr>tstate := LWT_RUNNING\<rparr>)" "thds s' p = Some (saved y)"
    using s'(4) w u(4) y(1) C(1,3) tp by (simp_all add: switched_def dispatched_def)
  have cur: "lwt_current s' = t" "current_kthd s' = ?k" using s'(4) w C(2) by (simp_all add: switched_def)
  have "on_cpu s' [ThdNode t, ThdNode p]" using inv q' cur th(1) t(3) by (simp add: on_cpu_def)
  then show ?thesis using j cont cur fr' C(5,6) th(2) by (intro exI [of _ s2] exI [of _ v] exI [of _ s']) simp
qed

lemma die_finishes:
  assumes c: "on_cpu s [ThdNode t, ThdNode p]" and t: "lwt_current s = t" "frames s t = KSnd # KDie t # ft"
    and p: "frames s p = KRet r # fp" "map_option (\<lambda>x. ip (ctx x)) (thds s p) = Some RetDispatch"
  shows "\<exists>s4 w s5 s6. continue v s = Inr (VInt 0, s4) \<and> continue (VInt 0) s4 = Inr (w, s5) \<and> continue w s5 = Inr (r, s6) \<and>
    lwt_current s6 = p \<and> frames s6 p = fp \<and> lwt_inv s6 \<and> list_foreach (RunQ (current_kthd s)) (lists s6) = Some [ThdNode p] \<and>
    list_foreach (RecQ (current_kthd s)) (lists s6) = Some (queue_of (RecQ (current_kthd s)) s @ [ThdNode t]) \<and>
    map_option tstate (thds s6 t) = Some LWT_ZOMBIES"
proof -
  let ?k = "current_kthd s" and ?sD = "pop (pop s)"
  have f1: "frames s (lwt_current s) = KSnd # KDie t # ft" using t by simp
  have f2: "frames (pop s) (lwt_current (pop s)) = KDie t # ft" using f1 by simp
  obtain x where x: "thds s t = Some x" using c t(1) by (auto simp: on_cpu_def)
  obtain y where y: "thds s p = Some y" "ip (ctx y) = RetDispatch" using p(2) by auto
  have i: "lwt_inv s" using c by (simp add: on_cpu_def)
  have cpuD: "on_cpu ?sD [ThdNode t, ThdNode p]" using c by (simp add: on_cpu_def lwt_inv_def)
  have nD: "remove1 (ThdNode (lwt_current ?sD)) [ThdNode t, ThdNode p] = ThdNode p # []" using t(1) by simp
  have xD: "thds ?sD (lwt_current ?sD) = Some x" using x t(1) by simp
  obtain w s5 where s5: "die_rest (lwt_current ?sD) ?sD = Inr (w, s5)" "p \<noteq> lwt_current ?sD"
    "requeue ?sD s5 ((\<lambda>h. remove1 (ThdNode (lwt_current ?sD)) (queue_of h ?sD))
      (RecQ (current_kthd ?sD) := queue_of (RecQ (current_kthd ?sD)) ?sD @ [ThdNode (lwt_current ?sD)]))"
    "slept ?sD s5 p (x\<lparr>tstate := LWT_ZOMBIES\<rparr>) (frames ?sD (lwt_current ?sD))"
    using die_rest_effect [OF cpuD nD xD] by blast
  have pt: "p \<noteq> t" using s5(2) t(1) by simp
  have "waits_in_dispatch ?sD p" using y by (simp add: waits_in_dispatch_def)
  then have "frames s5 p = frames ?sD p" by (rule slept_new(2) [OF s5(4) s5(2) [symmetric], of y, rotated]) (use y in simp)
  then have f5: "frames s5 (lwt_current s5) = KRet r # fp" "lwt_current s5 = p"
    using p(1) pt t(1) slept_cpu(1) [OF s5(4)] by (simp_all add: pop_def lwt_current_def)
  have inv: "lwt_inv s5" using die_rest_keeps [OF s5(1)] i by (simp add: lwt_inv_def)
  have th: "map_option tstate (thds s5 t) = Some LWT_ZOMBIES" using slept_old(1) [OF s5(4)] s5(2) t(1) by simp
  have H: "heads ?sD = heads s" by (rule heads_same) simp_all
  have q: "queue_of h ?sD = queue_of h s" for h by (rule queue_of_lists) simp
  have "queue_of (RunQ ?k) s = [ThdNode t, ThdNode p]" by (rule on_cpu_queue [OF c])
  then have run: "list_foreach (RunQ ?k) (lists s5) = Some [ThdNode p]"
    "list_foreach (RecQ ?k) (lists s5) = Some (queue_of (RecQ ?k) s @ [ThdNode t])"
    using s5(3) heads_current [OF i] heads_recycle [OF i] t(1) unfolding requeue_def H q by simp_all
  have "continue v s = Inr (VInt 0, pop s)" using continue_top [OF f1, of v] by simp
  moreover have "continue (VInt 0) (pop s) = Inr (w, s5)" using continue_top [OF f2, of "VInt 0"] s5(1) t(1) by simp
  moreover have "continue w s5 = Inr (r, pop s5)" using continue_top [OF f5(1), of w] by simp
  moreover have "frames (pop s5) p = fp" using f5 by (metis pop_simps(8) list.sel(3))
  ultimately show ?thesis using inv f5(2) run th by (intro exI [of _ "pop s"] exI [of _ w] exI [of _ s5] exI [of _ "pop s5"]) (simp add: lwt_inv_def)
qed

section \<open>Properties\<close>

text \<open>
  C4 Exchange of a word between two threads: the first receives on its empty channel and is
  suspended, the second sends and goes on running, and when it yields the first continues:
  its \<^verbatim>\<open>lwt_rcv\<close> returns the word and its stack is as before the call.
\<close>

theorem rendezvous:
  assumes "in_turn s [ThdNode a, ThdNode b]" "local_chan c s" "chans s c = Some ch" "receiver ch = a" "pending c s = []"
  shows "\<exists>v1 s1 s2 v3 s3 s4. lwt_rcv c s = Inr (v1, s1) \<and> lwt_current s1 = b \<and>
    lwt_snd c d s1 = Inr (VInt 0, s2) \<and> lwt_current s2 = b \<and> lwt_yield 0 s2 = Inr (v3, s3) \<and>
    lwt_current s3 = a \<and> continue v3 s3 = Inr (VPtr d, s4) \<and> frames s4 a = frames s a"
  using rendezvous_effect [OF assms] by blast

text \<open>
  C15 Join after death: a child dies with a last word while its parent waits to run, before the
  parent has called \<^verbatim>\<open>lwt_join\<close>. The child blocks in
  its send and the parent runs; the parent's \<^verbatim>\<open>lwt_join\<close> receives the word without blocking and yields to
  the child, which finishes dying: it is a zombie at the end of the recycle queue, the
  parent runs alone, and its \<^verbatim>\<open>lwt_join\<close> returns the last word with its stack as before.
\<close>

theorem join_returns_last_word:
  assumes "in_turn s [ThdNode t, ThdNode p]" "child_of p t c s" "senders c s = []" "waits_in_dispatch s p"
  shows "\<exists>v1 s1 s2 v3 s3 s4 v5 s5 s6. lwt_die m s = Inr (v1, s1) \<and> lwt_current s1 = p \<and>
    lwt_join t s1 = Inr (VPtr m, s2) \<and> continue (VPtr m) s2 = Inr (v3, s3) \<and> lwt_current s3 = t \<and>
    continue v3 s3 = Inr (VInt 0, s4) \<and> continue (VInt 0) s4 = Inr (v5, s5) \<and> continue v5 s5 = Inr (VPtr m, s6) \<and>
    lwt_current s6 = p \<and> frames s6 p = frames s p \<and> lwt_inv s6 \<and> map_option tstate (thds s6 t) = Some LWT_ZOMBIES \<and>
    list_foreach (RunQ (current_kthd s)) (lists s6) = Some [ThdNode p] \<and>
    (\<exists>rs. list_foreach (RecQ (current_kthd s)) (lists s6) = Some (rs @ [ThdNode t]))"
proof -
  let ?k = "current_kthd s"
  have tp: "t \<noteq> p" using in_turn_facts(2) [OF assms(1)] by simp
  obtain v1 s1 x where s1: "lwt_die m s = Inr (v1, s1)" "lwt_inv s1" "lwt_current s1 = p" "current_kthd s1 = ?k"
    "list_foreach (RunQ ?k) (lists s1) = Some [ThdNode p]" "child_of p t c s1" "pending c s1 = [m]" "senders c s1 = [t]"
    "frames s1 t = KSnd # KDie t # frames s t" "frames s1 p = frames s p"
    "thds s1 t = Some x" "ip (ctx x) = RetDispatch" "owner_kthd x = ?k" "map_option owner_kthd (thds s1 p) = Some ?k"
    using die_blocks [OF assms(1-3), of m] assms(4) by blast
  have k: "list_foreach (RunQ (current_kthd s1)) (lists s1) = Some [ThdNode p]" "owner_kthd x = current_kthd s1"
    "map_option owner_kthd (thds s1 p) = Some (current_kthd s1)" using s1(4,5,13,14) by simp_all
  obtain s2 v3 s3 where s3: "lwt_join t s1 = Inr (VPtr m, s2)" "continue (VPtr m) s2 = Inr (v3, s3)"
    "on_cpu s3 [ThdNode t, ThdNode p]" "lwt_current s3 = t" "current_kthd s3 = current_kthd s1"
    "frames s3 t = KSnd # KDie t # frames s t" "frames s3 p = KRet (VPtr m) # frames s1 p"
    "map_option (\<lambda>x. ip (ctx x)) (thds s3 p) = Some RetDispatch"
    using join_receives [OF s1(2,3) k(1) s1(6-8) tp s1(11,12) k(2,3) s1(9)] by blast
  obtain s4 v5 s5 s6 where s6: "continue v3 s3 = Inr (VInt 0, s4)" "continue (VInt 0) s4 = Inr (v5, s5)"
    "continue v5 s5 = Inr (VPtr m, s6)" "lwt_current s6 = p" "frames s6 p = frames s1 p" "lwt_inv s6"
    "list_foreach (RunQ (current_kthd s3)) (lists s6) = Some [ThdNode p]"
    "list_foreach (RecQ (current_kthd s3)) (lists s6) = Some (queue_of (RecQ (current_kthd s3)) s3 @ [ThdNode t])"
    "map_option tstate (thds s6 t) = Some LWT_ZOMBIES"
    using die_finishes [OF s3(3,4,6,7,8), of v3] by blast
  have e: "current_kthd s3 = ?k" "frames s6 p = frames s p" using s3(5) s1(4,10) s6(5) by simp_all
  show ?thesis using s1(1,3) s3(1,2,4) s6(1-4,6,9) s6(7,8) [unfolded e(1)] e(2) by blast
qed

section \<open>In the sample run\<close>

theorem rendezvous_witness:
  "\<exists>s c a b v1 s1 s2 v3 s3 s4. a \<noteq> b \<and> lwt_current s = a \<and> lwt_rcv c s = Inr (v1, s1) \<and> lwt_current s1 = b \<and>
    lwt_snd c 42 s1 = Inr (VInt 0, s2) \<and> lwt_yield 0 s2 = Inr (v3, s3) \<and> continue v3 s3 = Inr (VPtr 42, s4)"
proof (rule stage_with_chan [of 2])
  fix s a b c ch assume s: "stage s [ThdNode a, ThdNode b]" "chans s c = Some ch" "local_chan c s" "pending c s = []"
    "new_channel ch 2 a (chan_id ch)" "a \<noteq> b" "lwt_current s = a"
  have t: "in_turn s [ThdNode a, ThdNode b]" using s(1) by (simp add: stage_def)
  show ?thesis using rendezvous [OF t s(3,2) new_channel_ring(3) [OF s(5)] s(4), of 42] s(6,7) by blast
qed (simp_all add: int_max_def)

text \<open>The sample child: created by the boot thread, which has yielded to it once.\<close>

lemma stage_child:
  obtains s t p c where "in_turn s [ThdNode t, ThdNode p]" "child_of p t c s" "senders c s = []" "waits_in_dispatch s p"
proof -
  obtain s0 p where s0: "stage s0 [ThdNode p]" "lwt_current s0 = p" "dom (thds s0) = {p}" by (rule stage_boot)
  obtain t s where s: "stage s ([ThdNode p] @ [ThdNode t])" "t \<notin> dom (thds s0)" "created 1 2 0 s0 t s" "lwt_current s = p"
    by (rule stage_create [OF s0(1), of 1 2 0]) (use s0(2) in blast)
  have tn: "in_turn s [ThdNode p, ThdNode t]" and tp: "t \<noteq> p" using s s0(3) by (auto simp: stage_def)
  note f = in_turn_facts [OF tn]
  obtain x ch where x: "thds s t = Some x" "chans s (chl x) = Some ch" "parent x = p" "nojoin x = 0" "cgroup ch = 0"
    "new_channel (ch\<lparr>snd_cnt := 0\<rparr>) 0 p (chan_counter s0)" "list_foreach (SendQ (chl x)) (lists s) = Some []"
    using s(3) s0(2) by (auto simp: created_def)
  obtain y where y: "thds s p = Some y" using f(5) [of p] by auto
  let ?k = "current_kthd s" and ?q = "[ThdNode p, ThdNode t]"
  obtain v s' u where s': "lwt_yield 0 s = Inr (v, s')"
    "requeue s s' ((\<lambda>h. queue_of h s)(RunQ ?k := remove1 (ThdNode (lwt_current s)) ?q @ [ThdNode (lwt_current s)]))"
    "hd (remove1 (ThdNode (lwt_current s)) ?q @ [ThdNode (lwt_current s)]) = ThdNode u" "switched s s' u"
    using yield_null_effect [OF in_turn_on_cpu [OF tn]] by blast
  have u: "u = t" using s'(3) s(4) by simp
  obtain v2 s2 where "lwt_yield 0 s = Inr (v2, s2)" "in_turn s2 (rotate1 ?q)" using yield_in_turn [OF tn] by blast
  then have t': "in_turn s' [ThdNode t, ThdNode p]" using s'(1) by simp
  have ch': "chans s' = chans s" "grps s' = grps s" "thds s' t = Some (x\<lparr>tstate := LWT_RUNNING\<rparr>)" "thds s' p = Some (saved y)"
    using s'(4) u x(1) y tp s(4) by (simp_all add: switched_def dispatched_def)
  have sH: "SendQ (chl x) \<in> heads s" using x(2) by (auto simp: heads_def)
  have "queue_of (SendQ (chl x)) s' = []" using s'(2) sH x(7) by (simp add: requeue_def queue_of_def)
  then have se: "senders (chl x) s' = []" by (simp add: senders_def)
  have "local_chan (chl x) s'" using x(2,6) ch'(1) se by (simp add: local_chan_def new_channel_def)
  then have "child_of p t (chl x) s'" using ch' x by (simp add: child_of_def new_channel_def group_idle_def int_max_def)
  moreover have "waits_in_dispatch s' p" using ch'(4) by (simp add: waits_in_dispatch_def)
  ultimately show thesis using that t' se by blast
qed

theorem join_returns_last_word_witness:
  "\<exists>s t p v1 s1 s2 v3 s3 s4 v5 s5 s6. t \<noteq> p \<and> lwt_current s = t \<and> lwt_die 99 s = Inr (v1, s1) \<and>
    lwt_join t s1 = Inr (VPtr 99, s2) \<and> continue (VPtr 99) s2 = Inr (v3, s3) \<and> continue v3 s3 = Inr (VInt 0, s4) \<and>
    continue (VInt 0) s4 = Inr (v5, s5) \<and> continue v5 s5 = Inr (VPtr 99, s6) \<and> lwt_current s6 = p \<and>
    map_option tstate (thds s6 t) = Some LWT_ZOMBIES"
proof (rule stage_child)
  fix s t p c assume s: "in_turn s [ThdNode t, ThdNode p]" "child_of p t c s" "senders c s = []" "waits_in_dispatch s p"
  have "t \<noteq> p" "lwt_current s = t" using in_turn_facts(2) [OF s(1)] s(1) by (simp_all add: in_turn_def)
  then show ?thesis using join_returns_last_word [OF s, of 99] by blast
qed

end
