(* ===== verification/Lwt_GroupProps.thy ===== *)
theory Lwt_GroupProps
  imports Lwt_Rendezvous
begin

text \<open>
  Channel groups: what addition, removal and release do to the members of a group, which
  channel a wait returns, when it blocks, and how a send wakes the waiting thread (or, when
  the thread's stale \<^verbatim>\<open>now_rcving\<close> names the channel, loses its word).
\<close>

section \<open>Members\<close>

definition node_chan :: "lnode \<Rightarrow> ptr" where
  "node_chan n = (case n of ChanNode c \<Rightarrow> c | _ \<Rightarrow> 0)"

definition members :: "ptr \<Rightarrow> sys \<Rightarrow> ptr list" where
  "members g s = map node_chan (queue_of (GrpQ g) s)"

lemma inv_members:
  assumes i: "lwt_inv s" and g: "grps s g = Some y"
  shows "g \<noteq> 0" "GrpQ g \<in> heads s" "queue_of (GrpQ g) s = map ChanNode (members g s)" "distinct (members g s)"
    "c \<in> set (members g s) \<Longrightarrow> \<exists>ch. c \<noteq> 0 \<and> chans s c = Some ch \<and> cgroup ch = g"
proof -
  obtain D where l: "linked D s" and i0: "inv_but True {} {} {} {} (heads s) D (\<lambda>h. queue_of h s) s" by (rule lwt_invE [OF i])
  show "g \<noteq> 0" by (rule live_nonnull(3) [OF i0 g])
  show gH: "GrpQ g \<in> heads s" using g by (auto simp: heads_def)
  have n: "\<exists>c ch. n = ChanNode c \<and> chans s c = Some ch \<and> cgroup ch = g" if "n \<in> set (queue_of (GrpQ g) s)" for n
  proof -
    have "node_ok (dom (thds s)) (group_of s) (dom (wraps s)) (GrpQ g) n"
      using inv_butD(3) [OF i0] gH that unfolding nodes_ok_def by blast
    then show ?thesis by (auto simp: node_ok_def group_of_def)
  qed
  show q: "queue_of (GrpQ g) s = map ChanNode (members g s)"
    unfolding members_def map_map by (rule map_idI [symmetric]) (use n in \<open>fastforce simp: node_chan_def\<close>)
  show "distinct (members g s)" using lq.rep_distinct [OF l [unfolded linked_def] gH] q by (simp add: distinct_map)
  show "\<exists>ch. c \<noteq> 0 \<and> chans s c = Some ch \<and> cgroup ch = g" if c: "c \<in> set (members g s)"
  proof -
    have "ChanNode c \<in> set (queue_of (GrpQ g) s)" using c q by auto
    from n [OF this] obtain ch where "chans s c = Some ch" "cgroup ch = g" by blast
    then show ?thesis using live_nonnull(2) [OF i0] by blast
  qed
qed

lemma members_queue: "queue_of (GrpQ g) s = map ChanNode cs \<Longrightarrow> members g s = cs"
  by (simp add: members_def comp_def node_chan_def)

lemma remove1_ThdNode_map: "remove1 (ThdNode a) (map ChanNode cs) = map ChanNode cs"
  by (rule remove1_idem) auto

lemma remove1_ChanNode: "remove1 (ChanNode c) (map ChanNode cs) = map ChanNode (remove1 c cs)"
  by (induction cs) auto

section \<open>Membership\<close>

lemma cgrp_add_effect:
  assumes i: "lwt_inv s" and g: "grps s g = Some y" and c: "chans s c = Some ch" "cgroup ch = 0"
  shows "\<exists>s'. lwt_cgrp_add g c s = Inr (VInt 0, s') \<and> lwt_inv s' \<and> members g s' = insert_before_last c (members g s) \<and>
    chans s' = (chans s)(c \<mapsto> ch\<lparr>cgroup := g\<rparr>) \<and> thds s' = thds s \<and> grps s' = grps s \<and> kthds s' = kthds s \<and> mem s' = mem s \<and>
    frames s' = frames s \<and> current_kthd s' = current_kthd s \<and>
    requeue s s' ((\<lambda>h. queue_of h s)(GrpQ g := insert_before_last (ChanNode c) (queue_of (GrpQ g) s)))"
proof -
  obtain D where l: "linked D s" and i0: "inv_but True {} {} {} {} (heads s) D (\<lambda>h. queue_of h s) s" by (rule lwt_invE [OF i])
  note m = inv_members [OF i g] and hd = inv_butD(2) [OF i0] and fr = nodes_fresh [OF inv_butD(3) [OF i0]]
  have c0: "c \<noteq> 0" by (rule live_nonnull(2) [OF i0 c(1)])
  have out: "ChanNode c \<notin> set (queue_of h s)" if h: "h \<in> heads s" for h
  proof
    assume "ChanNode c \<in> set (queue_of h s)"
    from fr(16) [OF h this] obtain k where "h = GrpQ k" "group_of s c = Some k" by blast
    then have "GrpQ 0 \<in> heads s" using h c by (simp add: group_of_def)
    then show False using head_in(2) [OF hd] live_nonnull(3) [OF i0, of 0] by auto
  qed
  let ?L = "list_head_append (GrpQ g) (ChanNode c) (lists s)"
  let ?s' = "s\<lparr>lists := ?L, chans := (chans s)(c \<mapsto> ch\<lparr>cgroup := g\<rparr>)\<rparr>"
  have "queues ?L (heads s) (D - {ChanNode c}) ((\<lambda>h. queue_of h s)(GrpQ g := insert_before_last (ChanNode c) (queue_of (GrpQ g) s)))"
    by (rule queues_append [OF l [unfolded linked_def] m(2) head_in(7) [OF hd] out])
  moreover have "heads ?s' = heads s" using c(1) by (intro heads_same) auto
  ultimately have q: "requeue s ?s' ((\<lambda>h. queue_of h s)(GrpQ g := insert_before_last (ChanNode c) (queue_of (GrpQ g) s)))"
    by (intro requeueI) auto
  have r: "lwt_cgrp_add g c s = Inr (VInt 0, ?s')" using c c0 g m(1) by (simp add: lwt_cgrp_add_def)
  have "queue_of (GrpQ g) ?s' = map ChanNode (insert_before_last c (members g s))"
    using q m(2,3) by (simp add: requeue_def queue_of_def map_insert_before_last)
  then have "members g ?s' = insert_before_last c (members g s)" by (rule members_queue)
  moreover have "lwt_inv ?s'" using lwt_cgrp_add_keeps [OF r] i by (simp add: lwt_inv_def)
  ultimately show ?thesis using r q by (intro exI [of _ ?s']) simp
qed

lemma cgrp_rem_effect:
  assumes i: "lwt_inv s" and g: "grps s g = Some y" and c: "chans s c = Some ch" "cgroup ch = g" "ready ch = 0"
  shows "\<exists>s'. lwt_cgrp_rem g c s = Inr (VInt 0, s') \<and> lwt_inv s' \<and> members g s' = remove1 c (members g s) \<and>
    chans s' = (chans s)(c \<mapsto> ch\<lparr>cgroup := 0\<rparr>) \<and> thds s' = thds s \<and> grps s' = grps s \<and> kthds s' = kthds s"
proof -
  obtain D where l: "linked D s" and i0: "inv_but True {} {} {} {} (heads s) D (\<lambda>h. queue_of h s) s" by (rule lwt_invE [OF i])
  note m = inv_members [OF i g]
  have c0: "c \<noteq> 0" by (rule live_nonnull(2) [OF i0 c(1)])
  have "ChanNode c \<in> set (queue_of (GrpQ g) s)"
    using inv_butD(4) [OF i0] c(1,2) m(1) by (auto simp: groups_ok_def group_of_def)
  from queues_rem [OF l [unfolded linked_def] m(2) this]
  have q: "queues (list_ll_rem (ChanNode c) (lists s)) (heads s) (insert (ChanNode c) D)
      ((\<lambda>h. queue_of h s)(GrpQ g := remove1 (ChanNode c) (queue_of (GrpQ g) s)))" .
  let ?s' = "s\<lparr>lists := list_ll_rem (ChanNode c) (lists s), chans := (chans s)(c \<mapsto> ch\<lparr>cgroup := 0\<rparr>)\<rparr>"
  have r: "lwt_cgrp_rem g c s = Inr (VInt 0, ?s')" using c c0 by (simp add: lwt_cgrp_rem_def)
  have "queue_of (GrpQ g) ?s' = remove1 (ChanNode c) (queue_of (GrpQ g) s)"
    using list_foreach_queue [OF q m(2)] by (simp add: queue_of_def)
  also have "\<dots> = map ChanNode (remove1 c (members g s))" unfolding m(3) by (rule remove1_ChanNode)
  finally have "members g ?s' = remove1 c (members g s)" by (rule members_queue)
  moreover have "lwt_inv ?s'" using lwt_cgrp_rem_keeps [OF r] i m(1) by (simp add: lwt_inv_def)
  ultimately show ?thesis using r by (intro exI [of _ ?s']) simp
qed

section \<open>Waiting\<close>

text \<open>The scan of \<^verbatim>\<open>lwt_cgrp_wait\<close> finds the first member that is ready.\<close>

lemma scan_seg:
  "seg (lists s) (xs @ [h]) \<Longrightarrow> h \<notin> set xs \<Longrightarrow> scan_ready s h (hd (xs @ [h])) = Some (find (stop_at s) xs)"
proof (induction xs)
  case Nil
  show ?case by (subst scan_ready.simps) simp
next
  case (Cons x xs)
  then show ?case by (subst scan_ready.simps) (auto simp: seg_Cons)
qed

definition is_ready :: "sys \<Rightarrow> ptr \<Rightarrow> bool" where
  "is_ready s c \<longleftrightarrow> map_option ready (chans s c) = Some 1"

lemma find_map: "find P (map f xs) = map_option f (find (\<lambda>x. P (f x)) xs)"
  by (induction xs) auto

lemma scan_members:
  assumes i: "lwt_inv s" and g: "grps s g = Some y"
  shows "scan_ready s (GrpQ g) (list_head_first (GrpQ g) (lists s)) = Some (map_option ChanNode (find (is_ready s) (members g s)))"
proof -
  obtain D where l: "linked D s" by (rule lwt_invE [OF i])
  note m = inv_members [OF i g]
  have r: "ring (lists s) (GrpQ g) (map ChanNode (members g s))"
    using queuesD(1) [OF l [unfolded linked_def] m(2)] m(3) by simp
  have "stop_at s (ChanNode c) = is_ready s c" if "c \<in> set (members g s)" for c
    using m(5) [OF that] by (auto simp: stop_at_def is_ready_def)
  then have "find (\<lambda>c. stop_at s (ChanNode c)) (members g s) = find (is_ready s) (members g s)"
    by (intro find_cong) auto
  then show ?thesis
    using scan_seg [of s "map ChanNode (members g s)" "GrpQ g"] ring_first [OF r] r
    by (simp add: ring_def seg_Cons find_map list_head_first_def)
qed

lemma wait_finds:
  assumes i: "lwt_inv s" and g: "grps s g = Some y" and c: "find (is_ready s) (members g s) = Some c"
  shows "cgrp_wait_loop g t s = Inr (VPtr c, s\<lparr>grps := (grps s)(g \<mapsto> y\<lparr>blocked := 0\<rparr>)\<rparr>)"
proof -
  have "c \<in> set (members g s)" using c by (auto simp: find_Some_iff in_set_conv_nth)
  then obtain ch where "c \<noteq> 0" "chans s c = Some ch" using inv_members(5) [OF i g] by blast
  then show ?thesis using g inv_members(1) [OF i g] scan_members [OF i g] c by (simp add: cgrp_wait_loop_def)
qed

lemma wait_blocks:
  assumes c: "on_cpu s q" and n: "remove1 (ThdNode (lwt_current s)) q = ThdNode u # ns"
    and t: "thds s (lwt_current s) = Some x" and g: "grps s g = Some y" "find (is_ready s) (members g s) = None"
  shows "\<exists>v s'. cgrp_wait_loop g (lwt_current s) s = Inr (v, s') \<and> u \<noteq> lwt_current s \<and>
    requeue s s' (\<lambda>h. remove1 (ThdNode (lwt_current s)) (queue_of h s)) \<and> chans s' = chans s \<and>
    slept (s\<lparr>grps := (grps s)(g \<mapsto> y\<lparr>blocked := 1\<rparr>)\<rparr>) s' u (x\<lparr>tstate := LWT_BLOCKED, block_for := BLOCKED_RECEIVING\<rparr>)
      (KCgrpWait g (lwt_current s) # frames s (lwt_current s))"
proof -
  let ?k = "current_kthd s" and ?t = "lwt_current s" and ?s0 = "s\<lparr>grps := (grps s)(g \<mapsto> y\<lparr>blocked := 1\<rparr>)\<rparr>"
  have i: "lwt_inv s" using c by (simp add: on_cpu_def)
  obtain D where l: "linked D s" and i0: "inv_but True {} {} {} {} (heads s) D (\<lambda>h. queue_of h s) s" by (rule lwt_invE [OF i])
  note kH = heads_current [OF i] and qk = on_cpu_queue [OF c] and qs = l [unfolded linked_def]
  have td: "?t \<in> dom (thds s)" and nn: "?t \<noteq> 0" using t live_nonnull(1) [OF i0 t] by auto
  have "distinct q" using lq.rep_distinct [OF qs kH] qk by simp
  then have tu: "u \<noteq> ?t" using n by (metis list.set_intros(1) set_remove1_eq Diff_iff singletonI)
  have "ThdNode u \<in> set (queue_of (RunQ ?k) s)" using n qk by (metis list.set_intros(1) notin_set_remove1)
  then obtain z where u: "u \<noteq> 0" "thds s u = Some z" by (rule run_queue_threads [OF i0 kH]) auto
  let ?Q = "\<lambda>h. remove1 (ThdNode ?t) (queue_of h s)"
  let ?T = "(thds s)(?t \<mapsto> x\<lparr>tstate := LWT_BLOCKED, block_for := BLOCKED_RECEIVING\<rparr>)"
  let ?i = "(kthds s ?k)\<lparr>block_counter := block_counter (kthds s ?k) + 1, nrcving := nrcving (kthds s ?k) + 1\<rparr>"
  let ?s1 = "?s0\<lparr>lists := list_ll_rem (ThdNode ?t) (lists s), kthds := (kthds s)(?k := ?i), thds := ?T,
      frames := (frames s)(?t := KCgrpWait g ?t # frames s ?t)\<rparr>"
  have h1: "heads ?s1 = heads s" using g(1) by (intro heads_same) auto
  have e1: "lwt_current ?s1 = ?t" "current_kthd ?s1 = ?k" "lwt_current ?s0 = ?t" by (simp_all add: lwt_current_def)
  have q1: "queues (lists ?s1) (heads ?s1) (insert (ThdNode ?t) D) ?Q" unfolding h1 using unlink_thread [OF i0 td] by simp
  have hd: "?Q (RunQ ?k) = ThdNode u # ns" using n qk by simp
  have pf: "polling_flag (kthds ?s1 j) = 0" for j using inv_polling [OF i] by simp
  have "\<exists>v s'. lwt_schedule ?s1 = Inr (v, s') \<and> requeue ?s1 s' ?Q \<and> switched ?s1 s' u"
    by (rule schedule_head [OF q1 _ _ pf]) (use h1 e1 kH hd u nn td in auto)
  then obtain v s' where s': "lwt_schedule ?s1 = Inr (v, s')" "requeue ?s1 s' ?Q" "switched ?s1 s' u" by blast
  have "cgrp_wait_loop g ?t s = lwt_schedule ?s1"
    using nn t g inv_members(1) [OF i g(1)] scan_members [OF i g(1)]
    by (simp add: cgrp_wait_loop_def Let_def push_def lwt_current_def lwt_yield_def may_run_def)
  moreover have "slept ?s0 s' u (x\<lparr>tstate := LWT_BLOCKED, block_for := BLOCKED_RECEIVING\<rparr>) (KCgrpWait g ?t # frames s ?t)"
    by (rule switched_slept [OF s'(3)]) (use e1 in simp_all)
  ultimately show ?thesis using s' h1 tu by (intro exI [of _ v] exI [of _ s']) (simp add: requeue_def switched_def)
qed

lemma cgrp_wait_nonempty:
  assumes "lwt_inv s" "grps s g = Some y" "members g s \<noteq> []"
  shows "lwt_cgrp_wait g s = cgrp_wait_loop g (lwt_current s) s"
proof -
  obtain D where l: "linked D s" by (rule lwt_invE [OF assms(1)])
  note m = inv_members [OF assms(1,2)]
  have "\<not> list_head_empty (GrpQ g) (lists s)" using lq.empty_rep [OF l [unfolded linked_def] m(2)] m(3) assms(3) by simp
  then show ?thesis using assms(2) m(1) by (simp add: lwt_cgrp_wait_def)
qed

section \<open>A send to a member wakes the group's owner\<close>

lemma snd_event:
  assumes i: "lwt_inv s" and l: "local_chan c s" and ch: "chans s c = Some ch" "cgroup ch = g"
    and z: "thds s (receiver ch) = Some z" "\<not> receiver_waits ch c z" and g: "grps s g = Some y" "blocked y \<noteq> 0"
    and x: "thds s (owner y) = Some x" and w: "thds s (lwt_current s) = Some w"
    and room: "ring_not_full (chan_size ch) (buffer ch)" "tail (buffer ch) < int_max"
  shows "\<exists>s'. lwt_snd c d s = Inr (VInt 0, s') \<and> pending c s' = pending c s @ [d] \<and> local_chan c s' \<and> is_ready s' c \<and>
    (\<forall>e. e \<noteq> c \<longrightarrow> chans s' e = chans s e) \<and> thds s' = (thds s)(owner y \<mapsto> x\<lparr>tstate := LWT_RUNNABLE\<rparr>) \<and>
    lwt_current s' = lwt_current s \<and> current_kthd s' = current_kthd s \<and> frames s' = frames s \<and> grps s' = grps s \<and>
    requeue s s' (woken (owner y) (owner_kthd w) (\<lambda>h. queue_of h s))"
proof -
  obtain D where i0: "inv_but True {} {} {} {} (heads s) D (\<lambda>h. queue_of h s) s" by (rule lwt_invE [OF i])
  have nn: "c \<noteq> 0" "g \<noteq> 0" "receiver ch \<noteq> 0" using inv_chan(1) [OF i ch(1)] live_nonnull [OF i0] g(1) z(1) by blast+
  have ok: "ring_ok (chan_size ch) (buffer ch)" "senders c s = []" "chan_ty ch = LOCAL_CHAN" using l ch(1) room(1) by (auto simp: local_chan_def)
  let ?sA = "s\<lparr>chans := (chans s)(c \<mapsto> ch\<lparr>ready := 1\<rparr>)\<rparr>"
  have iA: "lwt_inv ?sA" unfolding lwt_inv_def by (rule mid_inv_chan [OF i [unfolded lwt_inv_def] ch(1)]) simp
  have hA: "heads ?sA = heads s" by (rule heads_chan) (use ch(1) in blast)
  have A: "lwt_current ?sA = lwt_current s" "heads ?sA = heads s" "queue_of h ?sA = queue_of h s" for h
    using hA by (simp_all add: lwt_current_def queue_of_def)
  have xA: "thds ?sA (owner y) = Some x" "thds ?sA (lwt_current ?sA) = Some w" using x w A(1) by simp_all
  obtain sB where sB: "resume_thread (owner y) ?sA = Inr sB" "requeue ?sA sB (woken (owner y) (owner_kthd w) (\<lambda>h. queue_of h ?sA))"
    "thds sB = (thds ?sA)(owner y \<mapsto> x\<lparr>tstate := LWT_RUNNABLE\<rparr>)" "chans sB = chans ?sA" "grps sB = grps ?sA"
    "lwt_current sB = lwt_current ?sA" "current_kthd sB = current_kthd ?sA" "frames sB = frames ?sA"
    using resume_thread_effect [OF iA xA] by blast
  have "tail (buffer ch) - head (buffer ch) < chan_size ch"
    using ok(1) room(1) by (auto simp: ring_ok_def ring_not_full_def)
  then obtain bf where bf: "ring_put (chan_size ch) d (buffer ch) = Inr bf" "ring_ok (chan_size ch) bf"
    "ring_items (chan_size ch) bf = ring_items (chan_size ch) (buffer ch) @ [d]"
    using ring_put_ok [OF ok(1) _ room(2), of d] by auto
  let ?s' = "sB\<lparr>chans := (chans sB)(c \<mapsto> ch\<lparr>ready := 1, buffer := bf\<rparr>)\<rparr>"
  have r: "lwt_snd c d s = Inr (VInt 0, ?s')"
    using nn ch z g sB(1,4) ok(3) room(1) bf(1) by (simp add: lwt_snd_def wake_group_def Let_def)
  have hB: "heads ?s' = heads sB" by (rule heads_chan) (use sB(4) in simp)
  have q: "requeue s ?s' (woken (owner y) (owner_kthd w) (\<lambda>h. queue_of h s))"
    using sB(2) hB unfolding requeue_def A(2,3) by simp
  have "queue_of (SendQ c) s = []" using inv_senders(1) [OF i ch(1)] ok(2) by simp
  then have "queue_of (SendQ c) ?s' = []" using queue_of_requeue [OF q inv_chan(2) [OF i ch(1)]] by (simp add: woken_def)
  then have se: "senders c ?s' = []" by (simp add: senders_def)
  then have "pending c ?s' = pending c s @ [d]" using ok(2) ch(1) bf(3) by (simp add: pending_def buffered_def)
  moreover have "local_chan c ?s'" using ok(3) bf(2) se by (simp add: local_chan_def)
  moreover have "lwt_current ?s' = lwt_current s" using sB(6) A(1) by (simp add: lwt_current_def)
  ultimately show ?thesis using r q sB(3-5,7,8) by (intro exI [of _ ?s']) (simp add: is_ready_def)
qed

text \<open>Two threads, the current one about to wait in a group none of whose channels is ready.\<close>

definition waiter :: "ptr \<Rightarrow> ptr \<Rightarrow> ptr \<Rightarrow> ptr \<Rightarrow> sys \<Rightarrow> bool" where
  "waiter a b g c s \<longleftrightarrow> in_turn s [ThdNode a, ThdNode b] \<and> local_chan c s \<and> c \<in> set (members g s) \<and>
     map_option owner (grps s g) = Some a \<and> find (is_ready s) (members g s) = None \<and>
     map_option receiver (chans s c) = Some a"

lemma waiter_waits:
  assumes "waiter a b g c s"
  obtains x y z ch v s1 where "a \<noteq> b" "thds s a = Some x" "grps s g = Some y" "owner y = a" "thds s b = Some z"
    "owner_kthd z = current_kthd s" "chans s c = Some ch" "cgroup ch = g" "receiver ch = a" "c \<noteq> 0" "lwt_inv s1"
    "lwt_cgrp_wait g s = Inr (v, s1)" "lwt_current s1 = b" "current_kthd s1 = current_kthd s" "chans s1 = chans s"
    "grps s1 = (grps s)(g \<mapsto> y\<lparr>blocked := 1\<rparr>)" "heads s1 = heads s"
    "\<And>h. h \<in> heads s \<Longrightarrow> queue_of h s1 = remove1 (ThdNode a) (queue_of h s)" "queue_of (RunQ (current_kthd s)) s1 = [ThdNode b]"
    "queue_of (GrpQ g) s1 = queue_of (GrpQ g) s" "owner_kthd x = current_kthd s"
    "thds s1 a = Some (saved (x\<lparr>tstate := LWT_BLOCKED, block_for := BLOCKED_RECEIVING\<rparr>))" "thds s1 b = Some (z\<lparr>tstate := LWT_RUNNING\<rparr>)"
    "frames s1 a = KCgrpWait g a # frames s a"
proof -
  have t: "in_turn s [ThdNode a, ThdNode b]" using assms by (simp add: waiter_def)
  note f = in_turn_facts [OF t]
  have a: "lwt_current s = a" "a \<noteq> b" using t f(2) by (simp_all add: in_turn_def)
  obtain x where x: "thds s a = Some x" "owner_kthd x = current_kthd s" using f(5) [of a] by auto
  obtain z where z: "thds s b = Some z" "owner_kthd z = current_kthd s" using f(5) [of b] by auto
  obtain y where y: "grps s g = Some y" "owner y = a" using assms by (auto simp: waiter_def)
  obtain ch where ch: "c \<noteq> 0" "chans s c = Some ch" "cgroup ch = g" "receiver ch = a"
    using assms inv_members(5) [OF f(1) y(1), of c] by (auto simp: waiter_def)
  have n: "remove1 (ThdNode (lwt_current s)) [ThdNode a, ThdNode b] = ThdNode b # []" using a by simp
  have xc: "thds s (lwt_current s) = Some x" using x a by simp
  have no: "find (is_ready s) (members g s) = None" "members g s \<noteq> []" using assms by (auto simp: waiter_def)
  let ?s0 = "s\<lparr>grps := (grps s)(g \<mapsto> y\<lparr>blocked := 1\<rparr>)\<rparr>"
  obtain v s1 where s1: "cgrp_wait_loop g (lwt_current s) s = Inr (v, s1)"
    "requeue s s1 (\<lambda>h. remove1 (ThdNode (lwt_current s)) (queue_of h s))" "chans s1 = chans s"
    "slept ?s0 s1 b (x\<lparr>tstate := LWT_BLOCKED, block_for := BLOCKED_RECEIVING\<rparr>) (KCgrpWait g (lwt_current s) # frames s (lwt_current s))"
    using wait_blocks [OF in_turn_on_cpu [OF t] n xc y(1) no(1)] by blast
  have c0: "lwt_current ?s0 = a" using a(1) by (simp add: lwt_current_def)
  have w: "lwt_cgrp_wait g s = Inr (v, s1)" using cgrp_wait_nonempty [OF f(1) y(1) no(2)] s1(1) by simp
  have "lwt_inv s1" using lwt_cgrp_wait_keeps [OF w] f(1) by (simp add: lwt_inv_def)
  moreover have "thds s1 a = Some (saved (x\<lparr>tstate := LWT_BLOCKED, block_for := BLOCKED_RECEIVING\<rparr>))"
    "frames s1 a = KCgrpWait g a # frames s a" using slept_old [OF s1(4)] c0 a by simp_all
  moreover have "thds s1 b = Some (z\<lparr>tstate := LWT_RUNNING\<rparr>)" using slept_new(1) [OF s1(4), of z] c0 a z by simp
  moreover have q: "queue_of h s1 = remove1 (ThdNode a) (queue_of h s)" if "h \<in> heads s" for h
    using s1(2) that a(1) by (simp add: requeue_def queue_of_def)
  note m = inv_members [OF f(1) y(1)]
  have "queue_of (RunQ (current_kthd s)) s1 = [ThdNode b]" "queue_of (GrpQ g) s1 = queue_of (GrpQ g) s"
    using q [OF f(3)] q [OF m(2)] f(4) m(3) remove1_ThdNode_map by simp_all
  ultimately show thesis
    using that [OF a(2) x(1) y(1,2) z ch(2-4,1) _ w] slept_cpu [OF s1(4)] s1(2,3) x(2) q by (simp add: requeue_def)
qed

lemma find_only:
  "find P xs = None \<Longrightarrow> c \<in> set xs \<Longrightarrow> P' c \<Longrightarrow> (\<And>e. e \<noteq> c \<Longrightarrow> P' e = P e) \<Longrightarrow> find P' xs = Some c"
  by (induction xs) (auto split: if_splits)

lemma woken_waiter:
  assumes "requeue s1 s2 (woken a k (\<lambda>h. queue_of h s1))" "RunQ k \<in> heads s1" "GrpQ g \<in> heads s1"
    "queue_of (RunQ k) s1 = [ThdNode b]" "queue_of (GrpQ g) s1 = map ChanNode cs" "a \<noteq> b"
  shows "list_foreach (RunQ k) (lists s2) = Some [ThdNode a, ThdNode b]" "queue_of (GrpQ g) s2 = map ChanNode cs"
    "GrpQ g \<in> heads s2"
  using assms remove1_ThdNode_map by (simp_all add: requeue_def woken_def queue_of_def)

text \<open>The woken waiter goes on in the loop of \<^verbatim>\<open>lwt_cgrp_wait\<close>, with the same members to look at.\<close>

lemma waiter_back:
  assumes i: "lwt_inv s" and run: "list_foreach (RunQ (current_kthd s)) (lists s) = Some [ThdNode a, ThdNode b]"
    and b: "lwt_current s = b" "a \<noteq> b" "map_option owner_kthd (thds s b) = Some (current_kthd s)"
    and x: "thds s a = Some x" "ip (ctx x) = RetDispatch" "owner_kthd x = current_kthd s"
    and fr: "frames s a = KCgrpWait g a # fs" and g: "GrpQ g \<in> heads s"
  shows "\<exists>v s'. lwt_yield 0 s = Inr (v, s') \<and> lwt_current s' = a \<and> continue v s' = cgrp_wait_loop g a (pop s') \<and>
    on_cpu (pop s') [ThdNode a, ThdNode b] \<and> lwt_inv (pop s') \<and> chans s' = chans s \<and> grps s' = grps s \<and>
    queue_of (GrpQ g) (pop s') = queue_of (GrpQ g) s \<and> thds s' a = Some (x\<lparr>tstate := LWT_RUNNING\<rparr>) \<and>
    frames (pop s') a = fs \<and> current_kthd s' = current_kthd s"
proof -
  have cpu: "on_cpu s [ThdNode a, ThdNode b]" using i run b by (simp add: on_cpu_def)
  obtain v s' where s': "lwt_yield 0 s = Inr (v, s')" "lwt_current s' = a" "current_kthd s' = current_kthd s" "on_cpu s' [ThdNode a, ThdNode b]"
    "frames s' = frames s" "chans s' = chans s" "grps s' = grps s" "heads s' = heads s"
    "\<forall>h\<in>heads s. list_foreach h (lists s') = Some (queue_of h s)" "thds s' a = Some (x\<lparr>tstate := LWT_RUNNING\<rparr>)"
    "thds s' b = map_option saved (thds s b)" "mem s' = mem s"
    by (rule yield_back [OF cpu b(1,2) x])
  have f: "frames s' (lwt_current s') = KCgrpWait g a # fs" using s'(2,5) fr by simp
  have "continue v s' = cgrp_wait_loop g a (pop s')" using continue_top [OF f, of v] by simp
  moreover have "on_cpu (pop s') [ThdNode a, ThdNode b]" "lwt_inv (pop s')" using s'(4) by (simp_all add: on_cpu_def lwt_inv_def)
  moreover have "queue_of h (pop s') = queue_of h s" if "h \<in> heads s" for h using s'(9) that by (simp add: queue_of_def)
  moreover have "frames (pop s') a = fs" using f s'(2) by (metis pop_simps(8) list.sel(3))
  ultimately show ?thesis using s' g by blast
qed

section \<open>Properties\<close>

text \<open>
  Group membership round trip: adding a channel that is in no group puts it before the last
  member and keeps the invariant; removing it again, if it is not ready, restores both the
  members and every channel. A channel that is in a group already is refused with -1, the
  removal of a ready one with 1, the removal from another group with -1, nothing changed.
\<close>

theorem group_add_rem:
  assumes "lwt_inv s" "grps s g = Some y" "chans s c = Some ch"
  shows "(cgroup ch = 0 \<longrightarrow> (\<exists>s1. lwt_cgrp_add g c s = Inr (VInt 0, s1) \<and> lwt_inv s1 \<and>
      members g s1 = insert_before_last c (members g s) \<and>
      (ready ch = 0 \<longrightarrow> (\<exists>s2. lwt_cgrp_rem g c s1 = Inr (VInt 0, s2) \<and> lwt_inv s2 \<and>
         members g s2 = members g s \<and> chans s2 = chans s)))) \<and>
    (cgroup ch \<noteq> 0 \<longrightarrow> lwt_cgrp_add g c s = Inr (VInt (- 1), s)) \<and>
    (ready ch \<noteq> 0 \<longrightarrow> lwt_cgrp_rem g c s = Inr (VInt 1, s)) \<and>
    (ready ch = 0 \<and> cgroup ch \<noteq> g \<longrightarrow> lwt_cgrp_rem g c s = Inr (VInt (- 1), s))"
proof -
  have c0: "c \<noteq> 0" by (rule inv_chan(1) [OF assms(1,3)])
  have "\<exists>s1. lwt_cgrp_add g c s = Inr (VInt 0, s1) \<and> lwt_inv s1 \<and> members g s1 = insert_before_last c (members g s) \<and>
      (ready ch = 0 \<longrightarrow> (\<exists>s2. lwt_cgrp_rem g c s1 = Inr (VInt 0, s2) \<and> lwt_inv s2 \<and>
         members g s2 = members g s \<and> chans s2 = chans s))" if z: "cgroup ch = 0"
  proof -
    note g0 = inv_members(1) [OF assms(1,2)]
    have nin: "c \<notin> set (members g s)" using inv_members(5) [OF assms(1,2), of c] assms(3) z g0 by auto
    obtain s1 where s1: "lwt_cgrp_add g c s = Inr (VInt 0, s1)" "lwt_inv s1" "members g s1 = insert_before_last c (members g s)"
      "chans s1 = (chans s)(c \<mapsto> ch\<lparr>cgroup := g\<rparr>)" "grps s1 = grps s"
      using cgrp_add_effect [OF assms z] by blast
    have "remove1 c (insert_before_last c (members g s)) = members g s"
      using nin by (cases "members g s" rule: rev_cases) (auto simp: insert_before_last_def remove1_append)
    moreover have "(chans s1)(c \<mapsto> (ch\<lparr>cgroup := g\<rparr>)\<lparr>cgroup := 0\<rparr>) = chans s" using s1(4) assms(3) z by (cases ch) (auto simp: fun_upd_idem)
    moreover have "ready ch = 0 \<Longrightarrow> \<exists>s2. lwt_cgrp_rem g c s1 = Inr (VInt 0, s2) \<and> lwt_inv s2 \<and> members g s2 = remove1 c (members g s1) \<and>
        chans s2 = (chans s1)(c \<mapsto> (ch\<lparr>cgroup := g\<rparr>)\<lparr>cgroup := 0\<rparr>)"
      using cgrp_rem_effect [OF s1(2), of g y c "ch\<lparr>cgroup := g\<rparr>"] s1(4,5) assms(2) by auto
    ultimately show ?thesis using s1(1-3) by metis
  qed
  then show ?thesis using c0 assms(3) by (auto simp: lwt_cgrp_add_def lwt_cgrp_rem_def)
qed

text \<open>
  C33 Release of a group: with any member, ready or not, \<^verbatim>\<open>lwt_cgrp_free\<close> returns -1 and
  changes nothing; the empty group is freed, its memory given back, and 0 returned.
\<close>

theorem group_free:
  assumes "lwt_inv s" "grps s g = Some y"
  shows "(members g s \<noteq> [] \<longrightarrow> lwt_cgrp_free g s = Inr (VInt (- 1), s)) \<and>
    (members g s = [] \<longrightarrow> (\<exists>s'. lwt_cgrp_free g s = Inr (VInt 0, s') \<and> lwt_inv s' \<and> grps s' = (grps s)(g := None) \<and>
       chans s' = chans s \<and> thds s' = thds s \<and> lists s' = lists s))"
proof -
  obtain D where l: "linked D s" and i0: "inv_but True {} {} {} {} (heads s) D (\<lambda>h. queue_of h s) s" by (rule lwt_invE [OF assms(1)])
  note m = inv_members [OF assms] and qs = l [unfolded linked_def]
  have fst: "list_head_first (GrpQ g) (lists s) = (case members g s of [] \<Rightarrow> GrpQ g | c # _ \<Rightarrow> ChanNode c)"
    using lq.first_rep [OF qs m(2)] m(3) by (auto split: list.splits)
  have "\<exists>s'. lwt_cgrp_free g s = Inr (VInt 0, s') \<and> lwt_inv s' \<and> grps s' = (grps s)(g := None) \<and>
       chans s' = chans s \<and> thds s' = thds s \<and> lists s' = lists s" if e: "members g s = []"
  proof -
    obtain B where B: "uheap (mem s) B" "dom (thds s) \<union> dom (chans s) \<union> dom (grps s) \<union> dom (wraps s) \<union> {} \<subseteq> B"
      by (rule inv_uheap [OF assms(1) [unfolded lwt_inv_def]])
    then have "g \<in> B" using assms(2) by blast
    then obtain m' where "ufree g (mem s) = Some m'" using um.free_ok [OF B(1)] by blast
    then have r: "lwt_cgrp_free g s = Inr (VInt 0, s\<lparr>mem := m', grps := (grps s)(g := None)\<rparr>)"
      using assms(2) m(1,3) fst e foreach_linked [OF l m(2)] by (simp add: lwt_cgrp_free_def mfree_def)
    then show ?thesis using lwt_cgrp_free_keeps [OF r] assms(1) by (simp add: lwt_inv_def)
  qed
  moreover have "lwt_cgrp_free g s = Inr (VInt (- 1), s)" if ne: "members g s \<noteq> []"
  proof -
    obtain c cs where c: "members g s = c # cs" using ne by (cases "members g s") auto
    obtain ch where "c \<noteq> 0" "chans s c = Some ch" using m(5) [of c] c by auto
    then show ?thesis using assms(2) m(1) fst c by (simp add: lwt_cgrp_free_def)
  qed
  ultimately show ?thesis by blast
qed

text \<open>
  C32 Waiting on a group: with no member the call returns \<^verbatim>\<open>NULL\<close>; with a ready member it
  returns the first ready one in member order, without blocking and with \<^verbatim>\<open>blocked\<close> cleared;
  otherwise the caller leaves the run queue, \<^verbatim>\<open>blocked\<close> is set and the next thread runs.
\<close>

theorem group_wait:
  assumes "on_cpu s q" "remove1 (ThdNode (lwt_current s)) q = ThdNode u # ns" "grps s g = Some y"
  shows "(members g s = [] \<longrightarrow> lwt_cgrp_wait g s = Inr (VPtr 0, s)) \<and>
    (\<forall>c. find (is_ready s) (members g s) = Some c \<longrightarrow>
       lwt_cgrp_wait g s = Inr (VPtr c, s\<lparr>grps := (grps s)(g \<mapsto> y\<lparr>blocked := 0\<rparr>)\<rparr>)) \<and>
    (members g s \<noteq> [] \<and> find (is_ready s) (members g s) = None \<longrightarrow>
       (\<exists>v s'. lwt_cgrp_wait g s = Inr (v, s') \<and> lwt_current s' = u \<and> grps s' = (grps s)(g \<mapsto> y\<lparr>blocked := 1\<rparr>) \<and>
          chans s' = chans s \<and> list_foreach (RunQ (current_kthd s)) (lists s') = Some (ThdNode u # ns) \<and>
          map_option (\<lambda>x. (tstate x, block_for x)) (thds s' (lwt_current s)) = Some (LWT_BLOCKED, BLOCKED_RECEIVING) \<and>
          frames s' (lwt_current s) = KCgrpWait g (lwt_current s) # frames s (lwt_current s)))"
proof (intro conjI allI impI)
  have i: "lwt_inv s" using assms(1) by (simp add: on_cpu_def)
  obtain D where l: "linked D s" by (rule lwt_invE [OF i])
  note m = inv_members [OF i assms(3)]
  have "list_head_empty (GrpQ g) (lists s) \<longleftrightarrow> members g s = []"
    using lq.empty_rep [OF l [unfolded linked_def] m(2)] m(3) by simp
  then show "members g s = [] \<Longrightarrow> lwt_cgrp_wait g s = Inr (VPtr 0, s)" using assms(3) m(1) by (simp add: lwt_cgrp_wait_def)
  show "lwt_cgrp_wait g s = Inr (VPtr c, s\<lparr>grps := (grps s)(g \<mapsto> y\<lparr>blocked := 0\<rparr>)\<rparr>)"
    if c: "find (is_ready s) (members g s) = Some c" for c
  proof -
    have "members g s \<noteq> []" using c by auto
    then show ?thesis using cgrp_wait_nonempty [OF i assms(3)] wait_finds [OF i assms(3) c] by simp
  qed
  assume n: "members g s \<noteq> [] \<and> find (is_ready s) (members g s) = None"
  obtain x where x: "thds s (lwt_current s) = Some x" using assms(1) by (auto simp: on_cpu_def)
  let ?s0 = "s\<lparr>grps := (grps s)(g \<mapsto> y\<lparr>blocked := 1\<rparr>)\<rparr>"
  obtain v s' where s': "cgrp_wait_loop g (lwt_current s) s = Inr (v, s')" "u \<noteq> lwt_current s"
    "requeue s s' (\<lambda>h. remove1 (ThdNode (lwt_current s)) (queue_of h s))" "chans s' = chans s"
    "slept ?s0 s' u (x\<lparr>tstate := LWT_BLOCKED, block_for := BLOCKED_RECEIVING\<rparr>) (KCgrpWait g (lwt_current s) # frames s (lwt_current s))"
    using wait_blocks [OF assms(1,2) x assms(3) n [THEN conjunct2]] by blast
  have c0: "lwt_current ?s0 = lwt_current s" by (simp add: lwt_current_def)
  have "list_foreach (RunQ (current_kthd s)) (lists s') = Some (ThdNode u # ns)"
    using s'(3) heads_current [OF i] on_cpu_queue [OF assms(1)] assms(2) by (simp add: requeue_def)
  then show "\<exists>v s'. lwt_cgrp_wait g s = Inr (v, s') \<and> lwt_current s' = u \<and> grps s' = (grps s)(g \<mapsto> y\<lparr>blocked := 1\<rparr>) \<and>
          chans s' = chans s \<and> list_foreach (RunQ (current_kthd s)) (lists s') = Some (ThdNode u # ns) \<and>
          map_option (\<lambda>x. (tstate x, block_for x)) (thds s' (lwt_current s)) = Some (LWT_BLOCKED, BLOCKED_RECEIVING) \<and>
          frames s' (lwt_current s) = KCgrpWait g (lwt_current s) # frames s (lwt_current s)"
    using cgrp_wait_nonempty [OF i assms(3)] n s'(1,2,4) slept_cpu [OF s'(5)] slept_old [OF s'(5)] c0
    by (intro exI [of _ v] exI [of _ s']) simp
qed

text \<open>A receiver that blocks leaves alone what is pending on a channel with room.\<close>

lemma roomy_kept:
  assumes i: "lwt_inv s" and lc: "local_chan c s" and ch: "chans s c = Some ch" and room: "ring_not_full (chan_size ch) (buffer ch)"
    and e: "chans s' = chans s" "\<And>h. h \<in> heads s \<Longrightarrow> queue_of h s' = remove1 n (queue_of h s)"
  shows "local_chan c s'" "pending c s' = pending c s"
proof -
  have se: "senders c s = []" using lc ch room by (simp add: local_chan_def)
  then have "queue_of (SendQ c) s = []" using inv_senders(1) [OF i ch] by simp
  then have se': "senders c s' = []" using e(2) [OF inv_chan(2) [OF i ch]] by (simp add: senders_def)
  show "local_chan c s'" using lc se' se ch e(1) by (simp add: local_chan_def)
  show "pending c s' = pending c s" using se se' e(1) by (simp add: pending_def buffered_def)
qed

text \<open>
  C13 An event: a thread waits on a group; another sends a word to a member the waiter receives
  from, and yields. Provided that the member's ring has room (and its counter \<^verbatim>\<open>tail\<close> can still
  count), and that the last \<^verbatim>\<open>lwt_rcv\<close> which blocked the waiter was not on that very channel
  (\<^verbatim>\<open>now_rcving\<close>; \<open>group_event_lost\<close> shows what happens when it was), the word is pending on the
  channel, and the waiter's \<^verbatim>\<open>lwt_cgrp_wait\<close> returns that channel.
\<close>

theorem group_event:
  assumes "waiter a b g c s" "chans s c = Some ch" "ring_not_full (chan_size ch) (buffer ch)" "tail (buffer ch) < int_max"
    "map_option now_rcving (thds s a) \<noteq> Some c"
  shows "\<exists>v1 s1 s2 v3 s3 s4. lwt_cgrp_wait g s = Inr (v1, s1) \<and> lwt_current s1 = b \<and> lwt_snd c d s1 = Inr (VInt 0, s2) \<and>
    pending c s2 = pending c s @ [d] \<and> lwt_yield 0 s2 = Inr (v3, s3) \<and> lwt_current s3 = a \<and>
    continue v3 s3 = Inr (VPtr c, s4) \<and> map_option blocked (grps s4 g) = Some 0"
proof (rule waiter_waits [OF assms(1)])
  fix x y z ch' v1 s1
  assume w: "a \<noteq> b" "grps s g = Some y" "owner y = a" "owner_kthd z = current_kthd s"
    "chans s c = Some ch'" "cgroup ch' = g" "receiver ch' = a" "thds s a = Some x" and i1: "lwt_inv s1"
    and w1: "lwt_cgrp_wait g s = Inr (v1, s1)" "lwt_current s1 = b" "current_kthd s1 = current_kthd s" "chans s1 = chans s"
      "grps s1 = (grps s)(g \<mapsto> y\<lparr>blocked := 1\<rparr>)" "heads s1 = heads s"
    and q1: "\<And>h. h \<in> heads s \<Longrightarrow> queue_of h s1 = remove1 (ThdNode a) (queue_of h s)" "queue_of (RunQ (current_kthd s)) s1 = [ThdNode b]"
      "queue_of (GrpQ g) s1 = queue_of (GrpQ g) s" and xo: "owner_kthd x = current_kthd s"
    and t1: "thds s1 a = Some (saved (x\<lparr>tstate := LWT_BLOCKED, block_for := BLOCKED_RECEIVING\<rparr>))" (is "_ = Some ?xa")
      "thds s1 b = Some (z\<lparr>tstate := LWT_RUNNING\<rparr>)" "frames s1 a = KCgrpWait g a # frames s a"
  have no: "find (is_ready s) (members g s) = None" "c \<in> set (members g s)" and lc: "local_chan c s" and i: "lwt_inv s"
    using assms(1) by (auto simp: waiter_def in_turn_def)
  have ch: "ch' = ch" using w(5) assms(2) by simp
  note l1 = roomy_kept [OF i lc assms(2,3) w1(4) q1(1)]
  have h: "chans s1 c = Some ch" "cgroup ch = g" "thds s1 (receiver ch) = Some ?xa" "\<not> receiver_waits ch c ?xa"
    "grps s1 g = Some (y\<lparr>blocked := 1\<rparr>)" "blocked (y\<lparr>blocked := 1\<rparr>) \<noteq> 0" "thds s1 (owner (y\<lparr>blocked := 1\<rparr>)) = Some ?xa"
    "thds s1 (lwt_current s1) = Some (z\<lparr>tstate := LWT_RUNNING\<rparr>)"
    using assms(2,5) w w1 t1 ch by (simp_all add: receiver_waits_def)
  obtain s2 where s2: "lwt_snd c d s1 = Inr (VInt 0, s2)" "pending c s2 = pending c s1 @ [d]" "is_ready s2 c"
    "\<forall>e. e \<noteq> c \<longrightarrow> chans s2 e = chans s1 e" "thds s2 = (thds s1)(owner (y\<lparr>blocked := 1\<rparr>) \<mapsto> ?xa\<lparr>tstate := LWT_RUNNABLE\<rparr>)"
    "lwt_current s2 = lwt_current s1" "current_kthd s2 = current_kthd s1" "frames s2 = frames s1" "grps s2 = grps s1"
    "requeue s1 s2 (woken (owner (y\<lparr>blocked := 1\<rparr>)) (owner_kthd (z\<lparr>tstate := LWT_RUNNING\<rparr>)) (\<lambda>h. queue_of h s1))"
    using snd_event [OF i1 l1(1) h assms(3,4), of d] by blast
  have rq: "requeue s1 s2 (woken a (current_kthd s) (\<lambda>h. queue_of h s1))" using s2(10) w(3,4) by simp
  note m = inv_members [OF i w(2)]
  have H1: "RunQ (current_kthd s) \<in> heads s1" "GrpQ g \<in> heads s1" using heads_current [OF i] m(2) w1(6) by simp_all
  note q2 = woken_waiter [OF rq H1 q1(2) _ w(1), unfolded q1(3), OF m(3)]
  have i2: "lwt_inv s2" using lwt_snd_keeps [OF s2(1)] i1 by (simp add: lwt_inv_def)
  have e: "list_foreach (RunQ (current_kthd s2)) (lists s2) = Some [ThdNode a, ThdNode b]" "lwt_current s2 = b"
    "map_option owner_kthd (thds s2 b) = Some (current_kthd s2)" "thds s2 a = Some (?xa\<lparr>tstate := LWT_RUNNABLE\<rparr>)"
    "owner_kthd (?xa\<lparr>tstate := LWT_RUNNABLE\<rparr>) = current_kthd s2" "ip (ctx (?xa\<lparr>tstate := LWT_RUNNABLE\<rparr>)) = RetDispatch"
    "frames s2 a = KCgrpWait g a # frames s a"
    using q2(1) s2(5-8) w(1,3,4) w1(2,3) t1 xo by simp_all
  obtain v3 s3 where s3: "lwt_yield 0 s2 = Inr (v3, s3)" "lwt_current s3 = a" "continue v3 s3 = cgrp_wait_loop g a (pop s3)"
    and "on_cpu (pop s3) [ThdNode a, ThdNode b]" and i3: "lwt_inv (pop s3)"
    and c3: "chans s3 = chans s2" "grps s3 = grps s2" "queue_of (GrpQ g) (pop s3) = queue_of (GrpQ g) s2"
    and "thds s3 a = Some ((?xa\<lparr>tstate := LWT_RUNNABLE\<rparr>)\<lparr>tstate := LWT_RUNNING\<rparr>)" "frames (pop s3) a = frames s a"
    and "current_kthd s3 = current_kthd s2"
    using waiter_back [OF i2 e(1,2) w(1) e(3,4,6,5,7) q2(3)] by blast
  have mem: "members g (pop s3) = members g s" by (rule members_queue) (use c3(3) q2(2) in simp)
  have "find (is_ready (pop s3)) (members g s) = Some c"
    by (rule find_only [OF no]) (use s2(3,4) c3(1) w1(4) in \<open>auto simp: is_ready_def\<close>)
  then have fd: "find (is_ready (pop s3)) (members g (pop s3)) = Some c" using mem by simp
  have g3: "grps (pop s3) g = Some (y\<lparr>blocked := 1\<rparr>)" using c3(2) s2(9) h(5) by simp
  have "continue v3 s3 = Inr (VPtr c, (pop s3)\<lparr>grps := (grps (pop s3))(g \<mapsto> y\<lparr>blocked := 1, blocked := 0\<rparr>)\<rparr>)"
    using s3(3) wait_finds [OF i3 g3 fd] by simp
  then show ?thesis using w1(1,2) s2(1,2) l1(2) s3(1,2) by (intro exI) auto
qed

text \<open>A woken waiter that finds no member ready goes back to sleep.\<close>

lemma waiter_sleeps_again:
  assumes cpu: "on_cpu (pop s) [ThdNode a, ThdNode b]" and i: "lwt_inv (pop s)" and a: "lwt_current s = a" "a \<noteq> b"
    and x: "thds s a = Some x" and y: "grps s g = Some y" and no: "find (is_ready (pop s)) (members g (pop s)) = None"
  obtains v s' where "cgrp_wait_loop g a (pop s) = Inr (v, s')" "lwt_current s' = b" "chans s' = chans s"
    "frames s' a = KCgrpWait g a # frames (pop s) a" "map_option tstate (thds s' a) = Some LWT_BLOCKED"
    "list_foreach (RunQ (current_kthd s)) (lists s') = Some [ThdNode b]"
proof -
  have p: "remove1 (ThdNode (lwt_current (pop s))) [ThdNode a, ThdNode b] = ThdNode b # []" "thds (pop s) (lwt_current (pop s)) = Some x"
    "grps (pop s) g = Some y" using a x y by simp_all
  let ?s0 = "(pop s)\<lparr>grps := (grps (pop s))(g \<mapsto> y\<lparr>blocked := 1\<rparr>)\<rparr>"
  obtain v s' where s': "cgrp_wait_loop g (lwt_current (pop s)) (pop s) = Inr (v, s')" "b \<noteq> lwt_current (pop s)"
    "requeue (pop s) s' (\<lambda>h. remove1 (ThdNode (lwt_current (pop s))) (queue_of h (pop s)))" "chans s' = chans (pop s)"
    "slept ?s0 s' b (x\<lparr>tstate := LWT_BLOCKED, block_for := BLOCKED_RECEIVING\<rparr>)
      (KCgrpWait g (lwt_current (pop s)) # frames (pop s) (lwt_current (pop s)))"
    using wait_blocks [OF cpu p(1,2,3) no] by blast
  have c0: "lwt_current ?s0 = a" using a(1) by (simp add: lwt_current_def)
  have "list_foreach (RunQ (current_kthd (pop s))) (lists s') = Some [ThdNode b]"
    using s'(3) heads_current [OF i] on_cpu_queue [OF cpu] p(1) unfolding requeue_def by simp
  moreover have "thds s' a = Some (saved (x\<lparr>tstate := LWT_BLOCKED, block_for := BLOCKED_RECEIVING\<rparr>))"
    "frames s' a = KCgrpWait g a # frames (pop s) a"
    using slept_old [OF s'(5)] s'(2) c0 a(1) by simp_all
  moreover have "lwt_current s' = b" using slept_cpu(1) [OF s'(5)] by simp
  ultimately show thesis using that s'(1,4) a(1) by simp
qed

text \<open>
  C20 A lost word: as above, but the last \<^verbatim>\<open>lwt_rcv\<close> that blocked the waiter was on this very
  channel, so its stale \<^verbatim>\<open>now_rcving\<close> names it. \<^verbatim>\<open>lwt_snd\<close> then takes the waiter for a blocked
  receiver: it returns 0, but the word is not pending, no member is ready, and the woken
  waiter goes back to sleep inside \<^verbatim>\<open>lwt_cgrp_wait\<close>.
\<close>

theorem group_event_lost:
  assumes "waiter a b g c s" "map_option now_rcving (thds s a) = Some c"
  shows "\<exists>v1 s1 s2 v3 s3 v4 s4. lwt_cgrp_wait g s = Inr (v1, s1) \<and> lwt_current s1 = b \<and> lwt_snd c d s1 = Inr (VInt 0, s2) \<and>
    chans s2 = chans s \<and> lwt_yield 0 s2 = Inr (v3, s3) \<and> lwt_current s3 = a \<and>
    continue v3 s3 = Inr (v4, s4) \<and> lwt_current s4 = b \<and> chans s4 = chans s \<and> frames s4 a = KCgrpWait g a # frames s a \<and>
    map_option tstate (thds s4 a) = Some LWT_BLOCKED \<and> list_foreach (RunQ (current_kthd s)) (lists s4) = Some [ThdNode b]"
proof (rule waiter_waits [OF assms(1)])
  fix x y z ch v1 s1
  assume w: "a \<noteq> b" "grps s g = Some y" "owner y = a" "owner_kthd z = current_kthd s"
    "chans s c = Some ch" "cgroup ch = g" "receiver ch = a" "thds s a = Some x" and i1: "lwt_inv s1"
    and w1: "lwt_cgrp_wait g s = Inr (v1, s1)" "lwt_current s1 = b" "current_kthd s1 = current_kthd s" "chans s1 = chans s"
      "grps s1 = (grps s)(g \<mapsto> y\<lparr>blocked := 1\<rparr>)" "heads s1 = heads s"
    and q1: "queue_of (RunQ (current_kthd s)) s1 = [ThdNode b]" "queue_of (GrpQ g) s1 = queue_of (GrpQ g) s"
    and xo: "owner_kthd x = current_kthd s"
    and t1: "thds s1 a = Some (saved (x\<lparr>tstate := LWT_BLOCKED, block_for := BLOCKED_RECEIVING\<rparr>))" (is "_ = Some ?xa")
      "thds s1 b = Some (z\<lparr>tstate := LWT_RUNNING\<rparr>)" "frames s1 a = KCgrpWait g a # frames s a"
  have no: "find (is_ready s) (members g s) = None" and lc: "local_chan c s" and i: "lwt_inv s"
    using assms(1) by (auto simp: waiter_def in_turn_def)
  have h: "chans s1 c = Some ch" "chan_ty ch = LOCAL_CHAN" "thds s1 (receiver ch) = Some ?xa" "receiver_waits ch c ?xa"
    "thds s1 (lwt_current s1) = Some (z\<lparr>tstate := LWT_RUNNING\<rparr>)"
    using assms(2) w w1 t1 lc by (simp_all add: receiver_waits_def local_chan_def)
  obtain s2 where s2: "lwt_snd c d s1 = Inr (VInt 0, s2)" "chans s2 = chans s1" "lwt_current s2 = lwt_current s1" "frames s2 = frames s1"
    "current_kthd s2 = current_kthd s1" "thds s2 (receiver ch) = Some (?xa\<lparr>message_data := d, tstate := LWT_RUNNABLE\<rparr>)"
    "\<forall>v. v \<noteq> receiver ch \<longrightarrow> thds s2 v = thds s1 v" "grps s2 = grps s1"
    "requeue s1 s2 (woken (receiver ch) (owner_kthd (z\<lparr>tstate := LWT_RUNNING\<rparr>)) (\<lambda>h. queue_of h s1))"
    using snd_direct_effect [OF i1 h, of d] by blast
  have rq: "requeue s1 s2 (woken a (current_kthd s) (\<lambda>h. queue_of h s1))" using s2(9) w(4,7) by simp
  note m = inv_members [OF i w(2)]
  have H1: "RunQ (current_kthd s) \<in> heads s1" "GrpQ g \<in> heads s1" using heads_current [OF i] m(2) w1(6) by simp_all
  note q2 = woken_waiter [OF rq H1 q1(1) _ w(1), unfolded q1(2), OF m(3)]
  have i2: "lwt_inv s2" using lwt_snd_keeps [OF s2(1)] i1 by (simp add: lwt_inv_def)
  let ?xb = "?xa\<lparr>message_data := d, tstate := LWT_RUNNABLE\<rparr>"
  have e: "list_foreach (RunQ (current_kthd s2)) (lists s2) = Some [ThdNode a, ThdNode b]" "lwt_current s2 = b"
    "map_option owner_kthd (thds s2 b) = Some (current_kthd s2)" "thds s2 a = Some ?xb" "owner_kthd ?xb = current_kthd s2"
    "ip (ctx ?xb) = RetDispatch" "frames s2 a = KCgrpWait g a # frames s a"
    using q2(1) s2(3-7) w(1,4,7) w1(2,3) t1 xo by simp_all
  obtain v3 s3 where s3: "lwt_yield 0 s2 = Inr (v3, s3)" "lwt_current s3 = a" "continue v3 s3 = cgrp_wait_loop g a (pop s3)"
    "on_cpu (pop s3) [ThdNode a, ThdNode b]" "lwt_inv (pop s3)" "chans s3 = chans s2" "grps s3 = grps s2"
    "queue_of (GrpQ g) (pop s3) = queue_of (GrpQ g) s2" "thds s3 a = Some (?xb\<lparr>tstate := LWT_RUNNING\<rparr>)" "frames (pop s3) a = frames s a"
    "current_kthd s3 = current_kthd s2"
    using waiter_back [OF i2 e(1,2) w(1) e(3,4,6,5,7) q2(3)] by blast
  have "members g (pop s3) = members g s" by (rule members_queue) (use s3(8) q2(2) in simp)
  moreover have "is_ready (pop s3) = is_ready s" using s3(6) s2(2) w1(4) by (auto simp: is_ready_def)
  ultimately have fd: "find (is_ready (pop s3)) (members g (pop s3)) = None" using no by simp
  have g3: "grps s3 g = Some (y\<lparr>blocked := 1\<rparr>)" using s3(7) s2(8) w1(5) by simp
  obtain v4 s4 where s4: "cgrp_wait_loop g a (pop s3) = Inr (v4, s4)" "lwt_current s4 = b" "chans s4 = chans s3"
    "frames s4 a = KCgrpWait g a # frames (pop s3) a" "map_option tstate (thds s4 a) = Some LWT_BLOCKED"
    "list_foreach (RunQ (current_kthd s3)) (lists s4) = Some [ThdNode b]"
    by (rule waiter_sleeps_again [OF s3(4,5,2) w(1) s3(9) g3 fd])
  have "current_kthd s3 = current_kthd s" using s3(11) s2(5) w1(3) by simp
  then show ?thesis using w1(1,2,4) s2(1,2) s3(1-3,6,10) s4 by (intro exI) auto
qed

end
