(* ===== verification/Lwt_Witnesses.thy ===== *)
theory Lwt_Witnesses
  imports Lwt_GroupProps
begin

text \<open>
  The properties about creation, groups and reachability applied in states of the sample
  run: every state is reached from boot by calls of the API.
\<close>

section \<open>Further stages of the sample run\<close>

text \<open>\<open>ground s q\<close>: as \<open>stage\<close>, for a state between two API calls that need not be reached.\<close>

definition ground :: "sys \<Rightarrow> lnode list \<Rightarrow> bool" where
  "ground s q \<longleftrightarrow> in_turn s q \<and> supplied s \<and> frames s (lwt_current s) = [] \<and>
     list_foreach (current_recycle_queue s) (lists s) = Some []"

lemma stage_ground: "stage s q \<longleftrightarrow> (\<exists>v. reachable (v, s)) \<and> ground s q"
  by (simp add: stage_def ground_def)

lemma ground_inv: "ground s q \<Longrightarrow> lwt_inv s"
  by (simp add: ground_def in_turn_def)

lemma ground_heads: "ground s q \<Longrightarrow> current_run_queue s \<in> heads s \<and> current_recycle_queue s \<in> heads s"
  using heads_current heads_recycle ground_inv by (simp add: current_run_queue_def current_recycle_queue_def)

lemma ground_step:
  assumes s: "ground s q" and c: "call a s = Inr (v, s')" "call_ok a s"
    and same: "lwt_current s' = lwt_current s" "current_kthd s' = current_kthd s" "frames s' = frames s" "supplied s'"
      "\<And>t. map_option owner_kthd (thds s' t) = map_option owner_kthd (thds s t)"
      "list_foreach (current_run_queue s) (lists s') = list_foreach (current_run_queue s) (lists s)"
      "list_foreach (current_recycle_queue s) (lists s') = list_foreach (current_recycle_queue s) (lists s)"
  shows "ground s' q"
proof -
  have "lwt_inv s'" using call_keeps [OF c] ground_inv [OF s] by (simp add: lwt_inv_def)
  then show ?thesis
    using s same unfolding ground_def in_turn_def current_run_queue_def current_recycle_queue_def by auto
qed

lemma stage_call:
  assumes "stage s q" "call a s = Inr (v, s')" "call_ok a s" "ground s' r"
  shows "stage s' r"
proof -
  have f: "frames s (lwt_current s) = []" using assms(1) by (simp add: stage_def)
  obtain w where "reachable (w, s)" using assms(1) by (auto simp: stage_def)
  then have "reachable (v, s')" by (rule reachable.step) (rule user_call [OF f assms(3,2)])
  then show ?thesis using assms(4) by (auto simp: stage_ground)
qed

lemma stage_step:
  assumes s: "stage s q" and c: "call a s = Inr (v, s')" "call_ok a s"
    and same: "lwt_current s' = lwt_current s" "current_kthd s' = current_kthd s" "frames s' = frames s" "supplied s'"
      "\<And>t. map_option owner_kthd (thds s' t) = map_option owner_kthd (thds s t)"
      "list_foreach (current_run_queue s) (lists s') = list_foreach (current_run_queue s) (lists s)"
      "list_foreach (current_recycle_queue s) (lists s') = list_foreach (current_recycle_queue s) (lists s)"
  shows "stage s' q"
proof (rule stage_call [OF s c])
  show "ground s' q" by (rule ground_step [OF _ c same]) (use s stage_ground in blast)
qed

text \<open>
  An idle channel of the current thread's, in no group.
\<close>

definition idle_chan :: "ptr \<Rightarrow> ptr \<Rightarrow> sys \<Rightarrow> bool" where
  "idle_chan a c s \<longleftrightarrow> local_chan c s \<and> pending c s = [] \<and> (\<exists>ch. chans s c = Some ch \<and> receiver ch = a \<and> cgroup ch = 0 \<and>
     ready ch = 0 \<and> chan_size ch = 2 \<and> tail (buffer ch) < int_max)"

lemma idle_chan_room:
  assumes "idle_chan a c s" "chans s c = Some ch"
  shows "ring_not_full (chan_size ch) (buffer ch)" "senders c s = []"
proof -
  have "ring_items (chan_size ch) (buffer ch) = []" "ring_ok (chan_size ch) (buffer ch)" "chan_size ch = 2"
    using assms by (auto simp: idle_chan_def pending_def buffered_def local_chan_def)
  then show "ring_not_full (chan_size ch) (buffer ch)" using ring_items_empty
    by (simp add: ring_nonempty_def ring_not_full_def)
  show "senders c s = []" using assms(1) by (simp add: idle_chan_def pending_def)
qed

lemma stage_used_chan:
  obtains s a b c ch where "stage s [ThdNode a, ThdNode b]" "lwt_current s = a" "a \<noteq> b" "chans s c = Some ch" "idle_chan a c s"
proof (rule stage_with_chan [of 2])
  fix s a b c ch assume s: "stage s [ThdNode a, ThdNode b]" "lwt_current s = a" "a \<noteq> b" "chans s c = Some ch" "local_chan c s"
    "pending c s = []" "new_channel ch 2 a (chan_id ch)" "cgroup ch = 0" "receiver_busy c s"
  note i = stage_inv [OF s(1)]
  have room: "ring_not_full (chan_size ch) (buffer ch)" "tail (buffer ch) < int_max" "tail (buffer ch) = 0" "chan_size ch = 2"
    using new_channel_ring [OF s(7)] s(7) by (simp_all add: new_channel_def)
  have c0: "c \<noteq> 0" by (rule inv_chan(1) [OF i s(4)])
  obtain s1 where s1: "lwt_snd c 7 s = Inr (VInt 0, s1)" "pending c s1 = pending c s @ [7]" "local_chan c s1" "lists s1 = lists s"
    "thds s1 = thds s" "kthds s1 = kthds s" "current_kthd s1 = current_kthd s" "frames s1 = frames s" "mem s1 = mem s"
    "map_option (\<lambda>x. (tail (buffer x), receiver x, cgroup x, ready x, chan_size x)) (chans s1 c) =
      Some (tail (buffer ch) + 1, receiver ch, cgroup ch, 1, chan_size ch)"
    using snd_room_effect [OF i s(5,9,4) room(1,2), of 7] by blast
  have e1: "lwt_current s1 = lwt_current s" using s1(6,7) by (simp add: lwt_current_def)
  have st1: "stage s1 [ThdNode a, ThdNode b]"
    by (rule stage_step [OF s(1), of "Snd c 7" "VInt 0"]) (use s(1) s1 e1 in \<open>simp_all add: stage_def supplied_def\<close>)
  note i1 = stage_inv [OF st1]
  obtain x1 where x1: "chans s1 c = Some x1" "tail (buffer x1) = 1" "receiver x1 = a" "cgroup x1 = 0" "chan_size x1 = 2"
    using s1(10) room(3,4) s(7,8) by (auto simp: new_channel_def)
  have p1: "pending c s1 = 7 # []" "tail (buffer x1) < int_max" using s1(2) s(6) x1(2) by (simp_all add: int_max_def)
  have cd: "lwt_current s1 \<in> dom (thds s1)" by (rule stage_live [OF st1]) blast
  obtain s2 where s2: "lwt_rcv c s1 = Inr (VPtr 7, s2)" "pending c s2 = []" "local_chan c s2" "unblocked s1 s2 (senders c s1)"
    "\<exists>x. chans s2 c = Some x \<and> receiver x = receiver x1 \<and> cgroup x = cgroup x1 \<and> chan_size x = chan_size x1 \<and>
       ready x = (if [] = ([]::ptr list) then 0 else 1) \<and> tail (buffer x) \<le> tail (buffer x1) + 1"
    using rcv_effect [OF i1 s1(3) x1(1) p1(1) cd p1(2)] by blast
  have "senders c s1 = []"
    using s(6) by (simp add: pending_def senders_def queue_of_lists [OF s1(4)])
  then have u: "lwt_current s2 = lwt_current s1" "current_kthd s2 = current_kthd s1" "frames s2 = frames s1" "thds s2 = thds s1"
    "lists s2 = lists s1" "mem s2 = mem s1"
    using s2(4) by (simp_all add: unblocked_def)
  have st2: "stage s2 [ThdNode a, ThdNode b]"
    by (rule stage_step [OF st1, of "Rcv c" "VPtr 7"]) (use st1 s2(1) u in \<open>simp_all add: stage_def supplied_def\<close>)
  obtain x2 where x2: "chans s2 c = Some x2" "receiver x2 = a" "cgroup x2 = 0" "chan_size x2 = 2" "ready x2 = 0" "tail (buffer x2) \<le> 2"
    using s2(5) x1(2-5) by auto
  have "idle_chan a c s2" using s2(2,3) x2 by (simp add: idle_chan_def int_max_def)
  then show thesis using that [OF st2 _ s(3) x2(1)] u(1) e1 s(2) by simp
qed (simp_all add: int_max_def)

lemma cgrp_new_effect:
  assumes i: "lwt_inv s" and p: "supplied s"
  obtains g m s' where "lwt_cgrp_new s = Inr (g, s')" "s' = s\<lparr>mem := m, lists := list_head_init (GrpQ g) (lists s),
      grps := (grps s)(g \<mapsto> \<lparr>owner = lwt_current s, blocked = 0\<rparr>)\<rparr>"
    "supplied (s\<lparr>mem := m\<rparr>)" "members g s' = []" "\<forall>h\<in>heads s. list_foreach h (lists s') = list_foreach h (lists s)"
    "g \<notin> dom (grps s)"
proof -
  obtain B where B: "uheap (mem s) B" "dom (thds s) \<union> dom (chans s) \<union> dom (grps s) \<union> dom (wraps s) \<union> {} \<subseteq> B"
    by (rule inv_uheap [OF i [unfolded lwt_inv_def]])
  have n: "sizeof_lwt_cgrp + 16 \<le> 2 ^ 32" by (simp add: sizeof_lwt_cgrp_def)
  obtain g m where g: "malloc sizeof_lwt_cgrp s = Inr (g, s\<lparr>mem := m\<rparr>)" "g \<noteq> 0" "g \<notin> B" "supplied (s\<lparr>mem := m\<rparr>)"
    by (rule malloc_ok [OF B(1) n p])
  obtain D where l: "linked D s" and i0: "inv_but True {} {} {} {} (heads s) D (\<lambda>h. queue_of h s) s" by (rule lwt_invE [OF i])
  note fr = nodes_fresh [OF inv_butD(3) [OF i0]]
  have gH: "GrpQ g \<notin> heads s" using g(3) B(2) by (auto simp: heads_def)
  have q: "queues (list_head_init (GrpQ g) (lists s)) (insert (GrpQ g) (heads s)) D ((\<lambda>h. queue_of h s)(GrpQ g := []))"
    by (rule queues_init [OF l [unfolded linked_def] gH fr(9) fr(4)])
  have r: "lwt_cgrp_new s = Inr (g, s\<lparr>mem := m, lists := list_head_init (GrpQ g) (lists s),
      grps := (grps s)(g \<mapsto> \<lparr>owner = lwt_current s, blocked = 0\<rparr>)\<rparr>)" (is "_ = Inr (g, ?s')")
    using g(1,2) by (simp add: lwt_cgrp_new_def lwt_current_def)
  have "members g ?s' = []" using list_foreach_queue [OF q, of "GrpQ g"] by (simp add: members_def queue_of_def)
  moreover have "\<forall>h\<in>heads s. list_foreach h (lists ?s') = list_foreach h (lists s)"
    using list_foreach_queue [OF q] gH foreach_linked [OF l] by auto
  ultimately show thesis using that [OF r refl g(4)] g(3) B(2) by blast
qed

text \<open>The current thread makes a group and adds an idle channel.\<close>

lemma ground_group:
  assumes s0: "ground s0 [ThdNode a, ThdNode b]" and c: "idle_chan a c s0" "chans s0 c = Some ch"
  shows "\<exists>g s1 s y. call NewGrp s0 = Inr (VPtr g, s1) \<and> ground s1 [ThdNode a, ThdNode b] \<and>
    call (GrpAdd g c) s1 = Inr (VInt 0, s) \<and> ground s [ThdNode a, ThdNode b] \<and> waiter a b g c s \<and> grps s g = Some y \<and>
    members g s = [c] \<and> chans s c = Some (ch\<lparr>cgroup := g\<rparr>) \<and> pending c s = [] \<and> thds s = thds s0"
proof (rule cgrp_new_effect [OF ground_inv [OF s0]])
  note h0 = ground_heads [OF s0] and i0 = ground_inv [OF s0]
  have a: "lwt_current s0 = a" using s0 by (simp add: ground_def in_turn_def)
  have ch: "local_chan c s0" "receiver ch = a" "cgroup ch = 0" "ready ch = 0" using c by (auto simp: idle_chan_def)
  note se = idle_chan_room(2) [OF c]
  show "supplied s0" using s0 by (simp add: ground_def)
  fix g m s'
  let ?s1 = "s0\<lparr>mem := m, lists := list_head_init (GrpQ g) (lists s0), grps := (grps s0)(g \<mapsto> \<lparr>owner = lwt_current s0, blocked = 0\<rparr>)\<rparr>"
  assume s': "lwt_cgrp_new s0 = Inr (g, s')" "s' = ?s1" "supplied (s0\<lparr>mem := m\<rparr>)" "members g s' = []"
    "\<forall>h\<in>heads s0. list_foreach h (lists s') = list_foreach h (lists s0)"
  note s1 = s'(1,3-5) [unfolded s'(2)]
  have n: "call NewGrp s0 = Inr (VPtr g, ?s1)" using s1(1) by (simp add: ret_ptr_def)
  have st1: "ground ?s1 [ThdNode a, ThdNode b]"
    by (rule ground_step [OF s0 n]) (use s1 h0 in \<open>simp_all add: supplied_def lwt_current_def\<close>)
  have y: "grps ?s1 g = Some \<lparr>owner = lwt_current s0, blocked = 0\<rparr>" "chans ?s1 c = Some ch" using c(2) by simp_all
  obtain s2 where s2: "lwt_cgrp_add g c ?s1 = Inr (VInt 0, s2)" "members g s2 = insert_before_last c (members g ?s1)"
    "chans s2 = (chans ?s1)(c \<mapsto> ch\<lparr>cgroup := g\<rparr>)" "thds s2 = thds ?s1" "grps s2 = grps ?s1" "kthds s2 = kthds ?s1" "mem s2 = mem ?s1"
    "frames s2 = frames ?s1" "current_kthd s2 = current_kthd ?s1"
    "requeue ?s1 s2 ((\<lambda>h. queue_of h ?s1)(GrpQ g := insert_before_last (ChanNode c) (queue_of (GrpQ g) ?s1)))"
    using cgrp_add_effect [OF ground_inv [OF st1] y ch(3)] by blast
  have q2: "list_foreach h (lists s2) = list_foreach h (lists s0)" if "h \<in> heads s0" "h \<noteq> GrpQ g" for h
  proof -
    obtain D where "linked D s0" by (rule lwt_invE [OF i0])
    then have "list_foreach h (lists s0) = Some (queue_of h s0)" using foreach_linked that(1) by blast
    moreover have "h \<in> heads ?s1" using that(1) by (auto simp: heads_def hosted_def)
    ultimately show ?thesis using s2(10) s1(4) that by (auto simp: requeue_def queue_of_def)
  qed
  have e: "lwt_current s2 = a" using s2(6,9) a by (simp add: lwt_current_def)
  have ad: "call (GrpAdd g c) ?s1 = Inr (VInt 0, s2)" using s2(1) by simp
  have st2: "ground s2 [ThdNode a, ThdNode b]"
  proof (rule ground_step [OF st1 ad])
    show "list_foreach (current_run_queue ?s1) (lists s2) = list_foreach (current_run_queue ?s1) (lists ?s1)"
      "list_foreach (current_recycle_queue ?s1) (lists s2) = list_foreach (current_recycle_queue ?s1) (lists ?s1)"
      using q2 s1(4) h0 by (simp_all add: current_run_queue_def current_recycle_queue_def)
    show "supplied s2" using s1(2) s2(7) by (simp add: supplied_def)
  qed (use s2(4,8,9) e a in \<open>simp_all add: lwt_current_def\<close>)
  have mem: "members g s2 = [c]" using s2(2) s1(3) by simp
  have "SendQ c \<in> heads s0" using c(2) by (auto simp: heads_def)
  then have se2: "senders c s2 = []" using se q2 by (simp add: senders_def queue_of_def)
  have ch2: "chans s2 c = Some (ch\<lparr>cgroup := g\<rparr>)" using s2(3) by simp
  have "ring_items (chan_size ch) (buffer ch) = []" using c by (auto simp: idle_chan_def pending_def buffered_def)
  then have pe: "pending c s2 = []" using se2 ch2 by (simp add: pending_def buffered_def)
  have "local_chan c s2" using ch(1) c(2) ch2 se2 by (simp add: local_chan_def)
  then have "waiter a b g c s2"
    using st2 mem s2(5) a ch(2,4) ch2 by (simp add: waiter_def ground_def is_ready_def)
  then show ?thesis using n st1 ad st2 mem ch2 pe s2(4,5) by (intro exI [of _ g] exI [of _ ?s1] exI [of _ s2]) simp
qed

text \<open>A stage with a group of the current thread's whose only member is not ready.\<close>

lemma stage_group:
  obtains s a b c g ch y where "stage s [ThdNode a, ThdNode b]" "waiter a b g c s" "grps s g = Some y" "members g s = [c]"
    "chans s c = Some ch" "cgroup ch = g" "ready ch = 0" "lwt_current s = a" "a \<noteq> b"
proof (rule stage_used_chan)
  fix s0 a b c ch assume s0: "stage s0 [ThdNode a, ThdNode b]" "a \<noteq> b" "chans s0 c = Some ch" "idle_chan a c s0"
  have "ground s0 [ThdNode a, ThdNode b]" using s0(1) by (simp add: stage_ground)
  from ground_group [OF this s0(4,3)] obtain g s1 s y where s: "call NewGrp s0 = Inr (VPtr g, s1)" "ground s1 [ThdNode a, ThdNode b]"
    "call (GrpAdd g c) s1 = Inr (VInt 0, s)" "ground s [ThdNode a, ThdNode b]" "waiter a b g c s" "grps s g = Some y"
    "members g s = [c]" "chans s c = Some (ch\<lparr>cgroup := g\<rparr>)" by blast
  have "stage s [ThdNode a, ThdNode b]"
    by (rule stage_call [OF stage_call [OF s0(1) s(1) _ s(2)] s(3) _ s(4)]) simp_all
  moreover have "lwt_current s = a" using s(4) by (simp add: ground_def in_turn_def)
  moreover have "ready ch = 0" using s0(3,4) by (simp add: idle_chan_def)
  ultimately show thesis using that s s0(2) by simp
qed

section \<open>Creation\<close>

theorem boot_succeeds_witness:
  "\<exists>t s. initiate 3 (blank fresh_mem (\<lambda>_. demo_thread) (\<lambda>_. demo_channel) (\<lambda>_. 1)) = Inr s \<and> t \<noteq> 0 \<and>
     main_thread (kthds s 3) = t \<and> map_option owner_kthd (thds s t) = Some 3"
proof -
  have p: "\<forall>i. pages fresh_mem i \<noteq> None" "3 < MAX_KTHD_NUM" by (simp_all add: fresh_mem_def MAX_KTHD_NUM_def)
  show ?thesis using boot_succeeds [OF fresh_mem_uheap p, of "\<lambda>_. demo_thread" "\<lambda>_. demo_channel" "\<lambda>_. 1"] by blast
qed

lemma stage_hyps:
  assumes "stage s q"
  shows "lwt_inv s" "supplied s" "list_foreach (current_recycle_queue s) (lists s) = Some []"
    "list_foreach (current_run_queue s) (lists s) = Some q"
  using assms by (simp_all add: stage_def in_turn_def current_run_queue_def)

theorem chan_created_witness:
  "\<exists>s c s' ch. lwt_chan 3 s = Inr (c, s') \<and> chans s' c = Some ch \<and> new_channel ch 3 (lwt_current s) (chan_counter s) \<and>
     pending c s' = []"
proof (rule stage_two)
  fix s a b assume s: "stage s [ThdNode a, ThdNode b]"
  have "(0::int) \<le> 3" "4 * 3 + 16 \<le> (2::int) ^ 32" "3 \<le> int_max" by (simp_all add: int_max_def)
  from chan_created [OF stage_hyps(1,2) [OF s] this] show ?thesis by blast
qed

text \<open>A state with a dead thread to recycle: the created thread of the sample run has died.\<close>

theorem create_recycled_witness:
  "\<exists>s t s'. list_foreach (current_recycle_queue s) (lists s) = Some [ThdNode t] \<and> lwt_create 5 6 1 s = Inr (t, s') \<and>
     created 5 6 1 s t s' \<and> list_foreach (current_recycle_queue s) (lists s') = Some []"
proof (rule stage_boot)
  fix s0 p assume s0: "stage s0 [ThdNode p]" "lwt_current s0 = p" "dom (thds s0) = {p}"
  obtain t s where s: "stage s ([ThdNode p] @ [ThdNode t])" "t \<notin> dom (thds s0)" "created 1 2 0 s0 t s" "lwt_current s = p"
    by (rule stage_create [OF s0(1), of 1 2 0]) (use s0(2) in blast)
  have tn: "in_turn s [ThdNode p, ThdNode t]" and tp: "t \<noteq> p" using s s0(3) by (auto simp: stage_def)
  obtain x where x: "thds s t = Some x" "12 \<le> init_sp x" using s(3) by (auto simp: created_def)
  obtain v s1 u where s1: "lwt_yield 0 s = Inr (v, s1)"
    "requeue s s1 ((\<lambda>h. queue_of h s)(RunQ (current_kthd s) :=
       remove1 (ThdNode (lwt_current s)) [ThdNode p, ThdNode t] @ [ThdNode (lwt_current s)]))"
    "hd (remove1 (ThdNode (lwt_current s)) [ThdNode p, ThdNode t] @ [ThdNode (lwt_current s)]) = ThdNode u" "switched s s1 u"
    using yield_null_effect [OF in_turn_on_cpu [OF tn]] by blast
  have u: "u = t" using s1(3) s(4) by simp
  obtain v2 s2 where "lwt_yield 0 s = Inr (v2, s2)" "in_turn s2 (rotate1 [ThdNode p, ThdNode t])" using yield_in_turn [OF tn] by blast
  then have t1: "in_turn s1 [ThdNode t, ThdNode p]" using s1(1) by simp
  have c1: "lwt_current s1 = t" "current_kthd s1 = current_kthd s" "mem s1 = mem s" "thds s1 t = Some (x\<lparr>tstate := LWT_RUNNING\<rparr>)"
    using s1(4) u x(1) tp s(4) by (simp_all add: switched_def dispatched_def)
  have n: "remove1 (ThdNode (lwt_current s1)) [ThdNode t, ThdNode p] = ThdNode p # []"
    "thds s1 (lwt_current s1) = Some (x\<lparr>tstate := LWT_RUNNING\<rparr>)" using c1(1,4) by simp_all
  obtain v3 s3 where s3: "die_rest (lwt_current s1) s1 = Inr (v3, s3)" "p \<noteq> lwt_current s1"
    "requeue s1 s3 ((\<lambda>h. remove1 (ThdNode (lwt_current s1)) (queue_of h s1))
      (RecQ (current_kthd s1) := queue_of (RecQ (current_kthd s1)) s1 @ [ThdNode (lwt_current s1)]))"
    "slept s1 s3 p (x\<lparr>tstate := LWT_RUNNING, tstate := LWT_ZOMBIES\<rparr>) (frames s1 (lwt_current s1))"
    using die_rest_effect [OF in_turn_on_cpu [OF t1] n] by blast
  note f = in_turn_facts [OF t1] and sl = slept_cpu [OF s3(4)]
  have i3: "lwt_inv s3" using die_rest_keeps [OF s3(1)] f(1) by (simp add: lwt_inv_def)
  have sup: "supplied s3" using s(1) c1(3) sl(4) by (simp add: supplied_def stage_def)
  have "queue_of (RecQ (current_kthd s)) s = []" using s(1) by (simp add: stage_def queue_of_def current_recycle_queue_def)
  then have "queue_of (RecQ (current_kthd s1)) s1 = []"
    using s1(2) heads_recycle stage_inv [OF s(1)] c1(2) by (simp add: requeue_def queue_of_def)
  then have q: "list_foreach (current_recycle_queue s3) (lists s3) = Some [ThdNode t]"
    "list_foreach (current_run_queue s3) (lists s3) = Some [ThdNode p]"
    using s3(3) f(3,4) heads_recycle [OF f(1)] c1(1) n(1) sl(2)
    by (simp_all add: requeue_def current_recycle_queue_def current_run_queue_def)
  have "thds s3 t = Some (saved (x\<lparr>tstate := LWT_RUNNING, tstate := LWT_ZOMBIES\<rparr>))" (is "_ = Some ?z")
    using slept_old [OF s3(4)] s3(2) c1(1) by simp
  moreover have "12 \<le> init_sp ?z" using x(2) by (simp add: saved_def)
  ultimately show ?thesis using create_recycled [OF i3 sup q(1,2), of ?z 5 6 1] q(1) by blast
qed

section \<open>Groups\<close>

theorem group_membership_witness:
  "\<exists>v s c g ch. reachable (v, s) \<and> set (queue_of (GrpQ g) s) = {ChanNode c} \<and> chans s c = Some ch \<and> cgroup ch = g \<and> g \<noteq> 0"
proof (rule stage_group)
  fix s a b c g ch y assume s: "stage s [ThdNode a, ThdNode b]" "grps s g = Some y" "members g s = [c]" "chans s c = Some ch" "cgroup ch = g"
  obtain v where r: "reachable (v, s)" using s(1) by (auto simp: stage_def)
  note m = inv_members [OF stage_inv [OF s(1)] s(2)]
  have "g \<in> dom (grps s)" using s(2) by blast
  then have "set (queue_of (GrpQ g) s) = {ChanNode c | c. \<exists>ch. chans s c = Some ch \<and> cgroup ch = g}"
    using group_membership [OF r] by blast
  moreover have "queue_of (GrpQ g) s = [ChanNode c]" using m(3) s(3) by simp
  ultimately show ?thesis using r s(4,5) m(1) by (metis empty_set list.simps(15))
qed

theorem group_add_rem_witness:
  "\<exists>s g c ch. chans s c = Some ch \<and> cgroup ch = g \<and> g \<noteq> 0 \<and> lwt_cgrp_add g c s = Inr (VInt (- 1), s) \<and>
     lwt_cgrp_rem (g + 1) c s = Inr (VInt (- 1), s)"
proof (rule stage_group)
  fix s a b c g ch y assume s: "stage s [ThdNode a, ThdNode b]" "grps s g = Some y" "chans s c = Some ch" "cgroup ch = g" "ready ch = 0"
  note i = stage_inv [OF s(1)]
  have "g \<noteq> 0" by (rule inv_members(1) [OF i s(2)])
  moreover from this have "lwt_cgrp_add g c s = Inr (VInt (- 1), s)" using group_add_rem [OF i s(2,3)] s(4) by blast
  moreover have "lwt_cgrp_rem (g + 1) c s = Inr (VInt (- 1), s)"
    using s(3-5) inv_chan(1) [OF i s(3)] by (simp add: lwt_cgrp_rem_def)
  ultimately show ?thesis using s(3,4) by blast
qed

theorem group_free_witness:
  "\<exists>s g c. members g s = [c] \<and> map_option ready (chans s c) = Some 0 \<and> lwt_cgrp_free g s = Inr (VInt (- 1), s)"
proof (rule stage_group)
  fix s a b c g ch y assume s: "stage s [ThdNode a, ThdNode b]" "grps s g = Some y" "members g s = [c]" "chans s c = Some ch" "ready ch = 0"
  have "members g s \<noteq> []" using s(3) by simp
  then have "lwt_cgrp_free g s = Inr (VInt (- 1), s)" using group_free [OF stage_inv [OF s(1)] s(2)] by blast
  moreover have "map_option ready (chans s c) = Some 0" using s(4,5) by simp
  ultimately show ?thesis using s(3) by blast
qed

theorem group_wait_witness:
  "\<exists>s a b g c v s'. lwt_current s = a \<and> a \<noteq> b \<and> members g s = [c] \<and> lwt_cgrp_wait g s = Inr (v, s') \<and> lwt_current s' = b \<and>
     map_option blocked (grps s' g) = Some 1"
proof (rule stage_group)
  fix s a b c g ch y assume s: "stage s [ThdNode a, ThdNode b]" "waiter a b g c s" "grps s g = Some y" "members g s = [c]" "lwt_current s = a" "a \<noteq> b"
  have n: "remove1 (ThdNode (lwt_current s)) [ThdNode a, ThdNode b] = ThdNode b # []" using s(5) by simp
  have "members g s \<noteq> [] \<and> find (is_ready s) (members g s) = None" using s(2,4) by (simp add: waiter_def)
  then obtain v s' where "lwt_cgrp_wait g s = Inr (v, s')" "lwt_current s' = b" "grps s' = (grps s)(g \<mapsto> y\<lparr>blocked := 1\<rparr>)"
    using group_wait [OF stage_on_cpu [OF s(1)] n s(3)] by blast
  moreover from this have "map_option blocked (grps s' g) = Some 1" by simp
  ultimately show ?thesis using s(4-6) by blast
qed

section \<open>A word handed over\<close>

lemma ground_rendezvous:
  assumes s: "ground s [ThdNode a, ThdNode b]"
    and ch: "local_chan d s" "chans s d = Some ch" "receiver ch = a" "pending d s = []"
  shows "\<exists>s'. ground s' [ThdNode a, ThdNode b] \<and> chans s' = chans s \<and> map_option now_rcving (thds s' a) = Some d \<and>
    (\<forall>e. idle_chan a e s \<longrightarrow> idle_chan a e s')"
proof -
  have t: "in_turn s [ThdNode a, ThdNode b]" and f: "frames s a = []" using s by (auto simp: ground_def in_turn_def)
  obtain s3 where s3: "lwt_current s3 = a" "frames (pop s3) a = frames s a" "in_turn (pop s3) [ThdNode a, ThdNode b]"
    "\<forall>h\<in>heads s. list_foreach h (lists s3) = Some (queue_of h s)" "chans s3 = chans s" "mem s3 = mem s"
    "current_kthd s3 = current_kthd s" "map_option now_rcving (thds s3 a) = Some d"
    using rendezvous_effect [OF t ch(1-4)] by blast
  have m: "mem (pop s3) = mem s3" by (simp add: pop_def)
  have "queue_of (current_recycle_queue s) s = []" using s by (simp add: ground_def queue_of_def)
  then have "list_foreach (current_recycle_queue (pop s3)) (lists (pop s3)) = Some []"
    using s3(4,7) ground_heads [OF s] by (simp add: current_recycle_queue_def)
  then have g: "ground (pop s3) [ThdNode a, ThdNode b]"
    using s s3(1-3,6) m f by (simp add: ground_def supplied_def)
  have "idle_chan a e (pop s3)" if e: "idle_chan a e s" for e
  proof -
    obtain x where x: "chans s e = Some x" using e by (auto simp: idle_chan_def)
    note se = idle_chan_room(2) [OF e x]
    have "SendQ e \<in> heads s" using x by (auto simp: heads_def)
    then have "queue_of (SendQ e) (pop s3) = queue_of (SendQ e) s" using s3(4) by (simp add: queue_of_def)
    then have se': "senders e (pop s3) = []" using se by (simp add: senders_def)
    show ?thesis using e x se se' s3(5) by (auto simp: idle_chan_def local_chan_def pending_def buffered_def)
  qed
  then show ?thesis using g s3(5,8) by (intro exI [of _ "pop s3"]) simp
qed

lemma stage_waiting:
  obtains s a b c ch r y where "lwt_inv s" "chans s c = Some ch" "chan_ty ch = LOCAL_CHAN" "thds s (receiver ch) = Some r"
    "receiver_waits ch c r" "thds s (lwt_current s) = Some y" "lwt_current s = b" "receiver ch = a" "a \<noteq> b"
    "queue_of (RunQ (owner_kthd y)) s = [ThdNode b]"
proof (rule stage_used_chan)
  fix s a b c ch assume s: "stage s [ThdNode a, ThdNode b]" "lwt_current s = a" "a \<noteq> b" "chans s c = Some ch" "idle_chan a c s"
  have t: "in_turn s [ThdNode a, ThdNode b]" using s(1) by (simp add: stage_def)
  note f = in_turn_facts [OF t]
  obtain x z where x: "thds s a = Some x" and z: "thds s b = Some z" "owner_kthd z = current_kthd s"
    using f(5) [of a] f(5) [of b] by auto
  have n: "remove1 (ThdNode (lwt_current s)) [ThdNode a, ThdNode b] = ThdNode b # []" "thds s (lwt_current s) = Some x"
    using s(2) x by simp_all
  have l: "local_chan c s" "pending c s = []" "receiver ch = a" using s(4,5) by (simp_all add: idle_chan_def)
  let ?y = "x\<lparr>now_rcving := c, tstate := LWT_BLOCKED, block_for := BLOCKED_RECEIVING\<rparr>"
  obtain v s1 where s1: "lwt_rcv c s = Inr (v, s1)" "chans s1 = chans s"
    "requeue s s1 (\<lambda>h. remove1 (ThdNode (lwt_current s)) (queue_of h s))"
    "slept s s1 b ?y (KRcv (lwt_current s) # frames s (lwt_current s))"
    using rcv_blocks_effect [OF in_turn_on_cpu [OF t] l(1) s(4) l(2) n] by blast
  have i1: "lwt_inv s1" using lwt_rcv_keeps [OF s1(1)] f(1) by (simp add: lwt_inv_def)
  have th: "thds s1 a = Some (saved ?y)" "thds s1 b = Some (z\<lparr>tstate := LWT_RUNNING\<rparr>)" "lwt_current s1 = b"
    using slept_old [OF s1(4)] slept_new(1) [OF s1(4) _ z(1)] slept_cpu(1) [OF s1(4)] s(2,3) by simp_all
  have "queue_of (RunQ (current_kthd s)) s1 = [ThdNode b]" using s1(3) f(3,4) n(1) by (simp add: requeue_def queue_of_def)
  then show thesis
    using that [OF i1, of c ch "saved ?y" "z\<lparr>tstate := LWT_RUNNING\<rparr>"] s1(2) s(3,4) l th z(2)
    by (simp add: local_chan_def receiver_waits_def)
qed

theorem snd_hands_over_witness:
  "\<exists>s c r s'. lwt_current s \<noteq> r \<and> map_option tstate (thds s r) = Some LWT_BLOCKED \<and> lwt_snd c 42 s = Inr (VInt 0, s') \<and>
     map_option tstate (thds s' r) = Some LWT_RUNNABLE \<and> rcv_rest r s' = Inr (VPtr 42, s')"
proof (rule stage_waiting)
  fix s a b c ch r y assume s: "lwt_inv s" "chans s c = Some ch" "chan_ty ch = LOCAL_CHAN" "thds s (receiver ch) = Some r"
    "receiver_waits ch c r" "thds s (lwt_current s) = Some y" "lwt_current s = b" "receiver ch = a" "a \<noteq> b"
  then have "lwt_current s \<noteq> a" "map_option tstate (thds s a) = Some LWT_BLOCKED" by (simp_all add: receiver_waits_def)
  then show ?thesis using snd_hands_over [OF s(1-6), of 42] unfolding s(8) by blast
qed

text \<open>A waiter whose last blocking receive was on another channel, and one whose was on the member.\<close>

lemma ground_waiter:
  assumes "ground s [ThdNode a, ThdNode b]" "idle_chan a c s"
    and "local_chan d s" "chans s d = Some cd" "receiver cd = a" "pending d s = []"
  shows "\<exists>g s' ch. waiter a b g c s' \<and> chans s' c = Some ch \<and> ring_not_full (chan_size ch) (buffer ch) \<and>
    tail (buffer ch) < int_max \<and> map_option now_rcving (thds s' a) = Some d \<and> pending c s' = []"
proof -
  obtain s1 where s1: "ground s1 [ThdNode a, ThdNode b]" "idle_chan a c s1" "map_option now_rcving (thds s1 a) = Some d"
    using ground_rendezvous [OF assms(1,3-6)] assms(2) by blast
  obtain ch where ch: "chans s1 c = Some ch" "tail (buffer ch) < int_max" using s1(2) by (auto simp: idle_chan_def)
  obtain g s2 where "waiter a b g c s2" "chans s2 c = Some (ch\<lparr>cgroup := g\<rparr>)" "pending c s2 = []" "thds s2 = thds s1"
    using ground_group [OF s1(1,2) ch(1)] by blast
  then show ?thesis using idle_chan_room(1) [OF s1(2) ch(1)] ch(2) s1(3) by (intro exI [of _ g] exI [of _ s2]) simp
qed

theorem group_event_lost_witness:
  "\<exists>s g c a v1 s1 s2. lwt_cgrp_wait g s = Inr (v1, s1) \<and> lwt_snd c 42 s1 = Inr (VInt 0, s2) \<and> chans s2 = chans s \<and>
     pending c s = [] \<and> lwt_current s = a \<and> a \<noteq> lwt_current s1"
proof (rule stage_used_chan)
  fix s0 a b c ch assume s0: "stage s0 [ThdNode a, ThdNode b]" "idle_chan a c s0" "a \<noteq> b" "chans s0 c = Some ch"
  have "ground s0 [ThdNode a, ThdNode b]" using s0(1) by (simp add: stage_ground)
  moreover have "local_chan c s0" "receiver ch = a" "pending c s0 = []" using s0(2,4) by (simp_all add: idle_chan_def)
  ultimately obtain g s where w: "waiter a b g c s" "map_option now_rcving (thds s a) = Some c" "pending c s = []"
    using ground_waiter [OF _ s0(2) _ s0(4)] by blast
  have "lwt_current s = a" using w(1) by (simp add: waiter_def in_turn_def)
  then show ?thesis using group_event_lost [OF w(1,2), of 42] w(3) s0(3) by blast
qed

lemma stage_two_chans:
  obtains s a b c d ch where "ground s [ThdNode a, ThdNode b]" "idle_chan a c s" "local_chan d s" "chans s d = Some ch"
    "receiver ch = a" "pending d s = []" "c \<noteq> d"
proof (rule stage_used_chan)
  fix s0 a b c cc assume s0: "stage s0 [ThdNode a, ThdNode b]" "idle_chan a c s0" "chans s0 c = Some cc" "lwt_current s0 = a"
  note i0 = stage_inv [OF s0(1)] and h0 = stage_heads [OF s0(1)]
  have g0: "ground s0 [ThdNode a, ThdNode b]" using s0(1) by (simp add: stage_ground)
  have p0: "supplied s0" "(0::int) \<le> 2" "4 * 2 + 16 \<le> (2::int) ^ 32" "2 \<le> int_max" using s0(1) by (simp_all add: stage_def int_max_def)
  obtain d s ch where s: "lwt_chan 2 s0 = Inr (d, s)" "d \<notin> dom (chans s0)" "chans s d = Some ch"
    "new_channel ch 2 (lwt_current s0) (chan_counter s0)" "local_chan d s" "pending d s = []" "supplied s"
    "lwt_current s = lwt_current s0" "current_kthd s = current_kthd s0" "frames s = frames s0"
    "\<forall>h\<in>heads s0. list_foreach h (lists s) = list_foreach h (lists s0)" "thds s = thds s0" "\<forall>e. e \<noteq> d \<longrightarrow> chans s e = chans s0 e"
    using chan_fresh [OF i0 p0] by blast
  have "call (NewChan 2) s0 = Inr (VPtr d, s)" "call_ok (NewChan 2) s0" using s(1) by (simp_all add: ret_ptr_def)
  then have g: "ground s [ThdNode a, ThdNode b]"
    by (rule ground_step [OF g0]) (use s(7-12) h0 in simp_all)
  have cd: "c \<noteq> d" using s(2) s0(3) by blast
  then have c: "chans s c = Some cc" using s(13) s0(3) by simp
  have "SendQ c \<in> heads s0" using s0(3) by (auto simp: heads_def)
  then have "senders c s = senders c s0" using s(11) by (simp add: senders_def queue_of_def)
  then have "idle_chan a c s" using s0(2,3) c by (auto simp: idle_chan_def local_chan_def pending_def buffered_def)
  then show thesis using that [OF g _ s(5,3) _ s(6) cd] s(4) s0(4) by (simp add: new_channel_def)
qed

theorem group_event_witness:
  "\<exists>s g c a b v1 s1 s2 v3 s3 s4. a \<noteq> b \<and> lwt_cgrp_wait g s = Inr (v1, s1) \<and> lwt_current s1 = b \<and> lwt_snd c 42 s1 = Inr (VInt 0, s2) \<and>
     pending c s2 = [42] \<and> lwt_yield 0 s2 = Inr (v3, s3) \<and> lwt_current s3 = a \<and> continue v3 s3 = Inr (VPtr c, s4)"
proof (rule stage_two_chans)
  fix s0 a b c d cd assume s0: "ground s0 [ThdNode a, ThdNode b]" "idle_chan a c s0" "local_chan d s0" "chans s0 d = Some cd"
    "receiver cd = a" "pending d s0 = []" "c \<noteq> d"
  obtain g s ch where w: "waiter a b g c s" "chans s c = Some ch" "ring_not_full (chan_size ch) (buffer ch)"
    "tail (buffer ch) < int_max" "map_option now_rcving (thds s a) = Some d" "pending c s = []"
    using ground_waiter [OF s0(1-6)] by blast
  have n: "map_option now_rcving (thds s a) \<noteq> Some c" using w(5) s0(7) by auto
  have "distinct [ThdNode a, ThdNode b]" using w(1) in_turn_facts(2) unfolding waiter_def by blast
  then have "a \<noteq> b" by simp
  then show ?thesis using group_event [OF w(1-4) n, of 42] unfolding w(6) append_Nil by blast
qed

section \<open>A global channel\<close>

text \<open>The fields that the code leaves as the allocator returned them, along boot and a new channel.\<close>

lemma initiate_raw:
  assumes "initiate k s = Inr s'"
  shows "raw_chan s' = raw_chan s" "wq_occupied (kthds s' k) = 0"
proof -
  have n: "raw_chan s2 = raw_chan s1" "kthds s2 = kthds s1" if "init_chan c z s1 = Inr s2" for c z s1 s2
    using that by (auto simp: init_chan_def run_simps malloc_eq_Inr)
  have l: "raw_chan s2 = raw_chan s1" "kthds s2 = kthds s1" if "lwt_chan z s1 = Inr (c, s2)" for c z s1 s2
    using that n by (fastforce simp: lwt_chan_def run_simps malloc_eq_Inr)+
  have t: "raw_chan s2 = raw_chan s1" "kthds s2 = kthds s1" if "init_thread t j s1 = Inr s2" for t j s1 s2
    using that l by (fastforce simp: init_thread_def run_simps)+
  show "raw_chan s' = raw_chan s" "wq_occupied (kthds s' k) = 0"
    using assms t by (fastforce simp: initiate_def run_simps malloc_eq_Inr init_kthd_def)+
qed

lemma lwt_chan_raw:
  assumes "lwt_chan z s = Inr (c, s')"
  shows "kthds s' = kthds s" "map_option rb_occupied (chans s' c) = Some (rb_occupied (raw_chan s c))"
  using assms by (auto simp: lwt_chan_def init_chan_def run_simps malloc_eq_Inr)

lemma sync_snd_runs:
  assumes i: "lwt_inv s" and p: "supplied s" and c: "c \<noteq> 0" "chans s c = Some ch" "rb_occupied ch = 0"
    and r: "receiver ch \<noteq> 0" "thds s (receiver ch) = Some x" "wq_occupied (kthds s (owner_kthd x)) = 0"
    and b: "ring_ok (chan_size ch) (buffer ch)" "tail (buffer ch) - head (buffer ch) < chan_size ch" "tail (buffer ch) < int_max"
  shows "\<exists>s'. lwt_sync_snd c d s = Inr (VInt 0, s')"
proof -
  obtain b' where b': "ring_put (chan_size ch) d (buffer ch) = Inr b'" using ring_put_ok [OF b] by blast
  let ?s1 = "s\<lparr>chans := (chans s)(c \<mapsto> ch\<lparr>buffer := b', rb_occupied := 0\<rparr>)\<rparr>"
  obtain B where "uheap (mem s) B" by (rule inv_uheap [OF i [unfolded lwt_inv_def]])
  then have B: "uheap (mem ?s1) B" by simp
  have n: "sizeof_lwt_wrap + 16 \<le> 2 ^ 32" by (simp add: sizeof_lwt_wrap_def)
  have p1: "supplied ?s1" using p by (simp add: supplied_def)
  obtain w m where "malloc sizeof_lwt_wrap ?s1 = Inr (w, ?s1\<lparr>mem := m\<rparr>)" "w \<noteq> 0"
    by (rule malloc_ok [OF B n p1])
  then show ?thesis using c r b' by (simp add: lwt_sync_snd_def cas_lock_def Let_def)
qed

lemma stage_global:
  obtains v s c s' where "reachable (v, s)" "lwt_sync_snd c 42 s = Inr (VInt 0, s')"
proof -
  let ?b = "blank fresh_mem (\<lambda>_. demo_thread) (\<lambda>_. demo_channel) (\<lambda>_. 1)"
  have p: "uheap (mem ?b) {}" "supplied ?b" "0 < MAX_KTHD_NUM"
    using fresh_mem_uheap by (simp_all add: blank_def supplied_def fresh_mem_def MAX_KTHD_NUM_def)
  obtain t s0 where s0: "initiate 0 ?b = Inr s0" "t \<noteq> 0" "current_thread (kthds s0 0) = t" "frames s0 = frames ?b" "supplied s0"
    "map_option owner_kthd (thds s0 t) = Some 0"
    using initiate_ok [OF p] by blast
  let ?s = "s0\<lparr>current_kthd := 0\<rparr>"
  have r: "reachable (VVoid, ?s)" by (rule reachable.boot [OF fresh_mem_uheap _ s0(1)]) (simp add: demo_channel_def)
  have cur: "lwt_current ?s = t" "frames ?s t = []" "supplied ?s" using s0(3-5) by (simp_all add: lwt_current_def blank_def supplied_def)
  have i: "lwt_inv ?s" using reachable_inv [OF r] by simp
  have z: "(0::int) \<le> 2" "4 * 2 + 16 \<le> (2::int) ^ 32" "2 \<le> int_max" by (simp_all add: int_max_def)
  obtain c s1 ch where s1: "lwt_chan 2 ?s = Inr (c, s1)" "chans s1 c = Some ch" "new_channel ch 2 t (chan_counter ?s)"
    "supplied s1" "lwt_current s1 = t" "frames s1 = frames ?s" "thds s1 = thds ?s"
    using chan_fresh [OF i cur(3) z] cur(1) by auto
  have r1: "reachable (VPtr c, s1)"
    by (rule reachable.step [OF r], rule user_call [of _ "NewChan 2"]) (use s1(1) cur(1,2) in \<open>simp_all add: ret_ptr_def\<close>)
  have i1: "lwt_inv s1" using reachable_inv [OF r1] by simp
  note c0 = inv_chan(1) [OF i1 s1(2)] and raw = lwt_chan_raw [OF s1(1)] initiate_raw [OF s0(1)]
  let ?s2 = "s1\<lparr>chans := (chans s1)(c \<mapsto> ch\<lparr>chan_ty := GLOBAL_CHAN\<rparr>)\<rparr>"
  have r2: "reachable (VVoid, ?s2)"
    by (rule reachable.step [OF r1], rule user_call [of _ "SetType c GLOBAL_CHAN"])
      (use c0 s1 cur in \<open>simp_all add: ret_void_def set_chan_type_def\<close>)
  have "rb_occupied ch = 0" using raw(2,3) s1(2) by (simp add: blank_def demo_channel_def)
  moreover obtain x where "thds s1 t = Some x" "owner_kthd x = 0" using s0(6) s1(7) by auto
  moreover have "wq_occupied (kthds s1 0) = 0" using raw(1,4) by simp
  ultimately have "\<exists>s'. lwt_sync_snd c 42 ?s2 = Inr (VInt 0, s')"
    using reachable_inv [OF r2] s1(3,4) c0 s0(2)
      sync_snd_runs [of ?s2 c "ch\<lparr>chan_ty := GLOBAL_CHAN\<rparr>" x 42]
    by (simp add: new_channel_def supplied_def int_max_def)
  then show thesis using that r2 by blast
qed

theorem global_send_wakes_nobody_witness:
  "\<exists>v s c s'. reachable (v, s) \<and> lwt_sync_snd c 42 s = Inr (VInt 0, s') \<and> thds s' = thds s"
proof (rule stage_global)
  fix v s c s' assume "reachable (v, s)" "lwt_sync_snd c 42 s = Inr (VInt 0, s')"
  then show ?thesis using global_send_wakes_nobody by blast
qed

end
