(* ===== verification/Lwt_Dispatch.thy ===== *)
theory Lwt_Dispatch
  imports Lwt_Reach "HOL-Library.Word"
begin

text \<open>
  The assembly of \<^verbatim>\<open>__lwt_dispatch\<close> (\<^verbatim>\<open>lwt.c\<close>) on a 32-bit machine: eight general registers,
  an instruction pointer and a memory of 32-bit words (every access of this code is to a
  word-aligned address). The scheduler's model, in which a switch changes \<open>current_thread\<close>
  and nothing else of the threads but their saved contexts, rests on what is proved here: a
  thread that is switched away from and later switched back to has all its registers again.
\<close>

section \<open>The machine\<close>

type_synonym w32 = "32 word"

record cpu =
  eax :: w32
  ecx :: w32
  edx :: w32
  ebx :: w32
  esp :: w32
  ebp :: w32
  esi :: w32
  edi :: w32
  eip :: w32
  ram :: "w32 \<Rightarrow> w32"

definition pushl :: "w32 \<Rightarrow> cpu \<Rightarrow> cpu" where
  "pushl v c = c\<lparr>esp := esp c - 4, ram := (ram c)(esp c - 4 := v)\<rparr>"

definition popl :: "cpu \<Rightarrow> w32 \<times> cpu" where
  "popl c = (ram c (esp c), c\<lparr>esp := esp c + 4\<rparr>)"

text \<open>
  The instructions the function uses. \<^verbatim>\<open>pushal\<close> pushes \<^verbatim>\<open>esp\<close> as it was before the first
  push, \<^verbatim>\<open>popal\<close> skips the word it finds for \<^verbatim>\<open>esp\<close>.
\<close>

datatype instr =
    Pushal
  | Store_esp w32        \<comment> \<open>\<^verbatim>\<open>movl %esp, m\<close>\<close>
  | Store_label w32 w32  \<comment> \<open>\<^verbatim>\<open>movl $label, m\<close>\<close>
  | Load_esp w32         \<comment> \<open>\<^verbatim>\<open>movl m, %esp\<close>\<close>
  | Jmp_mem w32          \<comment> \<open>\<^verbatim>\<open>jmp *m\<close>\<close>
  | Popal

fun step_instr :: "instr \<Rightarrow> cpu \<Rightarrow> cpu" where
  "step_instr Pushal c =
     pushl (edi c) (pushl (esi c) (pushl (ebp c) (pushl (esp c)
       (pushl (ebx c) (pushl (edx c) (pushl (ecx c) (pushl (eax c) c)))))))"
| "step_instr (Store_esp m) c = c\<lparr>ram := (ram c)(m := esp c)\<rparr>"
| "step_instr (Store_label l m) c = c\<lparr>ram := (ram c)(m := l)\<rparr>"
| "step_instr (Load_esp m) c = c\<lparr>esp := ram c m\<rparr>"
| "step_instr (Jmp_mem m) c = c\<lparr>eip := ram c m\<rparr>"
| "step_instr Popal c =
     (let (d, c1) = popl c; (s, c2) = popl c1; (b, c3) = popl c2; (_, c4) = popl c3;
          (x, c5) = popl c4; (y, c6) = popl c5; (z, c7) = popl c6; (a, c8) = popl c7
      in c8\<lparr>edi := d, esi := s, ebp := b, ebx := x, edx := y, ecx := z, eax := a\<rparr>)"

text \<open>
  A context is a \<^verbatim>\<open>struct _lwt_context\<close>: \<^verbatim>\<open>ip\<close> at its address, \<^verbatim>\<open>sp\<close> behind it. The
  function up to its jump, for the contexts at \<open>old\<close> and \<open>new\<close>, and the part behind the
  label \<^verbatim>\<open>retDispatch\<close>, whose address is \<open>r\<close>.
\<close>

definition switch_code :: "w32 \<Rightarrow> w32 \<Rightarrow> w32 \<Rightarrow> instr list" where
  "switch_code r old new =
     [Pushal, Store_esp (old + 4), Store_label r old, Load_esp (new + 4), Jmp_mem new]"

definition ret_code :: "instr list" where
  "ret_code = [Popal]"

definition switch :: "w32 \<Rightarrow> w32 \<Rightarrow> w32 \<Rightarrow> cpu \<Rightarrow> cpu" where
  "switch r old new c = fold step_instr (switch_code r old new) c"

definition return_from :: "cpu \<Rightarrow> cpu" where
  "return_from c = fold step_instr ret_code c"

section \<open>What is pushed\<close>

text \<open>The words below a stack pointer that \<^verbatim>\<open>pushal\<close> writes.\<close>

definition pushed :: "w32 \<Rightarrow> w32 set" where
  "pushed p = {p - 4, p - 8, p - 12, p - 16, p - 20, p - 24, p - 28, p - 32}"

definition holds_regs :: "cpu \<Rightarrow> (w32 \<Rightarrow> w32) \<Rightarrow> bool" where
  "holds_regs c m \<longleftrightarrow> (let p = esp c in
     m (p - 4) = eax c \<and> m (p - 8) = ecx c \<and> m (p - 12) = edx c \<and> m (p - 16) = ebx c \<and>
     m (p - 20) = esp c \<and> m (p - 24) = ebp c \<and> m (p - 28) = esi c \<and> m (p - 32) = edi c)"

lemma pushal_effect:
  "esp (step_instr Pushal c) = esp c - 32" "holds_regs c (ram (step_instr Pushal c))"
  "a \<notin> pushed (esp c) \<Longrightarrow> ram (step_instr Pushal c) a = ram c a"
  by (simp_all add: pushl_def holds_regs_def pushed_def Let_def)

lemma popal_effect:
  assumes "holds_regs c (ram d)" "esp d = esp c - 32"
  shows "step_instr Popal d = c\<lparr>eip := eip d, ram := ram d\<rparr>"
  using assms by (simp add: popl_def holds_regs_def Let_def)

text \<open>
  \<open>apart old new p\<close>: neither context lies in the words pushed below \<open>p\<close>, and the two do not
  overlap (or are the same).
\<close>

definition ctx_cells :: "w32 \<Rightarrow> w32 set" where
  "ctx_cells a = {a, a + 4}"

lemma switch_effect:
  assumes "ctx_cells old \<inter> pushed (esp c) = {}" "ctx_cells new \<inter> pushed (esp c) = {}"
    "old = new \<or> ctx_cells old \<inter> ctx_cells new = {}"
  shows "ram (switch r old new c) old = r" "ram (switch r old new c) (old + 4) = esp c - 32"
    "holds_regs c (ram (switch r old new c))"
    "esp (switch r old new c) = (if new = old then esp c - 32 else ram c (new + 4))"
    "eip (switch r old new c) = (if new = old then r else ram c new)"
    "a \<notin> pushed (esp c) \<Longrightarrow> a \<notin> ctx_cells old \<Longrightarrow> ram (switch r old new c) a = ram c a"
proof -
  let ?c = "step_instr Pushal c"
  have sw: "switch r old new c = (let m = (ram ?c)(old + 4 := esp ?c, old := r) in ?c\<lparr>ram := m, esp := m (new + 4), eip := m new\<rparr>)"
    by (simp add: switch_def switch_code_def Let_def del: step_instr.simps(1))
  note p = pushal_effect(1,2) [of c] pushal_effect(3) [of _ c]
  have d: "old \<noteq> old + 4" by simp
  show "ram (switch r old new c) old = r" "ram (switch r old new c) (old + 4) = esp c - 32"
    using p(1) d by (simp_all add: sw Let_def)
  have n: "x \<notin> ctx_cells old" if "x \<in> pushed (esp c)" for x using assms(1) that by blast
  show "holds_regs c (ram (switch r old new c))"
    using p(2) n by (simp add: holds_regs_def sw Let_def ctx_cells_def pushed_def)
  have nx: "new \<notin> pushed (esp c)" "new + 4 \<notin> pushed (esp c)" using assms(2) by (auto simp: ctx_cells_def)
  then have rn: "ram ?c new = ram c new" "ram ?c (new + 4) = ram c (new + 4)" using p(3) by blast+
  have "new \<noteq> old \<Longrightarrow> new \<noteq> old + 4 \<and> new + 4 \<noteq> old" using assms(3) by (auto simp: ctx_cells_def)
  then show "esp (switch r old new c) = (if new = old then esp c - 32 else ram c (new + 4))"
    "eip (switch r old new c) = (if new = old then r else ram c new)"
    using rn p(1) d by (simp_all add: sw Let_def del: step_instr.simps(1))
  show "ram (switch r old new c) a = ram c a" if "a \<notin> pushed (esp c)" "a \<notin> ctx_cells old"
    using p(3) [OF that(1)] that(2) by (simp add: sw Let_def ctx_cells_def del: step_instr.simps(1))
qed

section \<open>The model's contexts in memory\<close>

text \<open>
  \<open>shown\<close>: the threads' contexts, at the addresses \<open>loc\<close> gives, hold what the model says of
  them; \<open>r\<close> and \<open>tr\<close> are the addresses of the label and of the trampoline. The stack of a
  thread that has not run yet holds the trampoline's arguments.
\<close>

definition code_addr :: "w32 \<Rightarrow> w32 \<Rightarrow> code_label \<Rightarrow> w32" where
  "code_addr r tr l = (case l of RetDispatch \<Rightarrow> r | Trampoline \<Rightarrow> tr)"

definition args_shown :: "lwt_thread \<Rightarrow> sys \<Rightarrow> (w32 \<Rightarrow> w32) \<Rightarrow> bool" where
  "args_shown x s m \<longleftrightarrow>
     m (of_nat (sp (ctx x)) + 4) = of_nat (fst (trampoline_args x s)) \<and>
     m (of_nat (sp (ctx x)) + 8) = of_nat (snd (trampoline_args x s))"

definition shown :: "(ptr \<Rightarrow> w32) \<Rightarrow> w32 \<Rightarrow> w32 \<Rightarrow> sys \<Rightarrow> (w32 \<Rightarrow> w32) \<Rightarrow> bool" where
  "shown loc r tr s m \<longleftrightarrow> (\<forall>t x. thds s t = Some x \<longrightarrow> m (loc t) = code_addr r tr (ip (ctx x)) \<and>
     (ip (ctx x) = Trampoline \<longrightarrow> m (loc t + 4) = of_nat (sp (ctx x)) \<and> args_shown x s m))"

text \<open>
  \<open>laid_out\<close>: contexts are apart from each other and from what the running thread pushes, and
  so are the argument words of threads that have not run.
\<close>

definition laid_out :: "(ptr \<Rightarrow> w32) \<Rightarrow> ptr \<Rightarrow> sys \<Rightarrow> w32 \<Rightarrow> bool" where
  "laid_out loc old s p \<longleftrightarrow> (\<forall>t x. thds s t = Some x \<longrightarrow> ctx_cells (loc t) \<inter> pushed p = {} \<and>
     (t \<noteq> old \<longrightarrow> ctx_cells (loc t) \<inter> ctx_cells (loc old) = {} \<and>
       (ip (ctx x) = Trampoline \<longrightarrow>
         {of_nat (sp (ctx x)) + 4, of_nat (sp (ctx x)) + 8} \<inter> (pushed p \<union> ctx_cells (loc old)) = {})))"

lemma shown_kept:
  assumes m: "shown loc r tr s m" and x: "thds s t = Some x" and s': "stackw s' = stackw s"
    and same: "m' (loc t) = m (loc t)" "m' (loc t + 4) = m (loc t + 4)"
      "ip (ctx x) = Trampoline \<Longrightarrow> m' (of_nat (sp (ctx x)) + 4) = m (of_nat (sp (ctx x)) + 4)"
      "ip (ctx x) = Trampoline \<Longrightarrow> m' (of_nat (sp (ctx x)) + 8) = m (of_nat (sp (ctx x)) + 8)"
  shows "m' (loc t) = code_addr r tr (ip (ctx x)) \<and>
    (ip (ctx x) = Trampoline \<longrightarrow> m' (loc t + 4) = of_nat (sp (ctx x)) \<and> args_shown x s' m')"
  using m x same s' unfolding shown_def args_shown_def trampoline_args_def by metis

section \<open>Properties\<close>

text \<open>
  C25 A switch is transparent to the thread it suspends: a thread that calls \<^verbatim>\<open>__lwt_dispatch\<close>
  and is dispatched to again, by whichever thread and after whatever ran in between, goes on
  behind its own call with all its registers and its stack pointer, as long as its saved
  context and the words it pushed were left alone. A dispatch to itself is the identity.
\<close>

theorem dispatch_transparent:
  assumes "ctx_cells old \<inter> pushed (esp c) = {}" "ctx_cells new \<inter> pushed (esp c) = {}" "ctx_cells old \<inter> ctx_cells new = {}"
    and "\<forall>a\<in>pushed (esp c) \<union> ctx_cells old. ram d a = ram (switch r old new c) a"
    and "ctx_cells cur \<inter> pushed (esp d) = {}" "ctx_cells cur \<inter> ctx_cells old = {}" "ctx_cells old \<inter> pushed (esp d) = {}"
      "pushed (esp c) \<inter> (pushed (esp d) \<union> ctx_cells cur) = {}"
  shows "eip (switch r cur old d) = r \<and>
    return_from (switch r cur old d) = c\<lparr>eip := r, ram := ram (switch r cur old d)\<rparr> \<and>
    return_from (switch r old old c) = c\<lparr>eip := r, ram := ram (switch r old old c)\<rparr>"
proof -
  let ?c = "switch r old new c" and ?d = "switch r cur old d"
  note c = switch_effect [where r = r, OF assms(1,2)] and d = switch_effect [where r = r, OF assms(5,7)]
  note self = switch_effect [where r = r, OF assms(1,1)]
  have o: "old \<in> ctx_cells old" "old + 4 \<in> ctx_cells old" by (simp_all add: ctx_cells_def)
  have oc: "old \<noteq> cur" using assms(6) by (auto simp: ctx_cells_def)
  have "ram d old = r" "ram d (old + 4) = esp c - 32" using assms(3,4) o c(1,2) by auto
  then have e: "eip ?d = r" "esp ?d = esp c - 32" using d(4,5) assms(6) oc by simp_all
  have keep: "ram ?d a = ram ?c a" if "a \<in> pushed (esp c)" for a
    using d(6) [of a] assms(4,6,8) that by auto
  have "holds_regs c (ram ?c)" using c(3) assms(3) by simp
  then have "holds_regs c (ram ?d)" using keep by (simp add: holds_regs_def pushed_def)
  then have "step_instr Popal ?d = c\<lparr>eip := eip ?d, ram := ram ?d\<rparr>" using e(2) by (rule popal_effect)
  moreover have "step_instr Popal (switch r old old c) = c\<lparr>eip := eip (switch r old old c), ram := ram (switch r old old c)\<rparr>"
    using self(3,4) by (intro popal_effect) simp_all
  ultimately show ?thesis using e(1) self(5) by (simp add: return_from_def ret_code_def del: step_instr.simps)
qed

text \<open>Where the context of the target lies.\<close>

lemma layout_target:
  assumes l: "laid_out loc old s (esp c)" and x: "thds s old = Some x" and y: "((thds s)(old \<mapsto> x')) new = Some y"
  shows "ctx_cells (loc new) \<inter> pushed (esp c) = {}" "loc old = loc new \<or> ctx_cells (loc old) \<inter> ctx_cells (loc new) = {}"
    "new \<noteq> old \<Longrightarrow> loc new \<noteq> loc old"
proof -
  show "ctx_cells (loc new) \<inter> pushed (esp c) = {}"
    using l x y by (cases "new = old") (simp_all add: laid_out_def)
  have n: "ctx_cells (loc new) \<inter> ctx_cells (loc old) = {}" if "new \<noteq> old"
    using l y that by (simp add: laid_out_def)
  then show "loc old = loc new \<or> ctx_cells (loc old) \<inter> ctx_cells (loc new) = {}" by (cases "new = old") blast+
  show "new \<noteq> old \<Longrightarrow> loc new \<noteq> loc old" using n by (auto simp: ctx_cells_def)
qed

text \<open>What is shown of the other threads stays so, if only the words of the switch change.\<close>

lemma others_kept:
  assumes sh: "shown loc r tr s (ram c)" and l: "laid_out loc old s (esp c)" and sw: "stackw s' = stackw s"
    and keep: "\<forall>a. a \<notin> pushed (esp c) \<longrightarrow> a \<notin> ctx_cells (loc old) \<longrightarrow> m a = ram c a"
    and z: "thds s t = Some z" "t \<noteq> old"
  shows "m (loc t) = code_addr r tr (ip (ctx z)) \<and> (ip (ctx z) = Trampoline \<longrightarrow> m (loc t + 4) = of_nat (sp (ctx z)) \<and> args_shown z s' m)"
proof (rule shown_kept [OF sh z(1) sw])
  have a: "ctx_cells (loc t) \<inter> pushed (esp c) = {}" "ctx_cells (loc t) \<inter> ctx_cells (loc old) = {}"
    "ip (ctx z) = Trampoline \<Longrightarrow> {of_nat (sp (ctx z)) + 4, of_nat (sp (ctx z)) + 8} \<inter> (pushed (esp c) \<union> ctx_cells (loc old)) = {}"
    using l z by (auto simp: laid_out_def)
  show "m (loc t) = ram c (loc t)" "m (loc t + 4) = ram c (loc t + 4)"
    using a(1,2) by (auto intro!: keep [rule_format] simp: ctx_cells_def)
  show "ip (ctx z) = Trampoline \<Longrightarrow> m (of_nat (sp (ctx z)) + 4) = ram c (of_nat (sp (ctx z)) + 4)"
    "ip (ctx z) = Trampoline \<Longrightarrow> m (of_nat (sp (ctx z)) + 8) = ram c (of_nat (sp (ctx z)) + 8)"
    using a(3) by (auto intro!: keep [rule_format])
qed

text \<open>
  C8 The model's dispatch is what the assembly does: when the contexts in memory are as the
  model has them, they are so again after both have switched, and the machine is where the
  model says: behind \<^verbatim>\<open>retDispatch\<close> for a thread that was suspended, at the trampoline, with
  the thread's function and its argument in the places of its two parameters, for a thread
  that never ran.
\<close>

theorem dispatch_refines:
  assumes "lwt_dispatch old new s = Inr (v, s')" "shown loc r tr s (ram c)" "laid_out loc old s (esp c)"
  shows "shown loc r tr s' (ram (switch r (loc old) (loc new) c)) \<and>
    (v = VInt 0 \<and> eip (switch r (loc old) (loc new) c) = r \<or>
     v = VVoid \<and> eip (switch r (loc old) (loc new) c) = tr \<and>
       (\<exists>fn d. ufn s' new = Some (fn, d) \<and> ram (switch r (loc old) (loc new) c) (esp (switch r (loc old) (loc new) c) + 4) = of_nat fn \<and>
         ram (switch r (loc old) (loc new) c) (esp (switch r (loc old) (loc new) c) + 8) = of_nat d))"
proof -
  let ?c = "switch r (loc old) (loc new) c"
  obtain x where x: "old \<noteq> 0" "thds s old = Some x" using assms(1) by (auto simp: lwt_dispatch_def rbind_eq_Inr)
  let ?x = "x\<lparr>ctx := (ctx x)\<lparr>ip := RetDispatch\<rparr>\<rparr>" let ?T = "(thds s)(old \<mapsto> ?x)"
  obtain y where y: "new \<noteq> 0" "?T new = Some y" using assms(1) x by (auto simp: lwt_dispatch_def rbind_eq_Inr)
  have s': "thds s' = ?T" "stackw s' = stackw s"
    using assms(1) x y by (auto simp: lwt_dispatch_def rbind_eq_Inr split: code_label.splits)
  have ap: "ctx_cells (loc old) \<inter> pushed (esp c) = {}" using assms(3) x by (simp add: laid_out_def)
  note an = layout_target [OF assms(3) x(2) y(2)]
  note e = switch_effect [where r = r, OF ap an(1,2)]
  have keep: "\<forall>a. a \<notin> pushed (esp c) \<longrightarrow> a \<notin> ctx_cells (loc old) \<longrightarrow> ram ?c a = ram c a" using e(6) by blast
  note sh = others_kept [OF assms(2,3) s'(2) keep]
  have "shown loc r tr s' (ram ?c)"
    unfolding shown_def s'(1) using sh e(1) by (simp add: code_addr_def)
  moreover have "v = VInt 0 \<and> eip ?c = r" if "ip (ctx y) = RetDispatch"
  proof (cases "new = old")
    case False
    then have "thds s new = Some y" using y by simp
    then have "ram c (loc new) = r" using assms(2) that by (simp add: shown_def code_addr_def)
    then show ?thesis using assms(1) x y that e(5) by (simp add: lwt_dispatch_def)
  qed (use assms(1) x y that e(5) in \<open>simp add: lwt_dispatch_def\<close>)
  moreover have "v = VVoid \<and> eip ?c = tr \<and> (\<exists>fn d. ufn s' new = Some (fn, d) \<and> ram ?c (esp ?c + 4) = of_nat fn \<and> ram ?c (esp ?c + 8) = of_nat d)"
    if i: "ip (ctx y) = Trampoline"
  proof -
    have n: "new \<noteq> old" "thds s new = Some y" using i y by (auto split: if_splits)
    then have m: "ram c (loc new) = tr" "ram c (loc new + 4) = of_nat (sp (ctx y))"
      using assms(2) i by (simp_all add: shown_def code_addr_def)
    have "args_shown y s' (ram ?c)" using sh [OF n(2,1)] i by blast
    moreover have "v = VVoid" "ufn s' new = Some (trampoline_args y s')"
      using assms(1) x y i by (auto simp: lwt_dispatch_def trampoline_args_def)
    ultimately show ?thesis using m e(4,5) an(3) [OF n(1)]
      by (cases "trampoline_args y s'") (simp add: args_shown_def)
  qed
  ultimately show ?thesis by (cases "ip (ctx y)") blast+
qed

section \<open>Applied\<close>

text \<open>
  A thread with stack at 1000 and context at 2000 switches to one with context at 2100;
  some other code runs, and the second thread, with stack at 3000, switches back.
\<close>

definition cpu_a :: cpu where
  "cpu_a = \<lparr>eax = 1, ecx = 2, edx = 3, ebx = 4, esp = 1000, ebp = 5, esi = 6, edi = 7, eip = 50, ram = (\<lambda>_. 0)\<rparr>"

definition cpu_b :: cpu where
  "cpu_b = (switch 99 2000 2100 cpu_a)\<lparr>eax := 11, ecx := 12, edx := 13, ebx := 14, esp := 3000, ebp := 15, esi := 16, edi := 17\<rparr>"

theorem dispatch_transparent_witness:
  "return_from (switch 99 2100 2000 cpu_b) = cpu_a\<lparr>eip := 99, ram := ram (switch 99 2100 2000 cpu_b)\<rparr>"
proof -
  have h: "ctx_cells 2000 \<inter> pushed (esp cpu_a) = {}" "ctx_cells 2100 \<inter> pushed (esp cpu_a) = {}" "ctx_cells 2000 \<inter> ctx_cells 2100 = {}"
    "\<forall>a\<in>pushed (esp cpu_a) \<union> ctx_cells 2000. ram cpu_b a = ram (switch 99 2000 2100 cpu_a) a"
    "ctx_cells 2100 \<inter> pushed (esp cpu_b) = {}" "ctx_cells 2100 \<inter> ctx_cells 2000 = {}" "ctx_cells 2000 \<inter> pushed (esp cpu_b) = {}"
    "pushed (esp cpu_a) \<inter> (pushed (esp cpu_b) \<union> ctx_cells 2100) = {}"
    by (simp_all add: ctx_cells_def pushed_def cpu_a_def cpu_b_def)
  show ?thesis using dispatch_transparent [OF h] by blast
qed

text \<open>
  A running thread 1 with its context at 2000 dispatches to the new thread 2, whose context at
  2100 points at the stack that \<^verbatim>\<open>lwt_create\<close> prepared for function 60 with argument 61.
\<close>

definition sample_sys :: sys where
  "sample_sys = (blank fresh_mem (\<lambda>_. demo_thread) (\<lambda>_. demo_channel) (\<lambda>_. 1))
     \<lparr>thds := [1 \<mapsto> demo_thread, 2 \<mapsto> demo_thread\<lparr>ctx := \<lparr>ip = Trampoline, sp = 5000\<rparr>\<rparr>],
      stackw := (\<lambda>_. 0)(5004 := 60, 5008 := 61)\<rparr>"

definition sample_loc :: "ptr \<Rightarrow> w32" where
  "sample_loc t = (if t = 1 then 2000 else 2100)"

definition sample_cpu :: cpu where
  "sample_cpu = cpu_a\<lparr>ram := (\<lambda>_. 0)(2000 := 99, 2100 := 98, 2104 := 5000, 5004 := 60, 5008 := 61)\<rparr>"

theorem dispatch_refines_witness:
  "eip (switch 99 2000 2100 sample_cpu) = 98 \<and> ram (switch 99 2000 2100 sample_cpu) (esp (switch 99 2000 2100 sample_cpu) + 4) = 60 \<and>
   ram (switch 99 2000 2100 sample_cpu) (esp (switch 99 2000 2100 sample_cpu) + 8) = 61"
proof -
  obtain s' where d: "lwt_dispatch 1 2 sample_sys = Inr (VVoid, s')" "ufn s' 2 = Some (60, 61)"
    by (simp add: lwt_dispatch_def sample_sys_def thd_def upd_thd_def trampoline_args_def)
  have "shown sample_loc 99 98 sample_sys (ram sample_cpu)" "laid_out sample_loc 1 sample_sys (esp sample_cpu)"
    by (auto simp: shown_def laid_out_def sample_sys_def sample_loc_def sample_cpu_def cpu_a_def code_addr_def args_shown_def
        trampoline_args_def ctx_cells_def pushed_def demo_thread_def split: if_splits)
  from dispatch_refines [OF d(1) this] d(2) show ?thesis by (simp add: sample_loc_def)
qed

end
