(* ===== verification/Lwt_Paths.thy ===== *)
theory Lwt_Paths
  imports Lwt_Machine
begin

text \<open>
  The paths through the operations with the most branches, as elimination rules: which smaller
  steps an operation that succeeded was made of. Facts about all operations (what they do to
  memory, to types, to the suspended calls) are proved path by path.
\<close>

lemmas no_update = upd_chan_eq_Inr upd_thd_eq_Inr upd_grp_eq_Inr upd_thd_live upd_chan_live upd_grp_live

lemma snd_cases:
  assumes r: "lwt_snd c d s = Inr (v, s')"
  obtains (global) s1 where "upd_chan c (\<lambda>ch. ch\<lparr>chan_ty := GLOBAL_CHAN\<rparr>) s = Inr s1" "lwt_sync_snd c d s1 = Inr (v, s')"
  | (dead) "s' = s" "v = VInt (- 1)"
  | (waits) r s1 where "upd_thd r (\<lambda>x. x\<lparr>message_data := d\<rparr>) s = Inr s1" "resume_thread r s1 = Inr s'" "v = VInt 0"
  | (room) b s1 s2 where "upd_chan c (\<lambda>ch. ch\<lparr>ready := 1\<rparr>) s = Inr s1" "wake_group c s1 = Inr s2"
      "upd_chan c (\<lambda>ch. ch\<lparr>buffer := b\<rparr>) s2 = Inr s'" "v = VInt 0"
  | (full) s1 s2 s3 where "upd_chan c (\<lambda>ch. ch\<lparr>ready := 1\<rparr>) s = Inr s1" "wake_group c s1 = Inr s2"
      "upd_thd (lwt_current s) (\<lambda>x. x\<lparr>message_data := d\<rparr>) s2 = Inr s3"
      "block_thread (lwt_current s) BLOCKED_SENDING c (push KSnd s3) = Inr (v, s')"
proof -
  obtain ch where ch: "chan c s = Inr ch" using r by (auto simp: lwt_snd_def rbind_eq_Inr)
  consider "chan_ty ch = GLOBAL_CHAN" | "chan_ty ch \<noteq> GLOBAL_CHAN" "receiver ch = 0"
    | "chan_ty ch \<noteq> GLOBAL_CHAN" "receiver ch \<noteq> 0" by blast
  then show thesis
  proof cases
    case 1
    then show ?thesis using r ch by (auto simp: lwt_snd_def set_chan_type_def rbind_eq_Inr simp del: no_update intro: global)
  next
    case 2
    then show ?thesis using r ch by (auto simp: lwt_snd_def intro: dead)
  next
    case 3
    then obtain x where x: "thd (receiver ch) s = Inr x" using r ch by (auto simp: lwt_snd_def rbind_eq_Inr split: if_splits)
    show ?thesis
    proof (cases "receiver_waits ch c x")
      case True
      then show ?thesis using r ch 3 x by (auto simp: lwt_snd_def rbind_eq_Inr simp del: no_update intro: waits)
    next
      case False
      obtain s1 s2 where s2: "upd_chan c (\<lambda>ch. ch\<lparr>ready := 1\<rparr>) s = Inr s1" "wake_group c s1 = Inr s2"
        and rest: "(if ring_not_full (chan_size ch) (buffer ch) then
           rbind (ring_put (chan_size ch) d (buffer ch)) (\<lambda>b. rbind (upd_chan c (\<lambda>ch. ch\<lparr>buffer := b\<rparr>) s2) (\<lambda>s3. Inr (VInt 0, s3)))
         else rbind (upd_thd (lwt_current s) (\<lambda>x. x\<lparr>message_data := d\<rparr>) s2) (\<lambda>s3.
             block_thread (lwt_current s) BLOCKED_SENDING c (push KSnd s3))) = Inr (v, s')"
        using r ch 3 x False unfolding lwt_snd_def Let_def by (auto simp: rbind_eq_Inr simp del: no_update)
      show ?thesis
      proof (cases "ring_not_full (chan_size ch) (buffer ch)")
        case True
        then show ?thesis using s2 rest by (auto simp: rbind_eq_Inr simp del: no_update intro: room)
      next
        case False
        then show ?thesis using s2 rest by (auto simp: rbind_eq_Inr simp del: no_update intro: full)
      qed
    qed
  qed
qed

lemma rcv_cases:
  assumes r: "lwt_rcv c s = Inr (v, s')"
  obtains (global) "sync_rcv_loop c (lwt_current s) s = Inr (v, s')"
  | (buffered) w b s1 s2 where "upd_chan c (\<lambda>ch. ch\<lparr>buffer := b\<rparr>) s = Inr s1" "refill c s1 = Inr s2"
      "upd_chan c (\<lambda>ch. ch\<lparr>ready := (if head (buffer ch) = tail (buffer ch) then 0 else 1)\<rparr>) s2 = Inr s'" "v = VPtr w"
  | (sender) w t i s1 where "resume_thread t s = Inr s1" "upd_chan c (\<lambda>ch. ch\<lparr>ready := i\<rparr>) s1 = Inr s'" "v = VPtr w"
  | (parks) s1 where "upd_thd (lwt_current s) (\<lambda>x. x\<lparr>now_rcving := c\<rparr>) s = Inr s1"
      "block_thread (lwt_current s) BLOCKED_RECEIVING c (push (KRcv (lwt_current s)) s1) = Inr (v, s')"
proof -
  obtain ch where ch: "chan c s = Inr ch" using r by (auto simp: lwt_rcv_def rbind_eq_Inr)
  consider "chan_ty ch = GLOBAL_CHAN" | "chan_ty ch \<noteq> GLOBAL_CHAN" "ring_nonempty (buffer ch)"
    | "chan_ty ch \<noteq> GLOBAL_CHAN" "\<not> ring_nonempty (buffer ch)" "\<not> list_head_empty (SendQ c) (lists s)"
    | "chan_ty ch \<noteq> GLOBAL_CHAN" "\<not> ring_nonempty (buffer ch)" "list_head_empty (SendQ c) (lists s)" by blast
  then show thesis
  proof cases
    case 1
    then show ?thesis using r ch global by (auto simp: lwt_rcv_def lwt_sync_rcv_def rbind_eq_Inr)
  next
    case 2
    then show ?thesis using r ch by (auto simp: lwt_rcv_def rbind_eq_Inr simp del: no_update intro: buffered)
  next
    case 3
    then show ?thesis using r ch by (auto simp: lwt_rcv_def rbind_eq_Inr simp del: no_update intro: sender)
  next
    case 4
    then show ?thesis using r ch by (auto simp: lwt_rcv_def Let_def rbind_eq_Inr simp del: no_update intro: parks)
  qed
qed

text \<open>The thread that parks itself in one of the two waiting loops.\<close>

lemma sync_rcv_cases:
  assumes r: "sync_rcv_loop c t s = Inr (v, s')"
  obtains (gets) w b where "upd_chan c (\<lambda>ch. ch\<lparr>buffer := b\<rparr>) s = Inr s'" "v = VPtr w"
  | (parks) x where "thds s t = Some x" "lwt_yield 0 (push (KSyncRcv c t) (s\<lparr>lists := list_ll_rem (ThdNode t) (lists s),
      thds := (thds s)(t \<mapsto> x\<lparr>now_rcving := c, tstate := LWT_BLOCKED, block_for := BLOCKED_RECEIVING\<rparr>),
      kthds := (kthds s)(current_kthd s := (kthds s (current_kthd s))
        \<lparr>nrcving := nrcving (kthds s (current_kthd s)) + 1, block_counter := block_counter (kthds s (current_kthd s)) + 1\<rparr>)\<rparr>)) = Inr (v, s')"
proof -
  obtain ch where ch: "chan c s = Inr ch" using r by (auto simp: sync_rcv_loop_def rbind_eq_Inr)
  show thesis
  proof (cases "ring_nonempty (buffer ch)")
    case True
    then show ?thesis using r ch by (auto simp: sync_rcv_loop_def rbind_eq_Inr simp del: no_update intro: gets)
  next
    case False
    then obtain x where "thds s t = Some x" using r ch by (auto simp: sync_rcv_loop_def Let_def rbind_eq_Inr)
    then show ?thesis using r ch False by (auto simp: sync_rcv_loop_def Let_def rbind_eq_Inr intro: parks)
  qed
qed

lemma cgrp_wait_cases:
  assumes r: "cgrp_wait_loop g t s = Inr (v, s')"
  obtains (found) c where "upd_grp g (\<lambda>x. x\<lparr>blocked := 0\<rparr>) s = Inr s'" "v = VPtr c"
  | (parks) s1 x where "upd_grp g (\<lambda>x. x\<lparr>blocked := 1\<rparr>) s = Inr s1" "thds s1 t = Some x"
      "lwt_yield 0 (push (KCgrpWait g t) (s1\<lparr>lists := list_ll_rem (ThdNode t) (lists s1),
      kthds := (kthds s1)(current_kthd s := (kthds s1 (current_kthd s))
        \<lparr>block_counter := block_counter (kthds s1 (current_kthd s)) + 1, nrcving := nrcving (kthds s1 (current_kthd s)) + 1\<rparr>),
      thds := (thds s1)(t \<mapsto> x\<lparr>tstate := LWT_BLOCKED, block_for := BLOCKED_RECEIVING\<rparr>)\<rparr>)) = Inr (v, s')"
proof -
  let ?k = "current_kthd s"
  obtain fnd where sc: "scan_ready s (GrpQ g) (list_head_first (GrpQ g) (lists s)) = Some fnd"
    using r by (auto simp: cgrp_wait_loop_def rbind_eq_Inr)
  show thesis
  proof (cases fnd)
    case (Some n)
    then show ?thesis using r sc by (auto simp: cgrp_wait_loop_def rbind_eq_Inr simp del: no_update intro: found)
  next
    case None
    obtain s1 where u: "upd_grp g (\<lambda>x. x\<lparr>blocked := 1\<rparr>) s = Inr s1" and
      rest: "rbind (upd_thd t (\<lambda>x. x\<lparr>tstate := LWT_BLOCKED, block_for := BLOCKED_RECEIVING\<rparr>)
        (kthd_do ?k (\<lambda>i. i\<lparr>block_counter := block_counter i + 1, nrcving := nrcving i + 1\<rparr>) (rem_node (ThdNode t) s1)))
        (\<lambda>s3. lwt_yield 0 (push (KCgrpWait g t) s3)) = Inr (v, s')"
      using r sc None by (auto simp: cgrp_wait_loop_def Let_def rbind_eq_Inr simp del: upd_grp_eq_Inr upd_grp_live)
    then show ?thesis using parks [OF u] by (auto simp: rbind_eq_Inr)
  qed
qed

end
