(* ===== verification/Lwt_Stacks.thy ===== *)
theory Lwt_Stacks
  imports Lwt_Rendezvous Lwt_Paths
begin

text \<open>
  What the operations do to memory that is not theirs, and where a thread that is dispatched
  to for the first time starts. \<open>calm\<close> is what holds between the states before and after an
  operation that does not switch, \<open>moved\<close> allows one switch at the end; every operation but
  the creation of threads and kernel threads is one or the other.
\<close>

section \<open>Reserved memory\<close>

definition objs :: "sys \<Rightarrow> ptr set" where
  "objs s = dom (thds s) \<union> dom (chans s) \<union> dom (grps s) \<union> dom (wraps s)"

lemma objs_simps [simp]:
  "thds s p = Some x \<Longrightarrow> objs (s\<lparr>thds := (thds s)(p \<mapsto> y)\<rparr>) = objs s"
  "chans s p = Some c \<Longrightarrow> objs (s\<lparr>chans := (chans s)(p \<mapsto> e)\<rparr>) = objs s"
  "grps s p = Some g \<Longrightarrow> objs (s\<lparr>grps := (grps s)(p \<mapsto> h)\<rparr>) = objs s"
  "objs (s\<lparr>lists := L\<rparr>) = objs s" "objs (s\<lparr>frames := F\<rparr>) = objs s" "objs (s\<lparr>kthds := K\<rparr>) = objs s"
  "objs (s\<lparr>mem := m\<rparr>) = objs s" "objs (s\<lparr>ufn := u\<rparr>) = objs s"
  by (simp_all add: objs_def insert_absorb domI)

text \<open>
  \<open>holds R s\<close>: the blocks of \<open>R\<close>, with at least the sizes \<open>R\<close> gives, are handed out by the
  allocator and hold none of the library's objects.
\<close>

definition holds :: "(ptr \<rightharpoonup> nat) \<Rightarrow> sys \<Rightarrow> bool" where
  "holds R s \<longleftrightarrow> (\<exists>B. uheap (mem s) B \<and> objs s \<union> dom R \<subseteq> B \<and> dom R \<inter> objs s = {} \<and>
     (\<forall>b n. R b = Some n \<longrightarrow> n \<le> usable (mem s) b))"

lemma holds_cong: "mem s' = mem s \<Longrightarrow> objs s' = objs s \<Longrightarrow> holds R s' = holds R s"
  by (simp add: holds_def)

lemma holds_mono:
  assumes h: "holds R s" and m: "R' \<subseteq>\<^sub>m R"
  shows "holds R' s"
proof -
  have d: "dom R' \<subseteq> dom R" by (rule map_le_implies_dom_le [OF m])
  obtain B where B: "uheap (mem s) B" "objs s \<union> dom R \<subseteq> B" "dom R \<inter> objs s = {}"
    "\<forall>b n. R b = Some n \<longrightarrow> n \<le> usable (mem s) b" using h by (auto simp: holds_def)
  have "R b = Some n" if "R' b = Some n" for b n using m that by (metis domI map_le_def)
  then show ?thesis unfolding holds_def using B d by (intro exI [of _ B]) blast
qed

lemma lwt_inv_holds: "lwt_inv s \<Longrightarrow> holds Map.empty s"
  unfolding lwt_inv_def by (erule inv_uheap) (auto simp: holds_def objs_def)

lemma holds_apart:
  assumes "holds R s" "R a = Some m" "R b = Some n" "a \<noteq> b"
  shows "a + m \<le> b \<or> b + n \<le> a"
proof -
  obtain B where B: "uheap (mem s) B" "dom R \<subseteq> B" "\<forall>b n. R b = Some n \<longrightarrow> n \<le> usable (mem s) b"
    using assms(1) by (auto simp: holds_def)
  have "a \<in> B" "b \<in> B" using B(2) assms(2,3) by auto
  then have "a + usable (mem s) a \<le> b \<or> b + usable (mem s) b \<le> a" by (rule uheap_apart [OF B(1)]) (rule assms(4))
  moreover have "m \<le> usable (mem s) a" "n \<le> usable (mem s) b" using B(3) assms(2,3) by auto
  ultimately show ?thesis by auto
qed

lemma holds_objs:
  assumes "holds R s" "R b = Some n" "p \<in> objs s"
  shows "p + usable (mem s) p \<le> b \<or> b + n \<le> p"
proof -
  obtain B where B: "uheap (mem s) B" "objs s \<union> dom R \<subseteq> B" "dom R \<inter> objs s = {}" "\<forall>b n. R b = Some n \<longrightarrow> n \<le> usable (mem s) b"
    using assms(1) by (auto simp: holds_def)
  have "b \<in> dom R" using assms(2) by (rule domI)
  then have "p \<in> B" "b \<in> B" "p \<noteq> b" using B(2,3) assms(3) by auto
  then have "p + usable (mem s) p \<le> b \<or> b + usable (mem s) b \<le> p" by (rule uheap_apart [OF B(1)])
  moreover have "n \<le> usable (mem s) b" using B(4) assms(2) by blast
  ultimately show ?thesis by linarith
qed

lemma malloc_objs: "malloc n s = Inr (q, s') \<Longrightarrow> objs s' = objs s"
  by (auto simp: malloc_eq_Inr objs_def)

lemma malloc_holds:
  assumes m: "malloc n s = Inr (q, s')" and n: "n + 16 \<le> 2 ^ 32" and h: "holds R s"
  shows "holds R s'" "q \<noteq> 0 \<Longrightarrow> q \<notin> dom R" "q \<noteq> 0 \<Longrightarrow> q \<notin> objs s" "q \<noteq> 0 \<Longrightarrow> holds (R(q \<mapsto> n)) s'"
proof -
  obtain m' where m': "umalloc n (mem s) = Some (q, m')" "mem s' = m'" using m by (auto simp: malloc_eq_Inr)
  obtain B where B: "uheap (mem s) B" "objs s \<union> dom R \<subseteq> B" "dom R \<inter> objs s = {}"
    "\<And>b n. R b = Some n \<Longrightarrow> n \<le> usable (mem s) b" using h by (auto simp: holds_def)
  note o = malloc_objs [OF m]
  have k: "holds R s'" if u: "uheap m' B'" "B \<subseteq> B'" "\<forall>b\<in>B. usable m' b = usable (mem s) b" for B'
  proof -
    have "n \<le> usable m' b" if "R b = Some n" for b n using B(2,4) that u(3) by (metis UnI2 domI subsetD)
    then show ?thesis unfolding holds_def m'(2) o using u B(2,3) by (intro exI [of _ B']) auto
  qed
  have "holds R s' \<and> (q \<noteq> 0 \<longrightarrow> q \<notin> B \<and> holds (R(q \<mapsto> n)) s')"
  proof (rule uheap_umalloc [OF B(1) n])
    fix m1 assume "umalloc n (mem s) = Some (0, m1)" "uheap m1 B" "\<forall>b\<in>B. usable m1 b = usable (mem s) b"
    then show ?thesis using k [of B] m'(1) by auto
  next
    fix p m1 assume "umalloc n (mem s) = Some (p, m1)" and p: "p \<notin> B" "uheap m1 (insert p B)" "n \<le> usable m1 p"
      "\<forall>b\<in>B. usable m1 b = usable (mem s) b"
    then have e: "p = q" "m1 = m'" using m'(1) by auto
    have "k \<le> usable m' b" if "(R(q \<mapsto> n)) b = Some k" for b k
    proof (cases "b = q")
      case False
      then have "R b = Some k" using that by simp
      then show ?thesis using B(2,4) p(4) unfolding e(2) by (metis UnI2 domI subsetD)
    qed (use p(3) e that in auto)
    then have "holds (R(q \<mapsto> n)) s'"
      unfolding holds_def m'(2) o using p e B(2,3) by (intro exI [of _ "insert q B"]) auto
    moreover have "holds R s'" by (rule k [of "insert q B"]) (use p e in auto)
    ultimately show ?thesis using p(1) e by blast
  qed
  then show "holds R s'" "q \<noteq> 0 \<Longrightarrow> q \<notin> dom R" "q \<noteq> 0 \<Longrightarrow> q \<notin> objs s" "q \<noteq> 0 \<Longrightarrow> holds (R(q \<mapsto> n)) s'"
    using B(2) by auto
qed

text \<open>A reserved block becomes an object, an object's block is given back.\<close>

lemma holds_new:
  assumes h: "holds (R(q \<mapsto> n)) s" and q: "q \<notin> dom R" and s': "mem s' = mem s" "objs s' \<subseteq> insert q (objs s)"
  shows "holds R s'"
proof -
  obtain B where B: "uheap (mem s) B" "objs s \<union> insert q (dom R) \<subseteq> B" "insert q (dom R) \<inter> objs s = {}"
    "\<forall>b k. (R(q \<mapsto> n)) b = Some k \<longrightarrow> k \<le> usable (mem s) b" using h by (auto simp: holds_def)
  have "k \<le> usable (mem s) b" if "R b = Some k" for b k
  proof -
    have "b \<noteq> q" using that q by auto
    then show ?thesis using B(4) that by (metis fun_upd_other)
  qed
  moreover have "dom R \<inter> objs s' = {}" using B(3) s'(2) q by auto
  ultimately show ?thesis unfolding holds_def s'(1) using B(1,2) s'(2) by (intro exI [of _ B]) auto
qed

lemma holds_free:
  assumes "mfree q s = Inr s1" "q \<in> objs s" "holds R s" "mem s' = mem s1" "objs s' \<subseteq> objs s - {q}"
  shows "holds R s'"
proof -
  obtain m where m: "ufree q (mem s) = Some m" "mem s' = m" using assms(1,4) by (auto simp: mfree_eq_Inr)
  obtain B where B: "uheap (mem s) B" "objs s \<union> dom R \<subseteq> B" "dom R \<inter> objs s = {}"
    "\<And>b n. R b = Some n \<Longrightarrow> n \<le> usable (mem s) b" using assms(3) by (auto simp: holds_def)
  have "q \<in> B" using B(2) assms(2) by auto
  from uheap_ufree [OF B(1) this] m(1) have u: "uheap m (B - {q})" "\<forall>c\<in>B - {q}. usable m c = usable (mem s) c" by auto
  have q: "q \<notin> dom R" using B(3) assms(2) by auto
  have "n \<le> usable m b" if "R b = Some n" for b n
  proof -
    have "b \<in> B - {q}" using that q B(2) by auto
    then show ?thesis using u(2) B(4) [OF that] by simp
  qed
  then show ?thesis unfolding holds_def m(2) using u(1) B(2,3) assms(5) q by (intro exI [of _ "B - {q}"]) auto
qed

section \<open>Calm operations\<close>

definition calm :: "sys \<Rightarrow> sys \<Rightarrow> bool" where
  "calm s s' \<longleftrightarrow> stackw s' = stackw s \<and> ufn s' = ufn s \<and> current_kthd s' = current_kthd s \<and>
     (\<forall>k. main_thread (kthds s' k) = main_thread (kthds s k) \<and> current_thread (kthds s' k) = current_thread (kthds s k)) \<and>
     (\<forall>t. map_option (\<lambda>x. (ctx x, init_sp x)) (thds s' t) = map_option (\<lambda>x. (ctx x, init_sp x)) (thds s t)) \<and>
     (\<forall>R. holds R s \<longrightarrow> holds R s')"

lemma calm_refl [simp]: "calm s s"
  by (simp add: calm_def)

lemma calm_trans: "calm s s1 \<Longrightarrow> calm s1 s2 \<Longrightarrow> calm s s2"
  by (simp add: calm_def)

lemma calm_thd: "calm s s' \<Longrightarrow> map_option ctx (thds s' t) = map_option ctx (thds s t)"
  "calm s s' \<Longrightarrow> map_option init_sp (thds s' t) = map_option init_sp (thds s t)"
  "calm s s' \<Longrightarrow> dom (thds s') = dom (thds s)"
proof -
  assume "calm s s'"
  then have e: "map_option (\<lambda>x. (ctx x, init_sp x)) (thds s' u) = map_option (\<lambda>x. (ctx x, init_sp x)) (thds s u)" for u
    by (simp add: calm_def)
  show "map_option ctx (thds s' t) = map_option ctx (thds s t)" "map_option init_sp (thds s' t) = map_option init_sp (thds s t)"
    using arg_cong [OF e [of t], of "map_option fst"] arg_cong [OF e [of t], of "map_option snd"]
    by (simp_all add: option.map_comp comp_def)
  have "thds s' u = None \<longleftrightarrow> thds s u = None" for u using e [of u] by (cases "thds s u"; cases "thds s' u") simp_all
  then show "dom (thds s') = dom (thds s)" by (simp add: dom_def)
qed

lemma calm_current: "calm s s' \<Longrightarrow> lwt_current s' = lwt_current s"
  by (simp add: calm_def lwt_current_def)

text \<open>Updates that leave the memory and the set of objects alone.\<close>

lemma calm_same:
  assumes "mem s' = mem s" "objs s' = objs s" "stackw s' = stackw s" "ufn s' = ufn s" "current_kthd s' = current_kthd s"
    "\<And>k. main_thread (kthds s' k) = main_thread (kthds s k)" "\<And>k. current_thread (kthds s' k) = current_thread (kthds s k)"
    "\<And>t. map_option (\<lambda>x. (ctx x, init_sp x)) (thds s' t) = map_option (\<lambda>x. (ctx x, init_sp x)) (thds s t)"
  shows "calm s s'"
  using assms holds_cong [OF assms(1,2)] by (simp add: calm_def)

named_theorems calm \<open>operations that do not switch\<close>

lemma upd_thd_calm:
  assumes "upd_thd t f s = Inr s'" "\<And>x. ctx (f x) = ctx x" "\<And>x. init_sp (f x) = init_sp x"
  shows "calm s s'"
  by (rule calm_same) (use assms in auto)

lemma upd_chan_calm [calm]: "upd_chan c f s = Inr s' \<Longrightarrow> calm s s'"
  by (rule calm_same) auto

lemma upd_grp_calm [calm]: "upd_grp g f s = Inr s' \<Longrightarrow> calm s s'"
  by (rule calm_same) auto

lemma calm_updates [simp]:
  "calm s (s\<lparr>lists := L\<rparr>)" "calm s (push fr s)" "calm s (pop s)"
  by (rule calm_same; simp add: push_def pop_def)+

lemma calm_kthd: "main_thread i = main_thread (kthds s k) \<Longrightarrow> current_thread i = current_thread (kthds s k) \<Longrightarrow>
    calm s (s\<lparr>kthds := (kthds s)(k := i)\<rparr>)"
  by (rule calm_same) auto

lemma malloc_calm: "malloc n s = Inr (q, s') \<Longrightarrow> n + 16 \<le> 2 ^ 32 \<Longrightarrow> calm s s'"
  using malloc_holds(1) by (auto simp: calm_def malloc_eq_Inr)

text \<open>An operation that is calm after a calm one.\<close>

lemma calm_after: "calm s s1 \<Longrightarrow> calm s1 s2 \<Longrightarrow> calm s s2"
  by (rule calm_trans)

lemma resume_thread_calm [calm]:
  assumes "resume_thread t s = Inr s'"
  shows "calm s s'"
  by (rule calm_same) (use assms in \<open>auto simp: resume_thread_def Let_def rbind_eq_Inr\<close>)

lemma wake_group_calm [calm]:
  assumes "wake_group c s = Inr s'"
  shows "calm s s'"
  using assms by (auto simp: wake_group_def rbind_eq_Inr split: if_splits intro: calm)

lemma set_chan_type_calm [calm]: "set_chan_type c ty s = Inr s' \<Longrightarrow> calm s s'"
  unfolding set_chan_type_def by (rule calm)

lemma mark_set_calm [calm]: "lwt_chan_mark_set c m s = Inr s' \<Longrightarrow> calm s s'"
  unfolding lwt_chan_mark_set_def by (rule calm)

lemma refill_calm [calm]:
  assumes "refill c s = Inr s'"
  shows "calm s s'"
proof (cases "list_head_empty (SendQ c) (lists s)")
  case False
  then obtain t s1 f where "resume_thread t s = Inr s1" "upd_chan c f s1 = Inr s'"
    using assms by (auto simp: refill_def rbind_eq_Inr simp del: upd_chan_eq_Inr upd_chan_live)
  then show ?thesis by (blast intro: calm calm_trans)
qed (use assms in \<open>simp add: refill_def\<close>)

section \<open>Operations that may switch\<close>

text \<open>
  The thread that runs after a switch is at the start of its function, with the words on its
  stack as function and argument, if it had never run; the other threads' contexts, stacks
  and starts are untouched (the old thread's context is that of a suspended thread).
\<close>

definition moved :: "sys \<Rightarrow> sys \<Rightarrow> bool" where
  "moved s s' \<longleftrightarrow> (let u = lwt_current s' in
     stackw s' = stackw s \<and> current_kthd s' = current_kthd s \<and>
     (\<forall>k. main_thread (kthds s' k) = main_thread (kthds s k)) \<and>
     (\<forall>k. k \<noteq> current_kthd s \<longrightarrow> current_thread (kthds s' k) = current_thread (kthds s k)) \<and>
     (\<forall>t. map_option init_sp (thds s' t) = map_option init_sp (thds s t)) \<and>
     (\<forall>R. holds R s \<longrightarrow> holds R s') \<and>
     (\<forall>w. w \<noteq> u \<longrightarrow> ufn s' w = ufn s w) \<and>
     (\<forall>w. w \<noteq> lwt_current s \<longrightarrow> map_option ctx (thds s' w) = map_option ctx (thds s w)) \<and>
     (map_option (\<lambda>x. ip (ctx x)) (thds s' (lwt_current s)) = Some RetDispatch \<or>
       u = lwt_current s \<and> map_option ctx (thds s' u) = map_option ctx (thds s u)) \<and>
     (\<forall>x. thds s u = Some x \<longrightarrow> (if u \<noteq> lwt_current s \<and> ip (ctx x) = Trampoline
        then frames s' u = [] \<and> ufn s' u = Some (trampoline_args x s) else ufn s' u = ufn s u)))"

lemma calm_moved: "calm s s' \<Longrightarrow> moved s s'"
  using calm_thd [of s s'] calm_current [of s s'] by (simp add: calm_def moved_def Let_def)

lemma calm_then_moved:
  assumes c: "calm s s1" and m: "moved s1 s'"
  shows "moved s s'"
proof -
  let ?u = "lwt_current s'"
  note e = calm_current [OF c] calm_thd [OF c]
  have a: "trampoline_args y s1 = trampoline_args x s" if "thds s ?u = Some x" "thds s1 ?u = Some y" for x y
    using e(2) [of ?u] that c by (simp add: trampoline_args_def calm_def)
  have "\<exists>y. thds s1 ?u = Some y \<and> ctx y = ctx x" if "thds s ?u = Some x" for x
    using e(2) [of ?u] that by auto
  then have st: "if ?u \<noteq> lwt_current s \<and> ip (ctx x) = Trampoline
        then frames s' ?u = [] \<and> ufn s' ?u = Some (trampoline_args x s) else ufn s' ?u = ufn s ?u" if "thds s ?u = Some x" for x
    using m c that a [OF that] e(1) unfolding moved_def Let_def calm_def by metis
  show ?thesis using m c e(1) st unfolding moved_def Let_def calm_def by (simp add: e(2,3))
qed

lemma schedule_moved:
  assumes "lwt_schedule s = Inr (v, s')"
  shows "moved s s'"
proof -
  have p: "s1 = s" if "poll_wakeups s = Inr s1" for s1
    using that by (auto simp: poll_wakeups_def Let_def rbind_eq_Inr split: if_splits lnode.splits)
  obtain t x where t: "thds s t = Some x" "t \<noteq> 0"
    "lwt_dispatch (lwt_current s) t (kthd_do (current_kthd s) (\<lambda>k. k\<lparr>current_thread := t\<rparr>) (s\<lparr>thds := (thds s)(t \<mapsto> x\<lparr>tstate := LWT_RUNNING\<rparr>)\<rparr>)) = Inr (v, s')"
    using assms(1) by (auto simp: lwt_schedule_def Let_def rbind_eq_Inr dest!: p)
  let ?o = "lwt_current s" and ?x = "x\<lparr>tstate := LWT_RUNNING\<rparr>"
  let ?T = "(thds s)(t \<mapsto> ?x)" and ?K = "(kthds s)(current_kthd s := (kthds s (current_kthd s))\<lparr>current_thread := t\<rparr>)"
  obtain y where y: "?T ?o = Some y" using t(3) by (auto simp: lwt_dispatch_def rbind_eq_Inr)
  let ?y = "y\<lparr>ctx := (ctx y)\<lparr>ip := RetDispatch\<rparr>\<rparr>"
  let ?s1 = "s\<lparr>kthds := ?K, thds := ?T(?o \<mapsto> ?y)\<rparr>"
  have s': "s' = (if t = ?o \<or> ip (ctx x) = RetDispatch then ?s1
      else ?s1\<lparr>frames := (frames s)(t := []), ufn := (ufn s)(t := Some (trampoline_args x s))\<rparr>)"
    using t y by (auto simp: lwt_dispatch_def rbind_eq_Inr trampoline_args_def split: code_label.splits if_splits)
  have ctx: "map_option (\<lambda>x. ip (ctx x)) (thds s' ?o) = Some RetDispatch" "map_option init_sp (thds s' w) = map_option init_sp (thds s w)"
    "w \<noteq> ?o \<Longrightarrow> map_option ctx (thds s' w) = map_option ctx (thds s w)" for w
    unfolding s' using t(1) y by (auto split: if_splits)
  have om: "mem s' = mem s" "objs s' = objs s" unfolding s' using t(1) y by (auto simp: objs_def split: if_splits)
  have h: "holds R s' = holds R s" for R by (rule holds_cong [OF om])
  have c: "lwt_current s' = t" "stackw s' = stackw s" "current_kthd s' = current_kthd s" "kthds s' = ?K"
    "w \<noteq> t \<Longrightarrow> ufn s' w = ufn s w" for w
    unfolding s' by (simp_all add: lwt_current_def)
  have st: "if t \<noteq> ?o \<and> ip (ctx x) = Trampoline then frames s' t = [] \<and> ufn s' t = Some (trampoline_args x s) else ufn s' t = ufn s t"
    unfolding s' by (cases "ip (ctx x)") simp_all
  show ?thesis unfolding moved_def Let_def c(1) using ctx h c st t(1) by simp
qed

named_theorems moved \<open>operations that switch at most once, at their end\<close>

lemma yield_moved [moved]:
  assumes "lwt_yield y s = Inr (v, s')"
  shows "moved s s'"
proof -
  have l: "moved s s'" if "lwt_schedule (s\<lparr>lists := L\<rparr>) = Inr (v, s')" for L
    using calm_then_moved [OF _ schedule_moved [OF that]] by simp
  show ?thesis
    using assms calm_moved [of s s] schedule_moved [of s]
    by (auto simp: lwt_yield_def Let_def rbind_eq_Inr split: if_splits dest!: l)
qed

text \<open>Parking the current thread: its record, its kernel thread's counters and the lists change.\<close>

lemma calm_park:
  assumes "thds s t = Some x" "ctx y = ctx x" "init_sp y = init_sp x"
    "main_thread i = main_thread (kthds s k)" "current_thread i = current_thread (kthds s k)"
  shows "calm s (s\<lparr>lists := L, thds := (thds s)(t \<mapsto> y), kthds := (kthds s)(k := i)\<rparr>)"
    "calm s (s\<lparr>lists := L, kthds := (kthds s)(k := i), thds := (thds s)(t \<mapsto> y)\<rparr>)"
  by (rule calm_same; use assms in \<open>auto simp: objs_def\<close>)+

lemma block_thread_moved [moved]:
  assumes "block_thread t why c s = Inr (v, s')"
  shows "moved s s'"
proof -
  let ?k = "current_kthd s" and ?L = "list_ll_rem (ThdNode t) (lists s)"
  obtain x where x: "thds s t = Some x" using assms by (auto simp: block_thread_def Let_def rbind_eq_Inr split: if_splits)
  let ?y = "x\<lparr>tstate := LWT_BLOCKED, block_for := why\<rparr>"
  let ?i = "if why = BLOCKED_RECEIVING then (kthds s ?k)\<lparr>nrcving := nrcving (kthds s ?k) + 1, block_counter := block_counter (kthds s ?k) + 1\<rparr>
      else (kthds s ?k)\<lparr>nsnding := nsnding (kthds s ?k) + 1, block_counter := block_counter (kthds s ?k) + 1\<rparr>"
  let ?s = "s\<lparr>lists := if why = BLOCKED_RECEIVING then ?L else list_head_add (SendQ c) (ThdNode t) ?L,
      thds := (thds s)(t \<mapsto> ?y), kthds := (kthds s)(?k := ?i)\<rparr>"
  have "lwt_yield 0 ?s = Inr (v, s')"
    using assms x by (cases why) (auto simp: block_thread_def Let_def rbind_eq_Inr)
  moreover have "calm s ?s" by (rule calm_park [OF x]) simp_all
  ultimately show ?thesis by (blast intro: calm_then_moved moved)
qed

lemma lwt_sync_snd_calm:
  assumes "lwt_sync_snd c d s = Inr (v, s')"
  shows "calm s s'"
proof -
  obtain ch r f s1 lw s2 where s1: "chans s c = Some ch" "thds s (receiver ch) = Some r" "upd_chan c f s = Inr s1"
    and m: "malloc sizeof_lwt_wrap s1 = Inr (lw, s2)" "lw \<noteq> 0"
    and s': "s' = kthd_do (owner_kthd r) (\<lambda>i. i\<lparr>wq_occupied := 0\<rparr>)
           (add_node (WakeQ (owner_kthd r)) (WrapNode lw) (s2\<lparr>wraps := (wraps s2)(lw \<mapsto> receiver ch)\<rparr>))"
    using assms by (auto simp: lwt_sync_snd_def Let_def rbind_eq_Inr simp del: upd_chan_eq_Inr upd_chan_live)
  have n: "sizeof_lwt_wrap + 16 \<le> 2 ^ 32" by (simp add: sizeof_lwt_wrap_def)
  have c1: "calm s s1" by (rule upd_chan_calm [OF s1(3)])
  have h: "holds R s'" if "holds R s" for R
  proof -
    have h1: "holds R s1" using c1 that by (simp add: calm_def)
    note mh = malloc_holds [OF m(1) n h1]
    show ?thesis by (rule holds_new [OF mh(4)]) (use mh(2) m(2) s' in \<open>auto simp: objs_def\<close>)
  qed
  have "thds s' = thds s1" "stackw s' = stackw s1" "ufn s' = ufn s1" "current_kthd s' = current_kthd s1"
    "main_thread (kthds s' k) = main_thread (kthds s1 k)" "current_thread (kthds s' k) = current_thread (kthds s1 k)" for k
    using m(1) unfolding s' by (auto simp: malloc_eq_Inr)
  then show ?thesis using c1 h by (simp add: calm_def)
qed

lemma lwt_snd_moved [moved]:
  assumes "lwt_snd c d s = Inr (v, s')"
  shows "moved s s'"
  using assms
proof (cases rule: snd_cases)
  case global
  then show ?thesis by (blast intro: calm calm_moved calm_trans lwt_sync_snd_calm)
next
  case (waits r s1)
  then have "calm s s1" by (intro upd_thd_calm [OF waits(1)]) simp_all
  then show ?thesis using waits(2) by (blast intro: calm calm_moved calm_trans)
next
  case (room b s1 s2)
  then show ?thesis by (blast intro: calm calm_moved calm_trans)
next
  case (full s1 s2 s3)
  have "calm s2 s3" by (rule upd_thd_calm [OF full(3)]) simp_all
  then have "calm s (push KSnd s3)" using full(1,2) calm_updates(2) by (blast intro: calm calm_trans)
  then show ?thesis using full(4) by (blast intro: calm_then_moved moved)
qed (simp add: calm_moved)

lemma sync_rcv_loop_moved [moved]:
  assumes "sync_rcv_loop c t s = Inr (v, s')"
  shows "moved s s'"
  using assms
proof (cases rule: sync_rcv_cases)
  case gets
  then show ?thesis by (blast intro: calm calm_moved)
next
  case (parks x)
  show ?thesis by (rule calm_then_moved [OF _ yield_moved [OF parks(2)]], rule calm_trans [OF _ calm_updates(2)],
      rule calm_park(1) [OF parks(1)]) simp_all
qed

lemma lwt_rcv_moved [moved]:
  assumes "lwt_rcv c s = Inr (v, s')"
  shows "moved s s'"
  using assms
proof (cases rule: rcv_cases)
  case global
  then show ?thesis by (rule moved)
next
  case buffered
  then show ?thesis by (blast intro: calm calm_moved calm_trans)
next
  case sender
  then show ?thesis by (blast intro: calm calm_moved calm_trans)
next
  case (parks s1)
  have "calm s s1" by (rule upd_thd_calm [OF parks(1)]) simp_all
  then show ?thesis using parks(2) calm_updates(2) [of s1 "KRcv (lwt_current s)"] by (blast intro: calm_then_moved calm_trans moved)
qed

text \<open>Calls on top of a send or a receive, and their continuations.\<close>

lemma moved_push: "moved (push fr s) s' \<Longrightarrow> moved s s'"
  by (rule calm_then_moved [OF calm_updates(2)])

lemma snd_chan_moved [moved]: "lwt_snd_chan c d s = Inr (v, s') \<Longrightarrow> moved s s'"
  "snd_chan_rest w s = Inr (v, s') \<Longrightarrow> moved s s'" "lwt_rcv_chan c s = Inr (v, s') \<Longrightarrow> moved s s'"
  "lwt_rcv_thd c s = Inr (v, s') \<Longrightarrow> moved s s'" "lwt_snd_thd c t s = Inr (v, s') \<Longrightarrow> moved s s'"
  "join_rest t w s = Inr (v, s') \<Longrightarrow> moved s s'"
  unfolding lwt_snd_chan_def snd_chan_rest_def lwt_rcv_chan_def lwt_rcv_thd_def lwt_snd_thd_def join_rest_def
  by (auto simp: rbind_eq_Inr intro: moved_push moved)

lemma rcv_chan_rest_calm: "rcv_chan_rest w s = Inr (v, s') \<Longrightarrow> calm s s'"
  by (auto simp: rcv_chan_rest_def Let_def rbind_eq_Inr simp del: upd_chan_eq_Inr upd_chan_live split: if_splits intro: calm)

lemma rcv_thd_rest_calm:
  assumes "rcv_thd_rest w s = Inr (v, s')"
  shows "calm s s'"
proof -
  obtain s1 where s1: "upd_thd (val_ptr w) (\<lambda>x. x\<lparr>owner_kthd := current_kthd s\<rparr>) s = Inr s1" "s' = s1 \<or> (\<exists>L. s' = s1\<lparr>lists := L\<rparr>)"
    using assms by (auto simp: rcv_thd_rest_def Let_def rbind_eq_Inr simp del: upd_thd_eq_Inr upd_thd_live split: if_splits)
  have "calm s s1" by (rule upd_thd_calm [OF s1(1)]) simp_all
  then show ?thesis using s1(2) calm_updates(1) by (blast intro: calm_trans)
qed

text \<open>Channels and groups come and go.\<close>

lemma init_chan_holds:
  assumes r: "init_chan c sz s = Inr s'" and sz: "0 \<le> sz" "4 * sz + 16 \<le> 2 ^ 32" and h: "holds (R(c \<mapsto> n)) s" "c \<notin> dom R"
  shows "holds R s'"
proof -
  let ?n = "nat ((sz * int sizeof_uint) mod 2 ^ 32)"
  obtain b s1 where m: "malloc ?n s = Inr (b, s1)" "mem s' = mem s1" "objs s' = insert c (objs s1)"
    using r by (auto simp: init_chan_def Let_def rbind_eq_Inr objs_def)
  have "?n + 16 \<le> 2 ^ 32" using sz by (simp add: sizeof_uint_def nat_le_iff)
  from malloc_holds(1) [OF m(1) this h(1)] show ?thesis by (rule holds_new [OF _ h(2) m(2)]) (simp add: m(3))
qed

lemma init_chan_frame:
  assumes "init_chan c sz s = Inr s'"
  shows "thds s' = thds s" "kthds s' = kthds s" "current_kthd s' = current_kthd s" "stackw s' = stackw s" "ufn s' = ufn s" "c \<noteq> 0"
  using assms by (auto simp: init_chan_def Let_def rbind_eq_Inr malloc_eq_Inr)

lemma lwt_chan_calm:
  assumes r: "lwt_chan sz s = Inr (c, s')" and sz: "0 \<le> sz" "4 * sz + 16 \<le> 2 ^ 32"
  shows "calm s s'"
proof -
  obtain s1 where a: "malloc sizeof_lwt_channel s = Inr (c, s1)" and i: "init_chan c sz s1 = Inr s'"
    using r by (auto simp: lwt_chan_def rbind_eq_Inr)
  have n: "sizeof_lwt_channel + 16 \<le> 2 ^ 32" by (simp add: sizeof_lwt_channel_def)
  note f = init_chan_frame [OF i]
  have "holds R s'" if "holds R s" for R
    using malloc_holds(2,4) [OF a n that f(6)] by (intro init_chan_holds [OF i sz])
  then show ?thesis using f a by (auto simp: calm_def malloc_eq_Inr)
qed

lemma inv_separate:
  assumes "lwt_inv s"
  shows "chans s c = Some ch \<Longrightarrow> c \<notin> dom (thds s) \<union> dom (grps s) \<union> dom (wraps s)"
    "grps s g = Some x \<Longrightarrow> g \<notin> dom (thds s) \<union> dom (chans s) \<union> dom (wraps s)"
proof -
  obtain D where i: "inv_but True {} {} {} {} (heads s) D (\<lambda>h. queue_of h s) s" by (rule lwt_invE [OF assms])
  have "separate (dom (thds s)) (dom (chans s)) (dom (grps s)) (dom (wraps s)) {}"
    using inv_butD(7) [OF i] by (simp add: memory_ok_def)
  then show "chans s c = Some ch \<Longrightarrow> c \<notin> dom (thds s) \<union> dom (grps s) \<union> dom (wraps s)"
    "grps s g = Some x \<Longrightarrow> g \<notin> dom (thds s) \<union> dom (chans s) \<union> dom (wraps s)"
    unfolding separate_def by blast+
qed

lemma free_chan_calm:
  assumes r: "free_chan c s = Inr s'" and i: "lwt_inv s"
  shows "calm s s'"
proof -
  obtain ch s1 where s1: "chans s c = Some ch" "mfree c s = Inr s1"
    and s': "s' = s1\<lparr>chans := (chans s1)(c := None), raw_chan := (raw_chan s1)(c := ch)\<rparr>"
    using r by (auto simp: free_chan_def rbind_eq_Inr)
  have o: "objs s' \<subseteq> objs s - {c}" using inv_separate(1) [OF i s1(1)] s1(2) by (auto simp: s' objs_def mfree_eq_Inr)
  have c: "c \<in> objs s" using s1(1) by (auto simp: objs_def)
  have "mem s' = mem s1" by (simp add: s')
  then have "holds R s'" if "holds R s" for R by (intro holds_free [OF s1(2) c that _ o])
  then show ?thesis using s1(2) by (auto simp: s' calm_def mfree_eq_Inr)
qed

lemma deref_calm:
  assumes r: "lwt_chan_deref c s = Inr s'" and i: "lwt_inv s"
  shows "calm s s'"
proof -
  obtain f s1 where u: "upd_chan c f s = Inr s1" "\<And>x. cgroup (f x) = cgroup x" and s': "free_chan c s1 = Inr s' \<or> s' = s1"
    using r by (auto simp: lwt_chan_deref_def rbind_eq_Inr simp del: upd_chan_eq_Inr upd_chan_live split: if_splits)
  have "lwt_inv s1" using upd_chan_keeps [OF u(1) _ u(2)] i by (simp add: lwt_inv_def)
  then show ?thesis using s' free_chan_calm u(1) by (blast intro: calm calm_trans)
qed

lemma cgrp_new_calm:
  assumes "lwt_cgrp_new s = Inr (g, s')"
  shows "calm s s'"
proof -
  obtain s1 where m: "malloc sizeof_lwt_cgrp s = Inr (g, s1)"
    and s': "s' = (if g = 0 then s1 else s1\<lparr>lists := list_head_init (GrpQ g) (lists s1),
        grps := (grps s1)(g \<mapsto> \<lparr>owner = lwt_current s1, blocked = 0\<rparr>)\<rparr>)"
    using assms by (auto simp: lwt_cgrp_new_def rbind_eq_Inr split: if_splits)
  have n: "sizeof_lwt_cgrp + 16 \<le> 2 ^ 32" by (simp add: sizeof_lwt_cgrp_def)
  show ?thesis
  proof (cases "g = 0")
    case False
    have "holds R s'" if "holds R s" for R
      by (rule holds_new [OF malloc_holds(4,2) [OF m n that False]]) (use False in \<open>auto simp: s' objs_def\<close>)
    then show ?thesis using m False by (auto simp: s' calm_def malloc_eq_Inr)
  qed (use malloc_calm [OF m n] in \<open>simp add: s'\<close>)
qed

lemma clear_groups_calm: "clear_groups ns s = Inr s' \<Longrightarrow> calm s s'"
proof (induction ns arbitrary: s)
  case (Cons n ns)
  then obtain c s1 where "upd_chan c (\<lambda>ch. ch\<lparr>cgroup := 0\<rparr>) s = Inr s1" "clear_groups ns s1 = Inr s'"
    by (auto simp: rbind_eq_Inr simp del: upd_chan_eq_Inr upd_chan_live)
  then show ?case using Cons.IH by (blast intro: calm calm_trans)
qed simp

lemma clear_groups_doms: "clear_groups ns s = Inr s' \<Longrightarrow>
    dom (chans s') = dom (chans s) \<and> grps s' = grps s \<and> thds s' = thds s \<and> wraps s' = wraps s"
proof (induction ns arbitrary: s)
  case (Cons n ns)
  then obtain c ch where c: "chans s c = Some ch" "clear_groups ns (s\<lparr>chans := (chans s)(c \<mapsto> ch\<lparr>cgroup := 0\<rparr>)\<rparr>) = Inr s'"
    by (auto simp: rbind_eq_Inr)
  have "dom ((chans s)(c \<mapsto> ch\<lparr>cgroup := 0\<rparr>)) = dom (chans s)" using c(1) by (simp add: insert_absorb domI)
  then show ?case using Cons.IH [OF c(2)] by (simp del: fun_upd_apply)
qed simp

lemma cgrp_free_calm:
  assumes r: "lwt_cgrp_free g s = Inr (v, s')" and i: "lwt_inv s"
  shows "calm s s'"
proof (cases "list_head_first (GrpQ g) (lists s) = GrpQ g")
  case True
  obtain x ns s1 s2 where g: "grps s g = Some x" and s1: "clear_groups ns s = Inr s1" "mfree g s1 = Inr s2"
    and s': "s' = s2\<lparr>grps := (grps s2)(g := None)\<rparr>"
    using r True by (auto simp: lwt_cgrp_free_def Let_def rbind_eq_Inr)
  note d = clear_groups_doms [OF s1(1)]
  have o: "objs s' \<subseteq> objs s1 - {g}" using inv_separate(2) [OF i g] s1(2) d by (auto simp: s' objs_def mfree_eq_Inr)
  have c: "g \<in> objs s1" using g d by (auto simp: objs_def)
  have m: "mem s' = mem s2" by (simp add: s')
  have "holds R s'" if "holds R s1" for R by (rule holds_free [OF s1(2) c that m o])
  then have "calm s1 s'" using s1(2) by (auto simp: s' calm_def mfree_eq_Inr)
  then show ?thesis using clear_groups_calm [OF s1(1)] by (blast intro: calm_trans)
qed (use r in \<open>auto simp: lwt_cgrp_free_def Let_def rbind_eq_Inr\<close>)

lemma upd_chan_lists_calm: "upd_chan c f (s\<lparr>lists := L\<rparr>) = Inr s' \<Longrightarrow> calm s s'"
  using calm_updates(1) by (blast intro: calm_trans calm)

lemma cgrp_add_calm: "lwt_cgrp_add g c s = Inr (v, s') \<Longrightarrow> calm s s'"
  "lwt_cgrp_rem g c s = Inr (v, s') \<Longrightarrow> calm s s'"
  by (auto simp: lwt_cgrp_add_def lwt_cgrp_rem_def rbind_eq_Inr simp del: upd_chan_eq_Inr upd_chan_live
      split: if_splits intro: upd_chan_lists_calm)

lemma cgrp_wait_loop_moved [moved]:
  assumes "cgrp_wait_loop g t s = Inr (v, s')"
  shows "moved s s'"
  using assms
proof (cases rule: cgrp_wait_cases)
  case found
  then show ?thesis by (blast intro: calm calm_moved)
next
  case (parks s1 x)
  show ?thesis by (rule calm_then_moved [OF _ yield_moved [OF parks(3)]], rule calm_trans [OF upd_grp_calm [OF parks(1)]],
      rule calm_trans [OF _ calm_updates(2)], rule calm_park(2) [OF parks(2)]) simp_all
qed

lemma cgrp_wait_moved [moved]: "lwt_cgrp_wait g s = Inr (v, s') \<Longrightarrow> moved s s'"
  by (auto simp: lwt_cgrp_wait_def rbind_eq_Inr split: if_splits intro: moved calm_moved)

text \<open>Death, joining, the idle loop.\<close>

lemma lwt_die_moved [moved]:
  assumes "lwt_die m s = Inr (v, s')"
  shows "moved s s'"
proof -
  let ?k = "current_kthd s" and ?t = "lwt_current s"
  obtain x where x: "thds s ?t = Some x" using assms by (auto simp: lwt_die_def Let_def rbind_eq_Inr)
  let ?s = "s\<lparr>kthds := (kthds s)(?k := (kthds s ?k)\<lparr>zombie_counter := zombie_counter (kthds s ?k) + 1\<rparr>),
      thds := (thds s)(?t \<mapsto> x\<lparr>message_data := m\<rparr>)\<rparr>"
  have "lwt_snd (chl x) m (push (KDie ?t) ?s) = Inr (v, s')"
    using assms x by (auto simp: lwt_die_def Let_def rbind_eq_Inr)
  moreover have "calm s ?s" by (rule calm_same) (use x in \<open>auto simp: objs_def\<close>)
  ultimately show ?thesis using calm_updates(2) [of ?s "KDie ?t"] by (blast intro: calm_then_moved calm_trans moved)
qed

lemma die_rest_moved [moved]:
  assumes "die_rest t s = Inr (v, s')"
  shows "moved s s'"
proof -
  let ?k = "current_kthd s"
  obtain x where x: "thds s t = Some x" using assms by (auto simp: die_rest_def rbind_eq_Inr)
  obtain L where "lwt_schedule (s\<lparr>thds := (thds s)(t \<mapsto> x\<lparr>tstate := LWT_ZOMBIES\<rparr>),
      kthds := (kthds s)(?k := (kthds s ?k)\<lparr>zombie_counter := zombie_counter (kthds s ?k) - 1\<rparr>), lists := L\<rparr>) = Inr (v, s')" (is "lwt_schedule ?s = _")
    using assms x by (auto simp: die_rest_def Let_def rbind_eq_Inr)
  moreover have "calm s ?s" by (rule calm_same) (use x in \<open>auto simp: objs_def\<close>)
  ultimately show ?thesis by (blast intro: calm_then_moved schedule_moved)
qed

lemma lwt_join_moved [moved]: "lwt_join t s = Inr (v, s') \<Longrightarrow> moved s s'"
  by (auto simp: lwt_join_def rbind_eq_Inr split: if_splits intro: calm_moved moved_push moved)

lemma idle_moved [moved]: "kthd_idle_round s = Inr (b, v, s') \<Longrightarrow> moved s s'"
  by (auto simp: kthd_idle_round_def rbind_eq_Inr split: if_splits intro: calm_moved schedule_moved)

end
