(* ===== verification/Lwt_Print.thy ===== *)
theory Lwt_Print
  imports Lwt_Reach
begin

text \<open>
  What the status queries report, and what is printed, in terms of the queues: \<^verbatim>\<open>lwt_info\<close> and
  \<^verbatim>\<open>print_queue_content\<close> agree with each other and with the states of the threads.
\<close>

definition shown_thd :: "sys \<Rightarrow> ptr \<Rightarrow> printed" where
  "shown_thd s t = (''thread %d.'', [case thds s t of Some x \<Rightarrow> lwt_id x | None \<Rightarrow> 0])"

lemma print_thread_seg:
  assumes "seg (lists s) (map ThdNode ts @ [h])" "h \<notin> set (map ThdNode ts)" "\<forall>t\<in>set ts. t \<noteq> 0 \<and> t \<in> dom (thds s)"
  shows "print_thread_loop s h (hd (map ThdNode ts @ [h])) = Some (Inr (map (shown_thd s) ts))"
  using assms
proof (induction ts)
  case Nil
  show ?case by (simp add: print_thread_loop.simps)
next
  case (Cons t ts)
  obtain x where x: "thds s t = Some x" "t \<noteq> 0" using Cons.prems(3) by auto
  have n: "nx (lists s) (ThdNode t) = hd (map ThdNode ts @ [h])" using Cons.prems(1) by (cases ts) (auto simp: seg_Cons)
  have "print_thread_loop s h (hd (map ThdNode ts @ [h])) = Some (Inr (map (shown_thd s) ts))"
    by (rule Cons.IH) (use Cons.prems in \<open>auto simp: seg_Cons\<close>)
  then show ?case using Cons.prems(2) x n by (subst print_thread_loop.simps) (auto simp: shown_thd_def)
qed

lemma print_thread_queue:
  assumes q: "queues (lists s) H D Q" "h \<in> H" "Q h = map ThdNode ts" and t: "\<forall>t\<in>set ts. t \<noteq> 0 \<and> t \<in> dom (thds s)"
  shows "print_a_thread_queue h s = Inr (map (shown_thd s) ts)"
proof -
  have r: "ring (lists s) h (Q h)" by (rule queuesD(1) [OF q(1,2)])
  then have "seg (lists s) (map ThdNode ts @ [h])" "h \<notin> set (map ThdNode ts)" using q(3) by (auto simp: ring_def seg_Cons)
  then show ?thesis using print_thread_seg t ring_first [OF r] q(3) by (simp add: print_a_thread_queue_def)
qed

text \<open>The run queue and the recycle queue of a hosted kernel thread hold threads.\<close>

lemma queue_threads:
  assumes i: "lwt_inv s" and h: "h \<in> heads s" "(\<exists>k. h = RunQ k) \<or> (\<exists>k. h = RecQ k)"
  obtains ts where "queue_of h s = map ThdNode ts" "\<forall>t\<in>set ts. t \<noteq> 0 \<and> t \<in> dom (thds s)"
    "\<forall>t\<in>set ts. \<forall>x. thds s t = Some x \<longrightarrow> home h (tstate x, block_for x)"
proof -
  obtain D where l: "linked D s" and i0: "inv_but True {} {} {} {} (heads s) D (\<lambda>h. queue_of h s) s" by (rule lwt_invE [OF i])
  have n: "\<exists>t. t \<in> dom (thds s) \<and> n = ThdNode t" if "n \<in> set (queue_of h s)" for n
    using inv_butD(3) [OF i0] h that unfolding nodes_ok_def by (fastforce simp: node_ok_def)
  then have "\<exists>ts. queue_of h s = map ThdNode ts" by (intro ex_map_conv [THEN iffD2]) blast
  then obtain ts where ts: "queue_of h s = map ThdNode ts" by blast
  have "home h (tstate x, block_for x)" if "t \<in> set ts" "thds s t = Some x" for t x
  proof -
    have tq: "ThdNode t \<in> set (queue_of h s)" using that(1) ts by simp
    have "located (heads s) D (\<lambda>h. queue_of h s) t (tstate x, block_for x)" using inv_butD(13) [OF i0] that(2) by simp
    moreover have "ThdNode t \<notin> D" using queuesD(4) [OF l [unfolded linked_def] h(1) tq] by simp
    ultimately obtain g where "g \<in> heads s" "ThdNode t \<in> set (queue_of g s)" "home g (tstate x, block_for x)"
      by (auto simp: located_def split: if_splits)
    then show ?thesis using queuesD(5) [OF l [unfolded linked_def] h(1) _ tq] by blast
  qed
  then show thesis using that [OF ts] n ts live_nonnull(1) [OF i0] by fastforce
qed

section \<open>Properties\<close>

text \<open>
  C36 In every reachable state the status queries and the printing functions end and agree: the
  run queue holds exactly the threads whose numbers are printed, in that order, all running or
  runnable, and \<^verbatim>\<open>lwt_info\<close> returns how many they are; likewise for the recycle queue, whose
  threads are all dead; any other request prints that it is not known.
\<close>

theorem status_shows_queues:
  assumes "reachable (v, s)"
  shows "\<exists>ts us. list_foreach (current_run_queue s) (lists s) = Some (map ThdNode ts) \<and>
    list_foreach (current_recycle_queue s) (lists s) = Some (map ThdNode us) \<and>
    lwt_info LWT_INFO_NTHD_RUNNABLE s = Inr (int (length ts)) \<and> lwt_info LWT_INFO_NTHD_RECYCLE s = Inr (int (length us)) \<and>
    print_queue_content LWT_INFO_NTHD_RUNNABLE s = Inr ((''runnable queue showed as below: '', []) # map (shown_thd s) ts) \<and>
    print_queue_content LWT_INFO_NTHD_RECYCLE s = Inr ((''recycle queue showed as below: '', []) # map (shown_thd s) us) \<and>
    print_queue_content LWT_INFO_NTHD_ZOMBIES s = Inr [(''cannot identify printing instructions'', [])] \<and>
    (\<forall>t\<in>set ts. \<exists>x. thds s t = Some x \<and> may_run x) \<and> (\<forall>t\<in>set us. \<exists>x. thds s t = Some x \<and> tstate x = LWT_ZOMBIES)"
proof -
  have i: "lwt_inv s" using reachable_inv [OF assms] by simp
  obtain D where l: "linked D s" by (rule lwt_invE [OF i])
  note q = l [unfolded linked_def] and rH = heads_current [OF i] and cH = heads_recycle [OF i]
  obtain ts where ts: "queue_of (RunQ (current_kthd s)) s = map ThdNode ts" "\<forall>t\<in>set ts. t \<noteq> 0 \<and> t \<in> dom (thds s)"
    "\<forall>t\<in>set ts. \<forall>x. thds s t = Some x \<longrightarrow> home (RunQ (current_kthd s)) (tstate x, block_for x)" by (rule queue_threads [OF i rH]) blast+
  obtain us where us: "queue_of (RecQ (current_kthd s)) s = map ThdNode us" "\<forall>t\<in>set us. t \<noteq> 0 \<and> t \<in> dom (thds s)"
    "\<forall>t\<in>set us. \<forall>x. thds s t = Some x \<longrightarrow> home (RecQ (current_kthd s)) (tstate x, block_for x)" by (rule queue_threads [OF i cH]) blast+
  show ?thesis
    using foreach_linked [OF l rH] foreach_linked [OF l cH] ts us get_queue_size_queue [OF q rH] get_queue_size_queue [OF q cH]
      print_thread_queue [OF q rH ts(1,2)] print_thread_queue [OF q cH us(1,2)]
    by (intro exI [of _ ts] exI [of _ us])
       (auto simp: lwt_info_def print_queue_content_def current_run_queue_def current_recycle_queue_def may_run_def domIff)
qed

theorem status_shows_queues_witness:
  "\<exists>s t. reachable (VVoid, s) \<and> lwt_info LWT_INFO_NTHD_RUNNABLE s = Inr (int (length t)) \<and>
     print_queue_content LWT_INFO_NTHD_RUNNABLE s = Inr ((''runnable queue showed as below: '', []) # map (shown_thd s) t)"
  by (rule demo_boot) (use status_shows_queues in blast)

end
