(* ===== verification/Lwt_Effects.thy ===== *)
theory Lwt_Effects
  imports Lwt_Rendezvous
begin

text \<open>
  What the calls do to the counters that \<^verbatim>\<open>lwt_info\<close> reports.
\<close>

section \<open>Counters\<close>

text \<open>\<^verbatim>\<open>block_counter\<close>, \<^verbatim>\<open>zombie_counter\<close>, \<^verbatim>\<open>nrcving\<close>, \<^verbatim>\<open>nsnding\<close> of the current kernel thread.\<close>

type_synonym counts = "int \<times> int \<times> int \<times> int"

definition counters :: "sys \<Rightarrow> counts" where
  "counters s = (let i = kthds s (current_kthd s) in (block_counter i, zombie_counter i, nrcving i, nsnding i))"

fun count_block :: "block_status \<Rightarrow> int \<Rightarrow> counts \<Rightarrow> counts" where
  "count_block BLOCKED_RECEIVING n (b, z, r, w) = (b + n, z, r + n, w)"
| "count_block BLOCKED_SENDING n (b, z, r, w) = (b + n, z, r, w + n)"

lemma count_back [simp]: "count_block why (- n) (count_block why n c) = c"
  by (cases c; cases why) simp_all

definition count_zombie :: "int \<Rightarrow> counts \<Rightarrow> counts" where
  "count_zombie n c = (case c of (b, z, r, w) \<Rightarrow> (b, z + n, r, w))"

lemma counters_frame [simp]:
  "counters (s\<lparr>thds := T\<rparr>) = counters s" "counters (s\<lparr>chans := C\<rparr>) = counters s" "counters (s\<lparr>lists := L\<rparr>) = counters s"
  "counters (s\<lparr>frames := F\<rparr>) = counters s" "counters (s\<lparr>mem := m\<rparr>) = counters s" "counters (s\<lparr>ufn := u\<rparr>) = counters s"
  "counters (s\<lparr>stackw := w\<rparr>) = counters s" "counters (push fr s) = counters s" "counters (pop s) = counters s"
  "counters (s\<lparr>kthds := (kthds s)(k := (kthds s k)\<lparr>current_thread := t\<rparr>)\<rparr>) = counters s"
  by (simp_all add: counters_def push_def pop_def Let_def)

lemma schedule_keeps_counts:
  assumes "lwt_schedule s = Inr (v, s')"
  shows "counters s' = counters s"
proof -
  have p: "s1 = s" if "poll_wakeups s = Inr s1" for s1
    using that by (auto simp: poll_wakeups_def Let_def rbind_eq_Inr split: if_splits lnode.splits)
  have d: "counters s2 = counters s1" if "lwt_dispatch t u s1 = Inr (v, s2)" for t u s1 s2
    using that by (auto simp: lwt_dispatch_def rbind_eq_Inr split: code_label.splits)
  show ?thesis using assms by (auto simp: lwt_schedule_def Let_def rbind_eq_Inr counters_def dest!: p d)
qed

lemma yield_keeps_counts:
  assumes "lwt_yield y s = Inr (v, s')"
  shows "counters s' = counters s"
  using assms by (auto simp: lwt_yield_def Let_def rbind_eq_Inr split: if_splits dest!: schedule_keeps_counts)

lemma block_counts:
  assumes "block_thread t why c s = Inr (v, s')"
  shows "counters s' = count_block why 1 (counters s)"
  using assms by (cases why) (auto simp: block_thread_def Let_def rbind_eq_Inr counters_def dest!: yield_keeps_counts)

lemma resume_counts:
  assumes "resume_thread t s = Inr s'" "thds s t = Some x"
  shows "counters s' = count_block (block_for x) (- 1) (counters s)"
  using assms by (cases "block_for x") (auto simp: resume_thread_def Let_def rbind_eq_Inr counters_def)

lemma rcv_block_counts:
  assumes "lwt_rcv c s = Inr (v, s')" "chans s c = Some ch" "chan_ty ch = LOCAL_CHAN"
    "\<not> ring_nonempty (buffer ch)" "list_head_empty (SendQ c) (lists s)"
  shows "counters s' = count_block BLOCKED_RECEIVING 1 (counters s)"
  using assms by (auto simp: lwt_rcv_def Let_def rbind_eq_Inr dest!: block_counts)

lemma snd_direct_counts:
  assumes "lwt_snd c d s = Inr (v, s')" "chans s c = Some ch" "chan_ty ch = LOCAL_CHAN"
    "receiver ch \<noteq> 0" "thds s (receiver ch) = Some r" "receiver_waits ch c r"
  shows "counters s' = count_block BLOCKED_RECEIVING (- 1) (counters s)"
proof -
  have b: "block_for r = BLOCKED_RECEIVING" using assms(6) by (simp add: receiver_waits_def)
  show ?thesis using assms by (auto simp: lwt_snd_def rbind_eq_Inr b split: if_splits dest!: resume_counts)
qed


lemma die_rest_counts:
  assumes "die_rest t s = Inr (v, s')"
  shows "counters s' = count_zombie (- 1) (counters s)"
  using assms by (auto simp: die_rest_def Let_def rbind_eq_Inr counters_def count_zombie_def dest!: schedule_keeps_counts)

lemma create_keeps_kthds:
  assumes "lwt_create fn d fl s = Inr (t, s')"
  shows "kthds s' = kthds s \<and> current_kthd s' = current_kthd s \<and> ufn s' = ufn s"
proof -
  define K where "K s1 s2 \<longleftrightarrow> kthds s2 = kthds s1 \<and> current_kthd s2 = current_kthd s1 \<and> ufn s2 = ufn s1" for s1 s2 :: sys
  have m: "K s1 s2" if "malloc n s1 = Inr (q, s2)" for n s1 q s2
    using that by (auto simp: malloc_eq_Inr K_def)
  have c: "K s1 s2" if "lwt_chan sz s1 = Inr (q, s2)" for sz s1 q s2
    using that by (auto simp: lwt_chan_def init_chan_def Let_def rbind_eq_Inr K_def dest!: m)
  have i: "K s1 s2" if "init_thread u k s1 = Inr s2" for u k s1 s2
    using that by (auto simp: init_thread_def rbind_eq_Inr K_def dest!: c)
  have k: "K s1 s2" if "take_tcb s1 = Inr (q, x, s2)" for s1 q x s2
    using that by (auto simp: take_tcb_def Let_def rbind_eq_Inr K_def split: if_splits dest!: m)
  have "K s s'" using assms by (auto simp: lwt_create_def Let_def rbind_eq_Inr K_def dest!: k i)
  then show ?thesis by (simp add: K_def)
qed

lemma create_counts: "lwt_create fn d fl s = Inr (t, s') \<Longrightarrow> counters s' = counters s"
  using create_keeps_kthds [of fn d fl s t s'] by (simp add: counters_def)

end
