(* ===== verification/Lwt_Start.thy ===== *)
theory Lwt_Start
  imports Lwt_Stacks Lwt_Print Lwt_Witnesses Lwt_Effects
begin

text \<open>
  The stacks of threads: each thread that \<^verbatim>\<open>lwt_create\<close> made has a stack of its own, which
  no operation of the library hands out again or writes to (\<^verbatim>\<open>lwt_create\<close> takes a fresh one when it
  has no dead thread to reuse), so that a thread, whenever it is
  dispatched to for the first time, calls the function it was created with on the argument it
  was created with.
\<close>

section \<open>Creation\<close>

lemma init_thread_calm:
  assumes r: "init_thread t k s = Inr s'"
  shows "calm s s'"
proof -
  obtain f s1 g s2 c s3 h s4 f' s5 g' where
    u: "upd_thd t f s = Inr s1" "upd_thd t g (s1\<lparr>lwt_counter := lwt_counter s1 + 1\<rparr>) = Inr s2" "lwt_chan 0 s2 = Inr (c, s3)"
      "upd_thd t h s3 = Inr s4" "upd_chan c f' s4 = Inr s5" "upd_thd t g' s5 = Inr s'"
    and k: "f = (\<lambda>x. x\<lparr>lwt_id := lwt_counter s\<rparr>)" "g = (\<lambda>x. x\<lparr>tstate := LWT_RUNNING, parent := 0, message_data := 0\<rparr>)"
      "h = (\<lambda>x. x\<lparr>chl := c\<rparr>)" "g' = (\<lambda>x. x\<lparr>nojoin := 0, owner_kthd := k\<rparr>)"
    using r unfolding init_thread_def by (simp only: rbind_eq_Inr split_paired_Ex prod.case) blast
  have "calm s s1" by (rule upd_thd_calm [OF u(1)]) (simp_all add: k)
  moreover have "calm s1 (s1\<lparr>lwt_counter := lwt_counter s1 + 1\<rparr>)" by (rule calm_same) (simp_all add: objs_def)
  moreover have "calm (s1\<lparr>lwt_counter := lwt_counter s1 + 1\<rparr>) s2" by (rule upd_thd_calm [OF u(2)]) (simp_all add: k)
  moreover have "calm s2 s3" by (rule lwt_chan_calm [OF u(3)]) simp_all
  moreover have "calm s3 s4" by (rule upd_thd_calm [OF u(4)]) (simp_all add: k)
  moreover have "calm s4 s5" by (rule upd_chan_calm [OF u(5)])
  moreover have "calm s5 s'" by (rule upd_thd_calm [OF u(6)]) (simp_all add: k)
  ultimately show ?thesis by (meson calm_trans)
qed

text \<open>
  What \<^verbatim>\<open>lwt_create\<close> does to memory: with nothing to recycle the new thread's stack is a block
  that was not in use before; the two words below its top are written.
\<close>

definition new_stack :: "ptr \<Rightarrow> ptr \<Rightarrow> sys \<Rightarrow> sys \<Rightarrow> bool" where
  "new_stack t b s s' \<longleftrightarrow> t \<notin> dom (thds s) \<and> map_option init_sp (thds s' t) = Some (b + MAX_STACK_SIZE) \<and>
     (\<forall>R. holds R s \<longrightarrow> b \<notin> dom R \<and> holds (R(b \<mapsto> MAX_STACK_SIZE)) s')"

definition old_stack :: "ptr \<Rightarrow> sys \<Rightarrow> sys \<Rightarrow> bool" where
  "old_stack t s s' \<longleftrightarrow> t \<in> dom (thds s) \<and> list_head_first (current_recycle_queue s) (lists s) = ThdNode t \<and>
     \<not> list_head_empty (current_recycle_queue s) (lists s) \<and>
     map_option init_sp (thds s' t) = map_option init_sp (thds s t) \<and> (\<forall>R. holds R s \<longrightarrow> holds R s')"

lemma take_tcb_stack:
  assumes r: "take_tcb s = Inr (t, sp0, s')" and i: "lwt_inv s"
  shows "map_option init_sp (thds s' t) = Some sp0" "(\<exists>b. new_stack t b s s') \<or> old_stack t s s'"
    "stackw s' = stackw s" "ufn s' = ufn s" "kthds s' = kthds s" "current_kthd s' = current_kthd s"
    "w \<noteq> t \<Longrightarrow> thds s' w = thds s w"
proof -
  show "map_option init_sp (thds s' t) = Some sp0"
    "stackw s' = stackw s" "ufn s' = ufn s" "kthds s' = kthds s" "current_kthd s' = current_kthd s" "w \<noteq> t \<Longrightarrow> thds s' w = thds s w"
    using r by (auto simp: take_tcb_def Let_def rbind_eq_Inr malloc_eq_Inr split: if_splits)
  show "(\<exists>b. new_stack t b s s') \<or> old_stack t s s'"
  proof (cases "list_head_empty (current_recycle_queue s) (lists s)")
    case False
    then obtain L where "s' = s\<lparr>lists := L\<rparr>" "t \<in> dom (thds s)" "list_head_first (current_recycle_queue s) (lists s) = ThdNode t"
      using r by (auto simp: take_tcb_def Let_def rbind_eq_Inr)
    moreover have "holds R (s\<lparr>lists := L\<rparr>) = holds R s" for R by (rule holds_cong) simp_all
    ultimately have "old_stack t s s'" using False by (simp add: old_stack_def)
    then show ?thesis ..
  next
    case True
    then obtain s1 b s2 where m: "malloc sizeof_lwt_t s = Inr (t, s1)" "malloc MAX_STACK_SIZE s1 = Inr (b, s2)" "t \<noteq> 0" "b \<noteq> 0"
      and s': "s' = s2\<lparr>thds := (thds s2)(t \<mapsto> (raw_thd s2 t)\<lparr>init_sp := b + MAX_STACK_SIZE\<rparr>)\<rparr>"
      using r by (auto simp: take_tcb_def Let_def rbind_eq_Inr)
    have n: "sizeof_lwt_t + 16 \<le> 2 ^ 32" "MAX_STACK_SIZE + 16 \<le> 2 ^ 32" by (simp_all add: sizeof_lwt_t_def MAX_STACK_SIZE_def)
    have h: "b \<notin> dom R \<and> t \<notin> objs s \<and> holds (R(b \<mapsto> MAX_STACK_SIZE)) s'" if "holds R s" for R
    proof -
      note a = malloc_holds [OF m(1) n(1) that]
      have h1: "holds (R(t \<mapsto> sizeof_lwt_t)) s1" by (rule a(4) [OF m(3)])
      note a2 = malloc_holds [OF m(2) n(2) h1]
      have bt: "b \<noteq> t" "b \<notin> dom R" using a2(2) m(4) by auto
      have "holds ((R(b \<mapsto> MAX_STACK_SIZE))(t \<mapsto> sizeof_lwt_t)) s2" using a2(4) m(4) bt(1) by (simp add: fun_upd_twist)
      then have "holds (R(b \<mapsto> MAX_STACK_SIZE)) s'"
        by (rule holds_new) (use a(2) m(3) bt(1) s' in \<open>auto simp: objs_def\<close>)
      then show ?thesis using bt(2) a(3) m(3) by blast
    qed
    have "t \<notin> dom (thds s)" using h [OF lwt_inv_holds [OF i]] by (auto simp: objs_def)
    then have "new_stack t b s s'" using h s' by (simp add: new_stack_def)
    then show ?thesis by blast
  qed
qed

lemma new_stack_calm: "new_stack t b s s1 \<Longrightarrow> calm s1 s2 \<Longrightarrow> new_stack t b s s2"
  using calm_thd(2) [of s1 s2 t] by (simp add: new_stack_def calm_def)

lemma old_stack_calm: "old_stack t s s1 \<Longrightarrow> calm s1 s2 \<Longrightarrow> old_stack t s s2"
  using calm_thd(2) [of s1 s2 t] by (simp add: old_stack_def calm_def)

lemma create_effects:
  assumes r: "lwt_create fn d fl s = Inr (t, s')" and i: "lwt_inv s"
  obtains sp0 where "map_option init_sp (thds s' t) = Some sp0" "(\<exists>b. new_stack t b s s') \<or> old_stack t s s'"
    "stackw s' = (stackw s)(sp0 - 4 := d, sp0 - 8 := fn)" "map_option ctx (thds s' t) = Some \<lparr>ip = Trampoline, sp = sp0 - 12\<rparr>"
    "ufn s' = ufn s" "current_kthd s' = current_kthd s" "\<And>k. main_thread (kthds s' k) = main_thread (kthds s k)"
    "\<And>k. current_thread (kthds s' k) = current_thread (kthds s k)"
    "\<And>w. w \<noteq> t \<Longrightarrow> map_option ctx (thds s' w) = map_option ctx (thds s w)"
    "\<And>w. w \<noteq> t \<Longrightarrow> map_option init_sp (thds s' w) = map_option init_sp (thds s w)"
proof -
  obtain sp0 s1 s2 s3 where tk: "take_tcb s = Inr (t, sp0, s1)" and it: "init_thread t (current_kthd s1) s1 = Inr s2"
    and u: "upd_thd t (\<lambda>x. x\<lparr>parent := lwt_current s2\<rparr>) s2 = Inr s3" and
    rest: "rbind (upd_thd t (\<lambda>x. x\<lparr>ctx := \<lparr>ip = Trampoline, sp = sp0 - 4 - 4 - 4\<rparr>, nojoin := (if fl AND LWT_NOJOIN \<noteq> 0 then 1 else nojoin x)\<rparr>)
        (s3\<lparr>stackw := (stackw s3)(sp0 - 4 := d, sp0 - 4 - 4 := fn)\<rparr>)) (\<lambda>s6. Inr (t, add_node (current_run_queue s6) (ThdNode t) s6)) = Inr (t, s')"
    using r by (auto simp: lwt_create_def Let_def rbind_eq_Inr sizeof_uint_def simp del: upd_thd_eq_Inr upd_thd_live add_node_def)
  obtain x where x: "t \<noteq> 0" "thds s3 t = Some x" using u by auto
  let ?x = "x\<lparr>ctx := \<lparr>ip = Trampoline, sp = sp0 - 12\<rparr>, nojoin := (if fl AND LWT_NOJOIN \<noteq> 0 then 1 else nojoin x)\<rparr>"
  have s': "thds s' = (thds s3)(t \<mapsto> ?x)" "stackw s' = (stackw s3)(sp0 - 4 := d, sp0 - 8 := fn)" "ufn s' = ufn s3"
    "kthds s' = kthds s3" "current_kthd s' = current_kthd s3" "mem s' = mem s3" "chans s' = chans s3" "grps s' = grps s3" "wraps s' = wraps s3"
    using rest x by auto
  have o: "objs s' = objs s3" unfolding objs_def s' using x(2) by (simp add: insert_absorb domI)
  note k = take_tcb_stack [OF tk i]
  have "calm s2 s3" by (rule upd_thd_calm [OF u]) simp_all
  then have c: "calm s1 s3" using init_thread_calm [OF it] by (blast intro: calm_trans)
  note ct = calm_thd(1,2) [OF c]
  have h: "holds R s' = holds R s3" for R by (rule holds_cong [OF s'(6) o])
  have e: "map_option init_sp (thds s' w) = map_option init_sp (thds s3 w)" for w using x by (simp add: s'(1))
  have ns: "new_stack t b s s' = new_stack t b s s3" "old_stack t s s' = old_stack t s s3" for b
    unfolding new_stack_def old_stack_def e h by simp_all
  show thesis
  proof (rule that)
    show "map_option init_sp (thds s' t) = Some sp0" using k(1) e ct(2) by simp
    show "(\<exists>b. new_stack t b s s') \<or> old_stack t s s'" using k(2) c unfolding ns by (blast intro: new_stack_calm old_stack_calm)
    show "stackw s' = (stackw s)(sp0 - 4 := d, sp0 - 8 := fn)" "ufn s' = ufn s" "current_kthd s' = current_kthd s"
      "main_thread (kthds s' j) = main_thread (kthds s j)" "current_thread (kthds s' j) = current_thread (kthds s j)" for j
      using s' c k(3-6) by (simp_all add: calm_def)
    show "map_option ctx (thds s' t) = Some \<lparr>ip = Trampoline, sp = sp0 - 12\<rparr>" using s'(1) by simp
    fix w assume w: "w \<noteq> t"
    show "map_option ctx (thds s' w) = map_option ctx (thds s w)" using w s'(1) ct(1) [of w] k(7) [OF w] by simp
    show "map_option init_sp (thds s' w) = map_option init_sp (thds s w)" using e ct(2) [of w] k(7) [OF w] by simp
  qed
qed

section \<open>Stacks\<close>

text \<open>
  The threads that \<^verbatim>\<open>lwt_create\<close> made: all but the main threads, which run on stacks of the
  kernel's. The stack of such a thread is the block below its \<^verbatim>\<open>init_sp\<close>.
\<close>

definition created_thds :: "sys \<Rightarrow> ptr set" where
  "created_thds s = {t \<in> dom (thds s). \<forall>k. main_thread (kthds s k) \<noteq> t}"

definition stack_top :: "sys \<Rightarrow> ptr \<Rightarrow> ptr" where
  "stack_top s t = (case thds s t of Some x \<Rightarrow> init_sp x | None \<Rightarrow> 0)"

definition stack_base :: "sys \<Rightarrow> ptr \<Rightarrow> ptr" where
  "stack_base s t = stack_top s t - MAX_STACK_SIZE"

definition stack_map :: "sys \<Rightarrow> ptr \<rightharpoonup> nat" where
  "stack_map s = (\<lambda>b. if b \<in> stack_base s ` created_thds s then Some MAX_STACK_SIZE else None)"

text \<open>
  Every created thread has a reserved block of its own for its stack, and the stack pointer of
  one that never ran is where \<^verbatim>\<open>lwt_create\<close> left it.
\<close>

definition stacks_ok :: "sys \<Rightarrow> bool" where
  "stacks_ok s \<longleftrightarrow> holds (stack_map s) s \<and> inj_on (stack_base s) (created_thds s) \<and>
     (\<forall>t\<in>created_thds s. MAX_STACK_SIZE \<le> stack_top s t) \<and>
     (\<forall>t x. thds s t = Some x \<longrightarrow> t \<in> created_thds s \<longrightarrow> ip (ctx x) = Trampoline \<longrightarrow> sp (ctx x) + 12 = init_sp x)"

lemma stack_top_init_sp: "stack_top s t = (case map_option init_sp (thds s t) of Some a \<Rightarrow> a | None \<Rightarrow> 0)"
  by (cases "thds s t") (simp_all add: stack_top_def)

lemma stacks_frame:
  assumes "\<And>t. map_option init_sp (thds s' t) = map_option init_sp (thds s t)" "\<And>k. main_thread (kthds s' k) = main_thread (kthds s k)"
  shows "created_thds s' = created_thds s" "stack_base s' = stack_base s" "stack_top s' = stack_top s" "stack_map s' = stack_map s"
proof -
  have "thds s' t = None \<longleftrightarrow> thds s t = None" for t using assms(1) [of t] by (cases "thds s t"; cases "thds s' t") simp_all
  then have "dom (thds s') = dom (thds s)" by (simp add: dom_def)
  then show c: "created_thds s' = created_thds s" using assms(2) by (simp add: created_thds_def)
  show t: "stack_top s' = stack_top s" using assms(1) by (simp add: fun_eq_iff stack_top_init_sp)
  then show b: "stack_base s' = stack_base s" by (simp add: fun_eq_iff stack_base_def)
  show "stack_map s' = stack_map s" unfolding stack_map_def c b ..
qed

lemma moved_stacks_ok:
  assumes m: "moved s s'" and i: "stacks_ok s"
  shows "stacks_ok s'"
proof -
  have e: "map_option init_sp (thds s' t) = map_option init_sp (thds s t)" "main_thread (kthds s' k) = main_thread (kthds s k)"
    "w \<noteq> lwt_current s \<Longrightarrow> map_option ctx (thds s' w) = map_option ctx (thds s w)" for t k w
    using m by (simp_all add: moved_def Let_def)
  note f = stacks_frame [of s' s, OF e(1,2)]
  have same: "sp (ctx x) + 12 = init_sp x" if x: "thds s' t = Some x" "t \<in> created_thds s" "ip (ctx x) = Trampoline"
    "map_option ctx (thds s' t) = map_option ctx (thds s t)" for t x
  proof -
    obtain y where "thds s t = Some y" "ctx y = ctx x" "init_sp y = init_sp x"
      using e(1) [of t] x(1,4) by (cases "thds s t") auto
    then show ?thesis using i x(2,3) unfolding stacks_ok_def by metis
  qed
  have "sp (ctx x) + 12 = init_sp x" if x: "thds s' t = Some x" "t \<in> created_thds s" "ip (ctx x) = Trampoline" for t x
  proof (cases "t = lwt_current s")
    case False
    then show ?thesis using same e(3) x by blast
  next
    case True
    then have "map_option ctx (thds s' t) = map_option ctx (thds s t)" using m x(1,3) by (auto simp: moved_def Let_def)
    then show ?thesis using same x by blast
  qed
  moreover have "holds (stack_map s) s'" using m i by (simp add: moved_def Let_def stacks_ok_def)
  ultimately show ?thesis using i by (simp add: stacks_ok_def f)
qed

lemma kept_stack_ok:
  assumes ok: "stacks_ok s" and e: "map_option ctx (thds s' w) = map_option ctx (thds s w)" "map_option init_sp (thds s' w) = map_option init_sp (thds s w)"
    and x: "thds s' w = Some x" "w \<in> created_thds s" "ip (ctx x) = Trampoline"
  shows "sp (ctx x) + 12 = init_sp x"
proof -
  obtain y where "thds s w = Some y" "ctx y = ctx x" "init_sp y = init_sp x" using e x(1) by (cases "thds s w") auto
  then show ?thesis using ok x(2,3) unfolding stacks_ok_def by metis
qed

text \<open>A thread on the stack of a dead one.\<close>

lemma old_stack_ok:
  assumes ok: "stacks_ok s" and o: "old_stack t s s'" and mt: "\<And>k. main_thread (kthds s' k) = main_thread (kthds s k)"
    and sp: "map_option init_sp (thds s' t) = Some sp0" and ct: "map_option ctx (thds s' t) = Some \<lparr>ip = Trampoline, sp = sp0 - 12\<rparr>"
    and cw: "\<And>w. w \<noteq> t \<Longrightarrow> map_option ctx (thds s' w) = map_option ctx (thds s w)"
    and iw: "\<And>w. w \<noteq> t \<Longrightarrow> map_option init_sp (thds s' w) = map_option init_sp (thds s w)"
  shows "stacks_ok s'"
proof -
  have it: "map_option init_sp (thds s' w) = map_option init_sp (thds s w)" for w
    using o iw [of w] by (cases "w = t") (simp_all add: old_stack_def)
  note f = stacks_frame [of s' s, OF it mt]
  have top: "MAX_STACK_SIZE \<le> sp0" if "t \<in> created_thds s"
  proof -
    have "stack_top s t = sp0" using it [of t] sp by (cases "thds s t") (auto simp: stack_top_def)
    then show ?thesis using ok that by (auto simp: stacks_ok_def)
  qed
  have "sp (ctx x) + 12 = init_sp x" if x: "thds s' w = Some x" "w \<in> created_thds s" "ip (ctx x) = Trampoline" for w x
  proof (cases "w = t")
    case True
    then show ?thesis using sp ct x(1,2) top by (simp add: MAX_STACK_SIZE_def)
  qed (rule kept_stack_ok [OF ok cw it x])
  moreover have "holds (stack_map s) s'" using ok o by (simp add: stacks_ok_def old_stack_def)
  ultimately show ?thesis using ok by (simp add: stacks_ok_def f)
qed

text \<open>A thread on a stack of its own.\<close>

lemma new_stack_ok:
  assumes ok: "stacks_ok s" and n: "new_stack t b s s'" and mt: "\<And>k. main_thread (kthds s' k) = main_thread (kthds s k)"
    and sp: "map_option init_sp (thds s' t) = Some sp0" and ct: "map_option ctx (thds s' t) = Some \<lparr>ip = Trampoline, sp = sp0 - 12\<rparr>"
    and cw: "\<And>w. w \<noteq> t \<Longrightarrow> map_option ctx (thds s' w) = map_option ctx (thds s w)"
    and iw: "\<And>w. w \<noteq> t \<Longrightarrow> map_option init_sp (thds s' w) = map_option init_sp (thds s w)"
  shows "stacks_ok s'"
proof -
  have h: "b \<notin> dom (stack_map s)" "holds ((stack_map s)(b \<mapsto> MAX_STACK_SIZE)) s'" and b0: "sp0 = b + MAX_STACK_SIZE"
    using n ok sp by (simp_all add: new_stack_def stacks_ok_def)
  have top: "stack_top s' t = b + MAX_STACK_SIZE" "stack_base s' t = b" using sp b0 by (auto simp: stack_base_def stack_top_def)
  have oth: "stack_top s' w = stack_top s w" "stack_base s' w = stack_base s w" if "w \<noteq> t" for w
    using iw [OF that] by (simp_all add: stack_base_def stack_top_init_sp)
  have tn: "t \<notin> created_thds s" using n by (simp add: new_stack_def created_thds_def)
  have "thds s' w = None \<longleftrightarrow> thds s w = None" if "w \<noteq> t" for w
    using iw [OF that] by (cases "thds s w"; cases "thds s' w") simp_all
  moreover have "thds s' t \<noteq> None" using sp by auto
  ultimately have "dom (thds s') = insert t (dom (thds s))" by (intro set_eqI) (metis domIff insert_iff)
  then have cr: "created_thds s' = created_thds s \<or> created_thds s' = insert t (created_thds s)"
    unfolding created_thds_def mt by (cases "\<exists>k. main_thread (kthds s k) = t") auto
  have im: "stack_base s' ` created_thds s = stack_base s ` created_thds s" using oth(2) tn by (intro image_cong refl) metis
  have inj: "inj_on (stack_base s') (created_thds s)" using ok oth(2) tn unfolding stacks_ok_def inj_on_def by metis
  have tops: "MAX_STACK_SIZE \<le> stack_top s' w" if "w \<in> created_thds s'" for w
    using that cr ok oth(1) top(1) by (cases "w = t") (auto simp: stacks_ok_def)
  have sps: "sp (ctx x) + 12 = init_sp x" if x: "thds s' w = Some x" "w \<in> created_thds s'" "ip (ctx x) = Trampoline" for w x
  proof (cases "w = t")
    case True
    then show ?thesis using sp ct x(1) b0 by (simp add: MAX_STACK_SIZE_def)
  next
    case False
    then show ?thesis using kept_stack_ok [OF ok cw iw x(1) _ x(3)] x(2) cr by auto
  qed
  from cr show ?thesis
  proof
    assume c: "created_thds s' = created_thds s"
    have "stack_map s' = stack_map s" unfolding stack_map_def c im ..
    moreover have "holds (stack_map s) s'" by (rule holds_mono [OF h(2)]) (use h(1) in \<open>auto simp: map_le_def\<close>)
    ultimately show ?thesis using inj tops sps c by (simp add: stacks_ok_def)
  next
    assume c: "created_thds s' = insert t (created_thds s)"
    have bn: "b \<notin> stack_base s ` created_thds s" using h(1) by (auto simp: stack_map_def split: if_splits)
    have "stack_map s' = (stack_map s)(b \<mapsto> MAX_STACK_SIZE)"
      unfolding stack_map_def c image_insert im top(2) by (rule ext) simp
    moreover have "inj_on (stack_base s') (created_thds s')" unfolding c using inj bn im top(2) tn by simp
    ultimately show ?thesis using tops sps h(2) by (simp add: stacks_ok_def)
  qed
qed

lemma create_stacks_ok:
  assumes r: "lwt_create fn d fl s = Inr (t, s')" and i: "lwt_inv s" and ok: "stacks_ok s"
  shows "stacks_ok s'"
proof (rule create_effects [OF r i])
  fix sp0
  assume "map_option init_sp (thds s' t) = Some sp0" "(\<exists>b. new_stack t b s s') \<or> old_stack t s s'"
    and "map_option ctx (thds s' t) = Some \<lparr>ip = Trampoline, sp = sp0 - 12\<rparr>"
    and "\<And>k. main_thread (kthds s' k) = main_thread (kthds s k)"
    and "\<And>w. w \<noteq> t \<Longrightarrow> map_option ctx (thds s' w) = map_option ctx (thds s w)"
    and "\<And>w. w \<noteq> t \<Longrightarrow> map_option init_sp (thds s' w) = map_option init_sp (thds s w)"
  then show ?thesis using old_stack_ok [OF ok] new_stack_ok [OF ok] by metis
qed

section \<open>Kernel threads\<close>

lemma initiate_effects:
  assumes r: "initiate k s = Inr s'" and i: "holds Map.empty s"
  obtains t where "t \<notin> dom (thds s)" "main_thread (kthds s' k) = t" "current_thread (kthds s' k) = t"
    "\<And>j. j \<noteq> k \<Longrightarrow> main_thread (kthds s' j) = main_thread (kthds s j) \<and> current_thread (kthds s' j) = current_thread (kthds s j)"
    "\<And>w. w \<noteq> t \<Longrightarrow> map_option (\<lambda>x. (ctx x, init_sp x)) (thds s' w) = map_option (\<lambda>x. (ctx x, init_sp x)) (thds s w)"
    "stackw s' = stackw s" "ufn s' = ufn s" "current_kthd s' = current_kthd s" "\<And>R. holds R s \<Longrightarrow> holds R s'"
proof -
  let ?s0 = "init_kthd k s"
  have k0: "mem ?s0 = mem s" "objs ?s0 = objs s" "thds ?s0 = thds s" "stackw ?s0 = stackw s" "ufn ?s0 = ufn s"
    "current_kthd ?s0 = current_kthd s" "main_thread (kthds ?s0 j) = main_thread (kthds s j)"
    "current_thread (kthds ?s0 j) = current_thread (kthds s j)" for j
    by (simp_all add: init_kthd_def Let_def objs_def)
  have h0: "holds R ?s0 = holds R s" for R by (rule holds_cong [OF k0(1,2)])
  obtain t s1 s3 s4 where m: "malloc sizeof_lwt_t ?s0 = Inr (t, s1)" "t \<noteq> 0" and
    it: "init_thread t k (kthd_do k (\<lambda>i. i\<lparr>current_thread := t\<rparr>) (s1\<lparr>thds := (thds s1)(t \<mapsto> raw_thd s1 t)\<rparr>)) = Inr s3" and
    u: "upd_thd t (\<lambda>x. x\<lparr>tstate := LWT_RUNNING\<rparr>) s3 = Inr s4" and
    s': "s' = append_node (RunQ k) (ThdNode t) (kthd_do k (\<lambda>i. i\<lparr>main_thread := current_thread i\<rparr>) s4)"
    using r by (auto simp: initiate_def Let_def rbind_eq_Inr simp del: upd_thd_eq_Inr upd_thd_live append_node_def kthd_do_def)
  let ?s2 = "kthd_do k (\<lambda>i. i\<lparr>current_thread := t\<rparr>) (s1\<lparr>thds := (thds s1)(t \<mapsto> raw_thd s1 t)\<rparr>)"
  have n: "sizeof_lwt_t + 16 \<le> 2 ^ 32" by (simp add: sizeof_lwt_t_def)
  have s1: "thds s1 = thds s" "stackw s1 = stackw s" "ufn s1 = ufn s" "current_kthd s1 = current_kthd s" "kthds s1 = kthds ?s0"
    using m(1) k0 by (auto simp: malloc_eq_Inr)
  have "calm s3 s4" by (rule upd_thd_calm [OF u]) simp_all
  then have c: "calm ?s2 s4" using init_thread_calm [OF it] by (blast intro: calm_trans)
  have hs: "holds R s' = holds R s4" for R by (rule holds_cong) (simp_all add: s' objs_def)
  have h: "holds R s'" if "holds R s" for R
  proof -
    have "holds R ?s0" using that h0 by simp
    note a = malloc_holds(2,4) [OF m(1) n this m(2)]
    have "holds R ?s2" by (rule holds_new [OF a(2,1)]) (simp_all add: objs_def)
    then show ?thesis using c hs by (simp add: calm_def)
  qed
  have tn: "t \<notin> dom (thds s)" using malloc_holds(3) [OF m(1) n _ m(2), of Map.empty] i h0 k0(2) by (auto simp: objs_def)
  have cth: "current_thread (kthds s4 j) = current_thread (kthds ?s2 j)" "main_thread (kthds s4 j) = main_thread (kthds ?s2 j)" for j
    using c by (simp_all add: calm_def)
  show thesis
  proof (rule that [OF tn])
    show "main_thread (kthds s' k) = t" "current_thread (kthds s' k) = t" using cth [of k] by (simp_all add: s')
    show "main_thread (kthds s' j) = main_thread (kthds s j) \<and> current_thread (kthds s' j) = current_thread (kthds s j)" if "j \<noteq> k" for j
      using cth [of j] k0(7,8) [of j] that by (simp add: s' s1)
    show "map_option (\<lambda>x. (ctx x, init_sp x)) (thds s' w) = map_option (\<lambda>x. (ctx x, init_sp x)) (thds s w)" if "w \<noteq> t" for w
    proof -
      have "map_option (\<lambda>x. (ctx x, init_sp x)) (thds s4 w) = map_option (\<lambda>x. (ctx x, init_sp x)) (thds ?s2 w)"
        using c by (simp add: calm_def)
      then show ?thesis using that by (simp add: s' s1)
    qed
    show "stackw s' = stackw s" "ufn s' = ufn s" "current_kthd s' = current_kthd s" using c s1 by (simp_all add: s' calm_def)
  qed (rule h)
qed

lemma kthd_create_effects:
  assumes r: "lwt_kthd_create fn c (Some k) s = Inr (fp, s')" and i: "lwt_inv s"
  obtains t where "t \<notin> dom (thds s)" "main_thread (kthds s' k) = t" "current_thread (kthds s' k) = t"
    "\<And>j. j \<noteq> k \<Longrightarrow> main_thread (kthds s' j) = main_thread (kthds s j) \<and> current_thread (kthds s' j) = current_thread (kthds s j)"
    "\<And>w. w \<noteq> t \<Longrightarrow> map_option (\<lambda>x. (ctx x, init_sp x)) (thds s' w) = map_option (\<lambda>x. (ctx x, init_sp x)) (thds s w)"
    "stackw s' = (stackw s)(fp := fn, fp + 4 := c)" "ufn s' = ufn s" "current_kthd s' = current_kthd s"
    "\<And>R. holds R s \<Longrightarrow> fp \<notin> dom R \<and> holds (R(fp \<mapsto> func_param_size)) s'"
proof -
  obtain s1 where m: "malloc func_param_size s = Inr (fp, s1)" "fp \<noteq> 0" and
    it: "initiate k (s1\<lparr>stackw := (stackw s1)(fp := fn, fp + 4 := c)\<rparr>) = Inr s'"
    using r by (auto simp: lwt_kthd_create_def Let_def rbind_eq_Inr sizeof_uint_def)
  let ?s2 = "s1\<lparr>stackw := (stackw s1)(fp := fn, fp + 4 := c)\<rparr>"
  have n: "func_param_size + 16 \<le> 2 ^ 32" by (simp add: func_param_size_def)
  have s1: "thds s1 = thds s" "stackw s1 = stackw s" "ufn s1 = ufn s" "current_kthd s1 = current_kthd s" "kthds s1 = kthds s"
    using m(1) by (auto simp: malloc_eq_Inr)
  have h2: "holds R ?s2 = holds R s1" for R by (rule holds_cong) (simp_all add: objs_def)
  have h: "fp \<notin> dom R \<and> holds (R(fp \<mapsto> func_param_size)) ?s2" if "holds R s" for R
    using malloc_holds(2,4) [OF m(1) n that m(2)] by (simp add: h2)
  have "holds Map.empty ?s2" using malloc_holds(1) [OF m(1) n lwt_inv_holds [OF i]] h2 by simp
  then show thesis
  proof (rule initiate_effects [OF it])
    fix t
    assume "t \<notin> dom (thds ?s2)" "main_thread (kthds s' k) = t" "current_thread (kthds s' k) = t"
    and "\<And>j. j \<noteq> k \<Longrightarrow> main_thread (kthds s' j) = main_thread (kthds ?s2 j) \<and> current_thread (kthds s' j) = current_thread (kthds ?s2 j)"
    and "\<And>w. w \<noteq> t \<Longrightarrow> map_option (\<lambda>x. (ctx x, init_sp x)) (thds s' w) = map_option (\<lambda>x. (ctx x, init_sp x)) (thds ?s2 w)"
    and "stackw s' = stackw ?s2" "ufn s' = ufn ?s2" "current_kthd s' = current_kthd ?s2" and h': "\<And>R. holds R ?s2 \<Longrightarrow> holds R s'"
    then show thesis using s1 h by (intro that [of t]) simp_all
  qed
qed

text \<open>The main thread of a new kernel thread is not one of those that \<^verbatim>\<open>lwt_create\<close> made.\<close>

lemma created_thds_kthd:
  assumes z: "0 \<notin> dom (thds s)" and m0: "main_thread (kthds s j) = 0" and tn: "t \<notin> dom (thds s)" and mt: "main_thread (kthds s' j) = t"
    and mo: "\<And>i. i \<noteq> j \<Longrightarrow> main_thread (kthds s' i) = main_thread (kthds s i)"
    and d: "\<And>w. w \<noteq> t \<Longrightarrow> thds s' w = None \<longleftrightarrow> thds s w = None"
  shows "created_thds s' = created_thds s"
proof (rule set_eqI)
  fix w
  show "w \<in> created_thds s' \<longleftrightarrow> w \<in> created_thds s"
  proof (cases "w = t")
    case True
    then show ?thesis using tn mt by (auto simp: created_thds_def)
  next
    case False
    show ?thesis
    proof (cases "w \<in> dom (thds s)")
      case True
      then have "(\<exists>i. main_thread (kthds s' i) = w) \<longleftrightarrow> (\<exists>i. main_thread (kthds s i) = w)"
        using mt mo m0 z False by metis
      then show ?thesis using d [OF False] True unfolding created_thds_def mem_Collect_eq domIff by blast
    qed (use d [OF False] in \<open>simp add: created_thds_def domIff\<close>)
  qed
qed

lemma kthd_create_stacks_ok:
  assumes r: "lwt_kthd_create fn c k s = Inr (fp, s')" and i: "lwt_inv s" and ok: "stacks_ok s" and new: "call_ok (KthdCreate fn c k) s"
  shows "stacks_ok s'"
proof -
  obtain j where k: "k = Some j" using r by (cases k) (auto simp: lwt_kthd_create_def Let_def rbind_eq_Inr)
  have m0: "main_thread (kthds s j) = 0" using new k by simp
  show ?thesis
  proof (rule kthd_create_effects [OF r [unfolded k] i])
    fix t
    assume tn: "t \<notin> dom (thds s)" and mt: "main_thread (kthds s' j) = t"
      and mo: "\<And>i. i \<noteq> j \<Longrightarrow> main_thread (kthds s' i) = main_thread (kthds s i) \<and> current_thread (kthds s' i) = current_thread (kthds s i)"
      and it: "\<And>w. w \<noteq> t \<Longrightarrow> map_option (\<lambda>x. (ctx x, init_sp x)) (thds s' w) = map_option (\<lambda>x. (ctx x, init_sp x)) (thds s w)"
      and h: "\<And>R. holds R s \<Longrightarrow> fp \<notin> dom R \<and> holds (R(fp \<mapsto> func_param_size)) s'"
    have z: "0 \<notin> dom (thds s)" using i by (auto elim!: lwt_invE dest: live_nonnull(1))
    have d: "thds s' w = None \<longleftrightarrow> thds s w = None" if "w \<noteq> t" for w
      using it [OF that] by (cases "thds s w"; cases "thds s' w") simp_all
    have cr: "created_thds s' = created_thds s" by (rule created_thds_kthd [OF z m0 tn mt _ d]) (use mo in blast)
    have e: "map_option ctx (thds s' w) = map_option ctx (thds s w)" "map_option init_sp (thds s' w) = map_option init_sp (thds s w)"
      if "w \<in> created_thds s" for w
    proof -
      have "w \<noteq> t" using that tn by (auto simp: created_thds_def)
      from it [OF this] show "map_option ctx (thds s' w) = map_option ctx (thds s w)"
        "map_option init_sp (thds s' w) = map_option init_sp (thds s w)" by (cases "thds s w"; cases "thds s' w"; simp)+
    qed
    have tb: "stack_top s' w = stack_top s w" "stack_base s' w = stack_base s w" if "w \<in> created_thds s" for w
      using e(2) [OF that] by (simp_all add: stack_base_def stack_top_init_sp)
    have "stack_base s' ` created_thds s = stack_base s ` created_thds s" by (intro image_cong) (simp_all add: tb)
    then have sm: "stack_map s' = stack_map s" by (simp add: stack_map_def cr)
    have "holds (stack_map s) s'" using h [of "stack_map s"] ok
      by (auto simp: stacks_ok_def intro!: holds_mono [of "(stack_map s)(fp \<mapsto> func_param_size)"] simp: map_le_def)
    moreover have "inj_on (stack_base s') (created_thds s)" using ok tb(2) unfolding stacks_ok_def inj_on_def by metis
    moreover have "sp (ctx x) + 12 = init_sp x" if "thds s' w = Some x" "w \<in> created_thds s" "ip (ctx x) = Trampoline" for w x
      by (rule kept_stack_ok [OF ok e(1) e(2) that]) (fact that(2))+
    ultimately show ?thesis using ok tb(1) by (simp add: stacks_ok_def cr sm)
  qed
qed

section \<open>Every step\<close>

lemma moved_pop: "moved (pop s) s' \<Longrightarrow> moved s s'"
  by (rule calm_then_moved [OF calm_updates(3)])

lemma resume_moved: "resume k v s = Inr (v', s') \<Longrightarrow> moved s s'"
  by (cases k) (auto simp: rcv_rest_def rbind_eq_Inr intro: moved calm_moved rcv_chan_rest_calm rcv_thd_rest_calm)

lemma continue_moved: "continue v s = Inr (v', s') \<Longrightarrow> moved s s'"
  by (auto simp: continue_def split: list.splits intro: calm_moved moved_pop resume_moved)

text \<open>The calls that make threads are the ones that are not \<open>moved\<close>.\<close>

fun makes_thread :: "api \<Rightarrow> bool" where
  "makes_thread (Create fn d fl) = True"
| "makes_thread (CreateChan fn c) = True"
| "makes_thread (KthdCreate fn c k) = True"
| "makes_thread _ = False"

lemma new_chan_moved: "lwt_chan sz s = Inr (c, s') \<Longrightarrow> 0 \<le> sz \<Longrightarrow> sz \<le> 1073741820 \<Longrightarrow> moved s s'"
  by (rule calm_moved [OF lwt_chan_calm]) simp_all

lemma call_moved:
  assumes "call a s = Inr (v, s')" "lwt_inv s" "call_ok a s" "\<not> makes_thread a"
  shows "moved s s'"
  using assms
  by (cases a) (auto simp: ret_ptr_def ret_void_def rbind_eq_Inr intro: new_chan_moved moved calm_moved
      deref_calm set_chan_type_calm mark_set_calm cgrp_new_calm cgrp_add_calm cgrp_free_calm)

lemma calm_stacks_ok: "calm s s' \<Longrightarrow> stacks_ok s \<Longrightarrow> stacks_ok s'"
  by (rule moved_stacks_ok [OF calm_moved])

lemma create_chan_split:
  assumes "lwt_create_chan fn c s = Inr (t, s')"
  obtains s1 where "lwt_create fn c 0 s = Inr (t, s1)" "calm s1 s'"
  using assms by (auto simp: lwt_create_chan_def rbind_eq_Inr simp del: upd_chan_eq_Inr upd_chan_live intro: calm)

lemma call_stacks_ok:
  assumes "call a s = Inr (v, s')" "lwt_inv s" "call_ok a s" "stacks_ok s"
  shows "stacks_ok s'"
proof (cases "makes_thread a")
  case False
  then show ?thesis using call_moved assms moved_stacks_ok by blast
next
  case True
  then show ?thesis using assms
    by (cases a) (auto simp: ret_ptr_def rbind_eq_Inr elim!: create_chan_split
        intro: create_stacks_ok kthd_create_stacks_ok calm_stacks_ok)
qed

lemma switch_stacks_ok: "stacks_ok (s\<lparr>current_kthd := k\<rparr>) = stacks_ok s"
proof -
  have "holds R (s\<lparr>current_kthd := k\<rparr>) = holds R s" for R by (rule holds_cong) (simp_all add: objs_def)
  then show ?thesis by (simp add: stacks_ok_def created_thds_def stack_map_def stack_base_def stack_top_def fun_eq_iff inj_on_def)
qed

lemma step_stacks_ok:
  assumes "lwt_step c c'" "lwt_inv (snd c)" "stacks_ok (snd c)"
  shows "stacks_ok (snd c')"
  using assms
proof cases
  case (user_call s a v)
  then show ?thesis using assms call_stacks_ok by (cases c') auto
next
  case (user_return s m v)
  then have "moved s (snd c')" by (cases c') (auto simp: trampoline_return_def intro: moved)
  then show ?thesis using assms user_return moved_stacks_ok by simp
next
  case (lib_continue s v)
  then have "moved s (snd c')" by (cases c') (auto intro: continue_moved)
  then show ?thesis using assms lib_continue moved_stacks_ok by simp
next
  case (idle s b v)
  then have "moved s (snd c')" by (cases c') (auto intro: moved)
  then show ?thesis using assms idle moved_stacks_ok by simp
next
  case (kernel_switch s k v)
  then show ?thesis using assms by (simp add: switch_stacks_ok)
qed

lemma boot_stacks_ok:
  assumes u: "uheap m {}" and r: "initiate k (blank m rt rc rw) = Inr s"
  shows "stacks_ok s"
proof (rule initiate_effects [OF r])
  show h: "holds Map.empty (blank m rt rc rw)" using u by (auto simp: holds_def objs_def blank_def intro!: exI [of _ "{}"])
  fix t
  assume mt: "main_thread (kthds s k) = t"
    and it: "\<And>w. w \<noteq> t \<Longrightarrow> map_option (\<lambda>x. (ctx x, init_sp x)) (thds s w) = map_option (\<lambda>x. (ctx x, init_sp x)) (thds (blank m rt rc rw) w)"
    and R: "\<And>R. holds R (blank m rt rc rw) \<Longrightarrow> holds R s"
  have "thds s w = None" if "w \<noteq> t" for w using it [OF that] by (simp add: blank_def)
  then have "w = t" if "w \<in> created_thds s" for w using that by (cases "w = t") (auto simp: created_thds_def)
  then have c: "created_thds s = {}" using mt by (auto simp: created_thds_def)
  then have "stack_map s = Map.empty" by (auto simp: stack_map_def)
  then show "stacks_ok s" using c R [OF h] by (simp add: stacks_ok_def)
qed

lemma reachable_stacks_ok: "reachable c \<Longrightarrow> lwt_inv (snd c) \<and> stacks_ok (snd c)"
proof (induction rule: reachable.induct)
  case (boot m rc k rt rw s)
  then show ?case using reachable.boot [OF boot] reachable_inv boot_stacks_ok by (fastforce simp: switch_stacks_ok)
next
  case (step c c')
  then show ?case using reachable.step [OF step(1,2)] reachable_inv step_stacks_ok by (cases c') fastforce
qed

section \<open>Where a thread starts\<close>

text \<open>
  \<open>never_ran w s\<close>: \<open>w\<close> was created and has not been dispatched to; \<open>start_args\<close> are the function
  and the argument on its stack.
\<close>

definition never_ran :: "ptr \<Rightarrow> sys \<Rightarrow> bool" where
  "never_ran w s \<longleftrightarrow> w \<in> created_thds s \<and> map_option (\<lambda>x. ip (ctx x)) (thds s w) = Some Trampoline \<and>
     (\<forall>k. current_thread (kthds s k) \<noteq> w)"

definition start_args :: "ptr \<Rightarrow> sys \<Rightarrow> (ptr \<times> ptr) option" where
  "start_args w s = map_option (\<lambda>x. trampoline_args x s) (thds s w)"

text \<open>The thread still waits, or it runs now, at the start of its function.\<close>

definition starts_right :: "ptr \<Rightarrow> sys \<Rightarrow> sys \<Rightarrow> bool" where
  "starts_right w s s' \<longleftrightarrow> never_ran w s' \<and> start_args w s' = start_args w s \<or>
     lwt_current s' = w \<and> frames s' w = [] \<and> ufn s' w = start_args w s"

text \<open>The two words lie in the thread's stack; a write elsewhere leaves them alone.\<close>

definition unstarted :: "ptr \<Rightarrow> sys \<Rightarrow> bool" where
  "unstarted w s \<longleftrightarrow> w \<in> created_thds s \<and> map_option (\<lambda>x. ip (ctx x)) (thds s w) = Some Trampoline"

lemma never_ran_unstarted: "never_ran w s \<Longrightarrow> unstarted w s"
  by (simp add: never_ran_def unstarted_def)

lemma unstarted_args_kept:
  assumes w: "unstarted w s" and ok: "stacks_ok s"
    and c: "map_option ctx (thds s' w) = map_option ctx (thds s w)"
    and e: "\<And>a. stack_base s w \<le> a \<Longrightarrow> a < stack_top s w \<Longrightarrow> stackw s' a = stackw s a"
  shows "start_args w s' = start_args w s"
proof -
  obtain x where x: "thds s w = Some x" "ip (ctx x) = Trampoline" "w \<in> created_thds s" using w by (auto simp: unstarted_def)
  obtain y where y: "thds s' w = Some y" "ctx y = ctx x" using c x(1) by (cases "thds s' w") auto
  have "sp (ctx x) + 12 = stack_top s w" "MAX_STACK_SIZE \<le> stack_top s w"
    using ok x by (auto simp: stacks_ok_def stack_top_def)
  then have "stackw s' (sp (ctx x) + 4) = stackw s (sp (ctx x) + 4)" "stackw s' (sp (ctx x) + 8) = stackw s (sp (ctx x) + 8)"
    by (auto simp: stack_base_def MAX_STACK_SIZE_def intro!: e)
  then show ?thesis using x(1) y by (simp add: start_args_def trampoline_args_def)
qed

lemmas start_args_kept = unstarted_args_kept [OF never_ran_unstarted]

lemma moved_starts:
  assumes m: "moved s s'" and w: "never_ran w s" and ok: "stacks_ok s"
  shows "starts_right w s s'"
proof -
  note mv = m [unfolded moved_def Let_def]
  have wc: "w \<noteq> lwt_current s" using w by (auto simp: never_ran_def lwt_current_def)
  obtain x where x: "thds s w = Some x" "ip (ctx x) = Trampoline" using w by (auto simp: never_ran_def)
  have c: "map_option ctx (thds s' w) = map_option ctx (thds s w)" using mv wc by blast
  show ?thesis
  proof (cases "lwt_current s' = w")
    case True
    then have "frames s' w = [] \<and> ufn s' w = Some (trampoline_args x s)" using mv wc x by auto
    then show ?thesis using True x(1) by (simp add: starts_right_def start_args_def)
  next
    case False
    have i: "map_option init_sp (thds s' t) = map_option init_sp (thds s t)" "main_thread (kthds s' k) = main_thread (kthds s k)" for t k
      using mv by simp_all
    have "created_thds s' = created_thds s" by (rule stacks_frame(1) [OF i])
    moreover have "current_thread (kthds s' k) \<noteq> w" for k
      using mv w False by (cases "k = current_kthd s") (auto simp: never_ran_def lwt_current_def)
    moreover obtain y where "thds s' w = Some y" "ctx y = ctx x" using c x(1) by (cases "thds s' w") auto
    ultimately have "never_ran w s'" using w x(2) by (simp add: never_ran_def)
    moreover have "start_args w s' = start_args w s" by (rule start_args_kept [OF w ok c]) (use mv in simp)
    ultimately show ?thesis by (simp add: starts_right_def)
  qed
qed

lemma calm_starts: "calm s s' \<Longrightarrow> never_ran w s \<Longrightarrow> stacks_ok s \<Longrightarrow> starts_right w s s'"
  by (rule moved_starts [OF calm_moved])

text \<open>Another thread's new stack, or its old one, is elsewhere.\<close>

text \<open>\<open>graves_ok\<close>: the dead threads of the current kernel thread were created, so they have stacks.\<close>

definition graves_ok :: "sys \<Rightarrow> bool" where
  "graves_ok s \<longleftrightarrow> (\<forall>t. ThdNode t \<in> set (queue_of (current_recycle_queue s) s) \<longrightarrow> t \<in> created_thds s)"

lemma first_grave:
  assumes o: "old_stack t s s'" and i: "lwt_inv s"
  shows "ThdNode t \<in> set (queue_of (current_recycle_queue s) s)" "\<And>x. thds s t = Some x \<Longrightarrow> tstate x = LWT_ZOMBIES"
proof -
  obtain D where l: "linked D s" by (rule lwt_invE [OF i])
  note cH = heads_recycle [OF i] and q = l [unfolded linked_def]
  obtain us where us: "queue_of (RecQ (current_kthd s)) s = map ThdNode us"
    "\<forall>u\<in>set us. \<forall>x. thds s u = Some x \<longrightarrow> home (RecQ (current_kthd s)) (tstate x, block_for x)"
    by (rule queue_threads [OF i cH]) blast+
  have "us \<noteq> []" "hd (map ThdNode us) = ThdNode t"
    using o lq.empty_rep [OF q cH] lq.first_rep [OF q cH] us(1) by (auto simp: old_stack_def current_recycle_queue_def)
  then have "t \<in> set us" by (cases us) auto
  then show "ThdNode t \<in> set (queue_of (current_recycle_queue s) s)" "\<And>x. thds s t = Some x \<Longrightarrow> tstate x = LWT_ZOMBIES"
    using us by (auto simp: current_recycle_queue_def)
qed

lemma create_keeps_args:
  assumes r: "lwt_create fn d fl s = Inr (t, s')" and i: "lwt_inv s" and ok: "stacks_ok s" and w: "unstarted w s"
    and z: "\<And>x. thds s w = Some x \<Longrightarrow> tstate x \<noteq> LWT_ZOMBIES" and g: "graves_ok s"
  shows "unstarted w s' \<and> start_args w s' = start_args w s"
proof (rule create_effects [OF r i])
  fix sp0
  assume sp: "map_option init_sp (thds s' t) = Some sp0" and st: "(\<exists>b. new_stack t b s s') \<or> old_stack t s s'"
    and sw: "stackw s' = (stackw s)(sp0 - 4 := d, sp0 - 8 := fn)" and mt: "\<And>k. main_thread (kthds s' k) = main_thread (kthds s k)"
    and cu: "\<And>k. current_thread (kthds s' k) = current_thread (kthds s k)"
    and cw: "\<And>v. v \<noteq> t \<Longrightarrow> map_option ctx (thds s' v) = map_option ctx (thds s v)"
  have wd: "w \<in> created_thds s" "w \<in> dom (thds s)" using w by (auto simp: unstarted_def created_thds_def)
  have wR: "stack_map s (stack_base s w) = Some MAX_STACK_SIZE" using wd(1) by (simp add: stack_map_def)
  have tw: "stack_top s w = stack_base s w + MAX_STACK_SIZE" using ok wd(1) by (simp add: stacks_ok_def stack_base_def)
  have "w \<noteq> t \<and> (sp0 \<le> stack_base s w \<or> stack_top s w + MAX_STACK_SIZE \<le> sp0) \<and> MAX_STACK_SIZE \<le> sp0"
    using st
  proof (elim disjE exE)
    fix b assume n: "new_stack t b s s'"
    have h: "b \<notin> dom (stack_map s)" "holds ((stack_map s)(b \<mapsto> MAX_STACK_SIZE)) s'"
      using n ok by (simp_all add: new_stack_def stacks_ok_def)
    have "sp0 = b + MAX_STACK_SIZE" "w \<noteq> t" using n sp wd(2) by (auto simp: new_stack_def)
    moreover have "b \<noteq> stack_base s w" using h(1) wR by (metis domI)
    then have "b + MAX_STACK_SIZE \<le> stack_base s w \<or> stack_base s w + MAX_STACK_SIZE \<le> b"
      using wR by (intro holds_apart [OF h(2)]) simp_all
    ultimately show ?thesis using tw by linarith
  next
    assume o: "old_stack t s s'"
    note tz = first_grave(2) [OF o i]
    have td: "t \<in> dom (thds s)" using o by (simp add: old_stack_def)
    have tc: "t \<in> created_thds s" using first_grave(1) [OF o i] g by (simp add: graves_ok_def)
    have wt: "w \<noteq> t" using tz z td by (auto simp: domIff)
    have "stack_top s t = sp0" using o sp by (cases "thds s t") (auto simp: old_stack_def stack_top_def)
    moreover have "MAX_STACK_SIZE \<le> stack_top s t" using ok tc by (simp add: stacks_ok_def)
    moreover from this have "stack_top s t = stack_base s t + MAX_STACK_SIZE" by (simp add: stack_base_def)
    moreover have ne: "stack_base s t \<noteq> stack_base s w" using ok tc wd(1) wt by (auto simp: stacks_ok_def dest: inj_onD)
    moreover have "stack_base s t + MAX_STACK_SIZE \<le> stack_base s w \<or> stack_base s w + MAX_STACK_SIZE \<le> stack_base s t"
    proof (rule holds_apart [of "stack_map s" s, OF _ _ wR ne])
      show "holds (stack_map s) s" using ok by (simp add: stacks_ok_def)
      show "stack_map s (stack_base s t) = Some MAX_STACK_SIZE" using tc by (simp add: stack_map_def)
    qed
    ultimately show ?thesis using wt tw by linarith
  qed
  then have far: "w \<noteq> t" "sp0 \<le> stack_base s w \<or> stack_top s w + MAX_STACK_SIZE \<le> sp0" "MAX_STACK_SIZE \<le> sp0" by auto
  have "start_args w s' = start_args w s"
    by (rule unstarted_args_kept [OF w ok cw [OF far(1)]]) (use far(2,3) in \<open>auto simp: sw MAX_STACK_SIZE_def\<close>)
  moreover have "unstarted w s'"
  proof -
    obtain x where x: "thds s w = Some x" "ip (ctx x) = Trampoline" using w by (auto simp: unstarted_def)
    obtain y where "thds s' w = Some y" "ctx y = ctx x" using cw [OF far(1)] x(1) by (cases "thds s' w") auto
    then show ?thesis using w x(2) mt by (auto simp: unstarted_def created_thds_def)
  qed
  ultimately show ?thesis by simp
qed

lemma create_starts:
  assumes r: "lwt_create fn d fl s = Inr (t, s')" and i: "lwt_inv s" and ok: "stacks_ok s" and w: "never_ran w s"
    and z: "\<And>x. thds s w = Some x \<Longrightarrow> tstate x \<noteq> LWT_ZOMBIES"
    and mz: "\<And>k x. thds s (main_thread (kthds s k)) = Some x \<Longrightarrow> tstate x \<noteq> LWT_ZOMBIES"
  shows "never_ran w s' \<and> start_args w s' = start_args w s"
proof -
  obtain us where us: "queue_of (RecQ (current_kthd s)) s = map ThdNode us" "\<forall>t\<in>set us. t \<noteq> 0 \<and> t \<in> dom (thds s)"
      "\<forall>u\<in>set us. \<forall>x. thds s u = Some x \<longrightarrow> home (RecQ (current_kthd s)) (tstate x, block_for x)"
    by (rule queue_threads [OF i heads_recycle [OF i]]) blast+
  then have "t \<in> created_thds s" if "t \<in> set us" for t using that mz by (fastforce simp: created_thds_def)
  then have "graves_ok s" using us(1) by (auto simp: graves_ok_def current_recycle_queue_def)
  then have "unstarted w s' \<and> start_args w s' = start_args w s"
    by (intro create_keeps_args [OF r i ok never_ran_unstarted [OF w] z])
  then show ?thesis using w create_keeps_kthds [OF r] by (simp add: never_ran_def unstarted_def)
qed

lemma kthd_create_starts:
  assumes r: "lwt_kthd_create fn c k s = Inr (fp, s')" and i: "lwt_inv s" and ok: "stacks_ok s" and w: "never_ran w s"
  shows "never_ran w s' \<and> start_args w s' = start_args w s"
proof -
  obtain j where k: "k = Some j" using r by (cases k) (auto simp: lwt_kthd_create_def Let_def rbind_eq_Inr)
  show ?thesis
  proof (rule kthd_create_effects [OF r [unfolded k] i])
    fix t
    assume tn: "t \<notin> dom (thds s)" and mt: "main_thread (kthds s' j) = t" "current_thread (kthds s' j) = t"
      and mo: "\<And>l. l \<noteq> j \<Longrightarrow> main_thread (kthds s' l) = main_thread (kthds s l) \<and> current_thread (kthds s' l) = current_thread (kthds s l)"
      and it: "\<And>v. v \<noteq> t \<Longrightarrow> map_option (\<lambda>x. (ctx x, init_sp x)) (thds s' v) = map_option (\<lambda>x. (ctx x, init_sp x)) (thds s v)"
      and sw: "stackw s' = (stackw s)(fp := fn, fp + 4 := c)" and h: "\<And>R. holds R s \<Longrightarrow> fp \<notin> dom R \<and> holds (R(fp \<mapsto> func_param_size)) s'"
    have wd: "w \<in> created_thds s" "w \<noteq> t" using w tn by (auto simp: never_ran_def created_thds_def)
    have wR: "stack_map s (stack_base s w) = Some MAX_STACK_SIZE" using wd(1) by (simp add: stack_map_def)
    have tw: "stack_top s w = stack_base s w + MAX_STACK_SIZE" using ok wd(1) by (simp add: stacks_ok_def stack_base_def)
    have hf: "fp \<notin> dom (stack_map s)" "holds ((stack_map s)(fp \<mapsto> func_param_size)) s'" using h ok by (simp_all add: stacks_ok_def)
    then have "fp \<noteq> stack_base s w" using wR by (metis domI)
    then have far: "fp + func_param_size \<le> stack_base s w \<or> stack_base s w + MAX_STACK_SIZE \<le> fp"
      using wR by (intro holds_apart [OF hf(2)]) simp_all
    obtain x where x: "thds s w = Some x" "ip (ctx x) = Trampoline" using w by (auto simp: never_ran_def)
    obtain y where y: "thds s' w = Some y" "ctx y = ctx x" using it [OF wd(2)] x(1) by (cases "thds s' w") auto
    have "start_args w s' = start_args w s"
      by (rule start_args_kept [OF w ok]) (use far x y tw in \<open>auto simp: sw func_param_size_def\<close>)
    moreover have "main_thread (kthds s' l) \<noteq> w \<and> current_thread (kthds s' l) \<noteq> w" for l
      using mo [of l] mt wd w by (cases "l = j") (auto simp: never_ran_def created_thds_def)
    ultimately show ?thesis using wd x y by (auto simp: never_ran_def created_thds_def)
  qed
qed

lemma call_starts:
  assumes "call a s = Inr (v, s')" "lwt_inv s" "call_ok a s" "stacks_ok s" "never_ran w s"
    and z: "\<And>x. thds s w = Some x \<Longrightarrow> tstate x \<noteq> LWT_ZOMBIES"
    and mz: "\<And>k x. thds s (main_thread (kthds s k)) = Some x \<Longrightarrow> tstate x \<noteq> LWT_ZOMBIES"
  shows "starts_right w s s'"
proof (cases "makes_thread a")
  case False
  then show ?thesis using call_moved assms(1-5) moved_starts by blast
next
  case True
  have c: "starts_right w s s1" if "lwt_create fn d fl s = Inr (t, s1)" for fn d fl t s1
    using create_starts [OF that assms(2,4,5) z mz] by (simp add: starts_right_def)
  have k: "starts_right w s s1" if "lwt_kthd_create fn d j s = Inr (t, s1)" for fn d j t s1
    using kthd_create_starts [OF that assms(2,4,5)] by (simp add: starts_right_def)
  have cc: "starts_right w s s'" if r: "lwt_create_chan fn d s = Inr (t, s')" for fn d t
  proof (rule create_chan_split [OF r])
    fix s1 assume s1: "lwt_create fn d 0 s = Inr (t, s1)" and cm: "calm s1 s'"
    have "never_ran w s1 \<and> start_args w s1 = start_args w s" by (rule create_starts [OF s1 assms(2,4,5) z mz])
    moreover have "stacks_ok s1" by (rule create_stacks_ok [OF s1 assms(2,4)])
    ultimately have "starts_right w s1 s'" "start_args w s1 = start_args w s" using calm_starts [OF cm] by blast+
    then show ?thesis by (simp add: starts_right_def)
  qed
  show ?thesis using True assms(1) c k cc by (cases a) (auto simp: ret_ptr_def rbind_eq_Inr)
qed

lemma step_starts:
  assumes "lwt_step (v, s) (v', s')" "lwt_inv s" "stacks_ok s" "never_ran w s"
    and z: "\<And>x. thds s w = Some x \<Longrightarrow> tstate x \<noteq> LWT_ZOMBIES"
    and mz: "\<And>k x. thds s (main_thread (kthds s k)) = Some x \<Longrightarrow> tstate x \<noteq> LWT_ZOMBIES"
  shows "starts_right w s s'"
  using assms(1)
proof cases
  case (user_call a)
  show ?thesis by (rule call_starts [OF user_call(3) assms(2) user_call(2) assms(3,4) z mz])
next
  case (user_return m)
  then have "moved s s'" by (auto simp: trampoline_return_def intro: moved)
  then show ?thesis using assms moved_starts by blast
next
  case lib_continue
  then have "moved s s'" by (auto intro: continue_moved)
  then show ?thesis using assms moved_starts by blast
next
  case (idle b)
  then have "moved s s'" by (auto intro: moved)
  then show ?thesis using assms moved_starts by blast
next
  case (kernel_switch k)
  then show ?thesis using assms(4) by (simp add: starts_right_def never_ran_def created_thds_def start_args_def trampoline_args_def)
qed

section \<open>Properties\<close>

text \<open>
  C11 Stacks: in every reachable state each thread that \<^verbatim>\<open>lwt_create\<close> made has a stack of
  \<^verbatim>\<open>MAX_STACK_SIZE\<close> bytes that overlaps neither the stack of another thread nor the memory of
  any object of the library (a control block, a channel, a group, a list cell), whatever was
  created, recycled and freed before.
\<close>

theorem stacks_disjoint:
  assumes "reachable (v, s)" "t \<in> created_thds s"
  shows "stack_top s t = stack_base s t + MAX_STACK_SIZE \<and>
    (\<forall>u\<in>created_thds s. u \<noteq> t \<longrightarrow> stack_top s t \<le> stack_base s u \<or> stack_top s u \<le> stack_base s t) \<and>
    (\<forall>p\<in>objs s. p + usable (mem s) p \<le> stack_base s t \<or> stack_top s t \<le> p)"
proof -
  have ok: "stacks_ok s" using reachable_stacks_ok [OF assms(1)] by simp
  then have h: "holds (stack_map s) s" by (simp add: stacks_ok_def)
  have top: "stack_top s u = stack_base s u + MAX_STACK_SIZE" if "u \<in> created_thds s" for u
    using ok that by (simp add: stacks_ok_def stack_base_def)
  have R: "stack_map s (stack_base s u) = Some MAX_STACK_SIZE" if "u \<in> created_thds s" for u
    using that by (simp add: stack_map_def)
  have other: "stack_top s t \<le> stack_base s u \<or> stack_top s u \<le> stack_base s t" if u: "u \<in> created_thds s" "u \<noteq> t" for u
  proof -
    have "stack_base s t \<noteq> stack_base s u" using ok u assms(2) by (auto simp: stacks_ok_def dest: inj_onD)
    then show ?thesis using holds_apart [OF h R [OF assms(2)] R [OF u(1)]] top assms(2) u(1) by simp
  qed
  have "p + usable (mem s) p \<le> stack_base s t \<or> stack_top s t \<le> p" if "p \<in> objs s" for p
    using holds_objs [OF h R [OF assms(2)] that] top [OF assms(2)] by simp
  then show ?thesis using top [OF assms(2)] other by blast
qed


text \<open>
  C12 A thread starts as it was created. Take any reachable state, a created thread \<open>w\<close> in it that
  has not run and is not dead, and suppose that no main thread has died. Then no step of the
  library, by whatever thread on whatever kernel thread, changes the function and the argument on
  the stack of \<open>w\<close>, and the step that first dispatches to \<open>w\<close> leaves it at the start of that function
  with that argument. (The control block of a dead thread waits to be made another thread by
  \<^verbatim>\<open>lwt_create\<close>. That of a dead main thread has no stack of its own, see the remark on \<^verbatim>\<open>init_sp\<close> in
  the header: once such a block is recycled, what is written to its stack may hit any other.)
\<close>

theorem starts_as_created:
  assumes "reachable (v, s)" "lwt_step (v, s) (v', s')" "never_ran w s"
    and "\<forall>x. thds s w = Some x \<longrightarrow> tstate x \<noteq> LWT_ZOMBIES"
    and "\<forall>k x. thds s (main_thread (kthds s k)) = Some x \<longrightarrow> tstate x \<noteq> LWT_ZOMBIES"
  shows "never_ran w s' \<and> start_args w s' = start_args w s \<or> lwt_current s' = w \<and> frames s' w = [] \<and> ufn s' w = start_args w s"
proof -
  have "lwt_inv s" "stacks_ok s" using reachable_stacks_ok [OF assms(1)] by simp_all
  then have "starts_right w s s'" using step_starts [OF assms(2)] assms(3-5) by blast
  then show ?thesis by (simp add: starts_right_def)
qed

section \<open>A thread that starts\<close>

lemma stage_new_thread:
  obtains s p t v s' where "stage s [ThdNode p, ThdNode t]" "never_ran t s" "start_args t s = Some (1, 2)"
    "\<forall>x. thds s t = Some x \<longrightarrow> tstate x \<noteq> LWT_ZOMBIES" "\<forall>k x. thds s (main_thread (kthds s k)) = Some x \<longrightarrow> tstate x \<noteq> LWT_ZOMBIES"
    "lwt_yield 0 s = Inr (v, s')" "lwt_current s' = t" "\<exists>s0. created 1 2 0 s0 t s \<and> lwt_current s0 = p"
proof (rule stage_boot)
  fix s0 p assume s0: "stage s0 [ThdNode p]" "lwt_current s0 = p" "dom (thds s0) = {p}" "hosted s0 \<subseteq> {0}" "main_thread (kthds s0 0) = p"
    and idle: "\<forall>j. j \<noteq> 0 \<longrightarrow> current_thread (kthds s0 j) = 0"
  obtain t s where s: "lwt_create 1 2 0 s0 = Inr (t, s)" "stage s ([ThdNode p] @ [ThdNode t])" "t \<notin> dom (thds s0)" "created 1 2 0 s0 t s"
    "lwt_current s = p" "\<forall>v. v \<noteq> t \<longrightarrow> thds s v = thds s0 v"
    by (rule stage_create [OF s0(1), of 1 2 0]) (use s0(2) in blast)
  have tn: "in_turn s [ThdNode p, ThdNode t]" and tp: "t \<noteq> p" using s s0(3) by (auto simp: stage_def)
  note i = stage_inv [OF s(2)]
  have k: "kthds s = kthds s0" "current_kthd s = current_kthd s0"
  proof (rule create_effects [OF s(1) stage_inv [OF s0(1)]])
  qed (use create_keeps_kthds [OF s(1)] in simp_all)
  have ck: "current_kthd s0 = 0" using inv_current [OF stage_inv [OF s0(1), unfolded lwt_inv_def]] s0(4) by auto
  have mt: "main_thread (kthds s j) = (if j = 0 then p else 0)" for j using k(1) s0(4,5) by (auto simp: hosted_def)
  obtain x where x: "thds s t = Some x" "tstate x = LWT_RUNNING" "ip (ctx x) = Trampoline" "trampoline_args x s = (1, 2)"
    using s(4) by (auto simp: created_def)
  have t0: "t \<noteq> 0" using i x(1) by (auto elim: lwt_invE dest: live_nonnull(1))
  have pr: "tstate y \<noteq> LWT_ZOMBIES" if "thds s p = Some y" for y
  proof -
    obtain D where i0: "inv_but True {} {} {} {} (heads s) D (\<lambda>h. queue_of h s) s" by (rule lwt_invE [OF i])
    have "ThdNode p \<in> set (queue_of (RunQ (current_kthd s)) s)" using tn by (simp add: in_turn_def queue_of_def)
    from run_queue_threads [OF i0 heads_current [OF i] this] obtain q z where "ThdNode p = ThdNode q" "thds s q = Some z" "may_run z" .
    then have "may_run y" using that by simp
    then show ?thesis by (auto simp: may_run_def)
  qed
  obtain v s' u where y: "lwt_yield 0 s = Inr (v, s')"
    "hd (remove1 (ThdNode (lwt_current s)) [ThdNode p, ThdNode t] @ [ThdNode (lwt_current s)]) = ThdNode u" "switched s s' u"
    using yield_null_effect [OF in_turn_on_cpu [OF tn]] by blast
  have c: "lwt_current s' = t" using y(2,3) s(5) by (simp add: switched_def)
  have z: "thds s 0 = None" using i by (cases "thds s 0") (auto elim: lwt_invE dest: live_nonnull(1))
  show thesis
  proof (rule that [OF _ _ _ _ _ y(1) c])
    show "stage s [ThdNode p, ThdNode t]" using s(2) by simp
    have "current_thread (kthds s j) \<noteq> t" for j
      using k idle ck s0(2) tp t0 by (cases "j = 0") (auto simp: lwt_current_def)
    then show "never_ran t s" using x(1,3) mt tp t0 by (auto simp: never_ran_def created_thds_def)
    show "start_args t s = Some (1, 2)" using x by (simp add: start_args_def)
    show "\<forall>x. thds s t = Some x \<longrightarrow> tstate x \<noteq> LWT_ZOMBIES" using x by simp
    show "\<forall>k x. thds s (main_thread (kthds s k)) = Some x \<longrightarrow> tstate x \<noteq> LWT_ZOMBIES" using mt pr z by auto
    show "\<exists>s0. created 1 2 0 s0 t s \<and> lwt_current s0 = p" using s(4) s0(2) by blast
  qed
qed

theorem starts_as_created_witness:
  "\<exists>u v w s s'. reachable (u, s) \<and> lwt_step (u, s) (v, s') \<and> never_ran w s \<and> start_args w s = Some (1, 2) \<and>
     lwt_current s' = w \<and> frames s' w = [] \<and> ufn s' w = Some (1, 2)"
proof (rule stage_new_thread)
  fix s p t v s'
  assume s: "stage s [ThdNode p, ThdNode t]" "never_ran t s" "start_args t s = Some (1, 2)"
    "\<forall>x. thds s t = Some x \<longrightarrow> tstate x \<noteq> LWT_ZOMBIES" "\<forall>k x. thds s (main_thread (kthds s k)) = Some x \<longrightarrow> tstate x \<noteq> LWT_ZOMBIES"
    "lwt_yield 0 s = Inr (v, s')" "lwt_current s' = t"
  obtain u where r: "reachable (u, s)" using s(1) by (auto simp: stage_def)
  have st: "lwt_step (u, s) (v, s')" by (rule user_call [of s "Yield 0"]) (use s(1,6) in \<open>simp_all add: stage_def\<close>)
  have "\<not> never_ran t s'" using s(7) by (auto simp: never_ran_def lwt_current_def)
  then have "frames s' t = []" "ufn s' t = Some (1, 2)" using starts_as_created [OF r st s(2,4,5)] s(3) by auto
  then show ?thesis using r st s(2,3,7) by blast
qed


theorem stacks_disjoint_witness:
  "\<exists>s t. (\<exists>v. reachable (v, s)) \<and> t \<in> created_thds s \<and> stack_top s t = stack_base s t + MAX_STACK_SIZE"
proof (rule stage_new_thread)
  fix s p t assume s: "stage s [ThdNode p, ThdNode t]" "never_ran t s"
  obtain u where r: "reachable (u, s)" using s(1) by (auto simp: stage_def)
  have "t \<in> created_thds s" using s(2) by (simp add: never_ran_def)
  then show ?thesis using stacks_disjoint [OF r] r by blast
qed

end
