(* ===== verification/Lwt_Joining.thy ===== *)
theory Lwt_Joining
  imports Lwt_Start
begin

text \<open>
  A parent that waits in \<^verbatim>\<open>lwt_join\<close> and its child, other threads waiting behind them: the parent
  blocks, the child dies, its last word reaches the parent, and all counters are as before.
  (\<open>Lwt_Rendezvous\<close> has the other order, in which the child dies first.)
\<close>

section \<open>A joining thread and its child\<close>

definition has_stack :: "ptr \<Rightarrow> sys \<Rightarrow> bool" where
  "has_stack t s \<longleftrightarrow> t \<in> created_thds s"

text \<open>The stacks are in order, and the main threads of kernel threads exist.\<close>

definition stacks_fit :: "sys \<Rightarrow> bool" where
  "stacks_fit s \<longleftrightarrow> stacks_ok s \<and> (\<forall>k. main_thread (kthds s k) = 0 \<or> main_thread (kthds s k) \<in> dom (thds s))"

lemma in_turn_frames [simp]: "in_turn (push k s) q = in_turn s q" "in_turn (pop s) q = in_turn s q"
proof -
  have "lwt_current (push k s) = lwt_current s" "thds (push k s) = thds s" "lists (push k s) = lists s" "current_kthd (push k s) = current_kthd s"
    by (simp_all add: push_def lwt_current_def)
  then show "in_turn (push k s) q = in_turn s q" "in_turn (pop s) q = in_turn s q"
    unfolding in_turn_def lwt_inv_def by (simp_all only: mid_inv_push pop_simps mid_inv_pop)
qed

lemma chan_push [simp]: "local_chan c (push k s) = local_chan c s" "pending c (push k s) = pending c s"
proof -
  have p: "lists (push k s) = lists s" "chans (push k s) = chans s" "thds (push k s) = thds s" by (simp_all add: push_def)
  then have se: "senders c (push k s) = senders c s" and m: "msg t (push k s) = msg t s" for t
    by (simp_all add: senders_def msg_def queue_of_def)
  show "local_chan c (push k s) = local_chan c s" "pending c (push k s) = pending c s"
    unfolding local_chan_def pending_def buffered_def p se m by (rule refl)+
qed

lemma moved_doms:
  assumes "moved s s'"
  shows "created_thds s' = created_thds s" "dom (thds s') = dom (thds s)" "main_thread (kthds s' k) = main_thread (kthds s k)"
proof -
  have e: "map_option init_sp (thds s' t) = map_option init_sp (thds s t)" "main_thread (kthds s' j) = main_thread (kthds s j)" for t j
    using assms by (simp_all add: moved_def Let_def)
  show "created_thds s' = created_thds s" by (rule stacks_frame(1) [OF e])
  have "thds s' t = None \<longleftrightarrow> thds s t = None" for t using e(1) [of t] by (cases "thds s t"; cases "thds s' t") simp_all
  then show "dom (thds s') = dom (thds s)" by (simp add: dom_def)
  show "main_thread (kthds s' k) = main_thread (kthds s k)" by (rule e(2))
qed

lemma has_stack_moved: "moved s s' \<Longrightarrow> has_stack t s' = has_stack t s"
  by (simp add: has_stack_def moved_doms)

lemma fit_moved: "moved s s' \<Longrightarrow> stacks_fit s \<Longrightarrow> stacks_fit s'"
  using moved_stacks_ok [of s s'] moved_doms [of s s'] by (simp add: stacks_fit_def)

lemma moved_ufn:
  assumes "moved s s'" "waits_in_dispatch s (lwt_current s')" "lwt_current s' \<in> dom (thds s)"
  shows "ufn s' = ufn s"
proof
  fix w
  obtain x where "thds s (lwt_current s') = Some x" using assms(3) by auto
  then show "ufn s' w = ufn s w"
    using assms(1,2) by (cases "w = lwt_current s'") (auto simp: moved_def Let_def waits_in_dispatch_def)
qed

text \<open>\<open>child p t s\<close>: \<open>t\<close> is a child of \<open>p\<close> that has not sent its last word.\<close>

definition child :: "ptr \<Rightarrow> ptr \<Rightarrow> sys \<Rightarrow> bool" where
  "child p t s \<longleftrightarrow> (\<exists>x ch. thds s t = Some x \<and> parent x = p \<and> nojoin x = 0 \<and> chans s (chl x) = Some ch \<and>
     receiver ch = p \<and> chan_ty ch = LOCAL_CHAN \<and> local_chan (chl x) s \<and> pending (chl x) s = []) \<and> has_stack t s"

text \<open>\<open>joined p t fs s\<close>: \<open>p\<close> waits in \<^verbatim>\<open>lwt_join(t)\<close> for the last word of its child \<open>t\<close>.\<close>

definition joined :: "ptr \<Rightarrow> ptr \<Rightarrow> frame list \<Rightarrow> sys \<Rightarrow> bool" where
  "joined p t fs s \<longleftrightarrow> (\<exists>x ch y. thds s t = Some x \<and> chans s (chl x) = Some ch \<and> receiver ch = p \<and> chan_ty ch = LOCAL_CHAN \<and>
     thds s p = Some y \<and> receiver_waits ch (chl x) y \<and> ip (ctx y) = RetDispatch \<and> owner_kthd y = current_kthd s) \<and>
     frames s p = KRcv p # KJoin t # fs \<and> has_stack t s"

lemma created_child:
  assumes c: "created fn d 0 s t s'" and p: "lwt_current s = p" and h: "has_stack t s'"
  shows "child p t s'"
proof -
  obtain x ch where x: "thds s' t = Some x" "chans s' (chl x) = Some ch" "parent x = p" "nojoin x = 0"
    "new_channel (ch\<lparr>snd_cnt := 0\<rparr>) 0 p (chan_counter s)" "list_foreach (SendQ (chl x)) (lists s') = Some []"
    using c p by (auto simp: created_def)
  have se: "senders (chl x) s' = []" using x(6) by (simp add: senders_def queue_of_def)
  have "ring_items (chan_size ch) (buffer ch) = []" using x(5) by (simp add: new_channel_def ring_items_def)
  then have "pending (chl x) s' = []" using x(2) se by (simp add: pending_def buffered_def)
  moreover have "local_chan (chl x) s'" "chan_ty ch = LOCAL_CHAN" "receiver ch = p"
    using x(2,5) se by (simp_all add: local_chan_def new_channel_def)
  ultimately show ?thesis using x h by (auto simp: child_def)
qed

lemma rcv_empty_counts:
  assumes r: "lwt_rcv c s = Inr (v, s')" and i: "lwt_inv s" and ch: "chans s c = Some ch" and l: "local_chan c s" and e: "pending c s = []"
  shows "counters s' = count_block BLOCKED_RECEIVING 1 (counters s)"
proof -
  obtain D where li: "linked D s" by (rule lwt_invE [OF i])
  have ok: "chan_ty ch = LOCAL_CHAN" "ring_ok (chan_size ch) (buffer ch)" using l ch by (auto simp: local_chan_def)
  have em: "ring_items (chan_size ch) (buffer ch) = []" "senders c s = []" using e ch by (auto simp: pending_def buffered_def)
  have "\<not> ring_nonempty (buffer ch)" using ring_items_empty [OF ok(2)] em(1) by simp
  moreover have "list_head_empty (SendQ c) (lists s)"
    using lq.empty_rep [OF li [unfolded linked_def] inv_chan(2) [OF i ch]] inv_senders(1) [OF i ch] em(2) by simp
  ultimately show ?thesis using rcv_block_counts [OF r ch ok(1)] by simp
qed

text \<open>
  The running thread \<open>p\<close> has blocked with continuation \<open>fs\<close>, and the thread \<open>u\<close> behind it in the run
  queue runs.
\<close>

definition gave_way :: "ptr \<Rightarrow> ptr \<Rightarrow> lnode list \<Rightarrow> lwt_thread \<Rightarrow> frame list \<Rightarrow> sys \<Rightarrow> sys \<Rightarrow> bool" where
  "gave_way p u ns y fs s s' \<longleftrightarrow> lwt_current s' = u \<and> u \<noteq> p \<and> in_turn s' (ThdNode u # ns) \<and> moved s s' \<and>
     chans s' = chans s \<and> grps s' = grps s \<and> mem s' = mem s \<and> current_kthd s' = current_kthd s \<and> heads s' = heads s \<and>
     (\<forall>h\<in>heads s. queue_of h s' = remove1 (ThdNode p) (queue_of h s)) \<and>
     thds s' p = Some (saved y) \<and> frames s' p = fs \<and>
     thds s' u = map_option (tstate_update (\<lambda>_. LWT_RUNNING)) (thds s u) \<and> (waits_in_dispatch s u \<longrightarrow> frames s' u = frames s u) \<and>
     (\<forall>w. w \<noteq> u \<longrightarrow> w \<noteq> p \<longrightarrow> thds s' w = thds s w \<and> frames s' w = frames s w)"

lemma rcv_gives_way:
  assumes t: "in_turn s (ThdNode p # ThdNode u # ns)" and l: "local_chan c s" and ch: "chans s c = Some ch" and e: "pending c s = []"
    and y: "thds s p = Some y"
  obtains v s' where "lwt_rcv c s = Inr (v, s')" "counters s' = count_block BLOCKED_RECEIVING 1 (counters s)"
    "gave_way p u ns (y\<lparr>now_rcving := c, tstate := LWT_BLOCKED, block_for := BLOCKED_RECEIVING\<rparr>) (KRcv p # frames s p) s s'"
proof -
  let ?k = "current_kthd s" and ?y = "y\<lparr>now_rcving := c, tstate := LWT_BLOCKED, block_for := BLOCKED_RECEIVING\<rparr>"
  note f = in_turn_facts [OF t]
  have p: "lwt_current s = p" using t by (simp add: in_turn_def)
  have n: "remove1 (ThdNode (lwt_current s)) (ThdNode p # ThdNode u # ns) = ThdNode u # ns" using p by simp
  have yc: "thds s (lwt_current s) = Some y" using y p by simp
  obtain v s' where s': "lwt_rcv c s = Inr (v, s')" "lwt_current s' = u" "chans s' = chans s"
    "list_foreach (RunQ ?k) (lists s') = Some (ThdNode u # ns)" "u \<noteq> p"
    "requeue s s' (\<lambda>h. remove1 (ThdNode p) (queue_of h s))" "slept s s' u ?y (KRcv p # frames s p)"
    using rcv_blocks_effect [OF in_turn_on_cpu [OF t] l ch e n yc] unfolding p by blast
  have sl: "thds s' p = Some (saved ?y)" "frames s' p = KRcv p # frames s p" using slept_old [OF s'(7)] p s'(5) by simp_all
  have i': "lwt_inv s'" using lwt_rcv_keeps [OF s'(1)] f(1) by (simp add: lwt_inv_def)
  have k': "current_kthd s' = ?k" "grps s' = grps s" "mem s' = mem s" using slept_cpu [OF s'(7)] by simp_all
  obtain z where z: "thds s u = Some z" using f(5) [of u] by auto
  have u: "thds s' u = Some (z\<lparr>tstate := LWT_RUNNING\<rparr>)" "waits_in_dispatch s u \<Longrightarrow> frames s' u = frames s u"
    using slept_new [OF s'(7) _ z] p s'(5) by simp_all
  have oth: "thds s' w = thds s w" "frames s' w = frames s w" if "w \<noteq> u" "w \<noteq> p" for w
    using slept_other [OF s'(7) that(1)] that(2) p by simp_all
  have own: "map_option owner_kthd (thds s' w) = Some ?k" if "ThdNode w \<in> set (ThdNode u # ns)" for w
  proof (cases "w = u")
    case False
    then have "thds s' w = thds s w" using that f(2) by (intro oth) auto
    then show ?thesis using that f(5) [of w] by auto
  qed (use u z f(5) [of u] in simp)
  have "in_turn s' (ThdNode u # ns)" using i' s'(2,4) k' own by (simp add: in_turn_def)
  then have "gave_way p u ns ?y (KRcv p # frames s p) s s'"
    using s'(2,3,5,6) k' sl u z oth lwt_rcv_moved [OF s'(1)] by (simp add: gave_way_def requeue_def queue_of_def)
  then show thesis using that s'(1) rcv_empty_counts [OF s'(1) f(1) ch l e] by blast
qed

lemma join_blocks:
  assumes t: "in_turn s (ThdNode p # ThdNode u # ns)" and ch: "child p t s" and tp: "t \<noteq> p"
  obtains v s' y where "lwt_join t s = Inr (v, s')" "joined p t (frames s p) s'" "gave_way p u ns y (KRcv p # KJoin t # frames s p) s s'"
    "counters s' = count_block BLOCKED_RECEIVING 1 (counters s)"
proof -
  let ?s = "push (KJoin t) s" and ?k = "current_kthd s"
  note f = in_turn_facts [OF t]
  have p: "lwt_current s = p" using t by (simp add: in_turn_def)
  obtain x ch where x: "thds s t = Some x" "parent x = p" "nojoin x = 0" "chans s (chl x) = Some ch" "receiver ch = p"
    "chan_ty ch = LOCAL_CHAN" "local_chan (chl x) s" "pending (chl x) s = []" "has_stack t s" using assms(2) by (auto simp: child_def)
  obtain y where y: "p \<noteq> 0" "thds s p = Some y" "owner_kthd y = ?k" using f(5) [of p] by auto
  have t0: "t \<noteq> 0" using f(1) x(1) by (auto elim: lwt_invE dest: live_nonnull(1))
  have e: "lwt_current ?s = p" "current_kthd ?s = ?k" "thds ?s = thds s" "chans ?s = chans s" "grps ?s = grps s" "mem ?s = mem s"
    "lists ?s = lists s" "heads ?s = heads s" "frames ?s p = KJoin t # frames s p" "\<And>w. w \<noteq> p \<Longrightarrow> frames ?s w = frames s w"
    using p by (auto simp: push_def lwt_current_def heads_def)
  have q: "queue_of h ?s = queue_of h s" for h by (rule queue_of_lists [OF e(7)])
  have t': "in_turn ?s (ThdNode p # ThdNode u # ns)" using t by simp
  have l: "local_chan (chl x) ?s" "pending (chl x) ?s = []"
    using x(7,8) by simp_all
  have c: "chans ?s (chl x) = Some ch" "thds ?s p = Some y" using x(4) y(2) e(3,4) by simp_all
  let ?y = "y\<lparr>now_rcving := chl x, tstate := LWT_BLOCKED, block_for := BLOCKED_RECEIVING\<rparr>"
  obtain v s' where s': "lwt_rcv (chl x) ?s = Inr (v, s')" "counters s' = count_block BLOCKED_RECEIVING 1 (counters ?s)"
    "gave_way p u ns ?y (KRcv p # frames ?s p) ?s s'" by (rule rcv_gives_way [OF t' l(1) c(1) l(2) c(2)])
  have join: "lwt_join t s = Inr (v, s')" using s'(1) p x(1-3) t0 by (simp add: lwt_join_def)
  note m = lwt_join_moved [OF join]
  have "waits_in_dispatch ?s u = waits_in_dispatch s u" using e(1,3) p by (simp add: waits_in_dispatch_def)
  moreover have up: "u \<noteq> p" using s'(3) by (simp add: gave_way_def)
  ultimately have g: "gave_way p u ns ?y (KRcv p # KJoin t # frames s p) s s'" using s'(3) m e q by (simp add: gave_way_def)
  obtain z where "thds s u = Some z" using f(5) [of u] by auto
  then obtain x' where "thds s' t = Some x'" "chl x' = chl x" using x(1) g tp by (cases "t = u") (auto simp: gave_way_def)
  moreover have "has_stack t s'" using has_stack_moved [OF m] x(9) by simp
  ultimately have "joined p t (frames s p) s'" using x(4-6) g y(3) by (auto simp: joined_def receiver_waits_def gave_way_def)
  then show thesis using that join g s'(2) by simp
qed

section \<open>The last word\<close>

lemma joined_parent:
  assumes t: "in_turn s q" and j: "joined p t fs s"
  shows "ThdNode p \<notin> set q" "p \<noteq> 0"
proof -
  obtain D where i0: "inv_but True {} {} {} {} (heads s) D (\<lambda>h. queue_of h s) s" by (rule lwt_invE [OF in_turn_facts(1) [OF t]])
  obtain y where y: "thds s p = Some y" "tstate y = LWT_BLOCKED" using j by (auto simp: joined_def receiver_waits_def)
  then show "p \<noteq> 0" using live_nonnull(1) [OF i0] by blast
  have "tstate y \<noteq> LWT_BLOCKED" if "ThdNode p \<in> set q"
    using queued_runnable [OF i0 in_turn_facts(3) [OF t] _ y(1)] that in_turn_facts(4) [OF t] by auto
  then show "ThdNode p \<notin> set q" using y(2) by blast
qed

lemma die_hands_over:
  assumes t: "in_turn s (ThdNode t # ns)" and j: "joined p t fs s" and tp: "t \<noteq> p"
  obtains s' y where "lwt_die m s = Inr (VInt 0, s')" "lwt_current s' = t" "current_kthd s' = current_kthd s" "lwt_inv s'"
    "frames s' = (frames s)(t := KDie t # frames s t)" "chans s' = chans s" "mem s' = mem s" "heads s' = heads s"
    "thds s' p = Some y" "message_data y = m" "ip (ctx y) = RetDispatch" "owner_kthd y = current_kthd s"
    "list_foreach (RunQ (current_kthd s)) (lists s') = Some (insert_before_last (ThdNode p) (ThdNode t # ns))"
    "\<forall>h\<in>heads s. h \<noteq> RunQ (current_kthd s) \<longrightarrow> set (queue_of h s') \<subseteq> set (queue_of h s)" "ufn s' = ufn s"
    "\<forall>w. w \<noteq> p \<longrightarrow> w \<noteq> t \<longrightarrow> thds s' w = thds s w" "map_option owner_kthd (thds s' t) = Some (current_kthd s)"
    "counters s' = count_block BLOCKED_RECEIVING (- 1) (count_zombie 1 (counters s))"
proof -
  let ?k = "current_kthd s"
  note f = in_turn_facts [OF t]
  have cur: "lwt_current s = t" using t by (simp add: in_turn_def)
  obtain x ch y where x: "thds s t = Some x" "chans s (chl x) = Some ch" "receiver ch = p" "chan_ty ch = LOCAL_CHAN"
    "thds s p = Some y" "receiver_waits ch (chl x) y" "ip (ctx y) = RetDispatch" "owner_kthd y = ?k" using j by (auto simp: joined_def)
  have t0: "t \<noteq> 0" "owner_kthd x = ?k" using f(5) [of t] x(1) by auto
  let ?x = "x\<lparr>message_data := m\<rparr>" and ?i = "(kthds s ?k)\<lparr>zombie_counter := zombie_counter (kthds s ?k) + 1\<rparr>"
  let ?s1 = "s\<lparr>kthds := (kthds s)(?k := ?i)\<rparr>"
  define sA where "sA = push (KDie t) (?s1\<lparr>chans := (chans ?s1)(chl x \<mapsto> ch), thds := (thds ?s1)(lwt_current ?s1 \<mapsto> ?x)\<rparr>)"
  have c1: "lwt_current ?s1 = t" using cur by (simp add: lwt_current_def)
  have cpu1: "on_cpu ?s1 (ThdNode t # ns)"
    by (rule on_cpu_counters [OF in_turn_on_cpu [OF t]]) (use inv_polling [OF f(1)] in simp_all)
  have "on_cpu sA (ThdNode t # ns)"
    unfolding sA_def by (rule on_cpu_prepared [OF cpu1, of x]) (use x(1,2) c1 in simp_all)
  then have iA: "lwt_inv sA" by (simp add: on_cpu_def)
  have A: "lwt_current sA = t" "current_kthd sA = ?k" "chans sA = chans s" "thds sA = (thds s)(t \<mapsto> ?x)"
    "lists sA = lists s" "frames sA = (frames s)(t := KDie t # frames s t)" "mem sA = mem s"
    using c1 x(2) by (auto simp: sA_def push_def lwt_current_def fun_upd_idem)
  have hA: "heads sA = heads s" by (rule heads_same) (use x(2) in \<open>auto simp: sA_def push_def\<close>)
  have cA: "counters sA = count_zombie 1 (counters s)" by (simp add: sA_def counters_def count_zombie_def push_def Let_def)
  have die: "lwt_die m s = lwt_snd (chl x) m sA"
    using t0(1) x(1,2) cur c1 by (simp add: sA_def lwt_die_def Let_def push_def lwt_current_def fun_upd_idem)
  have S: "chans sA (chl x) = Some ch" "thds sA (receiver ch) = Some y" "thds sA (lwt_current sA) = Some ?x"
    using x A tp by simp_all
  obtain s' where s': "lwt_snd (chl x) m sA = Inr (VInt 0, s')" "chans s' = chans sA" "lwt_current s' = t" "frames s' = frames sA"
    "current_kthd s' = ?k" "thds s' p = Some (y\<lparr>message_data := m, tstate := LWT_RUNNABLE\<rparr>)" "\<forall>v. v \<noteq> p \<longrightarrow> thds s' v = thds sA v"
    "mem s' = mem sA" "requeue sA s' (woken p ?k (\<lambda>h. queue_of h sA))"
    using snd_direct_effect [OF iA S(1) x(4) S(2) x(6) S(3), of m] x(3) t0(2) A(1,2) by auto
  have q: "queue_of h sA = queue_of h s" for h by (rule queue_of_lists [OF A(5)])
  have "list_foreach (RunQ ?k) (lists s') = Some (insert_before_last (ThdNode p) (ThdNode t # ns))"
    using s'(9) f(3,4) joined_parent(1) [OF t j] hA tp by (simp add: requeue_def woken_def q remove1_idem)
  moreover have "set (queue_of h s') \<subseteq> set (queue_of h s)" if h: "h \<in> heads s" "h \<noteq> RunQ ?k" for h
  proof -
    have "list_foreach h (lists s') = Some (remove1 (ThdNode p) (queue_of h s))"
      using s'(9) h by (simp add: requeue_def woken_def q hA)
    then have "queue_of h s' = remove1 (ThdNode p) (queue_of h s)" unfolding queue_of_def [of _ s'] by simp
    then show ?thesis by (simp add: set_remove1_subset)
  qed
  moreover have "ufn s' = ufn s"
    by (rule moved_ufn [OF lwt_die_moved]) (use die s'(1,3) cur x(1) in \<open>auto simp: waits_in_dispatch_def\<close>)
  moreover have "heads s' = heads s" using s'(9) hA by (simp add: requeue_def)
  moreover have "counters s' = count_block BLOCKED_RECEIVING (- 1) (count_zombie 1 (counters s))"
    using snd_direct_counts [OF s'(1) S(1) x(4) _ S(2) x(6)] cA joined_parent(2) [OF t j] x(3) by simp
  moreover have "lwt_inv s'" using lwt_snd_keeps [OF s'(1)] iA by (simp add: lwt_inv_def)
  ultimately show thesis using that [of s' "y\<lparr>message_data := m, tstate := LWT_RUNNABLE\<rparr>"] die s' A x tp t0 by simp
qed

text \<open>Suspended calls that run to the return of the last of them, \<open>n\<close> continuations.\<close>

fun settle :: "nat \<Rightarrow> val \<times> sys \<Rightarrow> (val \<times> sys) res" where
  "settle 0 c = Inr c"
| "settle (Suc n) (v, s) = rbind (guard (frames s (lwt_current s) \<noteq> []) AssertFailed) (\<lambda>_. rbind (continue v s) (settle n))"

lemma settle_step: "frames s (lwt_current s) = k # ks \<Longrightarrow> resume k v (pop s) = Inr c \<Longrightarrow> settle (Suc n) (v, s) = settle n c"
  by (simp add: continue_def)

lemma zombie_block [simp]: "count_zombie (- 1) (count_block why n (count_zombie 1 c)) = count_block why n c"
  by (cases c; cases why) (simp_all add: count_zombie_def)

lemma remove_dead: "length ns \<le> 1 \<Longrightarrow> p \<notin> set (t # ns) \<Longrightarrow> remove1 t (insert_before_last p (t # ns)) = p # ns"
  by (cases ns) auto

text \<open>The return of \<^verbatim>\<open>lwt_join\<close>: the word, and a yield to the dead child, which does nothing.\<close>

lemma returns_from_join:
  assumes c: "lwt_current s = p" and f: "frames s p = KRcv p # KJoin t # fs" and tp: "t \<noteq> p" "p \<noteq> 0" "t \<noteq> 0"
    and y: "thds s p = Some y" "message_data y = m" and z: "thds s t = Some z" "\<not> may_run z"
  shows "settle 3 (v, s) = Inr (VPtr m, s\<lparr>frames := (frames s)(p := fs)\<rparr>)"
proof -
  have pp: "pop s' = s'\<lparr>frames := (frames s')(p := tl (frames s' p))\<rparr>" if "lwt_current s' = p" for s'
    using that by (simp add: pop_def)
  let ?s1 = "s\<lparr>frames := (frames s)(p := KJoin t # fs)\<rparr>"
  let ?s2 = "s\<lparr>frames := (frames s)(p := KRet (VPtr m) # fs)\<rparr>"
  have cur: "lwt_current (s\<lparr>frames := F\<rparr>) = p" for F using c by (simp add: lwt_current_def)
  have "settle 3 (v, s) = settle 2 (VPtr m, ?s1)"
    using settle_step [of s "KRcv p" "KJoin t # fs" v "(VPtr m, ?s1)" 2] c f tp(2) y
    by (simp add: pp rcv_rest_def numeral_3_eq_3 numeral_2_eq_2)
  also have "settle 2 (VPtr m, ?s1) = settle 1 (VInt 0, ?s2)"
    using settle_step [of ?s1 "KJoin t" fs "VPtr m" "(VInt 0, ?s2)" 1] cur tp z
    by (simp add: pp join_rest_def push_def lwt_yield_def numeral_2_eq_2)
  also have "settle 1 (VInt 0, ?s2) = Inr (VPtr m, s\<lparr>frames := (frames s)(p := fs)\<rparr>)"
    using settle_step [of ?s2 "KRet (VPtr m)" fs "VInt 0" "(VPtr m, s\<lparr>frames := (frames s)(p := fs)\<rparr>)" 0] cur
    by (simp add: pp)
  finally show ?thesis .
qed

lemma dies_joined:
  assumes i: "lwt_inv s" and c: "lwt_current s = t" "current_kthd s = k" and f: "frames s t = KDie t # ft" "frames s p = KRcv p # KJoin t # fs"
    and y: "thds s p = Some y" "message_data y = m" "ip (ctx y) = RetDispatch" "owner_kthd y = k"
    and q: "list_foreach (RunQ k) (lists s) = Some (insert_before_last (ThdNode p) (ThdNode t # ns))" "length ns \<le> 1" "ThdNode p \<notin> set (ThdNode t # ns)"
    and o: "map_option owner_kthd (thds s t) = Some k" "\<forall>w. ThdNode w \<in> set ns \<longrightarrow> w \<noteq> t \<and> map_option owner_kthd (thds s w) = Some k"
  obtains s' where "settle 4 (VInt 0, s) = Inr (VPtr m, s')" "in_turn s' (ThdNode p # ns)" "frames s' p = fs" "current_kthd s' = k"
    "chans s' = chans s" "mem s' = mem s" "counters s' = count_zombie (- 1) (counters s)"
    "\<forall>h\<in>heads s. h \<noteq> RunQ k \<longrightarrow> set (queue_of h s') \<subseteq> set (queue_of h s) \<union> (if h = RecQ k then {ThdNode t} else {})" "ufn s' = ufn s"
    "\<forall>w. w \<noteq> p \<longrightarrow> w \<noteq> t \<longrightarrow> thds s' w = thds s w \<and> frames s' w = frames s w"
    "queue_of (RecQ k) s' = queue_of (RecQ k) s @ [ThdNode t]" "map_option tstate (thds s' t) = Some LWT_ZOMBIES"
proof -
  let ?q = "insert_before_last (ThdNode p) (ThdNode t # ns)"
  have pt: "p \<noteq> t" using q(3) by simp
  obtain x where x: "thds s t = Some x" using o(1) by auto
  have cpu: "on_cpu (pop s) ?q" using i c q(1) x o(1) by (simp add: on_cpu_def lwt_inv_def)
  have n: "remove1 (ThdNode (lwt_current (pop s))) ?q = ThdNode p # ns" using remove_dead [OF q(2,3)] c(1) by simp
  have xc: "thds (pop s) (lwt_current (pop s)) = Some x" using x c(1) by simp
  have H: "heads (pop s) = heads s" by (rule heads_same) simp_all
  have Q: "queue_of h (pop s) = queue_of h s" for h by (rule queue_of_lists) simp
  obtain v s2 where s2: "die_rest t (pop s) = Inr (v, s2)" "chans s2 = chans s"
    "requeue (pop s) s2 ((\<lambda>h. remove1 (ThdNode t) (queue_of h s))(RecQ k := queue_of (RecQ k) s @ [ThdNode t]))"
    "slept (pop s) s2 p (x\<lparr>tstate := LWT_ZOMBIES\<rparr>) (frames (pop s) t)"
    using die_rest_effect [OF cpu n xc] c Q by auto
  have ct: "lwt_current (pop s) \<noteq> p" "thds (pop s) p = Some y" "waits_in_dispatch (pop s) p" using c(1) pt y by (auto simp: waits_in_dispatch_def)
  have "frames (pop s) p = frames s p" using pt c(1) by simp
  then have p2: "thds s2 p = Some (y\<lparr>tstate := LWT_RUNNING\<rparr>)" "frames s2 p = KRcv p # KJoin t # fs"
    using slept_new [OF s2(4) ct(1,2)] ct(3) f(2) by simp_all
  have t2: "thds s2 t = Some (saved (x\<lparr>tstate := LWT_ZOMBIES\<rparr>))" using slept_old(1) [OF s2(4)] pt c(1) by simp
  have e2: "lwt_current s2 = p" "current_kthd s2 = k" "mem s2 = mem s" using slept_cpu [OF s2(4)] c(2) by (simp_all add: pop_def)
  have oth: "thds s2 w = thds s w" "frames s2 w = frames s w" if "w \<noteq> p" "w \<noteq> t" for w
    using slept_other [OF s2(4), of w] that c(1) by simp_all
  let ?s = "s2\<lparr>frames := (frames s2)(p := fs)\<rparr>"
  have nz: "t \<noteq> 0" "p \<noteq> 0" using i x y(1) by (auto elim: lwt_invE dest: live_nonnull(1))
  have "settle 3 (v, s2) = Inr (VPtr m, ?s)"
    by (rule returns_from_join [OF e2(1) p2(2) _ nz(2,1) p2(1) _ t2]) (use pt y(2) in \<open>auto simp: may_run_def\<close>)
  then have "settle 4 (VInt 0, s) = Inr (VPtr m, ?s)"
    using settle_step [of s "KDie t" ft "VInt 0" "(v, s2)" 3] f(1) c(1) s2(1) by (simp add: numeral_eq_Suc)
  moreover have "lwt_inv s2" using die_rest_keeps [OF s2(1)] i by (simp add: lwt_inv_def)
  then have i': "lwt_inv ?s" by (simp add: lwt_inv_def)
  have kH: "RunQ k \<in> heads s" "RecQ k \<in> heads s" using heads_current [OF i] heads_recycle [OF i] c(2) by simp_all
  have run: "list_foreach (RunQ k) (lists s2) = Some (ThdNode p # ns)"
    using s2(3) kH remove_dead [OF q(2,3)] q(1) by (simp add: requeue_def H queue_of_def)
  have own: "map_option owner_kthd (thds s2 w) = Some k" if "ThdNode w \<in> set (ThdNode p # ns)" for w
    using that p2(1) y(4) o(2) oth(1) [of w] by (cases "w = p") auto
  have "in_turn ?s (ThdNode p # ns)" using i' e2(1,2) run own by (simp add: in_turn_def lwt_current_def)
  moreover have "set (queue_of h ?s) \<subseteq> set (queue_of h s) \<union> (if h = RecQ k then {ThdNode t} else {})" if h: "h \<in> heads s" "h \<noteq> RunQ k" for h
  proof -
    have "queue_of h ?s = (if h = RecQ k then queue_of h s @ [ThdNode t] else remove1 (ThdNode t) (queue_of h s))"
      using s2(3) h unfolding queue_of_def [of _ ?s] by (simp add: requeue_def H)
    then show ?thesis using set_remove1_subset [of "ThdNode t" "queue_of h s"] by (cases "h = RecQ k") auto
  qed
  moreover have "queue_of (RecQ k) ?s = queue_of (RecQ k) s @ [ThdNode t]"
    using s2(3) kH(2) unfolding queue_of_def [of _ ?s] by (simp add: requeue_def H)
  moreover have "map_option tstate (thds ?s t) = Some LWT_ZOMBIES" using t2 by simp
  moreover have "ufn s2 = ufn (pop s)"
    by (rule moved_ufn [OF die_rest_moved [OF s2(1)]]) (use e2(1) ct(3) y(1) in auto)
  then have "ufn ?s = ufn s" by (simp add: pop_def)
  moreover have "counters ?s = count_zombie (- 1) (counters s)" using die_rest_counts [OF s2(1)] by simp
  ultimately show thesis using that [of ?s] e2 s2(2) oth by simp
qed

lemma settle_stacks:
  assumes "settle n c = Inr c'"
  shows "has_stack t (snd c') = has_stack t (snd c)" "stacks_fit (snd c) \<Longrightarrow> stacks_fit (snd c')"
proof -
  have "(\<forall>t. has_stack t (snd c') = has_stack t (snd c)) \<and> (stacks_fit (snd c) \<longrightarrow> stacks_fit (snd c'))"
    using assms
  proof (induction n arbitrary: c)
    case (Suc n)
    obtain v s where c: "c = (v, s)" by (cases c)
    then obtain d where d: "continue v s = Inr d" "settle n d = Inr c'" using Suc.prems by (auto simp: rbind_eq_Inr)
    have "moved s (snd d)" using continue_moved [of v s "fst d" "snd d"] d(1) by simp
    then show ?case using Suc.IH [OF d(2)] c has_stack_moved fit_moved by auto
  qed simp
  then show "has_stack t (snd c') = has_stack t (snd c)" "stacks_fit (snd c) \<Longrightarrow> stacks_fit (snd c')" by simp_all
qed

text \<open>
  The child has died and its parent \<open>p\<close> has returned from the join; the threads behind them in the
  run queue are as before.
\<close>

definition buried :: "ptr \<Rightarrow> ptr \<Rightarrow> lnode list \<Rightarrow> frame list \<Rightarrow> sys \<Rightarrow> sys \<Rightarrow> bool" where
  "buried p t ns fs s s' \<longleftrightarrow> in_turn s' (ThdNode p # ns) \<and> frames s' p = fs \<and> current_kthd s' = current_kthd s \<and>
     chans s' = chans s \<and> mem s' = mem s \<and> counters s' = count_block BLOCKED_RECEIVING (- 1) (counters s) \<and>
     (\<forall>h\<in>heads s. h \<noteq> RunQ (current_kthd s) \<longrightarrow> set (queue_of h s') \<subseteq> set (queue_of h s) \<union> (if h = RecQ (current_kthd s) then {ThdNode t} else {})) \<and>
     (\<exists>rs. queue_of (RecQ (current_kthd s)) s' = rs @ [ThdNode t]) \<and> map_option tstate (thds s' t) = Some LWT_ZOMBIES \<and>
     ufn s' = ufn s \<and> (\<forall>u. has_stack u s' = has_stack u s) \<and> (stacks_fit s \<longrightarrow> stacks_fit s') \<and> (\<forall>w. w \<noteq> p \<longrightarrow> w \<noteq> t \<longrightarrow> thds s' w = thds s w \<and> frames s' w = frames s w)"

lemma child_finishes:
  assumes t: "in_turn s (ThdNode t # ns)" and j: "joined p t fs s" and tp: "t \<noteq> p" and n: "length ns \<le> 1"
  obtains s1 s' where "lwt_die m s = Inr (VInt 0, s1)" "settle 4 (VInt 0, s1) = Inr (VPtr m, s')" "buried p t ns fs s s'"
proof -
  let ?k = "current_kthd s"
  note f = in_turn_facts [OF t]
  obtain s1 y where d: "lwt_die m s = Inr (VInt 0, s1)" "lwt_current s1 = t" "current_kthd s1 = current_kthd s" "lwt_inv s1"
    "frames s1 = (frames s)(t := KDie t # frames s t)" "chans s1 = chans s" "mem s1 = mem s"
    "thds s1 p = Some y" "message_data y = m" "ip (ctx y) = RetDispatch" "owner_kthd y = current_kthd s"
    "list_foreach (RunQ (current_kthd s)) (lists s1) = Some (insert_before_last (ThdNode p) (ThdNode t # ns))"
    "\<forall>h\<in>heads s. h \<noteq> RunQ (current_kthd s) \<longrightarrow> set (queue_of h s1) \<subseteq> set (queue_of h s)" "ufn s1 = ufn s" "heads s1 = heads s"
    "\<forall>w. w \<noteq> p \<longrightarrow> w \<noteq> t \<longrightarrow> thds s1 w = thds s w" "map_option owner_kthd (thds s1 t) = Some (current_kthd s)"
    "counters s1 = count_block BLOCKED_RECEIVING (- 1) (count_zombie 1 (counters s))"
    by (rule die_hands_over [OF t j tp, of m])
  note pq = joined_parent [OF t j]
  have o: "\<forall>w. ThdNode w \<in> set ns \<longrightarrow> w \<noteq> t \<and> map_option owner_kthd (thds s1 w) = Some ?k"
  proof (intro allI impI)
    fix w assume w: "ThdNode w \<in> set ns"
    then have "w \<noteq> t" "w \<noteq> p" using f(2) pq(1) by auto
    then show "w \<noteq> t \<and> map_option owner_kthd (thds s1 w) = Some ?k" using d(16) f(5) [of w] w by auto
  qed
  have fr: "frames s1 t = KDie t # frames s t" "frames s1 p = KRcv p # KJoin t # fs"
    using d(5) j tp by (auto simp: joined_def)
  obtain s' where s': "settle 4 (VInt 0, s1) = Inr (VPtr m, s')" "in_turn s' (ThdNode p # ns)" "frames s' p = fs" "current_kthd s' = ?k"
    "chans s' = chans s1" "mem s' = mem s1" "counters s' = count_zombie (- 1) (counters s1)"
    "\<forall>h\<in>heads s1. h \<noteq> RunQ ?k \<longrightarrow> set (queue_of h s') \<subseteq> set (queue_of h s1) \<union> (if h = RecQ ?k then {ThdNode t} else {})" "ufn s' = ufn s1"
    "\<forall>w. w \<noteq> p \<longrightarrow> w \<noteq> t \<longrightarrow> thds s' w = thds s1 w \<and> frames s' w = frames s1 w"
    "queue_of (RecQ ?k) s' = queue_of (RecQ ?k) s1 @ [ThdNode t]" "map_option tstate (thds s' t) = Some LWT_ZOMBIES"
    by (rule dies_joined [OF d(4,2,3) fr d(8-12) n pq(1) d(17) o])
  have "has_stack u s' = has_stack u s" for u
    using settle_stacks(1) [OF s'(1)] has_stack_moved [OF lwt_die_moved [OF d(1)]] by simp
  moreover have "stacks_fit s \<longrightarrow> stacks_fit s'"
    using settle_stacks(2) [OF s'(1)] fit_moved [OF lwt_die_moved [OF d(1)]] by simp
  moreover have "set (queue_of h s') \<subseteq> set (queue_of h s) \<union> (if h = RecQ ?k then {ThdNode t} else {})" if "h \<in> heads s" "h \<noteq> RunQ ?k" for h
    using s'(8) d(13,15) that by blast
  moreover have "thds s' w = thds s w \<and> frames s' w = frames s w" if "w \<noteq> p" "w \<noteq> t" for w
    using s'(10) d(5,16) that by simp
  ultimately have "buried p t ns fs s s'"
    using s'(2-7,9,11,12) d(6,7,14,18) by (simp add: buried_def)
  then show thesis using that d(1) s'(1) by blast
qed

section \<open>Properties\<close>

text \<open>
  C26 Joining a child that is still alive: \<^verbatim>\<open>lwt_join\<close> blocks the parent, which leaves the run
  queue, and the child behind it runs. When the child dies its last word goes straight to the
  parent. The child goes on to the end of \<^verbatim>\<open>lwt_die\<close>: it is a zombie at the end of the recycle
  queue, and the parent runs again, its \<^verbatim>\<open>lwt_join\<close> returning the word, with its stack, its place
  in the run queue and the counters of \<^verbatim>\<open>lwt_info\<close> as before the call. (At most one other
  thread waits behind the two: the woken parent is put before the last thread of the queue,
  which in a longer queue is not the place of the next one.)
\<close>

theorem join_waits:
  assumes "in_turn s (ThdNode p # ThdNode t # ns)" "child p t s" "length ns \<le> 1"
  shows "\<exists>v1 s1 s2 s3. lwt_join t s = Inr (v1, s1) \<and> lwt_current s1 = t \<and> map_option tstate (thds s1 p) = Some LWT_BLOCKED \<and>
    list_foreach (RunQ (current_kthd s)) (lists s1) = Some (ThdNode t # ns) \<and>
    lwt_die m s1 = Inr (VInt 0, s2) \<and> settle 4 (VInt 0, s2) = Inr (VPtr m, s3) \<and>
    lwt_current s3 = p \<and> frames s3 p = frames s p \<and> lwt_inv s3 \<and> counters s3 = counters s \<and>
    map_option tstate (thds s3 t) = Some LWT_ZOMBIES \<and>
    list_foreach (RunQ (current_kthd s)) (lists s3) = Some (ThdNode p # ns) \<and>
    (\<exists>rs. list_foreach (RecQ (current_kthd s)) (lists s3) = Some (rs @ [ThdNode t]))"
proof -
  have tp: "t \<noteq> p" using in_turn_facts(2) [OF assms(1)] by auto
  obtain v1 s1 y where s1: "lwt_join t s = Inr (v1, s1)" "joined p t (frames s p) s1"
    "gave_way p t ns y (KRcv p # KJoin t # frames s p) s s1" "counters s1 = count_block BLOCKED_RECEIVING 1 (counters s)"
    by (rule join_blocks [OF assms(1,2) tp])
  have t1: "in_turn s1 (ThdNode t # ns)" "lwt_current s1 = t" "current_kthd s1 = current_kthd s"
    using s1(3) by (simp_all add: gave_way_def)
  obtain s2 s3 where s3: "lwt_die m s1 = Inr (VInt 0, s2)" "settle 4 (VInt 0, s2) = Inr (VPtr m, s3)" "buried p t ns (frames s p) s1 s3"
    by (rule child_finishes [OF t1(1) s1(2) tp assms(3)])
  have t3: "in_turn s3 (ThdNode p # ns)" "current_kthd s3 = current_kthd s" using s3(3) t1(3) by (simp_all add: buried_def)
  obtain D where l: "linked D s3" by (rule lwt_invE [OF in_turn_facts(1) [OF t3(1)]])
  obtain rs where "queue_of (RecQ (current_kthd s)) s3 = rs @ [ThdNode t]" using s3(3) t1(3) by (auto simp: buried_def)
  then have "list_foreach (RecQ (current_kthd s)) (lists s3) = Some (rs @ [ThdNode t])"
    using foreach_linked [OF l heads_recycle [OF in_turn_facts(1) [OF t3(1)]]] t3(2) by simp
  moreover have "map_option tstate (thds s1 p) = Some LWT_BLOCKED" using s1(2) by (auto simp: joined_def receiver_waits_def)
  moreover have "counters s3 = counters s" "frames s3 p = frames s p" "map_option tstate (thds s3 t) = Some LWT_ZOMBIES"
    using s3(3) s1(4) by (simp_all add: buried_def)
  ultimately show ?thesis using s1(1) s3(1,2) t1 t3 by (auto simp: in_turn_def)
qed

theorem join_waits_witness:
  "\<exists>u p t s v1 s1 s2 s3. reachable (u, s) \<and> lwt_current s = p \<and> lwt_join t s = Inr (v1, s1) \<and> lwt_current s1 = t \<and>
     lwt_die 5 s1 = Inr (VInt 0, s2) \<and> settle 4 (VInt 0, s2) = Inr (VPtr 5, s3) \<and> lwt_current s3 = p"
proof (rule stage_new_thread)
  fix s p t assume s: "stage s [ThdNode p, ThdNode t]" "never_ran t s" and c: "\<exists>s0. created 1 2 0 s0 t s \<and> lwt_current s0 = p"
  have q: "in_turn s (ThdNode p # ThdNode t # [])" using s(1) by (simp add: stage_def)
  have "has_stack t s" using s(2) by (simp add: never_ran_def has_stack_def)
  then have ch: "child p t s" using c created_child by blast
  obtain u where r: "reachable (u, s)" "lwt_current s = p" using s(1) q by (auto simp: stage_def in_turn_def)
  obtain v1 s1 s2 s3 where "lwt_join t s = Inr (v1, s1)" "lwt_current s1 = t" "lwt_die 5 s1 = Inr (VInt 0, s2)"
    "settle 4 (VInt 0, s2) = Inr (VPtr 5, s3)" "lwt_current s3 = p"
    using join_waits [OF q ch, of 5] by auto
  then show ?thesis using r by blast
qed

end
