(* ===== verification/Lwt_Client.thy ===== *)
theory Lwt_Client
  imports Lwt_Machine
begin

text \<open>
  User code on top of the library. The C function a thread runs is a \<open>prog\<close>: a tree of calls of
  the API, of reads of library state (\<^verbatim>\<open>lwt_info\<close>, \<^verbatim>\<open>lwt_id\<close>, fields of a channel), of accesses
  to the program's own globals, of assertions and of prints, each with the code that continues
  with its result. A \<open>world\<close> runs such programs on the library: every thread has its own
  continuation, and the one that runs is the library's current thread.
\<close>

section \<open>Programs\<close>

datatype 'g prog =
    Ret val                                  \<comment> \<open>\<^verbatim>\<open>return v\<close> of the thread's function\<close>
  | Lib api "val \<Rightarrow> 'g prog"               \<comment> \<open>a call of the library\<close>
  | Ask "sys \<Rightarrow> val res" "val \<Rightarrow> 'g prog"  \<comment> \<open>a read of library state\<close>
  | Env "'g \<Rightarrow> ('g \<times> val) res" "val \<Rightarrow> 'g prog"   \<comment> \<open>an access to the program's globals\<close>
  | Say string "'g prog"                     \<comment> \<open>\<^verbatim>\<open>printf\<close>\<close>
  | Fail                                     \<comment> \<open>an \<^verbatim>\<open>assert\<close> of the program fails\<close>
  | Again ptr ptr                            \<comment> \<open>back to the head of an endless loop: a function run anew\<close>
  | Pause nat "'g prog"                      \<comment> \<open>\<^verbatim>\<open>sl_thd_yield(tid)\<close>: the kernel may switch here\<close>
  | Ufree ptr "'g prog"                      \<comment> \<open>\<^verbatim>\<open>ufree\<close> called by user code\<close>
  | Idle                                     \<comment> \<open>the loop at the end of \<^verbatim>\<open>lwt_kthd_trampline\<close>\<close>

text \<open>Calling a C function and going on with its value.\<close>

primrec pbind :: "'g prog \<Rightarrow> (val \<Rightarrow> 'g prog) \<Rightarrow> 'g prog" where
  "pbind (Ret v) f = f v"
| "pbind (Lib a k) f = Lib a (\<lambda>v. pbind (k v) f)"
| "pbind (Ask q k) f = Ask q (\<lambda>v. pbind (k v) f)"
| "pbind (Env u k) f = Env u (\<lambda>v. pbind (k v) f)"
| "pbind (Say m p) f = Say m (pbind p f)"
| "pbind Fail f = Fail"
| "pbind (Again l d) f = Again l d"
| "pbind (Pause t p) f = Pause t (pbind p f)"
| "pbind (Ufree b p) f = Ufree b (pbind p f)"
| "pbind Idle f = Idle"

definition check :: "bool \<Rightarrow> 'g prog \<Rightarrow> 'g prog" where
  "check b p = (if b then p else Fail)"

text \<open>
  \<^verbatim>\<open>for (i = 0; i < n; i++)\<close> with local variables \<open>x\<close>: the body gets the index, the variables and
  the rest of the code.
\<close>

primrec for_loop :: "nat \<Rightarrow> (nat \<Rightarrow> 'a \<Rightarrow> ('a \<Rightarrow> 'g prog) \<Rightarrow> 'g prog) \<Rightarrow> nat \<Rightarrow> 'a \<Rightarrow> ('a \<Rightarrow> 'g prog) \<Rightarrow> 'g prog" where
  "for_loop 0 body i x k = k x"
| "for_loop (Suc n) body i x k = body i x (\<lambda>y. for_loop n body (Suc i) y k)"

definition repeat :: "nat \<Rightarrow> (nat \<Rightarrow> 'g prog \<Rightarrow> 'g prog) \<Rightarrow> 'g prog \<Rightarrow> 'g prog" where
  "repeat n body k = for_loop n (\<lambda>i (_::unit) r. body i (r ())) 0 () (\<lambda>_. k)"

text \<open>
  The function a kernel thread starts in. It takes the library function and its argument out of
  the block at \<open>fp\<close>, calls it, releases the block and idles. \<open>F\<close> gives the functions by address.
\<close>

definition lwt_kthd_trampline :: "(ptr \<Rightarrow> (ptr \<Rightarrow> 'g prog) option) \<Rightarrow> ptr \<Rightarrow> 'g prog" where
  "lwt_kthd_trampline F fp =
     Ask (\<lambda>s. Inr (VPtr (fst (func_param fp s)))) (\<lambda>fn.
     Ask (\<lambda>s. Inr (VPtr (snd (func_param fp s)))) (\<lambda>d.
       case F (val_ptr fn) of None \<Rightarrow> Fail
       | Some f \<Rightarrow> pbind (f (val_ptr d)) (\<lambda>_. Ufree fp Idle)))"

section \<open>Worlds\<close>

record 'g world =
  lib :: sys
  ret :: val
  pend :: "ptr \<Rightarrow> (val \<Rightarrow> 'g prog) option"
  env :: 'g
  out :: "string list"

text \<open>The functions of the program, by address.\<close>

type_synonym 'g code = "ptr \<Rightarrow> (ptr \<Rightarrow> 'g prog) option"

text \<open>
  The current thread runs user code up to and including its next call of the library. A thread
  that returns from its function goes back to the trampoline; a main thread that returns has
  finished the program. \<^verbatim>\<open>lwt_die\<close> does not return.
\<close>

primrec exec :: "'g prog \<Rightarrow> 'g code \<Rightarrow> 'g world \<Rightarrow> 'g world res" where
  "exec (Ret v) F w =
     (let t = lwt_current (lib w); w1 = w\<lparr>pend := (pend w)(t := None)\<rparr> in
      if ufn (lib w) t = None then Inr (w1\<lparr>ret := v\<rparr>)
      else rbind (trampoline_return (val_ptr v) (lib w)) (\<lambda>(u, s). Inr (w1\<lparr>lib := s, ret := u\<rparr>)))"
| "exec (Lib a k) F w =
     (let t = lwt_current (lib w); go = (case a of Die _ \<Rightarrow> None | _ \<Rightarrow> Some k) in
      rbind (call a (lib w)) (\<lambda>(u, s). Inr (w\<lparr>lib := s, ret := u, pend := (pend w)(t := go)\<rparr>)))"
| "exec (Ask q k) F w = rbind (q (lib w)) (\<lambda>v. exec (k v) F w)"
| "exec (Env u k) F w = rbind (u (env w)) (\<lambda>(g, v). exec (k v) F (w\<lparr>env := g\<rparr>))"
| "exec (Say m p) F w = exec p F (w\<lparr>out := out w @ [m]\<rparr>)"
| "exec Fail F w = Inl AssertFailed"
| "exec (Again l d) F w =
     rbind (of_opt WildPtr (F l)) (\<lambda>f. Inr (w\<lparr>pend := (pend w)(lwt_current (lib w) := Some (\<lambda>_. f d))\<rparr>))"
| "exec (Pause t p) F w = Inr (w\<lparr>pend := (pend w)(lwt_current (lib w) := Some (\<lambda>_. p))\<rparr>)"
| "exec (Ufree b p) F w = rbind (mfree b (lib w)) (\<lambda>s. exec p F (w\<lparr>lib := s\<rparr>))"
| "exec Idle F w =
     (let t = lwt_current (lib w) in
      rbind (kthd_idle_round (lib w)) (\<lambda>(_, u, s).
        Inr (w\<lparr>lib := s, ret := u, pend := (pend w)(t := Some (\<lambda>_. Idle))\<rparr>)))"

text \<open>
  One step: a suspended library call continues, or user code runs. A thread without a
  continuation is at the start of its function.
\<close>

definition world_step :: "'g code \<Rightarrow> 'g world \<Rightarrow> 'g world res" where
  "world_step F w =
     (let s = lib w; t = lwt_current s in
      if frames s t \<noteq> [] then rbind (continue (ret w) s) (\<lambda>(u, s'). Inr (w\<lparr>lib := s', ret := u\<rparr>))
      else case pend w t of
        Some k \<Rightarrow> exec (k (ret w)) F w
      | None \<Rightarrow> (case ufn s t of
          None \<Rightarrow> Inr w
        | Some (fn, d) \<Rightarrow> rbind (of_opt WildPtr (F fn)) (\<lambda>f. exec (f d) F w)))"

primrec run :: "'g code \<Rightarrow> nat \<Rightarrow> 'g world \<Rightarrow> 'g world res" where
  "run F 0 w = Inr w"
| "run F (Suc n) w = rbind (world_step F w) (run F n)"

text \<open>The program has returned from the function its main thread runs.\<close>

definition finished :: "'g world \<Rightarrow> bool" where
  "finished w \<longleftrightarrow> (let s = lib w; t = lwt_current s in frames s t = [] \<and> pend w t = None \<and> ufn s t = None)"

definition start :: "'g prog \<Rightarrow> 'g \<Rightarrow> sys \<Rightarrow> 'g world" where
  "start p g s = \<lparr>lib = s, ret = VVoid, pend = (\<lambda>_. None)(lwt_current s := Some (\<lambda>_. p)), env = g, out = []\<rparr>"

end
