(* ===== verification/Lwt_Tests.thy ===== *)
theory Lwt_Tests
  imports Lwt_Client
begin

text \<open>
  The test program of the library (\<^verbatim>\<open>main3.c\<close>; \<^verbatim>\<open>unit_schedlib.c\<close> repeats it with another
  number of iterations), as programs of \<open>Lwt_Client\<close>. The number of iterations \<^verbatim>\<open>ITER\<close> is an
  argument. Time stamps and the numbers printed from them are left out: a print is its format
  string.
\<close>

section \<open>Globals and function addresses\<close>

record test_globals =
  g_sched :: "int list"
  g_curr :: int
  g_sndrcv_cnt :: int
  g_async_sz :: int

definition test_globals0 :: test_globals where
  "test_globals0 = \<lparr>g_sched = [0, 0], g_curr = 0, g_sndrcv_cnt = 0, g_async_sz = 0\<rparr>"

type_synonym 'a test = "'a test_globals_scheme prog"

definition ITER :: nat where "ITER = 10000"
definition GRPSZ :: nat where "GRPSZ = 3"

abbreviation (input) FN_BOUNCE :: ptr where "FN_BOUNCE \<equiv> 1"
abbreviation (input) FN_NULL :: ptr where "FN_NULL \<equiv> 2"
abbreviation (input) FN_IDENTITY :: ptr where "FN_IDENTITY \<equiv> 3"
abbreviation (input) FN_NESTED_JOINS :: ptr where "FN_NESTED_JOINS \<equiv> 4"
abbreviation (input) FN_SEQUENCE :: ptr where "FN_SEQUENCE \<equiv> 5"
abbreviation (input) FN_JOIN :: ptr where "FN_JOIN \<equiv> 6"
abbreviation (input) FN_CHAN :: ptr where "FN_CHAN \<equiv> 7"
abbreviation (input) FN_SNDER_1 :: ptr where "FN_SNDER_1 \<equiv> 8"
abbreviation (input) FN_SNDER_2 :: ptr where "FN_SNDER_2 \<equiv> 9"
abbreviation (input) FN_ASYNC_STEAM :: ptr where "FN_ASYNC_STEAM \<equiv> 10"
abbreviation (input) FN_GRPWAIT :: ptr where "FN_GRPWAIT \<equiv> 11"

section \<open>Statements the tests share\<close>

definition yield_null :: "'g prog \<Rightarrow> 'g prog" where
  "yield_null k = Lib (Yield 0) (\<lambda>_. k)"

definition create :: "ptr \<Rightarrow> ptr \<Rightarrow> (ptr \<Rightarrow> 'g prog) \<Rightarrow> 'g prog" where
  "create fn d k = Lib (Create fn d 0) (\<lambda>t. k (val_ptr t))"

definition join :: "ptr \<Rightarrow> 'g prog \<Rightarrow> 'g prog" where
  "join t k = Lib (Join t) (\<lambda>_. k)"

definition info :: "lwt_info_t \<Rightarrow> (int \<Rightarrow> 'g prog) \<Rightarrow> 'g prog" where
  "info i k = Ask (\<lambda>s. rbind (lwt_info i s) (\<lambda>n. Inr (VInt n))) (\<lambda>v. k (case v of VInt n \<Rightarrow> n | _ \<Rightarrow> 0))"

definition field :: "ptr \<Rightarrow> (lwt_channel \<Rightarrow> int) \<Rightarrow> (int \<Rightarrow> 'g prog) \<Rightarrow> 'g prog" where
  "field c f k = Ask (\<lambda>s. rbind (chan c s) (\<lambda>x. Inr (VInt (f x)))) (\<lambda>v. k (case v of VInt n \<Rightarrow> n | _ \<Rightarrow> 0))"

definition id_of :: "ptr \<Rightarrow> (ptr \<Rightarrow> 'g prog) \<Rightarrow> 'g prog" where
  "id_of t k = Ask (\<lambda>s. rbind (get_lwt_id t s) (\<lambda>n. Inr (VInt n))) (\<lambda>v. k (val_ptr v))"

definition own_id :: "(ptr \<Rightarrow> 'g prog) \<Rightarrow> 'g prog" where
  "own_id k = Ask (\<lambda>s. rbind (get_lwt_id (lwt_current s) s) (\<lambda>n. Inr (VInt n))) (\<lambda>v. k (val_ptr v))"

definition mark_get :: "ptr \<Rightarrow> (ptr \<Rightarrow> 'g prog) \<Rightarrow> 'g prog" where
  "mark_get c k = Ask (\<lambda>s. rbind (lwt_chan_mark_get c s) (\<lambda>m. Inr (VPtr m))) (\<lambda>v. k (val_ptr v))"

definition rcv :: "ptr \<Rightarrow> (ptr \<Rightarrow> 'g prog) \<Rightarrow> 'g prog" where
  "rcv c k = Lib (Rcv c) (\<lambda>v. k (val_ptr v))"

definition snd_to :: "ptr \<Rightarrow> ptr \<Rightarrow> 'g prog \<Rightarrow> 'g prog" where
  "snd_to c d k = Lib (Snd c d) (\<lambda>_. k)"

text \<open>\<^verbatim>\<open>IS_RESET()\<close>; the conjunction is evaluated from left to right and stops at the first 0.\<close>

definition IS_RESET :: "'g prog \<Rightarrow> 'g prog" where
  "IS_RESET k = info LWT_INFO_NTHD_RUNNABLE (\<lambda>r. check (r = 1)
     (info LWT_INFO_NTHD_ZOMBIES (\<lambda>z. check (z = 0)
     (info LWT_INFO_NTHD_BLOCKED (\<lambda>b. check (b = 0) k)))))"

section \<open>Thread functions\<close>

definition fn_bounce :: "nat \<Rightarrow> ptr \<Rightarrow> 'a test" where
  "fn_bounce iter d =
     yield_null (yield_null (repeat iter (\<lambda>i. yield_null) (yield_null (yield_null
       (if d = 0 then Say ''[PERF] %5lld <- yield'' (Ret (VPtr 0)) else Ret (VPtr 0))))))"

definition fn_null :: "ptr \<Rightarrow> 'a test" where
  "fn_null d = Ret (VPtr 0)"

definition fn_identity :: "ptr \<Rightarrow> 'a test" where
  "fn_identity d = Ret (VPtr d)"

definition fn_nested_joins :: "ptr \<Rightarrow> 'a test" where
  "fn_nested_joins d =
     (let rest = create FN_NESTED_JOINS 1 (\<lambda>chld. join chld (Ret (VPtr d))) in
      if d \<noteq> 0 then
        yield_null (yield_null (info LWT_INFO_NTHD_RUNNABLE (\<lambda>r. check (r = 1) (Lib (Die 0) (\<lambda>_. rest)))))
      else rest)"

text \<open>One iteration of \<^verbatim>\<open>fn_sequence\<close> up to its yield; the result is \<^verbatim>\<open>sched[other]\<close>.\<close>

definition sequence_turn :: "int \<Rightarrow> 'a test_globals_scheme \<Rightarrow> ('a test_globals_scheme \<times> val) res" where
  "sequence_turn v g =
     (let other = g_curr g; c = (g_curr g + 1) smod 2 in
      rbind (guard (0 \<le> c \<and> c < int (length (g_sched g))) OutOfBounds) (\<lambda>_.
      let sch = (g_sched g)[nat c := v] in
      rbind (guard (0 \<le> other \<and> other < int (length sch)) OutOfBounds) (\<lambda>_.
        Inr (g\<lparr>g_curr := c, g_sched := sch\<rparr>, VInt (sch ! nat other)))))"

definition fn_sequence :: "nat \<Rightarrow> ptr \<Rightarrow> 'a test" where
  "fn_sequence iter d =
     repeat iter (\<lambda>i k. Env (sequence_turn (int d)) (\<lambda>x. check (x \<noteq> VInt (int d)) (yield_null k))) (Ret (VPtr 0))"

definition fn_join :: "ptr \<Rightarrow> 'a test" where
  "fn_join d = Lib (Join d) (\<lambda>r. Say ''return value is %d'' (check (val_ptr r \<noteq> 0x37337) (Ret (VPtr d))))"

definition fn_chan :: "nat \<Rightarrow> ptr \<Rightarrow> 'a test" where
  "fn_chan iter to =
     Lib (NewChan 0) (\<lambda>v. let from = val_ptr v in
     Lib (SndChan to from) (\<lambda>_.
     field from snd_cnt (\<lambda>n. check (n \<noteq> 0)
     (repeat iter (\<lambda>i k. snd_to to 1 (rcv from (\<lambda>x. check (x = 2) k)))
     (Lib (Deref from) (\<lambda>_. Ret (VPtr 0)))))))"

definition add_sndrcv :: "int \<Rightarrow> 'a test_globals_scheme \<Rightarrow> ('a test_globals_scheme \<times> val) res" where
  "add_sndrcv n g =
     rbind (guard (- int_max - 1 \<le> g_sndrcv_cnt g + n \<and> g_sndrcv_cnt g + n \<le> int_max) SignedOverflow)
       (\<lambda>_. Inr (g\<lparr>g_sndrcv_cnt := g_sndrcv_cnt g + n\<rparr>, VInt (g_sndrcv_cnt g)))"

definition fn_snder :: "nat \<Rightarrow> ptr \<Rightarrow> ptr \<Rightarrow> 'a test" where
  "fn_snder iter c v = repeat iter (\<lambda>i k. snd_to c v (Env (add_sndrcv 1) (\<lambda>_. k))) (Ret (VPtr 0))"

definition fn_snder_1 :: "nat \<Rightarrow> ptr \<Rightarrow> 'a test" where "fn_snder_1 iter c = fn_snder iter c 1"
definition fn_snder_2 :: "nat \<Rightarrow> ptr \<Rightarrow> 'a test" where "fn_snder_2 iter c = fn_snder iter c 2"

definition fn_async_steam :: "nat \<Rightarrow> ptr \<Rightarrow> 'a test" where
  "fn_async_steam iter to = repeat iter (\<lambda>i. snd_to to (i + 1)) (Lib (Deref to) (\<lambda>_. Ret (VPtr 0)))"

definition fn_grpwait :: "nat \<Rightarrow> ptr \<Rightarrow> 'a test" where
  "fn_grpwait iter c =
     repeat iter (\<lambda>i k.
       let say = own_id (\<lambda>n. snd_to c n k) in
       if i mod 7 = 0 then repeat (i mod 8) (\<lambda>j. yield_null) say else say) (Ret (VPtr 0))"

section \<open>Tests\<close>

definition test_perf :: "nat \<Rightarrow> 'a test" where
  "test_perf iter =
     repeat iter (\<lambda>i k. create FN_NULL 0 (\<lambda>chld1. join chld1 k))
     (Say ''[PERF] %5lld <- fork/join'' (IS_RESET
     (create FN_BOUNCE 1 (\<lambda>chld1. create FN_BOUNCE 0 (\<lambda>chld2.
       join chld1 (join chld2 (IS_RESET (Ret VVoid))))))))"

definition test_crt_join_sched :: "'a test" where
  "test_crt_join_sched =
     Say ''[TEST] thread creation/join/scheduling''
     (yield_null
     (create FN_SEQUENCE 1 (\<lambda>chld1. create FN_SEQUENCE 2 (\<lambda>chld2. join chld2 (join chld1 (IS_RESET
     (create FN_NULL 0 (\<lambda>chld1. join chld1 (IS_RESET
     (create FN_NULL 0 (\<lambda>chld1. yield_null (join chld1 (IS_RESET
     (create FN_NESTED_JOINS 0 (\<lambda>chld1. join chld1 (IS_RESET
     (create FN_IDENTITY 0x37337 (\<lambda>chld1. create FN_JOIN chld1 (\<lambda>chld2.
        yield_null (yield_null (join chld2 (join chld1 (IS_RESET
     (create FN_IDENTITY 0x37337 (\<lambda>chld1. Lib (Join chld1) (\<lambda>r. check (0x37337 = val_ptr r) (IS_RESET
     (create FN_NULL 0 (\<lambda>chld1. Lib (Yield chld1) (\<lambda>_.
        info LWT_INFO_NTHD_ZOMBIES (\<lambda>z. check (z = 1) (join chld1 (IS_RESET (Ret VVoid))))))))))))))))))))))))))))))))))"

definition test_perf_channels :: "nat \<Rightarrow> int \<Rightarrow> 'a test" where
  "test_perf_channels iter chsz =
     Lib (NewChan chsz) (\<lambda>v. let from = val_ptr v in check (from \<noteq> 0)
     (Lib (CreateChan FN_CHAN from) (\<lambda>t.
     (Lib (RcvChan from) (\<lambda>v. let to = val_ptr v in
     field to snd_cnt (\<lambda>n. check (n \<noteq> 0)
     (repeat iter (\<lambda>i k. rcv from (\<lambda>x. check (1 = x) (snd_to to 2 k)))
     (Lib (Deref to) (\<lambda>_.
     (Say ''[PERF] %5lld <- snd+rcv (buffer size %d)''
     (join (val_ptr t) (Ret VVoid))))))))))))"

text \<open>
  \<^verbatim>\<open>test_multisend\<close>: the local variables of its receiving loop are the words received, newest
  first, and \<^verbatim>\<open>maxcnt\<close>.
\<close>

definition test_multisend :: "nat \<Rightarrow> int \<Rightarrow> 'a test" where
  "test_multisend iter chsz =
     Say ''[TEST] multisend (channel buffer size %d)''
     (Lib (NewChan chsz) (\<lambda>v. let c = val_ptr v in check (c \<noteq> 0)
     (Lib (CreateChan FN_SNDER_2 c) (\<lambda>t1.
     (Lib (CreateChan FN_SNDER_1 c) (\<lambda>t2.
     (for_loop (iter * 2) (\<lambda>i (rs, maxcnt) k.
        rcv c (\<lambda>r. Env (add_sndrcv (- 1)) (\<lambda>n.
          k (r # rs, (case n of VInt m \<Rightarrow> if m > maxcnt then m else maxcnt | _ \<Rightarrow> maxcnt)))))
        0 ([], 0) (\<lambda>(rs, maxcnt).
     (join (val_ptr t1) (join (val_ptr t2)
     (check (\<forall>r\<in>set rs. r = 1 \<or> r = 2)
     (check (sum_list rs = iter * 1 + iter * 2)
     (check (maxcnt \<ge> chsz) (Ret VVoid))))))))))))))"

definition test_perf_async_steam :: "nat \<Rightarrow> int \<Rightarrow> 'a test" where
  "test_perf_async_steam iter chsz =
     Env (\<lambda>g. Inr (g\<lparr>g_async_sz := chsz\<rparr>, VVoid)) (\<lambda>_.
     Ask (\<lambda>s. rbind (thd (lwt_current s) s) (\<lambda>x. Inr (VInt (if tstate x = LWT_RUNNING then 1 else 0)))) (\<lambda>v.
     check (v = VInt 1)
     (Lib (NewChan chsz) (\<lambda>v. let from = val_ptr v in
     Say ''chsz size: %d---------------''
     (check (from \<noteq> 0)
     (Lib (CreateChan FN_ASYNC_STEAM from) (\<lambda>t.
     info LWT_INFO_NTHD_RUNNABLE (\<lambda>n. check (n = 2)
     (repeat iter (\<lambda>i k. rcv from (\<lambda>x. check (i + 1 = x) k))
     (Say ''[PERF] %5lld <- asynchronous snd->rcv (buffer size %d)''
     (join (val_ptr t) (Ret VVoid))))))))))))"

definition test_grpwait :: "nat \<Rightarrow> int \<Rightarrow> nat \<Rightarrow> 'a test" where
  "test_grpwait iter chsz grpsz =
     Say ''[TEST] group wait (channel buffer size %d, grpsz %d)''
     (Lib NewGrp (\<lambda>v. let g = val_ptr v in check (g \<noteq> 0)
     (for_loop grpsz (\<lambda>i (cs, ts) k.
        Lib (NewChan chsz) (\<lambda>v. let c = val_ptr v in check (c \<noteq> 0)
        (Lib (CreateChan FN_GRPWAIT c) (\<lambda>v. let t = val_ptr v in
        id_of t (\<lambda>m. Lib (MarkSet c m) (\<lambda>_. Lib (GrpAdd g c) (\<lambda>_. k (cs @ [c], ts @ [t])))))))) 0 ([], []) (\<lambda>(cs, ts).
     yield_null
     (Lib (GrpFree g) (\<lambda>v. check (v = VInt (- 1))
     (repeat (iter * grpsz) (\<lambda>i k.
        Lib (GrpWait g) (\<lambda>v. let c = val_ptr v in check (c \<noteq> 0)
        (yield_null (rcv c (\<lambda>r. mark_get c (\<lambda>m. check (r = m) k))))))
     (Say ''----------------------------------------------''
     (for_loop grpsz (\<lambda>i (_::unit) k.
        Lib (GrpRem g (cs ! i)) (\<lambda>_. join (ts ! i) (Lib (Deref (cs ! i)) (\<lambda>_. k ())))) 0 () (\<lambda>_.
     Lib (GrpFree g) (\<lambda>v. check (v = VInt 0) (Ret VVoid))))))))))))"

section \<open>The program\<close>

definition test_code :: "nat \<Rightarrow> 'a test_globals_scheme code" where
  "test_code iter fn =
     (if fn = FN_BOUNCE then Some (fn_bounce iter) else if fn = FN_NULL then Some fn_null
      else if fn = FN_IDENTITY then Some fn_identity else if fn = FN_NESTED_JOINS then Some fn_nested_joins
      else if fn = FN_SEQUENCE then Some (fn_sequence iter) else if fn = FN_JOIN then Some fn_join
      else if fn = FN_CHAN then Some (fn_chan iter) else if fn = FN_SNDER_1 then Some (fn_snder_1 iter)
      else if fn = FN_SNDER_2 then Some (fn_snder_2 iter) else if fn = FN_ASYNC_STEAM then Some (fn_async_steam iter)
      else if fn = FN_GRPWAIT then Some (fn_grpwait iter) else None)"

definition buffered_size :: "nat \<Rightarrow> int" where
  "buffered_size iter = (if iter div 10 < 100 then int (iter div 10) else 100)"

definition main :: "nat \<Rightarrow> 'a test" where
  "main iter =
     pbind (test_perf iter) (\<lambda>_.
     pbind (test_perf_channels iter 0) (\<lambda>_.
     pbind (test_perf_async_steam iter (buffered_size iter)) (\<lambda>_.
     pbind test_crt_join_sched (\<lambda>_.
     pbind (test_multisend iter 0) (\<lambda>_.
     pbind (test_multisend iter (buffered_size iter)) (\<lambda>_.
     pbind (test_grpwait iter 0 3) (\<lambda>_.
     pbind (test_grpwait iter 3 3) (\<lambda>_. Ret (VInt 0)))))))))"

end
