(* ===== verification/Lwt_TestRuns.thy ===== *)
theory Lwt_TestRuns
  imports Lwt_Joining Lwt_Tests
begin

text \<open>
  The performance test of the library (\<^verbatim>\<open>test_perf\<close> of \<^verbatim>\<open>main3.c\<close>) run on the library: creation,
  joining, yielding, death and recycling of threads together, over any number of iterations.
\<close>

section \<open>Runs\<close>

lemma run_add: "run F (m + n) w = rbind (run F m w) (run F n)"
proof (induction m arbitrary: w)
  case (Suc m)
  show ?case by (cases "world_step F w") (simp_all add: Suc.IH)
qed simp

lemma run_then: "run F m w = Inr w1 \<Longrightarrow> run F n w1 = r \<Longrightarrow> run F (m + n) w = r"
  by (simp add: run_add)

lemma run_settle: "settle n (ret w, lib w) = Inr (v, s) \<Longrightarrow> run F n w = Inr (w\<lparr>lib := s, ret := v\<rparr>)"
proof (induction n arbitrary: w)
  case (Suc n)
  then obtain u s1 where c: "frames (lib w) (lwt_current (lib w)) \<noteq> []" "continue (ret w) (lib w) = Inr (u, s1)" "settle n (u, s1) = Inr (v, s)"
    by (auto simp: rbind_eq_Inr)
  show ?case using Suc.IH [of "w\<lparr>lib := s1, ret := u\<rparr>"] c by (simp add: world_step_def Let_def)
qed simp

text \<open>\<open>P\<close> is what the thread \<open>t\<close> runs when it is dispatched to.\<close>

definition due :: "'g code \<Rightarrow> 'g world \<Rightarrow> ptr \<Rightarrow> 'g prog \<Rightarrow> bool" where
  "due F w t P \<longleftrightarrow> frames (lib w) t = [] \<and> (case pend w t of Some k \<Rightarrow> k (ret w) = P
     | None \<Rightarrow> \<exists>fn d f. ufn (lib w) t = Some (fn, d) \<and> F fn = Some f \<and> f d = P)"

lemma step_due: "due F w t P \<Longrightarrow> lwt_current (lib w) = t \<Longrightarrow> world_step F w = exec P F w"
  by (auto simp: due_def world_step_def Let_def split: option.splits)

section \<open>Creation, with or without recycling\<close>

lemma create_fits:
  assumes r: "lwt_create fn d fl s = Inr (t, s')" and i: "lwt_inv s" "lwt_inv s'" and ft: "stacks_fit s" and g: "graves_ok s"
  shows "stacks_fit s'" "has_stack t s'" "has_stack v s \<Longrightarrow> has_stack v s'"
proof -
  obtain sp0 where sp: "map_option init_sp (thds s' t) = Some sp0" and st: "(\<exists>b. new_stack t b s s') \<or> old_stack t s s'"
    and mt: "\<forall>k. main_thread (kthds s' k) = main_thread (kthds s k)"
    and iw: "\<forall>w. w \<noteq> t \<longrightarrow> map_option init_sp (thds s' w) = map_option init_sp (thds s w)"
    by (rule create_effects [OF r i(1)]) blast
  have td: "t \<in> dom (thds s')" using sp by auto
  then have t0: "t \<noteq> 0" using i(2) by (auto elim: lwt_invE dest: live_nonnull(1))
  have dm: "dom (thds s') = insert t (dom (thds s))"
  proof -
    have "w \<in> dom (thds s') \<longleftrightarrow> w \<in> dom (thds s)" if "w \<noteq> t" for w
      using iw that by (cases "thds s w"; cases "thds s' w") auto
    then show ?thesis using td by (intro set_eqI) (metis insert_iff)
  qed
  show "stacks_fit s'" using ft create_stacks_ok [OF r i(1)] mt dm unfolding stacks_fit_def by (metis insertCI)
  show "has_stack v s \<Longrightarrow> has_stack v s'" using mt dm by (auto simp: has_stack_def created_thds_def)
  have "main_thread (kthds s k) \<noteq> t" for k
    using st
  proof (elim disjE exE)
    fix b assume "new_stack t b s s'"
    then have "t \<notin> dom (thds s)" by (simp add: new_stack_def)
    then show ?thesis using ft t0 unfolding stacks_fit_def by metis
  next
    assume "old_stack t s s'"
    then show ?thesis using g first_grave(1) [OF _ i(1)] by (auto simp: graves_ok_def created_thds_def)
  qed
  then show "has_stack t s'" using td mt by (simp add: has_stack_def created_thds_def)
qed

lemma create_any:
  assumes t: "in_turn s q" and p: "supplied s" and g: "graves_ok s" and ft: "stacks_fit s"
  obtains t s' where "lwt_create fn d 0 s = Inr (t, s')" "in_turn s' (q @ [ThdNode t])" "supplied s'" "graves_ok s'" "stacks_fit s'"
    "created fn d 0 s t s'" "frames s' = frames s" "counters s' = counters s" "ufn s' = ufn s" "lwt_current s' = lwt_current s"
    "current_kthd s' = current_kthd s" "\<forall>v. v \<noteq> t \<longrightarrow> thds s' v = thds s v" "\<forall>c\<in>dom (chans s). chans s' c = chans s c"
    "\<forall>c\<in>dom (chans s). queue_of (SendQ c) s' = queue_of (SendQ c) s" "ThdNode t \<notin> set q" "has_stack t s'"
proof -
  let ?k = "current_kthd s" and ?run = "current_run_queue s" and ?rec = "current_recycle_queue s"
  note f = in_turn_facts [OF t]
  obtain D where l: "linked D s" by (rule lwt_invE [OF f(1)])
  have rH: "?rec \<in> heads s" using heads_recycle [OF f(1)] by (simp add: current_recycle_queue_def)
  obtain us where us: "queue_of ?rec s = map ThdNode us" "\<forall>t\<in>set us. t \<noteq> 0 \<and> t \<in> dom (thds s)"
    by (rule queue_threads [OF f(1) rH]) (auto simp: current_recycle_queue_def)
  have rec: "list_foreach ?rec (lists s) = Some (map ThdNode us)" using foreach_linked [OF l rH] us(1) by simp
  have run: "list_foreach ?run (lists s) = Some q" using t by (simp add: in_turn_def current_run_queue_def)
  have sd: "SendQ c \<in> heads s - {?run, ?rec}" if "c \<in> dom (chans s)" for c
    using inv_chan(2) [OF f(1)] that by (auto simp: current_run_queue_def current_recycle_queue_def)
  have gr: "u \<in> created_thds s" if "u \<in> set us" for u using g us(1) that by (simp add: graves_ok_def)
  have "\<exists>t s' ws. lwt_create fn d 0 s = Inr (t, s') \<and> lwt_inv s' \<and> created fn d 0 s t s' \<and>
    list_foreach ?run (lists s') = Some (q @ [ThdNode t]) \<and> lwt_current s' = lwt_current s \<and> current_kthd s' = ?k \<and>
    supplied s' \<and> frames s' = frames s \<and> (\<forall>v. v \<noteq> t \<longrightarrow> thds s' v = thds s v) \<and> (\<forall>c\<in>dom (chans s). chans s' c = chans s c) \<and>
    list_foreach ?rec (lists s') = Some ws \<and> set ws \<subseteq> ThdNode ` set us \<and>
    (\<forall>c\<in>dom (chans s). list_foreach (SendQ c) (lists s') = list_foreach (SendQ c) (lists s))"
  proof (cases us)
    case Nil
    have "?rec \<in> heads s - {?run}" using rH by (simp add: current_run_queue_def current_recycle_queue_def)
    then show ?thesis using create_fresh [OF f(1) p _ run, of fn d 0] rec Nil sd by fastforce
  next
    case (Cons u vs)
    obtain x where x: "thds s u = Some x" using us(2) Cons by auto
    have "12 \<le> init_sp x" using ft gr [of u] Cons x by (auto simp: stacks_fit_def stacks_ok_def stack_top_def MAX_STACK_SIZE_def)
    then show ?thesis using create_reused [OF f(1) p _ run x, of "map ThdNode vs" fn d 0] rec Cons sd by fastforce
  qed
  then obtain t s' ws where s': "lwt_create fn d 0 s = Inr (t, s')" "lwt_inv s'" "created fn d 0 s t s'"
    "list_foreach ?run (lists s') = Some (q @ [ThdNode t])" "lwt_current s' = lwt_current s" "current_kthd s' = ?k"
    "supplied s'" "frames s' = frames s" "\<forall>v. v \<noteq> t \<longrightarrow> thds s' v = thds s v" "\<forall>c\<in>dom (chans s). chans s' c = chans s c"
    "list_foreach ?rec (lists s') = Some ws" "set ws \<subseteq> ThdNode ` set us"
    "\<forall>c\<in>dom (chans s). list_foreach (SendQ c) (lists s') = list_foreach (SendQ c) (lists s)" by blast
  note fit = create_fits [OF s'(1) f(1) s'(2) ft g]
  obtain D' where l': "linked D' s'" by (rule lwt_invE [OF s'(2)])
  have "queue_of (RunQ ?k) s' = q @ [ThdNode t]" using s'(4) by (simp add: queue_of_def current_run_queue_def)
  then have "distinct (q @ [ThdNode t])"
    using lq.rep_distinct [OF l' [unfolded linked_def] heads_current [OF s'(2)]] s'(6) by simp
  then have tq: "ThdNode t \<notin> set q" by simp
  have "queue_of (current_recycle_queue s') s' = ws" using s'(6,11) by (simp add: queue_of_def current_recycle_queue_def)
  then have "graves_ok s'" using s'(12) gr fit(3) by (auto simp: graves_ok_def has_stack_def)
  moreover have "map_option owner_kthd (thds s' t) = Some ?k" using s'(3) by (auto simp: created_def)
  then have "in_turn s' (q @ [ThdNode t])"
    using t s'(2,4-6,9) by (auto simp: in_turn_def current_run_queue_def)
  ultimately show thesis
    using that s' create_counts [OF s'(1)] create_keeps_kthds [OF s'(1)] tq fit(1,2) by (simp add: queue_of_def)
qed

section \<open>Fork and join\<close>

text \<open>The thread \<open>p\<close> is alone on its kernel thread, and nothing is pending.\<close>

definition alone :: "ptr \<Rightarrow> sys \<Rightarrow> bool" where
  "alone p s \<longleftrightarrow> in_turn s [ThdNode p] \<and> frames s p = [] \<and> supplied s \<and> graves_ok s \<and> stacks_fit s \<and> counters s = (0, 0, 0, 0)"

lemma first_run:
  assumes "moved s s'" "lwt_current s' = u" "u \<noteq> lwt_current s" "unstarted u s"
  shows "frames s' u = []" "ufn s' u = start_args u s"
  using assms by (auto simp: moved_def Let_def unstarted_def start_args_def)

lemma created_unstarted: "created fn d fl s t s' \<Longrightarrow> has_stack t s' \<Longrightarrow> unstarted t s' \<and> start_args t s' = Some (fn, d)"
  by (auto simp: created_def unstarted_def start_args_def has_stack_def)

lemma buried_graves:
  assumes b: "buried p t ns fs s s'" and g: "graves_ok s" and t: "has_stack t s" and i: "lwt_inv s"
  shows "graves_ok s'"
proof -
  let ?r = "RecQ (current_kthd s)"
  have "\<forall>h\<in>heads s. h \<noteq> RunQ (current_kthd s) \<longrightarrow> set (queue_of h s') \<subseteq> set (queue_of h s) \<union> (if h = ?r then {ThdNode t} else {})"
    using b unfolding buried_def by blast
  from bspec [OF this heads_recycle [OF i]] have "set (queue_of ?r s') \<subseteq> insert (ThdNode t) (set (queue_of ?r s))" by simp
  then show ?thesis using b g t by (auto simp: buried_def graves_ok_def current_recycle_queue_def has_stack_def)
qed

lemma gave_way_graves:
  assumes w: "gave_way p u ns y fs s s'" and g: "graves_ok s" and i: "lwt_inv s"
  shows "graves_ok s'"
proof -
  have k: "current_kthd s' = current_kthd s" "has_stack t s' = has_stack t s" for t
    using w has_stack_moved by (auto simp: gave_way_def)
  have "queue_of (RecQ (current_kthd s)) s' = remove1 (ThdNode p) (queue_of (RecQ (current_kthd s)) s)"
    using w heads_recycle [OF i] by (simp add: gave_way_def)
  then have "set (queue_of (RecQ (current_kthd s)) s') \<subseteq> set (queue_of (RecQ (current_kthd s)) s)" by (simp add: set_remove1_subset)
  then show ?thesis using g k by (auto simp: graves_ok_def current_recycle_queue_def has_stack_def)
qed

lemma fork_join:
  assumes a: "alone p (lib w)" and pd: "pend w = [p \<mapsto> \<kappa>]" "\<kappa> (ret w) = create fn d (\<lambda>t. Lib (Join t) (K t))"
    and fn: "F fn = Some f" "f d = Ret r"
  obtains t s' where "run F 7 w = Inr (w\<lparr>lib := s', ret := VPtr (val_ptr r), pend := [p \<mapsto> K t]\<rparr>)" "alone p s'"
proof -
  let ?m = "val_ptr r"
  have s: "in_turn (lib w) [ThdNode p]" "frames (lib w) p = []" "supplied (lib w)" "graves_ok (lib w)" "stacks_fit (lib w)" "counters (lib w) = (0, 0, 0, 0)"
    using a by (simp_all add: alone_def)
  have c: "lwt_current (lib w) = p" using s(1) by (simp add: in_turn_def)
  obtain t s1 where s1: "lwt_create fn d 0 (lib w) = Inr (t, s1)" "in_turn s1 ([ThdNode p] @ [ThdNode t])" "supplied s1" "graves_ok s1"
    "created fn d 0 (lib w) t s1" "frames s1 = frames (lib w)" "counters s1 = counters (lib w)" "ThdNode t \<notin> set [ThdNode p]"
    "lwt_current s1 = lwt_current (lib w)" "has_stack t s1" "stacks_fit s1" by (rule create_any [OF s(1,3,4,5)])
  have tp: "t \<noteq> p" using s1(8) by simp
  have q1: "in_turn s1 (ThdNode p # ThdNode t # [])" using s1(2) by simp
  obtain v s2 y where s2: "lwt_join t s1 = Inr (v, s2)" "joined p t (frames s1 p) s2"
    "gave_way p t [] y (KRcv p # KJoin t # frames s1 p) s1 s2" "counters s2 = count_block BLOCKED_RECEIVING 1 (counters s1)"
    by (rule join_blocks [OF q1 created_child [OF s1(5) c s1(10)] tp])
  have c1: "lwt_current s1 = p" using s1(9) c by simp
  have t2: "in_turn s2 (ThdNode t # [])" "lwt_current s2 = t" "moved s1 s2" using s2(3) by (simp_all add: gave_way_def)
  note cu = created_unstarted [OF s1(5,10)]
  have fr: "frames s2 t = []" "ufn s2 t = Some (fn, d)" using first_run [OF t2(3,2)] cu tp c1 by simp_all
  obtain s3 s4 where s3: "lwt_die ?m s2 = Inr (VInt 0, s3)" "settle 4 (VInt 0, s3) = Inr (VPtr ?m, s4)" "buried p t [] (frames s1 p) s2 s4"
    by (rule child_finishes [OF t2(1) s2(2) tp]) simp
  let ?w1 = "w\<lparr>lib := s1, ret := VPtr t, pend := [p \<mapsto> \<lambda>v. Lib (Join (val_ptr v)) (K (val_ptr v))]\<rparr>"
  let ?w2 = "w\<lparr>lib := s2, ret := v, pend := [p \<mapsto> K t]\<rparr>" and ?w3 = "w\<lparr>lib := s3, ret := VInt 0, pend := [p \<mapsto> K t]\<rparr>"
  have "world_step F w = Inr ?w1" using s(2) c pd s1(1) by (simp add: world_step_def create_def ret_ptr_def Let_def)
  moreover have "world_step F ?w1 = Inr ?w2"
    using s1(6) s(2) c1 s2(1) by (simp add: world_step_def Let_def val_ptr_def)
  moreover have "world_step F ?w2 = Inr ?w3"
    using fr t2(2) fn tp s3(1) by (simp add: world_step_def Let_def trampoline_return_def fun_upd_idem)
  moreover have "run F 4 ?w3 = Inr (w\<lparr>lib := s4, ret := VPtr ?m, pend := [p \<mapsto> K t]\<rparr>)"
    using run_settle [of 4 ?w3 "VPtr ?m" s4 F] s3(2) by simp
  ultimately have r: "run F (Suc (Suc (Suc 4))) w = Inr (w\<lparr>lib := s4, ret := VPtr ?m, pend := [p \<mapsto> K t]\<rparr>)"
    by (simp only: run.simps rbind_Inr)
  have "alone p s4"
  proof -
    have "graves_ok s2" by (rule gave_way_graves [OF s2(3) s1(4) in_turn_facts(1) [OF s1(2)]])
    then have "graves_ok s4" using buried_graves [OF s3(3)] s2(2) in_turn_facts(1) [OF t2(1)] by (simp add: joined_def)
    moreover have "supplied s4" using s1(3) s2(3) s3(3) by (simp add: supplied_def gave_way_def buried_def)
    moreover have "counters s4 = (0, 0, 0, 0)" using s3(3) s2(4) s1(7) s(6) by (simp add: buried_def)
    moreover have "stacks_fit s4" using s3(3) s1(11) s2(3) fit_moved by (auto simp: buried_def gave_way_def)
    ultimately show ?thesis using s3(3) s1(6) s(2) by (simp add: alone_def buried_def)
  qed
  then show thesis using that [of t s4] r by simp
qed

lemma fork_join_loop:
  assumes "F fn = Some f" "f d = Ret r"
  shows "alone p (lib w) \<Longrightarrow> pend w = [p \<mapsto> \<kappa>] \<Longrightarrow>
    \<kappa> (ret w) = for_loop n (\<lambda>i _ k. create fn d (\<lambda>t. join t (k ()))) i () (\<lambda>_. P) \<Longrightarrow>
    \<exists>s v \<kappa>. run F (7 * n) w = Inr (w\<lparr>lib := s, ret := v, pend := [p \<mapsto> \<kappa>]\<rparr>) \<and> alone p s \<and> \<kappa> v = P"
proof (induction n arbitrary: w \<kappa> i)
  case 0
  have "w = w\<lparr>lib := lib w, ret := ret w, pend := [p \<mapsto> \<kappa>]\<rparr>" using 0(2) by (cases w) (simp add: fun_eq_iff)
  then show ?case using 0 by (intro exI [of _ "lib w"] exI [of _ "ret w"] exI [of _ \<kappa>]) simp
next
  case (Suc n)
  let ?R = "for_loop n (\<lambda>i _ k. create fn d (\<lambda>t. join t (k ()))) (Suc i) () (\<lambda>_. P)"
  have \<kappa>: "\<kappa> (ret w) = create fn d (\<lambda>t. Lib (Join t) (\<lambda>_. ?R))" using Suc.prems(3) by (simp add: join_def)
  obtain t s where s: "run F 7 w = Inr (w\<lparr>lib := s, ret := VPtr (val_ptr r), pend := [p \<mapsto> \<lambda>_. ?R]\<rparr>)" (is "_ = Inr ?w") and a: "alone p s"
    by (rule fork_join [where K = "\<lambda>_ _. ?R" and \<kappa> = \<kappa> and w = w and F = F and fn = fn and f = f and d = d, OF Suc.prems(1,2) \<kappa> assms]) blast
  have a': "alone p (lib ?w)" and e: "(\<lambda>_. ?R) (ret ?w) = ?R" using a by simp_all
  have eq: "?w\<lparr>lib := x, ret := y, pend := z\<rparr> = w\<lparr>lib := x, ret := y, pend := z\<rparr>" for x y z by simp
  have "pend ?w = [p \<mapsto> \<lambda>_. ?R]" by simp
  from Suc.IH [OF a' this e] obtain s' v \<kappa>' where "run F (7 * n) ?w = Inr (w\<lparr>lib := s', ret := v, pend := [p \<mapsto> \<kappa>']\<rparr>)" "alone p s'" "\<kappa>' v = P"
    unfolding eq by blast
  then show ?case unfolding mult_Suc_right using run_then [OF s] by blast
qed

text \<open>\<open>IS_RESET\<close> holds for a thread that is alone.\<close>

lemma reset_passes:
  assumes a: "alone p (lib w)"
  shows "exec (IS_RESET P) F w = exec P F w"
proof -
  let ?s = "lib w"
  have t: "in_turn ?s [ThdNode p]" using a by (simp add: alone_def)
  obtain D where l: "linked D ?s" by (rule lwt_invE [OF in_turn_facts(1) [OF t]])
  have "get_queue_size (current_run_queue ?s) (lists ?s) = Some 1"
    using get_queue_size_queue [OF l [unfolded linked_def] in_turn_facts(3) [OF t]] in_turn_facts(4) [OF t]
    by (simp add: current_run_queue_def)
  moreover have "zombie_counter (kthds ?s (current_kthd ?s)) = 0" "block_counter (kthds ?s (current_kthd ?s)) = 0"
    using a by (simp_all add: alone_def counters_def Let_def)
  ultimately show ?thesis by (simp add: IS_RESET_def info_def check_def lwt_info_def Let_def)
qed

end
