(* ===== verification/Lwt_PerfTest.thy ===== *)
theory Lwt_PerfTest
  imports Lwt_TestRuns
begin

text \<open>
  The second half of \<^verbatim>\<open>test_perf\<close>: two children that bounce the processor between them while their
  parent waits to join the first. With it, the whole test passes, for every number of iterations.
\<close>

section \<open>A yield between two children\<close>

text \<open>\<open>duo p a b s\<close>: \<open>p\<close> waits to join \<open>a\<close>, and \<open>b\<close> is another child of \<open>p\<close>.\<close>

definition duo :: "ptr \<Rightarrow> ptr \<Rightarrow> ptr \<Rightarrow> sys \<Rightarrow> bool" where
  "duo p a b s \<longleftrightarrow> joined p a [] s \<and> child p b s \<and> p \<noteq> a \<and> p \<noteq> b \<and> a \<noteq> b \<and> supplied s \<and> graves_ok s \<and> stacks_fit s \<and>
     counters s = count_block BLOCKED_RECEIVING 1 (0, 0, 0, 0)"

lemma child_kept:
  assumes "child p t s" "map_option (\<lambda>x. (parent x, nojoin x, chl x)) (thds s' t) = map_option (\<lambda>x. (parent x, nojoin x, chl x)) (thds s t)"
    and "\<forall>c\<in>dom (chans s). chans s' c = chans s c \<and> (queue_of (SendQ c) s = [] \<longrightarrow> queue_of (SendQ c) s' = [])" "has_stack t s' = has_stack t s"
  shows "child p t s'"
proof -
  obtain x ch where x: "thds s t = Some x" "parent x = p" "nojoin x = 0" "chans s (chl x) = Some ch" "receiver ch = p"
    "chan_ty ch = LOCAL_CHAN" "local_chan (chl x) s" "pending (chl x) s = []" "has_stack t s" using assms(1) by (auto simp: child_def)
  obtain x' where x': "thds s' t = Some x'" "parent x' = p" "nojoin x' = 0" "chl x' = chl x" using assms(2) x(1-3) by (cases "thds s' t") auto
  have "queue_of (SendQ (chl x)) s = []" using x(4,8) by (simp add: pending_def senders_def)
  then have c: "chans s' (chl x) = Some ch" "senders (chl x) s' = []" using assms(3) x(4) by (auto simp: senders_def)
  have "buffered (chl x) s = []" using x(8) by (simp add: pending_def)
  then have "pending (chl x) s' = []" using x(4) c by (simp add: pending_def buffered_def)
  moreover have "local_chan (chl x) s'" using x(4,7) c by (simp add: local_chan_def)
  ultimately show ?thesis using x x' c assms(4) by (auto simp: child_def)
qed

lemma yield_duo:
  assumes t: "in_turn s [ThdNode x, ThdNode y]" and d: "duo p a b s" and xy: "{x, y} = {a, b}"
  obtains v s' where "lwt_yield 0 s = Inr (v, s')" "in_turn s' [ThdNode y, ThdNode x]" "duo p a b s'" "moved s s'"
    "waits_in_dispatch s y \<Longrightarrow> frames s' = frames s \<and> ufn s' = ufn s" "\<forall>w. w \<noteq> y \<longrightarrow> frames s' w = frames s w"
    "map_option (\<lambda>z. ip (ctx z)) (thds s' x) = Some RetDispatch"
proof -
  let ?k = "current_kthd s"
  note f = in_turn_facts [OF t]
  have c: "lwt_current s = x" "x \<noteq> y" using t f(2) by (simp_all add: in_turn_def)
  obtain v s' u where y0: "lwt_yield 0 s = Inr (v, s')"
    "requeue s s' ((\<lambda>h. queue_of h s)(RunQ ?k := remove1 (ThdNode (lwt_current s)) [ThdNode x, ThdNode y] @ [ThdNode (lwt_current s)]))"
    "hd (remove1 (ThdNode (lwt_current s)) [ThdNode x, ThdNode y] @ [ThdNode (lwt_current s)]) = ThdNode u" "switched s s' u"
    using yield_null_effect [OF in_turn_on_cpu [OF t]] by blast
  have sw: "switched s s' y" using y0(3,4) c by simp
  then have e: "thds s' = dispatched x y (thds s)" "current_kthd s' = ?k" "chans s' = chans s" "mem s' = mem s"
    "\<forall>w. w \<noteq> y \<longrightarrow> frames s' w = frames s w" "waits_in_dispatch s y \<Longrightarrow> frames s' = frames s"
    using c(1) by (simp_all add: switched_def)
  have q: "queue_of h s' = queue_of h s" if "h \<in> heads s" "h \<noteq> RunQ ?k" for h
    using y0(2) that by (simp add: requeue_def queue_of_def)
  have m: "moved s s'" by (rule yield_moved [OF y0(1)])
  have st: "has_stack w s' = has_stack w s" for w by (rule has_stack_moved [OF m])
  have px: "p \<noteq> x" "p \<noteq> y" using d xy by (auto simp: duo_def)
  then have tp: "thds s' p = thds s p" "frames s' p = frames s p" using e(1,5) by (simp_all add: dispatched_other)
  have th: "map_option (\<lambda>z. (parent z, nojoin z, chl z)) (thds s' w) = map_option (\<lambda>z. (parent z, nojoin z, chl z)) (thds s w)" for w
    unfolding e(1) dispatched_def by (cases "thds s w") simp_all
  have j: "joined p a [] s'"
  proof -
    obtain z ch where z: "thds s a = Some z" "chans s (chl z) = Some ch" "receiver ch = p" "chan_ty ch = LOCAL_CHAN"
      "\<exists>y. thds s p = Some y \<and> receiver_waits ch (chl z) y \<and> ip (ctx y) = RetDispatch \<and> owner_kthd y = ?k"
      "frames s p = [KRcv p, KJoin a]" "has_stack a s" using d by (auto simp: duo_def joined_def)
    obtain z' where "thds s' a = Some z'" "chl z' = chl z" using th [of a] z(1) by (cases "thds s' a") auto
    then show ?thesis using z tp e(2,3) st by (auto simp: joined_def)
  qed
  have "child p b s'"
    by (rule child_kept [OF _ th]) (use d e(3) q st inv_chan(2) [OF f(1)] in \<open>auto simp: duo_def\<close>)
  moreover have "graves_ok s'"
    using d q [of "RecQ ?k"] heads_recycle [OF f(1)] st e(2) by (simp add: duo_def graves_ok_def current_recycle_queue_def has_stack_def)
  ultimately have "duo p a b s'"
    using d j e(4) yield_keeps_counts [OF y0(1)] fit_moved [OF m] by (simp add: duo_def supplied_def)
  moreover obtain z where "thds s x = Some z" using f(5) [of x] by auto
  then have "map_option (\<lambda>z. ip (ctx z)) (thds s' x) = Some RetDispatch" using e(1) by (simp add: dispatched_def)
  moreover have "in_turn s' [ThdNode y, ThdNode x]" using yield_in_turn [OF t] y0(1) by auto
  moreover have "ufn s' = ufn s" if "waits_in_dispatch s y"
    by (rule moved_ufn [OF m]) (use sw that f(5) [of y] in \<open>auto simp: switched_def\<close>)
  ultimately show thesis using that y0(1) m e(5,6) by blast
qed

section \<open>Bouncing\<close>

text \<open>The continuations of three threads, and of nobody else.\<close>

definition conts :: "ptr \<Rightarrow> (val \<Rightarrow> 'g prog) option \<Rightarrow> ptr \<Rightarrow> (val \<Rightarrow> 'g prog) option \<Rightarrow> ptr \<Rightarrow> (val \<Rightarrow> 'g prog) option \<Rightarrow> ptr \<Rightarrow> (val \<Rightarrow> 'g prog) option" where
  "conts p P a A b B = (\<lambda>_. None)(p := P, a := A, b := B)"

lemma conts_simps:
  assumes "p \<noteq> a" "p \<noteq> b" "a \<noteq> b"
  shows "conts p P a A b B p = P" "conts p P a A b B a = A" "conts p P a A b B b = B"
    "(conts p P a A b B)(p := X) = conts p X a A b B" "(conts p P a A b B)(a := X) = conts p P a X b B" "(conts p P a A b B)(b := X) = conts p P a A b X"
    "conts p P a None b None = (\<lambda>_. None)(p := P)"
  using assms by (auto simp: conts_def)

text \<open>Both children have \<open>m\<close> yields left before they go on with \<open>P\<close> and \<open>Q\<close>; then also: \<open>a\<close> runs.\<close>

definition bounce_conts :: "ptr \<Rightarrow> ptr \<Rightarrow> ptr \<Rightarrow> nat \<Rightarrow> 'g prog \<Rightarrow> 'g prog \<Rightarrow> (val \<Rightarrow> 'g prog) \<Rightarrow> ptr \<Rightarrow> (val \<Rightarrow> 'g prog) option" where
  "bounce_conts p a b m P Q K = conts p (Some K) a (Some (\<lambda>_. (yield_null ^^ m) P)) b (Some (\<lambda>_. (yield_null ^^ m) Q))"

definition bouncing :: "ptr \<Rightarrow> ptr \<Rightarrow> ptr \<Rightarrow> nat \<Rightarrow> 'g prog \<Rightarrow> 'g prog \<Rightarrow> (val \<Rightarrow> 'g prog) \<Rightarrow> 'g world \<Rightarrow> bool" where
  "bouncing p a b m P Q K w \<longleftrightarrow> in_turn (lib w) [ThdNode a, ThdNode b] \<and> duo p a b (lib w) \<and> frames (lib w) a = [] \<and> frames (lib w) b = [] \<and>
     waits_in_dispatch (lib w) b \<and> ufn (lib w) a \<noteq> None \<and> ufn (lib w) b \<noteq> None \<and>
     pend w = bounce_conts p a b m P Q K"

lemma yield_steps:
  assumes "frames (lib w) x = []" "lwt_current (lib w) = x" "pend w x = Some (\<lambda>_. yield_null P)" "lwt_yield 0 (lib w) = Inr (v, s)"
  shows "world_step F w = Inr (w\<lparr>lib := s, ret := v, pend := (pend w)(x := Some (\<lambda>_. P))\<rparr>)"
  using assms by (simp add: world_step_def Let_def yield_null_def)

lemma bounce_round:
  assumes w: "bouncing p a b (Suc m) P Q K w"
  obtains s v where "run F 2 w = Inr (w\<lparr>lib := s, ret := v, pend := bounce_conts p a b m P Q K\<rparr>)"
    "bouncing p a b m P Q K (w\<lparr>lib := s, ret := v, pend := bounce_conts p a b m P Q K\<rparr>)"
proof -
  have s: "in_turn (lib w) [ThdNode a, ThdNode b]" "duo p a b (lib w)" "frames (lib w) a = []" "frames (lib w) b = []"
    "waits_in_dispatch (lib w) b" "ufn (lib w) a \<noteq> None" "ufn (lib w) b \<noteq> None"
    "pend w = conts p (Some K) a (Some (\<lambda>_. yield_null ((yield_null ^^ m) P))) b (Some (\<lambda>_. yield_null ((yield_null ^^ m) Q)))"
    using w by (simp_all add: bouncing_def bounce_conts_def)
  have d: "p \<noteq> a" "p \<noteq> b" "a \<noteq> b" using s(2) by (simp_all add: duo_def)
  note c = conts_simps [OF d]
  obtain v1 s1 where y1: "lwt_yield 0 (lib w) = Inr (v1, s1)" "in_turn s1 [ThdNode b, ThdNode a]" "duo p a b s1"
    "frames s1 = frames (lib w) \<and> ufn s1 = ufn (lib w)" "map_option (\<lambda>z. ip (ctx z)) (thds s1 a) = Some RetDispatch"
    using yield_duo [OF s(1,2) refl] s(5) by metis
  have wa: "waits_in_dispatch s1 a" using y1(5) by (simp add: waits_in_dispatch_def)
  obtain v2 s2 where y2: "lwt_yield 0 s1 = Inr (v2, s2)" "in_turn s2 [ThdNode a, ThdNode b]" "duo p a b s2"
    "frames s2 = frames s1 \<and> ufn s2 = ufn s1" "map_option (\<lambda>z. ip (ctx z)) (thds s2 b) = Some RetDispatch"
    using yield_duo [OF y1(2,3) insert_commute] wa by metis
  let ?w1 = "w\<lparr>lib := s1, ret := v1, pend := (pend w)(a := Some (\<lambda>_. (yield_null ^^ m) P))\<rparr>"
  let ?w2 = "w\<lparr>lib := s2, ret := v2, pend := bounce_conts p a b m P Q K\<rparr>"
  have ca: "lwt_current (lib w) = a" "lwt_current s1 = b" using s(1) y1(2) by (simp_all add: in_turn_def)
  have "world_step F w = Inr ?w1" by (rule yield_steps [OF s(3) ca(1) _ y1(1)]) (simp add: s(8) c)
  moreover have "world_step F ?w1 = Inr ?w2"
    using yield_steps [of ?w1 b "(yield_null ^^ m) Q" v2 s2 F] y1(4) s(4) ca(2) y2(1) by (simp add: s(8) c bounce_conts_def)
  ultimately have "run F 2 w = Inr ?w2" by (simp add: numeral_2_eq_2)
  moreover have "waits_in_dispatch s2 b" using y2(5) by (simp add: waits_in_dispatch_def)
  then have "bouncing p a b m P Q K ?w2" using y1(4) y2 s(3,4,6,7) by (simp add: bouncing_def)
  ultimately show thesis by (rule that)
qed

lemma bounce_rounds:
  assumes "bouncing p a b m P Q K w"
  shows "\<exists>w'. run F (2 * m) w = Inr w' \<and> bouncing p a b 0 P Q K w' \<and> out w' = out w \<and> env w' = env w"
  using assms
proof (induction m arbitrary: w)
  case (Suc m)
  obtain s v where r: "run F 2 w = Inr (w\<lparr>lib := s, ret := v, pend := bounce_conts p a b m P Q K\<rparr>)"
    "bouncing p a b m P Q K (w\<lparr>lib := s, ret := v, pend := bounce_conts p a b m P Q K\<rparr>)" by (rule bounce_round [OF Suc.prems])
  from Suc.IH [OF r(2)] run_then [OF r(1), of "2 * m"] show ?case by fastforce
qed auto

section \<open>The end of the test\<close>

text \<open>A thread that is due to return, joined by \<open>p\<close>, at most one other thread behind it.\<close>

lemma last_steps:
  assumes t: "in_turn (lib w) (ThdNode t # ns)" and j: "joined p t fs (lib w)" and tp: "t \<noteq> p" and n: "length ns \<le> 1"
    and f: "frames (lib w) t = []" "ufn (lib w) t \<noteq> None" and e: "exec P F w = exec (Ret r) F w1" "lib w1 = lib w" "pend w1 = pend w" "world_step F w = exec P F w"
  obtains s where "run F 5 w = Inr (w1\<lparr>lib := s, ret := VPtr (val_ptr r), pend := (pend w)(t := None)\<rparr>)" "buried p t ns fs (lib w) s"
proof -
  have c: "lwt_current (lib w) = t" using t by (simp add: in_turn_def)
  obtain s1 s' where s: "lwt_die (val_ptr r) (lib w) = Inr (VInt 0, s1)" "settle 4 (VInt 0, s1) = Inr (VPtr (val_ptr r), s')"
    "buried p t ns fs (lib w) s'" by (rule child_finishes [OF t j tp n])
  let ?w = "w1\<lparr>lib := s1, ret := VInt 0, pend := (pend w)(t := None)\<rparr>"
  have "world_step F w = Inr ?w" using e c f(2) s(1) by (simp add: trampoline_return_def Let_def)
  moreover have "run F 4 ?w = Inr (w1\<lparr>lib := s', ret := VPtr (val_ptr r), pend := (pend w)(t := None)\<rparr>)"
    using run_settle [of 4 ?w "VPtr (val_ptr r)" s' F] s(2) by simp
  ultimately have "run F (Suc 4) w = Inr (w1\<lparr>lib := s', ret := VPtr (val_ptr r), pend := (pend w)(t := None)\<rparr>)"
    by (simp only: run.simps rbind_Inr)
  then show thesis using that s(3) by simp
qed

lemma buried_child:
  assumes b: "buried p t ns fs s s'" and ch: "child p u s" and u: "u \<noteq> p" "u \<noteq> t" and i: "lwt_inv s"
  shows "child p u s'"
proof (rule child_kept [OF ch])
  show "map_option (\<lambda>x. (parent x, nojoin x, chl x)) (thds s' u) = map_option (\<lambda>x. (parent x, nojoin x, chl x)) (thds s u)"
    "has_stack u s' = has_stack u s" using b u by (simp_all add: buried_def)
  have q: "\<forall>h\<in>heads s. h \<noteq> RunQ (current_kthd s) \<longrightarrow> set (queue_of h s') \<subseteq> set (queue_of h s) \<union> (if h = RecQ (current_kthd s) then {ThdNode t} else {})"
    using b unfolding buried_def by blast
  show "\<forall>c\<in>dom (chans s). chans s' c = chans s c \<and> (queue_of (SendQ c) s = [] \<longrightarrow> queue_of (SendQ c) s' = [])"
  proof (intro ballI conjI impI)
    fix c assume c: "c \<in> dom (chans s)" and e: "queue_of (SendQ c) s = []"
    obtain ch where "chans s c = Some ch" using c by blast
    from bspec [OF q inv_chan(2) [OF i this]] show "queue_of (SendQ c) s' = []" using e by simp
  qed (use b in \<open>simp add: buried_def\<close>)
qed

text \<open>The other child \<open>b\<close> waits to run its end \<open>Q\<close> while \<open>p\<close> joins it: \<open>p\<close> is alone again.\<close>

lemma last_join:
  assumes t: "in_turn (lib w) (ThdNode p # ThdNode b # [])" and f: "frames (lib w) p = []" "frames (lib w) b = []"
    and b: "child p b (lib w)" "b \<noteq> p" "waits_in_dispatch (lib w) b" "ufn (lib w) b \<noteq> None"
    and m: "supplied (lib w)" "graves_ok (lib w)" "stacks_fit (lib w)" "counters (lib w) = (0, 0, 0, 0)"
    and pd: "pend w = (\<lambda>_. None)(p \<mapsto> \<lambda>_. Lib (Join b) (\<lambda>_. R), b \<mapsto> \<lambda>_. Q)"
    and Q: "\<And>w. exec Q F w = exec (Ret r) F (w\<lparr>out := out w @ ms\<rparr>)"
  obtains s where "run F 6 w = Inr (w\<lparr>out := out w @ ms, lib := s, ret := VPtr (val_ptr r), pend := [p \<mapsto> \<lambda>_. R]\<rparr>)" "alone p s"
proof -
  have c: "lwt_current (lib w) = p" using t by (simp add: in_turn_def)
  obtain v s3 y where s3: "lwt_join b (lib w) = Inr (v, s3)" "joined p b (frames (lib w) p) s3"
    "gave_way p b [] y (KRcv p # KJoin b # frames (lib w) p) (lib w) s3"
    "counters s3 = count_block BLOCKED_RECEIVING 1 (counters (lib w))" by (rule join_blocks [OF t b(1,2)])
  have t3: "in_turn s3 (ThdNode b # [])" "lwt_current s3 = b" "frames s3 b = []" "moved (lib w) s3" "mem s3 = mem (lib w)"
    using s3(3) f(2) b(3) by (simp_all add: gave_way_def)
  have "b \<in> dom (thds (lib w))" using in_turn_facts(5) [OF t, of b] by auto
  then have u3: "ufn s3 b \<noteq> None" using moved_ufn [OF t3(4)] t3(2) b(3,4) by simp
  let ?w3 = "w\<lparr>lib := s3, ret := v, pend := (\<lambda>_. None)(p \<mapsto> \<lambda>_. R, b \<mapsto> \<lambda>_. Q)\<rparr>"
  let ?w = "\<lambda>s. w\<lparr>out := out w @ ms, lib := s, ret := VPtr (val_ptr r), pend := [p \<mapsto> \<lambda>_. R]\<rparr>"
  have "world_step F w = Inr ?w3" using c f(1) s3(1) b(2) by (simp add: world_step_def Let_def pd fun_upd_twist)
  then have r3: "run F 1 w = Inr ?w3" by simp
  have st3: "world_step F ?w3 = exec Q F ?w3" using t3(2,3) by (simp add: world_step_def Let_def)
  have l3: "in_turn (lib ?w3) (ThdNode b # [])" "joined p b [] (lib ?w3)" "frames (lib ?w3) b = []" "ufn (lib ?w3) b \<noteq> None"
    "length ([] :: lnode list) \<le> 1" "lib (?w3\<lparr>out := out ?w3 @ ms\<rparr>) = lib ?w3" "pend (?w3\<lparr>out := out ?w3 @ ms\<rparr>) = pend ?w3"
    using t3 s3(2) f(1) u3 by simp_all
  obtain s4 where s4: "run F 5 ?w3 = Inr ((?w3\<lparr>out := out ?w3 @ ms\<rparr>)\<lparr>lib := s4, ret := VPtr (val_ptr r), pend := (pend ?w3)(b := None)\<rparr>)"
    "buried p b [] [] (lib ?w3) s4"
    by (rule last_steps [OF l3(1,2) b(2) l3(5,3,4) Q l3(6,7) st3])
  have "run F 5 ?w3 = Inr (?w s4)" using s4(1) b(2) by (simp add: fun_upd_idem fun_upd_twist)
  from run_then [OF r3 this] have r: "run F 6 w = Inr (?w s4)" by simp
  have "graves_ok s3" by (rule gave_way_graves [OF s3(3) m(2) in_turn_facts(1) [OF t]])
  then have "graves_ok s4" using buried_graves [OF s4(2)] s3(2) in_turn_facts(1) [OF t3(1)] by (simp add: joined_def)
  moreover have "stacks_fit s4" using s4(2) fit_moved [OF t3(4) m(3)] by (simp add: buried_def)
  moreover have "supplied s4" "counters s4 = (0, 0, 0, 0)" using m(1,4) t3(5) s4(2) s3(4) by (simp_all add: supplied_def buried_def)
  ultimately have "alone p s4" using s4(2) by (simp add: alone_def buried_def)
  then show thesis using that r by blast
qed

lemma bounce_ends:
  assumes w: "bouncing p a b 0 (Ret r) Q (\<lambda>_. Lib (Join b) (\<lambda>_. R)) w" and Q: "\<And>w. exec Q F w = exec (Ret r') F (w\<lparr>out := out w @ ms\<rparr>)"
  obtains s where "run F 11 w = Inr (w\<lparr>out := out w @ ms, lib := s, ret := VPtr (val_ptr r'), pend := [p \<mapsto> \<lambda>_. R]\<rparr>)" "alone p s"
proof -
  let ?R = "Lib (Join b) (\<lambda>_. R)"
  have s: "in_turn (lib w) [ThdNode a, ThdNode b]" "duo p a b (lib w)" "frames (lib w) a = []" "frames (lib w) b = []"
    "waits_in_dispatch (lib w) b" "ufn (lib w) a \<noteq> None" "ufn (lib w) b \<noteq> None"
    "pend w = conts p (Some (\<lambda>_. ?R)) a (Some (\<lambda>_. Ret r)) b (Some (\<lambda>_. Q))"
    using w by (simp_all add: bouncing_def bounce_conts_def)
  have d: "p \<noteq> a" "p \<noteq> b" "a \<noteq> b" and dd: "joined p a [] (lib w)" "child p b (lib w)" "supplied (lib w)" "graves_ok (lib w)"
    "stacks_fit (lib w)" "counters (lib w) = count_block BLOCKED_RECEIVING 1 (0, 0, 0, 0)" using s(2) by (simp_all add: duo_def)
  note c = conts_simps [OF d] and i = in_turn_facts(1) [OF s(1)]
  have ca: "lwt_current (lib w) = a" using s(1) by (simp add: in_turn_def)
  have st: "world_step F w = exec (Ret r) F w" using s(3) ca by (simp add: world_step_def Let_def s(8) c)
  obtain s2 where s2: "run F 5 w = Inr (w\<lparr>lib := s2, ret := VPtr (val_ptr r), pend := (pend w)(a := None)\<rparr>)"
    "buried p a [ThdNode b] [] (lib w) s2"
    by (rule last_steps [OF s(1) dd(1) d(1) [symmetric] _ s(3,6) refl refl refl st]) simp
  let ?w2 = "w\<lparr>lib := s2, ret := VPtr (val_ptr r), pend := (\<lambda>_. None)(p \<mapsto> \<lambda>_. ?R, b \<mapsto> \<lambda>_. Q)\<rparr>"
  have r2: "run F 5 w = Inr ?w2" using s2(1) by (simp add: s(8) c) (use d in \<open>simp add: conts_def fun_eq_iff\<close>)
  have t2: "in_turn s2 (ThdNode p # ThdNode b # [])" "frames s2 p = []" "thds s2 b = thds (lib w) b"
    "frames s2 b = []" "ufn s2 b \<noteq> None" "supplied s2" "stacks_fit s2" "counters s2 = (0, 0, 0, 0)"
    using s2(2) d s(4,7) dd(3,5,6) by (simp_all add: buried_def supplied_def)
  have c2: "lwt_current s2 = p" using t2(1) by (simp add: in_turn_def)
  have ch: "child p b s2" by (rule buried_child [OF s2(2) dd(2) d(2,3) [symmetric] i])
  have wb: "waits_in_dispatch s2 b" using s(5) t2(3) c2 ca d by (simp add: waits_in_dispatch_def)
  have g: "graves_ok s2" using buried_graves [OF s2(2) dd(4) _ i] dd(1) by (simp add: joined_def)
  obtain s4 where s4: "run F 6 ?w2 = Inr (?w2\<lparr>out := out ?w2 @ ms, lib := s4, ret := VPtr (val_ptr r'), pend := [p \<mapsto> \<lambda>_. R]\<rparr>)" "alone p s4"
    by (rule last_join [of ?w2 p b R Q F r' ms]) (use t2 ch wb g d Q in simp_all)
  have "run F 6 ?w2 = Inr (w\<lparr>out := out w @ ms, lib := s4, ret := VPtr (val_ptr r'), pend := [p \<mapsto> \<lambda>_. R]\<rparr>)" using s4(1) by simp
  from run_then [OF r2 this] show thesis using that s4(2) by simp
qed

section \<open>Its beginning\<close>

text \<open>Two children of \<open>p\<close>; \<open>p\<close> waits to join the first, which runs, and neither has run before.\<close>

definition two_new :: "ptr \<Rightarrow> ptr \<Rightarrow> ptr \<Rightarrow> ptr \<times> ptr \<Rightarrow> ptr \<times> ptr \<Rightarrow> sys \<Rightarrow> bool" where
  "two_new p a b fa fb s \<longleftrightarrow> in_turn s [ThdNode a, ThdNode b] \<and> duo p a b s \<and> frames s a = [] \<and> ufn s a = Some fa \<and>
     unstarted b s \<and> start_args b s = Some fb"

lemma fork_two:
  assumes a: "alone p s"
  obtains t1 t2 s1 s2 v s3 where "lwt_create fn d1 0 s = Inr (t1, s1)" "lwt_create fn d2 0 s1 = Inr (t2, s2)" "lwt_join t1 s2 = Inr (v, s3)"
    "lwt_current s1 = p" "lwt_current s2 = p" "frames s1 p = []" "frames s2 p = []" "two_new p t1 t2 (fn, d1) (fn, d2) s3"
proof -
  have s: "in_turn s [ThdNode p]" "frames s p = []" "supplied s" "graves_ok s" "stacks_fit s" "counters s = (0, 0, 0, 0)"
    using a by (simp_all add: alone_def)
  have c: "lwt_current s = p" using s(1) by (simp add: in_turn_def)
  obtain t1 s1 where s1: "lwt_create fn d1 0 s = Inr (t1, s1)" "in_turn s1 ([ThdNode p] @ [ThdNode t1])" "supplied s1" "graves_ok s1" "stacks_fit s1"
    "created fn d1 0 s t1 s1" "frames s1 = frames s" "counters s1 = counters s" "lwt_current s1 = lwt_current s" "ThdNode t1 \<notin> set [ThdNode p]"
    "has_stack t1 s1" by (rule create_any [OF s(1,3,4,5)])
  obtain t2 s2 where s2: "lwt_create fn d2 0 s1 = Inr (t2, s2)" "in_turn s2 (([ThdNode p] @ [ThdNode t1]) @ [ThdNode t2])" "supplied s2"
    "graves_ok s2" "stacks_fit s2" "created fn d2 0 s1 t2 s2" "frames s2 = frames s1" "counters s2 = counters s1" "lwt_current s2 = lwt_current s1"
    "\<forall>v. v \<noteq> t2 \<longrightarrow> thds s2 v = thds s1 v" "\<forall>c\<in>dom (chans s1). chans s2 c = chans s1 c"
    "\<forall>c\<in>dom (chans s1). queue_of (SendQ c) s2 = queue_of (SendQ c) s1" "ThdNode t2 \<notin> set ([ThdNode p] @ [ThdNode t1])" "has_stack t2 s2"
    by (rule create_any [OF s1(2-5)])
  have d: "p \<noteq> t1" "p \<noteq> t2" "t1 \<noteq> t2" using s1(10) s2(13) by auto
  have c1: "lwt_current s1 = p" "lwt_current s2 = p" using s1(9) s2(9) c by simp_all
  note u1 = created_unstarted [OF s1(6,11)] and u2 = created_unstarted [OF s2(6,14)]
  have "unstarted t1 s2 \<and> start_args t1 s2 = start_args t1 s1"
    by (rule create_keeps_args [OF s2(1) in_turn_facts(1) [OF s1(2)]])
       (use u1 s1(4-6) in \<open>auto simp: stacks_fit_def created_def\<close>)
  then have ut: "unstarted t1 s2" "start_args t1 s2 = Some (fn, d1)" using u1 by simp_all
  have "has_stack t1 s2" using ut(1) by (simp add: unstarted_def has_stack_def)
  then have ch1: "child p t1 s2"
    by (intro child_kept [OF created_child [OF s1(6) c s1(11)]]) (use s2(10-12) d s1(11) in simp_all)
  have ch2: "child p t2 s2" by (rule created_child [OF s2(6) c1(1) s2(14)])
  have q2: "in_turn s2 (ThdNode p # ThdNode t1 # [ThdNode t2])" using s2(2) by simp
  obtain v s3 y where s3: "lwt_join t1 s2 = Inr (v, s3)" "joined p t1 (frames s2 p) s3"
    "gave_way p t1 [ThdNode t2] y (KRcv p # KJoin t1 # frames s2 p) s2 s3" "counters s3 = count_block BLOCKED_RECEIVING 1 (counters s2)"
    by (rule join_blocks [OF q2 ch1 d(1) [symmetric]])
  have g3: "in_turn s3 [ThdNode t1, ThdNode t2]" "moved s2 s3" "lwt_current s3 = t1" "chans s3 = chans s2" "mem s3 = mem s2" "thds s3 t2 = thds s2 t2"
    using s3(3) d by (simp_all add: gave_way_def)
  have fr: "frames s2 p = []" using s1(7) s2(7) s(2) by simp
  note r1 = first_run [OF g3(2,3)]
  have rq: "\<forall>h\<in>heads s2. queue_of h s3 = remove1 (ThdNode p) (queue_of h s2)" using s3(3) unfolding gave_way_def by blast
  have hs: "has_stack w s3 = has_stack w s2" for w by (rule has_stack_moved [OF g3(2)])
  have "child p t2 s3"
  proof (rule child_kept [OF ch2])
    show "\<forall>c\<in>dom (chans s2). chans s3 c = chans s2 c \<and> (queue_of (SendQ c) s2 = [] \<longrightarrow> queue_of (SendQ c) s3 = [])"
      using rq inv_chan(2) [OF in_turn_facts(1) [OF s2(2)]] g3(4) by auto
  qed (use g3(6) hs in simp_all)
  moreover have "graves_ok s3" by (rule gave_way_graves [OF s3(3) s2(4) in_turn_facts(1) [OF s2(2)]])
  moreover have "stacks_fit s3" by (rule fit_moved [OF g3(2) s2(5)])
  ultimately have "duo p t1 t2 s3"
    using s3(2,4) d s2(3,8) s1(8) s(6) g3(5) fr by (simp add: duo_def supplied_def)
  moreover have "unstarted t2 s3" "start_args t2 s3 = Some (fn, d2)"
    using u2 g3(2,6) hs by (auto simp: unstarted_def has_stack_def start_args_def trampoline_args_def moved_def Let_def)
  ultimately have "two_new p t1 t2 (fn, d1) (fn, d2) s3" using g3(1) r1 ut c1(2) d(1) by (simp add: two_new_def)
  then show thesis using that s1(1) s2(1) s3(1) c1 fr s1(7) s(2) by simp
qed

text \<open>The first yield of each child.\<close>

lemma first_yields:
  assumes t: "two_new p a b fa fb s"
  obtains v1 s1 v2 s2 where "lwt_yield 0 s = Inr (v1, s1)" "lwt_current s1 = b" "frames s1 b = []" "ufn s1 b = Some fb"
    "lwt_yield 0 s1 = Inr (v2, s2)" "in_turn s2 [ThdNode a, ThdNode b]" "duo p a b s2" "frames s2 a = []" "frames s2 b = []"
    "waits_in_dispatch s2 b" "ufn s2 a = Some fa" "ufn s2 b = Some fb"
proof -
  have s: "in_turn s [ThdNode a, ThdNode b]" "duo p a b s" "frames s a = []" "ufn s a = Some fa" "unstarted b s" "start_args b s = Some fb"
    using t by (simp_all add: two_new_def)
  have d: "a \<noteq> b" and ca: "lwt_current s = a" using s(1,2) by (simp_all add: duo_def in_turn_def)
  obtain v1 s1 where y1: "lwt_yield 0 s = Inr (v1, s1)" "in_turn s1 [ThdNode b, ThdNode a]" "duo p a b s1" "moved s s1"
    "\<forall>w. w \<noteq> b \<longrightarrow> frames s1 w = frames s w" "map_option (\<lambda>z. ip (ctx z)) (thds s1 a) = Some RetDispatch"
    using yield_duo [OF s(1,2) refl] by metis
  have c1: "lwt_current s1 = b" using y1(2) by (simp add: in_turn_def)
  have r: "frames s1 b = []" "ufn s1 b = Some fb" using first_run [OF y1(4) c1 _ s(5)] d ca s(6) by simp_all
  have u1: "ufn s1 a = Some fa" using y1(4) c1 d s(4) by (simp add: moved_def Let_def)
  have wa: "waits_in_dispatch s1 a" using y1(6) by (simp add: waits_in_dispatch_def)
  obtain v2 s2 where y2: "lwt_yield 0 s1 = Inr (v2, s2)" "in_turn s2 [ThdNode a, ThdNode b]" "duo p a b s2"
    "frames s2 = frames s1 \<and> ufn s2 = ufn s1" "map_option (\<lambda>z. ip (ctx z)) (thds s2 b) = Some RetDispatch"
    using yield_duo [OF y1(2,3) insert_commute] wa by metis
  have "waits_in_dispatch s2 b" using y2(5) by (simp add: waits_in_dispatch_def)
  then show thesis using that y1(1,5) c1 r y2(1-4) u1 s(3) d by simp
qed

lemma bounce_starts:
  assumes a: "alone p (lib w)" and pd: "pend w = [p \<mapsto> \<kappa>]"
    and k: "exec (\<kappa> (ret w)) F w = exec (create fn d1 (\<lambda>t1. create fn d2 (\<lambda>t2. join t1 (join t2 R)))) F (w\<lparr>out := ms\<rparr>)"
    and fn: "F fn = Some f" "f d1 = (yield_null ^^ Suc m) P" "f d2 = (yield_null ^^ Suc m) Q"
  obtains a b w' where "run F 5 w = Inr w'" "bouncing p a b m P Q (\<lambda>_. Lib (Join b) (\<lambda>_. R)) w'" "out w' = ms" "env w' = env w"
proof -
  have s: "frames (lib w) p = []" "in_turn (lib w) [ThdNode p]" using a by (simp_all add: alone_def)
  have sc: "lwt_current (lib w) = p" using s(2) by (simp add: in_turn_def)
  obtain a b s1 s2 v s3 where c: "lwt_create fn d1 0 (lib w) = Inr (a, s1)" "lwt_create fn d2 0 s1 = Inr (b, s2)" "lwt_join a s2 = Inr (v, s3)"
    "lwt_current s1 = p" "lwt_current s2 = p" "frames s1 p = []" "frames s2 p = []" and n: "two_new p a b (fn, d1) (fn, d2) s3"
    by (rule fork_two [OF assms(1), of fn d1 d2])
  obtain v4 s4 v5 s5 where y: "lwt_yield 0 s3 = Inr (v4, s4)" "lwt_current s4 = b" "frames s4 b = []" "ufn s4 b = Some (fn, d2)"
    "lwt_yield 0 s4 = Inr (v5, s5)" "in_turn s5 [ThdNode a, ThdNode b]" "duo p a b s5" "frames s5 a = []" "frames s5 b = []"
    "waits_in_dispatch s5 b" "ufn s5 a = Some (fn, d1)" "ufn s5 b = Some (fn, d2)" by (rule first_yields [OF n])
  have d: "p \<noteq> a" "p \<noteq> b" "a \<noteq> b" using y(7) by (simp_all add: duo_def)
  have ra: "frames s3 a = []" "ufn s3 a = Some (fn, d1)" "in_turn s3 [ThdNode a, ThdNode b]" using n by (simp_all add: two_new_def)
  have rc: "lwt_current s3 = a" using ra(3) by (simp add: in_turn_def)
  let ?K = "\<lambda>_. Lib (Join b) (\<lambda>_. R)" and ?A = "Some (\<lambda>_. (yield_null ^^ m) P)" and ?B = "Some (\<lambda>_. (yield_null ^^ m) Q)"
  let ?w1 = "w\<lparr>out := ms, lib := s1, ret := VPtr a, pend := [p \<mapsto> \<lambda>v. create fn d2 (\<lambda>t2. join (val_ptr v) (join t2 R))]\<rparr>"
  let ?w2 = "w\<lparr>out := ms, lib := s2, ret := VPtr b, pend := [p \<mapsto> \<lambda>v. join a (join (val_ptr v) R)]\<rparr>"
  let ?w3 = "w\<lparr>out := ms, lib := s3, ret := v, pend := conts p (Some ?K) a None b None\<rparr>"
  let ?w4 = "w\<lparr>out := ms, lib := s4, ret := v4, pend := conts p (Some ?K) a ?A b None\<rparr>"
  let ?w5 = "w\<lparr>out := ms, lib := s5, ret := v5, pend := bounce_conts p a b m P Q ?K\<rparr>"
  note cs = conts_simps [OF d]
  have "world_step F w = Inr ?w1" using s(1) sc pd k c(1) by (simp add: world_step_def create_def ret_ptr_def Let_def)
  moreover have "world_step F ?w1 = Inr ?w2"
    using c(2,4,6) by (simp add: world_step_def create_def ret_ptr_def Let_def val_ptr_def)
  moreover have "world_step F ?w2 = Inr ?w3"
    using c(3,5,7) by (simp add: world_step_def Let_def val_ptr_def join_def cs)
  moreover have "world_step F ?w3 = Inr ?w4"
    using ra(1,2) rc fn y(1) by (simp add: world_step_def Let_def cs(1-6) yield_null_def)
  moreover have "world_step F ?w4 = Inr ?w5"
    using y(2-5) fn by (simp add: world_step_def Let_def cs(1-6) yield_null_def bounce_conts_def)
  ultimately have "run F (Suc (Suc (Suc (Suc (Suc 0))))) w = Inr ?w5" by (simp only: run.simps rbind_Inr)
  then have "run F 5 w = Inr ?w5" by (simp add: eval_nat_numeral)
  moreover have "bouncing p a b m P Q ?K ?w5" using y(6-12) by (simp add: bouncing_def)
  ultimately show thesis using that [of ?w5 a b] by simp
qed

section \<open>The whole test\<close>

text \<open>The statements of a test before its continuation.\<close>

lemma pbind_statements [simp]:
  "pbind (yield_null k) Q = yield_null (pbind k Q)" "pbind (join t k) Q = join t (pbind k Q)"
  "pbind (create fn d K) Q = create fn d (\<lambda>t. pbind (K t) Q)" "pbind (check b k) Q = check b (pbind k Q)"
  "pbind (info i G) Q = info i (\<lambda>n. pbind (G n) Q)" "pbind (IS_RESET k) Q = IS_RESET (pbind k Q)"
  by (simp_all add: yield_null_def join_def create_def check_def info_def IS_RESET_def fun_eq_iff)

lemma pbind_forks:
  "pbind (for_loop n (\<lambda>i _ k. create fn d (\<lambda>t. join t (k ()))) j () (\<lambda>_. P)) Q =
     for_loop n (\<lambda>i _ k. create fn d (\<lambda>t. join t (k ()))) j () (\<lambda>_. pbind P Q)"
  by (induction n arbitrary: j) simp_all

lemma yield_loop: "for_loop n (\<lambda>i _ k. yield_null (k ())) j () (\<lambda>_. P) = (yield_null ^^ n) P"
  by (induction n arbitrary: j) simp_all

lemma yields_then: "(yield_null ^^ n) (yield_null P) = yield_null ((yield_null ^^ n) P)"
  by (induction n) simp_all

definition bounce_end :: "ptr \<Rightarrow> 'g prog" where
  "bounce_end d = (if d = 0 then Say ''[PERF] %5lld <- yield'' (Ret (VPtr 0)) else Ret (VPtr 0))"

lemma fn_bounce_yields: "fn_bounce iter d = (yield_null ^^ Suc (3 + iter)) (bounce_end d)"
  by (simp add: fn_bounce_def repeat_def yield_loop yields_then bounce_end_def numeral_3_eq_3)

text \<open>The second half, from the first \<^verbatim>\<open>lwt_create\<close> of \<^verbatim>\<open>fn_bounce\<close> to the last \<^verbatim>\<open>IS_RESET\<close>.\<close>

lemma bounce_half:
  assumes a: "alone p (lib w)" and pd: "pend w = [p \<mapsto> \<kappa>]"
    and k: "exec (\<kappa> (ret w)) F w = exec (create FN_BOUNCE 1 (\<lambda>t1. create FN_BOUNCE 0 (\<lambda>t2. join t1 (join t2 R)))) F (w\<lparr>out := ms\<rparr>)"
    and F: "F FN_BOUNCE = Some (fn_bounce iter)"
  obtains w' where "run F (5 + (2 * (3 + iter) + 11)) w = Inr w'" "alone p (lib w')" "pend w' = [p \<mapsto> \<lambda>_. R]" "env w' = env w"
    "out w' = ms @ [''[PERF] %5lld <- yield'']"
proof -
  have e: "bounce_end 1 = Ret (VPtr 0)" "\<And>w. exec (bounce_end 0) F w = exec (Ret (VPtr 0)) F (w\<lparr>out := out w @ [''[PERF] %5lld <- yield'']\<rparr>)"
    by (simp_all add: bounce_end_def)
  obtain t1 t2 w1 where w1: "run F 5 w = Inr w1" "bouncing p t1 t2 (3 + iter) (bounce_end 1) (bounce_end 0) (\<lambda>_. Lib (Join t2) (\<lambda>_. R)) w1"
    "out w1 = ms" "env w1 = env w" by (rule bounce_starts [OF a pd k F fn_bounce_yields fn_bounce_yields])
  obtain w2 where w2: "run F (2 * (3 + iter)) w1 = Inr w2" "bouncing p t1 t2 0 (Ret (VPtr 0)) (bounce_end 0) (\<lambda>_. Lib (Join t2) (\<lambda>_. R)) w2"
    "out w2 = ms" "env w2 = env w" using bounce_rounds [OF w1(2) [unfolded e(1)], of F] w1(3,4) by auto
  obtain s where s: "run F 11 w2 = Inr (w2\<lparr>out := out w2 @ [''[PERF] %5lld <- yield''], lib := s, ret := VPtr (val_ptr (VPtr 0)), pend := [p \<mapsto> \<lambda>_. R]\<rparr>)"
    "alone p s" by (rule bounce_ends [OF w2(2) e(2)])
  from run_then [OF w1(1) run_then [OF w2(1) s(1)]] show thesis by (rule that) (use s(2) w2(3,4) in simp_all)
qed

text \<open>
  C16 The performance test of the library passes, for every number of iterations: from any state in which
  its caller is alone, with whatever dead threads to recycle, \<^verbatim>\<open>test_perf\<close> reaches its end after \<open>9 * iter + 22\<close> steps;
  both \<^verbatim>\<open>IS_RESET\<close> assertions hold on the way, both measurements are printed, and the caller is alone again.
\<close>

theorem test_perf_passes:
  assumes "alone p (lib w)" "pend w = [p \<mapsto> \<kappa>]" "\<kappa> (ret w) = pbind (test_perf iter) Q"
    and "F FN_NULL = Some fn_null" "F FN_BOUNCE = Some (fn_bounce iter)"
  shows "\<exists>w' \<kappa>'. run F (9 * iter + 22) w = Inr w' \<and> alone p (lib w') \<and> pend w' = [p \<mapsto> \<kappa>'] \<and> env w' = env w \<and>
    out w' = out w @ [''[PERF] %5lld <- fork/join'', ''[PERF] %5lld <- yield''] \<and> exec (\<kappa>' (ret w')) F w' = exec (Q VVoid) F w'"
proof -
  let ?R = "IS_RESET (Q VVoid)" and ?m = "''[PERF] %5lld <- fork/join''"
  let ?B = "create FN_BOUNCE 1 (\<lambda>t1. create FN_BOUNCE 0 (\<lambda>t2. join t1 (join t2 ?R)))"
  have k: "\<kappa> (ret w) = for_loop iter (\<lambda>i _ k. create FN_NULL 0 (\<lambda>t. join t (k ()))) 0 () (\<lambda>_. Say ?m (IS_RESET ?B))"
    using assms(3) by (simp add: test_perf_def repeat_def pbind_forks)
  obtain s v \<kappa>1 where r: "run F (7 * iter) w = Inr (w\<lparr>lib := s, ret := v, pend := [p \<mapsto> \<kappa>1]\<rparr>)" (is "_ = Inr ?w")
    and a: "alone p s" and v: "\<kappa>1 v = Say ?m (IS_RESET ?B)"
    using fork_join_loop [where fn = FN_NULL and d = 0 and \<kappa> = \<kappa> and w = w and F = F, OF assms(4) fn_null_def assms(1,2) k] by blast
  have "exec (\<kappa>1 (ret ?w)) F ?w = exec (IS_RESET ?B) F (?w\<lparr>out := out w @ [?m]\<rparr>)" using v by simp
  also have "\<dots> = exec ?B F (?w\<lparr>out := out w @ [?m]\<rparr>)" by (rule reset_passes) (use a in simp)
  finally have e: "exec (\<kappa>1 (ret ?w)) F ?w = exec ?B F (?w\<lparr>out := out w @ [?m]\<rparr>)" .
  have a': "alone p (lib ?w)" and pd: "pend ?w = [p \<mapsto> \<kappa>1]" using a by simp_all
  obtain w' where w': "run F (5 + (2 * (3 + iter) + 11)) ?w = Inr w'" "alone p (lib w')" "pend w' = [p \<mapsto> \<lambda>_. ?R]" "env w' = env ?w"
    "out w' = (out w @ [?m]) @ [''[PERF] %5lld <- yield'']" by (rule bounce_half [OF a' pd e assms(5)])
  have "7 * iter + (5 + (2 * (3 + iter) + 11)) = 9 * iter + 22" by simp
  with run_then [OF r w'(1)] have "run F (9 * iter + 22) w = Inr w'" by simp
  with w' show ?thesis using reset_passes [OF w'(2)] by auto
qed

text \<open>After boot, the main thread is alone.\<close>

lemma boot_alone:
  obtains v s p where "reachable (v, s)" "lwt_current s = p" "alone p s"
proof (rule boot_stage)
  fix s t
  assume s: "stage s [ThdNode t]" "lwt_current s = t" "dom (thds s) = {t}" "main_thread (kthds s 0) = t"
    "\<forall>j. j \<noteq> 0 \<longrightarrow> current_thread (kthds s j) = 0 \<and> main_thread (kthds s j) = 0" "current_kthd s = 0"
    "block_counter (kthds s 0) = 0" "zombie_counter (kthds s 0) = 0" "nrcving (kthds s 0) = 0" "nsnding (kthds s 0) = 0"
  obtain v where v: "reachable (v, s)" using s(1) by (auto simp: stage_def)
  have "main_thread (kthds s k) = 0 \<or> main_thread (kthds s k) \<in> dom (thds s)" for k
    using s(3-5) by (cases "k = 0") simp_all
  then have "stacks_fit s" using reachable_stacks_ok [OF v] by (simp add: stacks_fit_def)
  moreover have "graves_ok s" using s(1) by (simp add: stage_def graves_ok_def queue_of_def)
  ultimately have "alone t s" using s by (simp add: stage_def alone_def counters_def)
  then show thesis using that v s(2) by blast
qed

theorem test_perf_passes_witness:
  "\<exists>v s w'. reachable (v, s) \<and> run (test_code 2) 40 (start (pbind (test_perf 2) Ret) test_globals0 s) = Inr w' \<and>
     out w' = [''[PERF] %5lld <- fork/join'', ''[PERF] %5lld <- yield'']"
proof (rule boot_alone)
  fix v s p assume s: "reachable (v, s)" "lwt_current s = p" "alone p s"
  let ?w = "start (pbind (test_perf 2) Ret) test_globals0 s"
  have "alone p (lib ?w)" "pend ?w = [p \<mapsto> \<lambda>_. pbind (test_perf 2) Ret]" "out ?w = []" using s by (simp_all add: start_def)
  moreover have "test_code 2 FN_NULL = Some fn_null" "test_code 2 FN_BOUNCE = Some (fn_bounce 2)" by (simp_all add: test_code_def)
  ultimately have "\<exists>w'. run (test_code 2) (9 * 2 + 22) ?w = Inr w' \<and>
      out w' = [''[PERF] %5lld <- fork/join'', ''[PERF] %5lld <- yield'']"
    using test_perf_passes [of p ?w "\<lambda>_. pbind (test_perf 2) Ret" 2 Ret "test_code 2"] by fastforce
  then show ?thesis using s(1) by auto
qed

end
