(* ===== verification/Lwt_PingPong.thy ===== *)
theory Lwt_PingPong
  imports Lwt_PerfTest
begin

text \<open>
  The loops of \<^verbatim>\<open>test_perf_channels\<close> and \<^verbatim>\<open>fn_chan\<close>: two threads that send words to and fro over two
  channels without buffers. Half of an iteration is one lemma, used for either thread.
\<close>

section \<open>Half of an iteration\<close>

text \<open>\<open>unbuffered c r s\<close>: the channel \<open>c\<close> of the thread \<open>r\<close> has no buffer and is in no group.\<close>

definition unbuffered :: "ptr \<Rightarrow> ptr \<Rightarrow> sys \<Rightarrow> bool" where
  "unbuffered c r s \<longleftrightarrow> local_chan c s \<and>
     map_option (\<lambda>ch. (receiver ch, cgroup ch, chan_size ch)) (chans s c) = Some (r, 0, 0)"

text \<open>
  \<open>x\<close> runs and nobody else can; \<open>y\<close> is blocked in \<^verbatim>\<open>lwt_snd(c, m)\<close> on the channel \<open>c\<close> of \<open>x\<close>; the
  channel \<open>d\<close> of \<open>y\<close> is empty.
\<close>

definition handoff :: "ptr \<Rightarrow> ptr \<Rightarrow> ptr \<Rightarrow> ptr \<Rightarrow> ptr \<Rightarrow> sys \<Rightarrow> bool" where
  "handoff x y c d m s \<longleftrightarrow> on_cpu s [ThdNode x] \<and> lwt_current s = x \<and> x \<noteq> y \<and> c \<noteq> d \<and>
     unbuffered c x s \<and> pending c s = [m] \<and> senders c s = [y] \<and> unbuffered d y s \<and> pending d s = [] \<and>
     frames s x = [] \<and> frames s y = [KSnd] \<and>
     map_option (\<lambda>z. (ip (ctx z), owner_kthd z)) (thds s y) = Some (RetDispatch, current_kthd s)"

lemma unbuffered_ring:
  assumes "unbuffered c r s" "chans s c = Some ch"
  shows "\<not> ring_nonempty (buffer ch)" "\<not> ring_not_full (chan_size ch) (buffer ch)"
  using assms by (auto simp: unbuffered_def local_chan_def ring_ok_def ring_nonempty_def ring_not_full_def)

lemma unbuffered_kept:
  assumes u: "unbuffered c r s" "pending c s = []" and e: "map_option (ready_update (\<lambda>_. k)) (chans s' c) = map_option (ready_update (\<lambda>_. k)) (chans s c)"
    and n: "queue_of (SendQ c) s = [] \<longrightarrow> queue_of (SendQ c) s' = []" and i: "lwt_inv s"
  shows "unbuffered c r s'" "pending c s' = []"
proof -
  obtain ch where ch: "chans s c = Some ch" "receiver ch = r" "cgroup ch = 0" "chan_size ch = 0" "chan_ty ch = LOCAL_CHAN"
    "ring_ok (chan_size ch) (buffer ch)" using u(1) by (auto simp: unbuffered_def local_chan_def split: option.splits)
  have "senders c s = []" using u(2) by (simp add: pending_def)
  then have "queue_of (SendQ c) s' = []" using n inv_senders(1) [OF i ch(1)] by simp
  then have se: "senders c s' = []" by (simp add: senders_def)
  obtain dh where dh: "chans s' c = Some dh" "dh\<lparr>ready := k\<rparr> = ch\<lparr>ready := k\<rparr>" using e ch(1) by (cases "chans s' c") auto
  have k: "receiver dh = r" "cgroup dh = 0" "chan_size dh = 0" "chan_ty dh = LOCAL_CHAN" "buffer dh = buffer ch"
    using arg_cong [OF dh(2), of receiver] arg_cong [OF dh(2), of cgroup] arg_cong [OF dh(2), of chan_size]
      arg_cong [OF dh(2), of chan_ty] arg_cong [OF dh(2), of buffer] ch by simp_all
  show "unbuffered c r s'" using dh(1) k ch(4,6) se by (simp add: unbuffered_def local_chan_def)
  show "pending c s' = []" using dh(1) k ch(4,6) se u(2) ch(1) by (simp add: pending_def buffered_def)
qed

text \<open>\<open>x\<close> has received the word: both threads can run, both channels are empty.\<close>

definition relieved :: "ptr \<Rightarrow> ptr \<Rightarrow> ptr \<Rightarrow> ptr \<Rightarrow> sys \<Rightarrow> bool" where
  "relieved x y c d s \<longleftrightarrow> on_cpu s [ThdNode y, ThdNode x] \<and> lwt_current s = x \<and> x \<noteq> y \<and> c \<noteq> d \<and>
     unbuffered c x s \<and> pending c s = [] \<and> unbuffered d y s \<and> pending d s = [] \<and>
     frames s x = [] \<and> frames s y = [KSnd] \<and>
     map_option (\<lambda>z. (tstate z, ip (ctx z), owner_kthd z)) (thds s y) = Some (LWT_RUNNABLE, RetDispatch, current_kthd s)"

lemma receives:
  assumes h: "handoff x y c d m s"
  obtains s' where "lwt_rcv c s = Inr (VPtr m, s')" "relieved x y c d s'"
proof -
  have cpu: "on_cpu s [ThdNode x]" and x: "lwt_current s = x" "x \<noteq> y" "c \<noteq> d" and uc: "unbuffered c x s" "pending c s = m # []" "senders c s = [y]"
    and ud: "unbuffered d y s" "pending d s = []" and fr: "frames s x = []" "frames s y = [KSnd]"
    using h by (simp_all add: handoff_def)
  obtain z where z: "thds s y = Some z" "ip (ctx z) = RetDispatch" "owner_kthd z = current_kthd s" using h by (auto simp: handoff_def)
  have i: "lwt_inv s" and cx: "lwt_current s \<in> dom (thds s)" using cpu by (auto simp: on_cpu_def)
  obtain u where u: "thds s x = Some u" "owner_kthd u = current_kthd s" using cpu x(1) by (auto simp: on_cpu_def)
  obtain ch where ch: "chans s c = Some ch" "receiver ch = x" "cgroup ch = 0" "chan_size ch = 0" "local_chan c s"
    using uc(1) by (auto simp: unbuffered_def)
  obtain dh where dh: "chans s d = Some dh" "receiver dh = y" "cgroup dh = 0" "chan_size dh = 0" "local_chan d s"
    using ud(1) by (auto simp: unbuffered_def)
  obtain s' where s': "lwt_rcv c s = Inr (VPtr m, s')" "took c ch [] s s'"
    using rcv_direct [OF i ch(5,1) uc(2) cx unbuffered_ring(1) [OF uc(1) ch(1)]] by blast
  have b: "unblocked s s' [y]" "pending c s' = []" "local_chan c s'" "chans s' d = chans s d"
    "map_option (\<lambda>ch. (receiver ch, cgroup ch, chan_size ch)) (chans s' c) = Some (x, 0, 0)"
    using s'(2) uc(3) x(3) ch(2-4) by (auto simp: took_def)
  have e: "lwt_current s' = x" "current_kthd s' = current_kthd s" "frames s' = frames s"
    "thds s' = (thds s)(y := Some (z\<lparr>tstate := LWT_RUNNABLE\<rparr>))"
    "\<And>h. h \<in> heads s \<Longrightarrow> list_foreach h (lists s') = Some (woken y (current_kthd s) (\<lambda>h. queue_of h s) h)"
    using b(1) x(1) z(1) u by (simp_all add: unblocked_def)
  have i': "lwt_inv s'" using lwt_rcv_keeps [OF s'(1)] i by (simp add: lwt_inv_def)
  have "list_foreach (RunQ (current_kthd s)) (lists s') = Some [ThdNode y, ThdNode x]"
    using e(5) [OF heads_current [OF i]] on_cpu_queue [OF cpu] x(2) by (simp add: woken_def)
  then have "on_cpu s' [ThdNode y, ThdNode x]" using i' e(1,2,4) u x(2) by (simp add: on_cpu_def)
  moreover have "queue_of (SendQ d) s = [] \<longrightarrow> queue_of (SendQ d) s' = []"
    using e(5) [OF inv_chan(2) [OF i dh(1)]] by (simp add: queue_of_def woken_def)
  note unbuffered_kept [OF ud _ this i, of 0]
  then have "unbuffered d y s'" "pending d s' = []" using b(4) by simp_all
  ultimately have "relieved x y c d s'" using b e x fr z by (simp add: relieved_def unbuffered_def)
  then show thesis using that s'(1) by blast
qed

text \<open>
  \<open>x\<close> blocks in a send on the channel \<open>d\<close> of \<open>y\<close>, the only other thread in the run queue: \<open>y\<close> runs, as soon
  as it has left the call it may be suspended in.
\<close>

lemma blocks_sending:
  assumes cpu: "on_cpu s q" "remove1 (ThdNode x) q = [ThdNode y]" and x: "lwt_current s = x" "x \<noteq> y" "c \<noteq> d"
    and uc: "unbuffered c x s" "pending c s = []" and ud: "unbuffered d y s" "pending d s = []" and fr: "frames s x = []"
    and z: "thds s y = Some z" "tstate z \<noteq> LWT_BLOCKED" "ip (ctx z) = RetDispatch" "owner_kthd z = current_kthd s"
  obtains v s' where "lwt_snd d n s = Inr (v, s')" "lwt_current s' = y" "frames s' y = frames s y"
    "handoff y x d c n (s'\<lparr>frames := (frames s')(y := [])\<rparr>)"
proof -
  have i: "lwt_inv s" using cpu(1) by (simp add: on_cpu_def)
  obtain u where u: "thds s (lwt_current s) = Some u" "owner_kthd u = current_kthd s" using cpu(1) by (auto simp: on_cpu_def)
  obtain ch where ch: "chans s c = Some ch" using uc(1) by (auto simp: unbuffered_def)
  obtain dh where dh: "chans s d = Some dh" "receiver dh = y" "cgroup dh = 0" "chan_size dh = 0" "local_chan d s"
    using ud(1) by (auto simp: unbuffered_def)
  have "y \<noteq> 0" using i z(1) by (auto elim!: lwt_invE dest: live_nonnull(1))
  then have busy: "receiver_busy d s" using dh(1-3) z(1,2) by (simp add: receiver_busy_def receiver_waits_def group_idle_def)
  have n: "remove1 (ThdNode (lwt_current s)) q = ThdNode y # []" using cpu(2) x(1) by simp
  let ?u = "u\<lparr>message_data := n, tstate := LWT_BLOCKED, block_for := BLOCKED_SENDING\<rparr>"
  obtain v s' where s': "lwt_snd d n s = Inr (v, s')" "pending d s' = pending d s @ [n]" "local_chan d s'"
    "senders d s' = senders d s @ [lwt_current s]" "list_foreach (RunQ (current_kthd s)) (lists s') = Some [ThdNode y]"
    "chans s' = (chans s)(d \<mapsto> dh\<lparr>ready := 1\<rparr>)"
    "\<forall>h\<in>heads s. list_foreach h (lists s') = Some (parked (lwt_current s) BLOCKED_SENDING d (\<lambda>h. queue_of h s) h)"
    "slept s s' y ?u (KSnd # frames s (lwt_current s))"
    using snd_full_effect [OF cpu(1) dh(5) busy dh(1) unbuffered_ring(2) [OF ud(1) dh(1)] n u(1), of n] by blast
  have cy: "lwt_current s \<noteq> y" and w: "waits_in_dispatch s y" using x(1,2) z(1,3) by (simp_all add: waits_in_dispatch_def)
  have cpu': "lwt_current s' = y" "current_kthd s' = current_kthd s" using slept_cpu [OF s'(8)] by simp_all
  have th: "thds s' y = Some (z\<lparr>tstate := LWT_RUNNING\<rparr>)" "frames s' y = frames s y" using slept_new [OF s'(8) cy z(1)] w by simp_all
  have tx: "thds s' x = Some (saved ?u)" "frames s' x = [KSnd]" using slept_old [OF s'(8) cy] x(1) fr by simp_all
  have i': "lwt_inv s'" using lwt_snd_keeps [OF s'(1)] i by (simp add: lwt_inv_def)
  have "queue_of (SendQ c) s = [] \<longrightarrow> queue_of (SendQ c) s' = []"
    using s'(7) inv_chan(2) [OF i ch] x(3) by (simp add: queue_of_def parked_def Let_def)
  note unbuffered_kept [OF uc _ this i, of 0]
  then have uc': "unbuffered c x s'" "pending c s' = []" using s'(6) x(3) by simp_all
  have ud': "unbuffered d y s'" "pending d s' = [n]" "senders d s' = [x]"
    using s'(2-4,6) ud dh x(1) by (simp_all add: unbuffered_def pending_def)
  let ?s = "s'\<lparr>frames := (frames s')(y := [])\<rparr>"
  have se: "senders e ?s = senders e s'" "pending e ?s = pending e s'" for e
    by (simp_all add: senders_def queue_of_def pending_def buffered_def msg_def)
  have un: "unbuffered e t ?s = unbuffered e t s'" for e t unfolding unbuffered_def local_chan_def se(1) by simp
  have "on_cpu ?s [ThdNode y]" using i' s'(5) cpu' th(1) z(4) by (simp add: on_cpu_def lwt_inv_def lwt_current_def)
  moreover have "lwt_current ?s = y" using cpu'(1) by (simp add: lwt_current_def)
  ultimately have "handoff y x d c n ?s"
    using cpu'(2) x th tx uc' ud' u(2) by (simp add: handoff_def se un)
  then show thesis using that s'(1) cpu'(1) th(2) by blast
qed

lemma replies:
  assumes r: "relieved x y c d s"
  obtains v s' where "lwt_snd d n s = Inr (v, s')" "lwt_current s' = y" "frames s' y = [KSnd]" "handoff y x d c n (pop s')"
proof -
  have cpu: "on_cpu s [ThdNode y, ThdNode x]" and x: "lwt_current s = x" "x \<noteq> y" "c \<noteq> d" and uc: "unbuffered c x s" "pending c s = []"
    and ud: "unbuffered d y s" "pending d s = []" and fr: "frames s x = []" "frames s y = [KSnd]"
    using r by (simp_all add: relieved_def)
  obtain z where z: "thds s y = Some z" "tstate z = LWT_RUNNABLE" "ip (ctx z) = RetDispatch" "owner_kthd z = current_kthd s"
    using r by (auto simp: relieved_def)
  have n: "remove1 (ThdNode x) [ThdNode y, ThdNode x] = [ThdNode y]" "tstate z \<noteq> LWT_BLOCKED" using x(2) z(2) by simp_all
  obtain v s' where s': "lwt_snd d n s = Inr (v, s')" "lwt_current s' = y" "frames s' y = frames s y"
    "handoff y x d c n (s'\<lparr>frames := (frames s')(y := [])\<rparr>)"
    by (rule blocks_sending [OF cpu n(1) x uc ud fr(1) z(1) n(2) z(3,4)])
  then show thesis using that fr(2) by (simp add: pop_def)
qed

section \<open>The loops\<close>

text \<open>
  \<open>x\<close> receives \<open>m\<close> and sends \<open>n\<close>, after which it goes on with \<open>K\<close>; \<open>y\<close>, whose send has returned, goes on
  with \<open>P\<close>.
\<close>

lemma half_iteration:
  assumes h: "handoff x y c d m (lib w)" and pd: "pend w = (\<lambda>_. None)(x \<mapsto> \<kappa>, y \<mapsto> \<lambda>_. P)"
    and k: "\<kappa> (ret w) = rcv c G" "\<And>F w. exec (G m) F w = exec (snd_to d n K) F w"
  obtains s where "run F 3 w = Inr (w\<lparr>lib := s, ret := VInt 0, pend := (\<lambda>_. None)(y \<mapsto> \<lambda>_. P, x \<mapsto> \<lambda>_. K)\<rparr>)" "handoff y x d c n s"
proof -
  have x: "lwt_current (lib w) = x" "frames (lib w) x = []" "x \<noteq> y" using h by (simp_all add: handoff_def)
  obtain s1 where s1: "lwt_rcv c (lib w) = Inr (VPtr m, s1)" "relieved x y c d s1" by (rule receives [OF h])
  have x1: "lwt_current s1 = x" "frames s1 x = []" using s1(2) by (simp_all add: relieved_def)
  obtain v s2 where s2: "lwt_snd d n s1 = Inr (v, s2)" "lwt_current s2 = y" "frames s2 y = [KSnd]" "handoff y x d c n (pop s2)"
    by (rule replies [OF s1(2)])
  let ?w1 = "w\<lparr>lib := s1, ret := VPtr m, pend := (\<lambda>_. None)(x \<mapsto> \<lambda>v. G (val_ptr v), y \<mapsto> \<lambda>_. P)\<rparr>"
  let ?w2 = "w\<lparr>lib := s2, ret := v, pend := (\<lambda>_. None)(y \<mapsto> \<lambda>_. P, x \<mapsto> \<lambda>_. K)\<rparr>"
  let ?w3 = "w\<lparr>lib := pop s2, ret := VInt 0, pend := (\<lambda>_. None)(y \<mapsto> \<lambda>_. P, x \<mapsto> \<lambda>_. K)\<rparr>"
  have "world_step F w = Inr ?w1"
    using x s1(1) pd k(1) by (simp add: world_step_def Let_def rcv_def fun_upd_twist)
  moreover have "world_step F ?w1 = exec (snd_to d n K) F ?w1"
    using x1 x(3) k(2) by (simp add: world_step_def Let_def val_ptr_def)
  then have "world_step F ?w1 = Inr ?w2" using s2(1) x1(1) x(3) by (simp add: snd_to_def fun_upd_twist)
  moreover have "world_step F ?w2 = Inr ?w3" using s2(2,3) by (simp add: world_step_def Let_def continue_def)
  ultimately have "run F (Suc (Suc (Suc 0))) w = Inr ?w3" by (simp only: run.simps rbind_Inr)
  then show thesis using that s2(4) by (simp add: numeral_3_eq_3)
qed

lemma repeat_const:
  "repeat 0 (\<lambda>i. B) P = P" "repeat (Suc n) (\<lambda>i. B) P = B (repeat n (\<lambda>i. B) P)"
proof -
  have e: "for_loop n (\<lambda>i (_::unit) r. B (r ())) j () (\<lambda>_. P) = for_loop n (\<lambda>i (_::unit) r. B (r ())) k () (\<lambda>_. P)" for j k
  proof (induction n arbitrary: j k)
    case (Suc n)
    show ?case using Suc [of "Suc j" "Suc k"] by simp
  qed simp
  show "repeat (Suc n) (\<lambda>i. B) P = B (repeat n (\<lambda>i. B) P)" using e [of "Suc 0" 0] by (simp add: repeat_def)
qed (simp add: repeat_def)

text \<open>
  C17 The two loops of \<^verbatim>\<open>test_perf_channels\<close> and \<^verbatim>\<open>fn_chan\<close> run to their ends for every number of iterations.
  The thread \<open>p\<close> is at the head of its loop, with \<open>n + 1\<close> iterations before it; \<open>t\<close> is in the first \<^verbatim>\<open>lwt_snd\<close> of
  its loop. After \<open>6 * n + 4\<close> steps both have left their loops: every word has come to the other side, in turn,
  all assertions have held, both threads can run, and nothing is left on the channels.
\<close>

theorem ping_pong:
  assumes "handoff p t c d 1 (lib w)"
    and "pend w = (\<lambda>_. None)(p \<mapsto> \<kappa>, t \<mapsto> \<lambda>_. rcv d (\<lambda>x. check (x = 2)
      (repeat n (\<lambda>i k. snd_to c 1 (rcv d (\<lambda>x. check (x = 2) k))) Q)))"
    and "\<kappa> (ret w) = repeat (Suc n) (\<lambda>i k. rcv c (\<lambda>x. check (1 = x) (snd_to d 2 k))) P"
  shows "\<exists>w' \<kappa>'. run F (6 * n + 4) w = Inr w' \<and> relieved t p d c (lib w') \<and> pend w' = (\<lambda>_. None)(p \<mapsto> \<lambda>_. P, t \<mapsto> \<kappa>') \<and>
    \<kappa>' (ret w') = Q \<and> out w' = out w \<and> env w' = env w"
  using assms
proof (induction n arbitrary: w \<kappa>)
  case 0
  have k: "\<kappa> (ret w) = rcv c (\<lambda>x. check (1 = x) (snd_to d 2 P))" using 0(3) by (simp only: repeat_const)
  have pd: "pend w = (\<lambda>_. None)(p \<mapsto> \<kappa>, t \<mapsto> \<lambda>_. rcv d (\<lambda>x. check (x = 2) Q))" using 0(2) by (simp only: repeat_const)
  obtain s where s: "run F 3 w = Inr (w\<lparr>lib := s, ret := VInt 0, pend := (\<lambda>_. None)(t \<mapsto> \<lambda>_. rcv d (\<lambda>x. check (x = 2) Q), p \<mapsto> \<lambda>_. P)\<rparr>)"
    (is "_ = Inr ?w") "handoff t p d c 2 s"
    by (rule half_iteration [OF 0(1) pd k, of 2 P]) (simp_all add: check_def)
  have t: "lwt_current s = t" "frames s t = []" "t \<noteq> p" using s(2) by (simp_all add: handoff_def)
  obtain s' where s': "lwt_rcv d s = Inr (VPtr 2, s')" "relieved t p d c s'" by (rule receives [OF s(2)])
  let ?w' = "w\<lparr>lib := s', ret := VPtr 2, pend := (\<lambda>_. None)(p \<mapsto> \<lambda>_. P, t \<mapsto> \<lambda>v. check (val_ptr v = 2) Q)\<rparr>"
  have "world_step F ?w = Inr ?w'" using t s'(1) by (simp add: world_step_def Let_def rcv_def fun_upd_twist)
  then have "run F 1 ?w = Inr ?w'" by simp
  from run_then [OF s(1) this] have r: "run F (6 * 0 + 4) w = Inr ?w'" by simp
  define \<kappa>' :: "val \<Rightarrow> 'a prog" where "\<kappa>' = (\<lambda>v. check (val_ptr v = 2) Q)"
  have "\<kappa>' (ret ?w') = Q" by (simp add: \<kappa>'_def check_def val_ptr_def)
  moreover have "pend ?w' = (\<lambda>_. None)(p \<mapsto> \<lambda>_. P, t \<mapsto> \<kappa>')" by (simp add: \<kappa>'_def)
  moreover have "relieved t p d c (lib ?w')" "out ?w' = out w" "env ?w' = env w" using s'(2) by simp_all
  ultimately show ?case using r by blast
next
  case (Suc n)
  let ?A = "\<lambda>n. repeat n (\<lambda>i k. rcv c (\<lambda>x. check (1 = x) (snd_to d 2 k))) P"
  let ?B = "\<lambda>n. rcv d (\<lambda>x. check (x = 2) (repeat n (\<lambda>i k. snd_to c 1 (rcv d (\<lambda>x. check (x = 2) k))) Q))"
  have k: "\<kappa> (ret w) = rcv c (\<lambda>x. check (1 = x) (snd_to d 2 (?A (Suc n))))" using Suc.prems(3) repeat_const(2) [of "Suc n"] by simp
  obtain s where s: "run F 3 w = Inr (w\<lparr>lib := s, ret := VInt 0, pend := (\<lambda>_. None)(t \<mapsto> \<lambda>_. ?B (Suc n), p \<mapsto> \<lambda>_. ?A (Suc n))\<rparr>)"
    (is "_ = Inr ?w") "handoff t p d c 2 s"
    by (rule half_iteration [OF Suc.prems(1,2) k, of 2 "?A (Suc n)"]) (simp_all add: check_def)
  have h: "handoff t p d c 2 (lib ?w)" and pd: "pend ?w = (\<lambda>_. None)(t \<mapsto> \<lambda>_. ?B (Suc n), p \<mapsto> \<lambda>_. ?A (Suc n))" using s(2) by simp_all
  have k': "(\<lambda>_. ?B (Suc n)) (ret ?w) = rcv d (\<lambda>x. check (x = 2) (snd_to c 1 (?B n)))" by (simp only: repeat_const)
  obtain s' where s': "run F 3 ?w = Inr (?w\<lparr>lib := s', ret := VInt 0, pend := (\<lambda>_. None)(p \<mapsto> \<lambda>_. ?A (Suc n), t \<mapsto> \<lambda>_. ?B n)\<rparr>)"
    (is "_ = Inr ?w'") "handoff p t c d 1 s'"
    by (rule half_iteration [OF h pd k', of 1 "?B n"]) (simp_all add: check_def)
  have h': "handoff p t c d 1 (lib ?w')" and pd': "pend ?w' = (\<lambda>_. None)(p \<mapsto> \<lambda>_. ?A (Suc n), t \<mapsto> \<lambda>_. ?B n)"
    and k2: "(\<lambda>_. ?A (Suc n)) (ret ?w') = ?A (Suc n)" using s'(2) by simp_all
  have n: "6 * Suc n + 4 = 3 + (3 + (6 * n + 4))" by simp
  show ?case unfolding n using Suc.IH [OF h' pd' k2] run_then [OF s(1) run_then [OF s'(1)]] by fastforce
qed

section \<open>A state in which the loops begin\<close>

lemma in_turn_same:
  assumes "in_turn s q" "lwt_inv s'" "lwt_current s' = lwt_current s" "current_kthd s' = current_kthd s"
    "\<forall>h\<in>heads s. list_foreach h (lists s') = list_foreach h (lists s)" "thds s' = thds s"
  shows "in_turn s' q"
proof -
  have "list_foreach (RunQ (current_kthd s)) (lists s') = list_foreach (RunQ (current_kthd s)) (lists s)"
    using assms(5) in_turn_facts(3) [OF assms(1)] by blast
  then show ?thesis using assms unfolding in_turn_def by simp
qed

lemma fresh_unbuffered:
  assumes "new_channel ch 0 r i" "chans s c = Some ch" "cgroup ch = 0" "local_chan c s"
  shows "unbuffered c r s"
  using assms by (simp add: unbuffered_def new_channel_def)

lemma adds_unbuffered:
  assumes t: "in_turn s q" "supplied s"
  obtains c s' where "lwt_chan 0 s = Inr (c, s')" "in_turn s' q" "supplied s'" "unbuffered c (lwt_current s) s'" "pending c s' = []" "chans s c = None"
    "lwt_current s' = lwt_current s" "thds s' = thds s" "frames s' = frames s" "kthds s' = kthds s"
    "\<And>e r. unbuffered e r s \<Longrightarrow> pending e s = [] \<Longrightarrow> unbuffered e r s' \<and> pending e s' = [] \<and> e \<noteq> c"
proof -
  note i = in_turn_facts(1) [OF t(1)]
  have z: "(0::int) \<le> 0" "4 * 0 + 16 \<le> (2::int) ^ 32" "0 \<le> int_max" by (simp_all add: int_max_def)
  obtain c ch s' where s': "lwt_chan 0 s = Inr (c, s')" "lwt_inv s'" "c \<notin> dom (chans s)" "chans s' c = Some ch"
    "new_channel ch 0 (lwt_current s) (chan_counter s)" "local_chan c s'" "pending c s' = []" "cgroup ch = 0" "supplied s'"
    "lwt_current s' = lwt_current s" "current_kthd s' = current_kthd s" "frames s' = frames s"
    "\<forall>h\<in>heads s. list_foreach h (lists s') = list_foreach h (lists s)" "thds s' = thds s" "\<forall>e. e \<noteq> c \<longrightarrow> chans s' e = chans s e"
    using chan_fresh [OF i t(2) z] by blast
  have "unbuffered e r s' \<and> pending e s' = [] \<and> e \<noteq> c" if e: "unbuffered e r s" "pending e s = []" for e r
  proof -
    obtain eh where eh: "chans s e = Some eh" using e(1) by (auto simp: unbuffered_def)
    then have "queue_of (SendQ e) s = [] \<longrightarrow> queue_of (SendQ e) s' = []" using s'(13) inv_chan(2) [OF i] by (simp add: queue_of_def)
    note unbuffered_kept [OF e _ this i, of 0]
    moreover have "e \<noteq> c" using eh s'(3) by auto
    ultimately show ?thesis using s'(15) by simp
  qed
  moreover have "in_turn s' q" by (rule in_turn_same [OF t(1) s'(2,10,11,13,14)])
  moreover have "unbuffered c (lwt_current s) s'" by (rule fresh_unbuffered [OF s'(5,4,8,6)])
  ultimately show thesis using that s' lwt_chan_raw(1) [OF s'(1)] by (simp add: domIff)
qed

lemma handoff_reached:
  obtains s p t c d where "handoff p t c d 1 s"
proof (rule boot_alone)
  fix v0 s0 p assume a: "alone p s0"
  then have s0: "in_turn s0 [ThdNode p]" "frames s0 p = []" "supplied s0" "graves_ok s0" "stacks_fit s0" by (simp_all add: alone_def)
  obtain t s1 where s1: "in_turn s1 ([ThdNode p] @ [ThdNode t])" "supplied s1" "created 1 2 0 s0 t s1" "frames s1 = frames s0" "has_stack t s1"
    by (rule create_any [OF s0(1,3,4,5), of 1 2]) blast
  then have t1: "in_turn s1 [ThdNode p, ThdNode t]" by simp
  obtain c s2 where s2: "in_turn s2 [ThdNode p, ThdNode t]" "supplied s2" "unbuffered c (lwt_current s1) s2" "pending c s2 = []"
    "lwt_current s2 = lwt_current s1" "thds s2 = thds s1" "frames s2 = frames s1" "kthds s2 = kthds s1" by (rule adds_unbuffered [OF t1 s1(2)])
  note i2 = in_turn_facts [OF s2(1)]
  have c2: "lwt_current s2 = p" "p \<noteq> t" using s2(1) i2(2) by (simp_all add: in_turn_def)
  have u2: "unstarted t s2" using created_unstarted [OF s1(3,5)] s2(6,8) by (simp add: unstarted_def created_thds_def)
  obtain v s3 u where y: "lwt_yield 0 s2 = Inr (v, s3)"
    "requeue s2 s3 ((\<lambda>h. queue_of h s2)(RunQ (current_kthd s2) := remove1 (ThdNode (lwt_current s2)) [ThdNode p, ThdNode t] @ [ThdNode (lwt_current s2)]))"
    "hd (remove1 (ThdNode (lwt_current s2)) [ThdNode p, ThdNode t] @ [ThdNode (lwt_current s2)]) = ThdNode u" "switched s2 s3 u"
    using yield_null_effect [OF in_turn_on_cpu [OF s2(1)]] by blast
  have u: "u = t" using y(3) c2 by simp
  have c3: "lwt_current s3 = t" "chans s3 = chans s2" "supplied s3" "frames s3 p = []"
    using y(4) u c2(2) s2(2,7) s1(4) s0(2) by (simp_all add: switched_def supplied_def)
  have t3: "in_turn s3 [ThdNode t, ThdNode p]" using yield_in_turn [OF s2(1)] y(1) by auto
  have f3: "frames s3 t = []" using first_run(1) [OF yield_moved [OF y(1)] c3(1) _ u2] c2 by simp
  obtain x where "thds s2 p = Some x" using i2(5) [of p] by auto
  then have w3: "map_option (\<lambda>x. ip (ctx x)) (thds s3 p) = Some RetDispatch" using y(4) u c2 by (simp add: switched_def dispatched_def)
  obtain ch where ch: "chans s2 c = Some ch" using s2(3) by (auto simp: unbuffered_def)
  have "queue_of (SendQ c) s2 = [] \<longrightarrow> queue_of (SendQ c) s3 = []"
    using y(2) inv_chan(2) [OF i2(1) ch] by (simp add: requeue_def queue_of_def)
  note unbuffered_kept [OF s2(3,4) _ this i2(1), of 0]
  then have uc3: "unbuffered c p s3" "pending c s3 = []" using c3(2) c2(1) s2(5) by simp_all
  obtain d s4 where s4: "in_turn s4 [ThdNode t, ThdNode p]" "unbuffered d (lwt_current s3) s4" "pending d s4 = []"
    "lwt_current s4 = lwt_current s3" "thds s4 = thds s3" "frames s4 = frames s3"
    and keep: "\<And>e r. unbuffered e r s3 \<Longrightarrow> pending e s3 = [] \<Longrightarrow> unbuffered e r s4 \<and> pending e s4 = [] \<and> e \<noteq> d"
    by (rule adds_unbuffered [OF t3 c3(3)]) blast
  note i4 = in_turn_facts [OF s4(1)]
  have c4: "lwt_current s4 = t" "t \<noteq> p" "d \<noteq> c" "unbuffered d t s4" "unbuffered c p s4" "pending c s4 = []"
    using s4(2,4) c3(1) c2(2) keep [OF uc3] by simp_all
  obtain z where z: "thds s4 p = Some z" "owner_kthd z = current_kthd s4" using i4(5) [of p] by auto
  obtain D where i0: "inv_but True {} {} {} {} (heads s4) D (\<lambda>h. queue_of h s4) s4" by (rule lwt_invE [OF i4(1)])
  have zb: "tstate z \<noteq> LWT_BLOCKED" using queued_runnable [OF i0 i4(3) _ z(1)] i4(4) by auto
  have n: "remove1 (ThdNode t) [ThdNode t, ThdNode p] = [ThdNode p]" "frames s4 t = []" "ip (ctx z) = RetDispatch"
    using s4(5,6) f3 w3 z(1) by simp_all
  obtain v s5 where "handoff p t c d 1 (s5\<lparr>frames := (frames s5)(p := [])\<rparr>)"
    by (rule blocks_sending [OF in_turn_on_cpu [OF s4(1)] n(1) c4(1-4) s4(3) c4(5,6) n(2) z(1) zb n(3) z(2)])
  then show thesis by (rule that)
qed

theorem ping_pong_witness:
  "\<exists>s p t c d w'. handoff p t c d 1 s \<and> relieved t p d c (lib w') \<and>
     run (test_code 3) 16 \<lparr>lib = s, ret = VVoid,
       pend = (\<lambda>_. None)(p \<mapsto> \<lambda>_. repeat 3 (\<lambda>i k. rcv c (\<lambda>x. check (1 = x) (snd_to d 2 k))) (Ret VVoid),
         t \<mapsto> \<lambda>_. rcv d (\<lambda>x. check (x = 2) (repeat 2 (\<lambda>i k. snd_to c 1 (rcv d (\<lambda>x. check (x = 2) k))) (Ret VVoid)))),
       env = test_globals0, out = []\<rparr> = Inr w'"
proof (rule handoff_reached)
  fix s p t c d assume h: "handoff p t c d 1 s"
  let ?w = "\<lparr>lib = s, ret = VVoid,
       pend = (\<lambda>_. None)(p \<mapsto> \<lambda>_. repeat 3 (\<lambda>i k. rcv c (\<lambda>x. check (1 = x) (snd_to d 2 k))) (Ret VVoid),
         t \<mapsto> \<lambda>_. rcv d (\<lambda>x. check (x = 2) (repeat 2 (\<lambda>i k. snd_to c 1 (rcv d (\<lambda>x. check (x = 2) k))) (Ret VVoid)))),
       env = test_globals0, out = []\<rparr>"
  have "handoff p t c d 1 (lib ?w)" using h by simp
  moreover have "(\<lambda>_. repeat 3 (\<lambda>i k. rcv c (\<lambda>x. check (1 = x) (snd_to d 2 k))) (Ret VVoid)) (ret ?w) =
      repeat (Suc 2) (\<lambda>i k. rcv c (\<lambda>x. check (1 = x) (snd_to d 2 k))) (Ret VVoid)" by (simp add: eval_nat_numeral)
  ultimately obtain w' where "run (test_code 3) (6 * 2 + 4) ?w = Inr w'" "relieved t p d c (lib w')"
    using ping_pong [of p t c d ?w _ 2 "Ret VVoid" "Ret VVoid" "test_code 3"] by auto
  then show ?thesis using h by (intro exI) auto
qed

end
