(* ===== verification/Sl_Mutex.thy ===== *)
theory Sl_Mutex
  imports Lwt_Prelude
begin

text \<open>
  Locks built from compare-and-swap. Participants run in any interleaving: a schedule is
  the list of who takes the next step, a step works on the shared lock word and on the
  participant's own program counter. The locale \<open>mutex\<close> states what a lock's steps
  promise one at a time (\<open>named i w\<close>: the lock word \<open>w\<close> names \<open>i\<close> as the owner); mutual exclusion and the absence of deadlock under every
  schedule follow. The first lock is the spin lock of \<^verbatim>\<open>lwt.h\<close>.
\<close>

section \<open>Interleavings\<close>

fun interleave :: "('i \<Rightarrow> 'w \<times> 'p \<Rightarrow> 'w \<times> 'p) \<Rightarrow> 'i list \<Rightarrow> 'w \<times> ('i \<Rightarrow> 'p) \<Rightarrow> 'w \<times> ('i \<Rightarrow> 'p)" where
  "interleave run [] c = c"
| "interleave run (i # is) (w, ps) = (let (w', p') = run i (w, ps i) in interleave run is (w', ps(i := p')))"

lemma interleave_append: "interleave run (is @ js) c = interleave run js (interleave run is c)"
  by (induction run "is" c rule: interleave.induct) (simp_all split: prod.split)

text \<open>A participant that runs alone for \<open>n\<close> steps.\<close>

lemma interleave_solo:
  "interleave run (replicate n i) (w, ps) =
     (fst ((run i ^^ n) (w, ps i)), ps(i := snd ((run i ^^ n) (w, ps i))))"
proof (induction n arbitrary: w ps)
  case (Suc n)
  obtain w' p' where r: "run i (w, ps i) = (w', p')" by fastforce
  then show ?case using Suc.IH [of w' "ps(i := p')"]
    by (simp add: funpow_Suc_right del: funpow.simps fun_upd_apply) (simp add: fun_upd_same)
qed simp

section \<open>The contract of a lock\<close>

locale mutex =
  fixes run :: "'i \<Rightarrow> 'w \<times> 'p \<Rightarrow> 'w \<times> 'p" and who :: "'i set"
    and unlocked :: "'w \<Rightarrow> bool" and named :: "'i \<Rightarrow> 'w \<Rightarrow> bool" and holds :: "'p \<Rightarrow> bool"
    and trying :: "'p \<Rightarrow> bool" and ok :: "'i \<Rightarrow> 'p \<Rightarrow> bool"
  assumes ok_step: "i \<in> who \<Longrightarrow> ok i p \<Longrightarrow> run i (w, p) = (w', p') \<Longrightarrow> (named i w \<Longrightarrow> holds p) \<Longrightarrow> ok i p'"
    and named_self: "i \<in> who \<Longrightarrow> ok i p \<Longrightarrow> run i (w, p) = (w', p') \<Longrightarrow> (named i w \<Longrightarrow> holds p) \<Longrightarrow> named i w' \<Longrightarrow> holds p'"
    and named_other: "i \<in> who \<Longrightarrow> ok i p \<Longrightarrow> run i (w, p) = (w', p') \<Longrightarrow> j \<in> who \<Longrightarrow> j \<noteq> i \<Longrightarrow> named j w' \<Longrightarrow> named j w"
    and enters: "i \<in> who \<Longrightarrow> ok i p \<Longrightarrow> run i (w, p) = (w', p') \<Longrightarrow> \<not> holds p \<Longrightarrow> holds p' \<Longrightarrow>
      unlocked w \<and> \<not> unlocked w'"
    and leaves: "i \<in> who \<Longrightarrow> ok i p \<Longrightarrow> run i (w, p) = (w', p') \<Longrightarrow> holds p \<Longrightarrow> \<not> holds p' \<Longrightarrow> unlocked w'"
    and stays: "i \<in> who \<Longrightarrow> ok i p \<Longrightarrow> run i (w, p) = (w', p') \<Longrightarrow> holds p' = holds p \<Longrightarrow> unlocked w' = unlocked w"
    and gets_in: "i \<in> who \<Longrightarrow> ok i p \<Longrightarrow> trying p \<Longrightarrow> unlocked w \<Longrightarrow> \<exists>n. holds (snd ((run i ^^ n) (w, p)))"
    and gets_out: "i \<in> who \<Longrightarrow> ok i p \<Longrightarrow> holds p \<Longrightarrow> \<exists>n. \<not> holds (snd ((run i ^^ n) (w, p)))"
    and trying_out: "trying p \<Longrightarrow> \<not> holds p"
begin

definition safe :: "'w \<times> ('i \<Rightarrow> 'p) \<Rightarrow> bool" where
  "safe c \<longleftrightarrow> (\<forall>i\<in>who. ok i (snd c i) \<and> (named i (fst c) \<longrightarrow> holds (snd c i))) \<and> (\<forall>i. i \<notin> who \<longrightarrow> \<not> holds (snd c i)) \<and>
     (unlocked (fst c) \<longleftrightarrow> (\<forall>i. \<not> holds (snd c i))) \<and> (\<forall>i j. holds (snd c i) \<longrightarrow> holds (snd c j) \<longrightarrow> i = j)"

lemma safe_step:
  assumes s: "safe (w, ps)" and i: "i \<in> who" and r: "run i (w, ps i) = (w', p')"
  shows "safe (w', ps(i := p'))"
proof -
  have o: "ok i (ps i)" "named i w \<Longrightarrow> holds (ps i)" and free: "unlocked w \<longleftrightarrow> (\<forall>j. \<not> holds (ps j))"
    and one: "\<And>j k. holds (ps j) \<Longrightarrow> holds (ps k) \<Longrightarrow> j = k"
    using s i by (auto simp: safe_def)
  have o': "ok i p'" "named i w' \<Longrightarrow> holds p'"
    using ok_step [OF i o(1) r] named_self [OF i o(1) r] o(2) by blast+
  have n: "named j w' \<Longrightarrow> holds (ps j)" if "j \<in> who" "j \<noteq> i" for j
    using named_other [OF i o(1) r that] s that(1) by (auto simp: safe_def)
  have rest: "\<forall>j\<in>who. ok j ((ps(i := p')) j) \<and> (named j w' \<longrightarrow> holds ((ps(i := p')) j))" "\<forall>j. j \<notin> who \<longrightarrow> \<not> holds ((ps(i := p')) j)"
    using s i o' n by (auto simp: safe_def)
  have h: "holds ((ps(i := p')) j) \<longleftrightarrow> (if j = i then holds p' else holds (ps j))" for j by simp
  have "(unlocked w' \<longleftrightarrow> (\<forall>j. \<not> holds ((ps(i := p')) j))) \<and>
    (\<forall>j k. holds ((ps(i := p')) j) \<longrightarrow> holds ((ps(i := p')) k) \<longrightarrow> j = k)"
  proof (cases "holds (ps i)"; cases "holds p'")
    assume "holds (ps i)" "holds p'"
    then show ?thesis using stays [OF i o(1) r] free one unfolding h by metis
  next
    assume "\<not> holds (ps i)" "\<not> holds p'"
    then show ?thesis using stays [OF i o(1) r] free one unfolding h by metis
  next
    assume "\<not> holds (ps i)" "holds p'"
    then show ?thesis using enters [OF i o(1) r] free unfolding h by metis
  next
    assume "holds (ps i)" "\<not> holds p'"
    then show ?thesis using leaves [OF i o(1) r] one unfolding h by metis
  qed
  then show ?thesis using rest unfolding safe_def fst_conv snd_conv by blast
qed

lemma safe_interleave: "safe c \<Longrightarrow> set is \<subseteq> who \<Longrightarrow> safe (interleave run is c)"
proof (induction "is" arbitrary: c)
  case (Cons i "is")
  obtain w ps where c: "c = (w, ps)" by fastforce
  obtain w' p' where r: "run i (w, ps i) = (w', p')" by fastforce
  have "safe (w', ps(i := p'))" using safe_step [of w ps i w' p'] r Cons.prems c by simp
  then show ?case using Cons.IH Cons.prems(2) c r by simp
qed simp

lemma named_holds:
  "safe c \<Longrightarrow> set is \<subseteq> who \<Longrightarrow> i \<in> who \<Longrightarrow> named i (fst (interleave run is c)) \<Longrightarrow> holds (snd (interleave run is c) i)"
  using safe_interleave [of c "is"] by (simp add: safe_def)

lemma exclusion:
  "safe c \<Longrightarrow> set is \<subseteq> who \<Longrightarrow> holds (snd (interleave run is c) i) \<Longrightarrow> holds (snd (interleave run is c) j) \<Longrightarrow> i = j"
  using safe_interleave [of c "is"] by (auto simp: safe_def)

text \<open>A participant that tries gets in once the holder, if any, has run alone until it is out.\<close>

lemma no_deadlock:
  assumes s: "safe (w, ps)" and i: "i \<in> who" "trying (ps i)"
  shows "\<exists>is. set is \<subseteq> who \<and> holds (snd (interleave run is (w, ps)) i)"
proof -
  have solo: "\<exists>is. set is \<subseteq> who \<and> holds (snd (interleave run is (w1, qs)) i)" if q: "safe (w1, qs)" "qs i = ps i" "unlocked w1" for w1 qs
  proof -
    have "ok i (ps i)" using q(1,2) i(1) by (auto simp: safe_def)
    then obtain n where "holds (snd ((run i ^^ n) (w1, qs i)))" using gets_in [OF i(1) _ i(2) q(3)] q(2) by auto
    then show ?thesis using i(1) by (intro exI [of _ "replicate n i"]) (auto simp: interleave_solo)
  qed
  show ?thesis
  proof (cases "unlocked w")
    case True
    then show ?thesis using solo s by blast
  next
    case False
    then obtain j where j: "holds (ps j)" "j \<in> who" using s by (auto simp: safe_def)
    then have "ok j (ps j)" using s by (auto simp: safe_def)
    then obtain n where n: "\<not> holds (snd ((run j ^^ n) (w, ps j)))" using gets_out [OF j(2) _ j(1)] by blast
    obtain w1 qs where q: "interleave run (replicate n j) (w, ps) = (w1, qs)" by fastforce
    have ij: "i \<noteq> j" using i(2) j(1) trying_out by auto
    have e: "qs = ps(j := snd ((run j ^^ n) (w, ps j)))" using q by (simp add: interleave_solo)
    have s1: "safe (w1, qs)" using safe_interleave [OF s, of "replicate n j"] j(2) q
      by (metis set_replicate_conv_if empty_subsetI insert_subset)
    have "\<not> holds (qs k)" for k using s j(1) n unfolding e safe_def by (cases "k = j") auto
    then have "unlocked w1" using s1 by (auto simp: safe_def)
    then obtain "is" where "set is \<subseteq> who" "holds (snd (interleave run is (w1, qs)) i)"
      using solo [OF s1] ij e by auto
    then show ?thesis
      using j(2) q by (intro exI [of _ "replicate n j @ is"]) (auto simp: interleave_append)
  qed
qed

end

section \<open>Compare-and-swap and the spin lock\<close>

text \<open>\<^verbatim>\<open>ps_cas\<close>: atomically, if the word is \<open>old\<close> it becomes \<open>new\<close>; the flag is the return value.\<close>

definition ps_cas :: "'w \<Rightarrow> 'w \<Rightarrow> 'w \<Rightarrow> bool \<times> 'w" where
  "ps_cas w old new = (if w = old then (True, new) else (False, w))"

lemma ps_cas_simps [simp]: "ps_cas w w new = (True, new)" "w \<noteq> old \<Longrightarrow> ps_cas w old new = (False, w)"
  by (simp_all add: ps_cas_def)

text \<open>Where a caller of \<^verbatim>\<open>cas_lock\<close> and \<^verbatim>\<open>cas_unlock\<close> is.\<close>

datatype spin_pc = Rest | Spin | Held

fun spin_run :: "'i \<Rightarrow> int \<times> spin_pc \<Rightarrow> int \<times> spin_pc" where
  "spin_run i (c, Rest) = (c, Spin)"
| "spin_run i (c, Spin) = (case ps_cas c 0 1 of (ok, c') \<Rightarrow> (c', if \<not> ok then Spin else Held))"
| "spin_run i (c, Held) = (0, Rest)"

interpretation spin: mutex spin_run UNIV "\<lambda>c. c = 0" "\<lambda>_ _. False" "\<lambda>p. p = Held" "\<lambda>p. p = Spin" "\<lambda>_ _. True"
proof
  fix i :: 'a and w w' :: int and p p'
  assume "spin_run i (w, p) = (w', p')"
  then show "p \<noteq> Held \<Longrightarrow> p' = Held \<Longrightarrow> w = 0 \<and> w' \<noteq> 0" "p = Held \<Longrightarrow> p' \<noteq> Held \<Longrightarrow> w' = 0"
    "(p' = Held) = (p = Held) \<Longrightarrow> (w' = 0) = (w = 0)"
    by (cases p; auto simp: ps_cas_def split: if_splits)+
next
  fix i :: 'a and w :: int and p
  show "p = Spin \<Longrightarrow> w = 0 \<Longrightarrow> \<exists>n. snd ((spin_run i ^^ n) (w, p)) = Held" by (intro exI [of _ 1]) simp
  show "p = Held \<Longrightarrow> \<exists>n. snd ((spin_run i ^^ n) (w, p)) \<noteq> Held" by (intro exI [of _ 1]) simp
qed auto

text \<open>
  The spin lock \<^verbatim>\<open>cas_lock\<close>/\<^verbatim>\<open>cas_unlock\<close> excludes: with the lock free at the start and
  nobody inside, no schedule brings two of any number of callers inside together; and
  from every state so reached, a caller that spins can still get in.
\<close>

theorem spin_lock_excludes:
  "(snd (interleave spin_run is (0, \<lambda>_. Rest)) i = Held \<longrightarrow> snd (interleave spin_run is (0, \<lambda>_. Rest)) j = Held \<longrightarrow> i = j) \<and>
   (snd (interleave spin_run is (0, \<lambda>_. Rest)) i = Spin \<longrightarrow>
     (\<exists>js. snd (interleave spin_run (is @ js) (0, \<lambda>_. Rest)) i = Held))"
proof -
  have s: "spin.safe (0, \<lambda>_. Rest)" by (simp add: spin.safe_def)
  obtain w ps where c: "interleave spin_run is (0, \<lambda>_. Rest) = (w, ps)" by fastforce
  have "spin.safe (w, ps)" using spin.safe_interleave [OF s, of "is"] c by simp
  then have "ps i = Spin \<Longrightarrow> \<exists>js. snd (interleave spin_run js (w, ps)) i = Held" using spin.no_deadlock [of w ps i] by simp
  moreover have "ps i = Held \<Longrightarrow> ps j = Held \<Longrightarrow> i = j" using spin.exclusion [OF s, of "is" i j] unfolding c snd_conv by blast
  ultimately show ?thesis unfolding interleave_append c snd_conv by blast
qed

theorem spin_lock_excludes_witness:
  "snd (interleave spin_run [1, 2, 1, 2, 2] (0, \<lambda>_. Rest)) (1::nat) = Held \<and>
   snd (interleave spin_run [1, 2, 1, 2, 2] (0, \<lambda>_. Rest)) (2::nat) = Spin \<and>
   (\<exists>js. snd (interleave spin_run ([1, 2, 1, 2, 2] @ js) (0, \<lambda>_. Rest)) (2::nat) = Held)"
proof -
  have "snd (interleave spin_run [1, 2, 1, 2, 2] (0, \<lambda>_. Rest)) (1::nat) = Held"
    "snd (interleave spin_run [1, 2, 1, 2, 2] (0, \<lambda>_. Rest)) (2::nat) = Spin"
    by (simp_all add: ps_cas_def)
  then show ?thesis using spin_lock_excludes [of "[1, 2, 1, 2, 2]" "2::nat" 2] by blast
qed

end
