(* ===== verification/Sl_Lock.thy ===== *)
theory Sl_Lock
  imports Sl_Mutex "HOL-Library.Word"
begin

text \<open>
  The critical section of the scheduler library (\<^verbatim>\<open>sl_cs_enter\<close>, \<^verbatim>\<open>sl_cs_exit\<close> in
  \<^verbatim>\<open>sl.h\<close> and their contended halves in \<^verbatim>\<open>sl.c\<close>): one lock word that holds the owner
  and a contention bit, worked on by kernel threads in any interleaving.
\<close>

unbundle bit_operations_syntax

section \<open>The lock word\<close>

text \<open>
  \<^verbatim>\<open>union sl_cs_intern\<close>: \<^verbatim>\<open>owner:31\<close> in the low bits and \<^verbatim>\<open>contention:1\<close> on top, as the
  compilers of the 32-bit target lay bit fields out; \<^verbatim>\<open>v\<close> is the whole word.
\<close>

type_synonym csword = "32 word"
type_synonym thdcap = "32 word"

definition cs_owner :: "csword \<Rightarrow> thdcap" where
  "cs_owner v = take_bit 31 v"

definition cs_contention :: "csword \<Rightarrow> bool" where
  "cs_contention v = bit v 31"

definition cs_set_owner :: "thdcap \<Rightarrow> csword \<Rightarrow> csword" where
  "cs_set_owner t v = (v AND NOT (mask 31)) OR take_bit 31 t"

definition cs_set_contention :: "csword \<Rightarrow> csword" where
  "cs_set_contention v = set_bit 31 v"

text \<open>A capability that the owner field can hold and that is not the mark of a free lock.\<close>

definition cap_ok :: "thdcap \<Rightarrow> bool" where
  "cap_ok t \<longleftrightarrow> t \<noteq> 0 \<and> take_bit 31 t = t"

lemma owner_set_owner [simp]: "cs_owner (cs_set_owner t v) = take_bit 31 t"
  by (rule bit_word_eqI) (auto simp: cs_owner_def cs_set_owner_def bit_simps)

lemma owner_set_contention [simp]: "cs_owner (cs_set_contention v) = cs_owner v"
  by (rule bit_word_eqI) (auto simp: cs_owner_def cs_set_contention_def bit_simps)

lemma contention_set_owner [simp]: "cs_contention (cs_set_owner t v) = cs_contention v"
  by (auto simp: cs_contention_def cs_set_owner_def bit_simps)

lemma contention_set_contention [simp]: "cs_contention (cs_set_contention v)"
  by (simp add: cs_contention_def cs_set_contention_def bit_simps)

lemma zero_word [simp]: "cs_owner 0 = 0" "\<not> cs_contention 0"
  by (simp_all add: cs_owner_def cs_contention_def)

section \<open>The steps of a kernel thread\<close>

text \<open>
  Where a thread is; \<open>csi\<close> and \<open>cached\<close> are its two local copies of the lock word. The
  switches \<^verbatim>\<open>cos_defswitch\<close> hand the processor to another thread, which the interleaving
  covers; they leave the lock word alone. \<open>Recursive\<close>: the assertion against taking the
  lock twice has failed.
\<close>

datatype cs_pc = Outside | Enter_Sync | Enter_Contention csword csword | Enter_Switch | Enter_Cas csword csword
  | Inside | Exit_Sync | Exit_Contention csword | Exit_Switch | Exit_Cas csword | Recursive

fun cs_run :: "thdcap \<Rightarrow> csword \<times> cs_pc \<Rightarrow> csword \<times> cs_pc" where
  "cs_run t (v, Outside) = (v, Enter_Sync)"
| "cs_run t (v, Enter_Sync) =
     (if cs_owner v \<noteq> 0 then (v, Enter_Contention v v) else (v, Enter_Cas (cs_set_owner t v) v))"
| "cs_run t (v, Enter_Contention csi cached) =
     (if cs_owner csi = t then (v, Recursive)
      else if \<not> cs_contention csi then
        (case ps_cas v cached (cs_set_contention csi) of (ok, v') \<Rightarrow> (v', if \<not> ok then Enter_Sync else Enter_Switch))
      else (v, Enter_Switch))"
| "cs_run t (v, Enter_Switch) = (v, Enter_Sync)"
| "cs_run t (v, Enter_Cas csi cached) =
     (case ps_cas v cached csi of (ok, v') \<Rightarrow> (v', if \<not> ok then Enter_Sync else Inside))"
| "cs_run t (v, Inside) = (v, Exit_Sync)"
| "cs_run t (v, Exit_Sync) = (v, if cs_contention v then Exit_Contention v else Exit_Cas v)"
| "cs_run t (v, Exit_Contention cached) =
     (case ps_cas v cached 0 of (ok, v') \<Rightarrow> (v', if \<not> ok then Exit_Sync else Exit_Switch))"
| "cs_run t (v, Exit_Switch) = (v, Outside)"
| "cs_run t (v, Exit_Cas cached) =
     (case ps_cas v cached 0 of (ok, v') \<Rightarrow> (v', if \<not> ok then Exit_Sync else Outside))"
| "cs_run t (v, Recursive) = (v, Recursive)"

fun cs_holds :: "cs_pc \<Rightarrow> bool" where
  "cs_holds Inside \<longleftrightarrow> True"
| "cs_holds Exit_Sync \<longleftrightarrow> True"
| "cs_holds (Exit_Contention c) \<longleftrightarrow> True"
| "cs_holds (Exit_Cas c) \<longleftrightarrow> True"
| "cs_holds _ \<longleftrightarrow> False"

fun cs_trying :: "cs_pc \<Rightarrow> bool" where
  "cs_trying Enter_Sync \<longleftrightarrow> True"
| "cs_trying (Enter_Contention csi c) \<longleftrightarrow> True"
| "cs_trying Enter_Switch \<longleftrightarrow> True"
| "cs_trying (Enter_Cas csi c) \<longleftrightarrow> True"
| "cs_trying _ \<longleftrightarrow> False"

text \<open>What the local copies satisfy.\<close>

fun cs_ok :: "thdcap \<Rightarrow> cs_pc \<Rightarrow> bool" where
  "cs_ok t (Enter_Contention csi cached) \<longleftrightarrow> csi = cached \<and> cs_owner cached \<noteq> 0 \<and> cs_owner cached \<noteq> t"
| "cs_ok t (Enter_Cas csi cached) \<longleftrightarrow> csi = cs_set_owner t cached \<and> cs_owner cached = 0"
| "cs_ok t (Exit_Cas cached) \<longleftrightarrow> \<not> cs_contention cached"
| "cs_ok t Recursive \<longleftrightarrow> False"
| "cs_ok t _ \<longleftrightarrow> True"

lemma cap_ok_owner: "cap_ok t \<Longrightarrow> take_bit 31 t = t" "cap_ok t \<Longrightarrow> t \<noteq> 0"
  by (simp_all add: cap_ok_def)

section \<open>A thread running alone\<close>

text \<open>
  Entering and leaving with nobody interfering. A thread that finds the lock taken by
  another keeps switching to the owner until the owner has left: alone it never gets in.
\<close>

definition cs_enter :: "thdcap \<Rightarrow> csword \<Rightarrow> csword res" where
  "cs_enter t v = (if cs_owner v = 0 then Inr (cs_set_owner t v)
     else if cs_owner v = t then Inl AssertFailed else Inl Diverges)"

text \<open>The new lock word, and whether the way out was the contended one.\<close>

definition cs_exit :: "csword \<Rightarrow> csword \<times> bool" where
  "cs_exit v = (0, cs_contention v)"

lemma cs_enter_alone: "cs_enter t v = Inr w \<Longrightarrow> (cs_run t ^^ 3) (v, Outside) = (w, Inside)"
  by (auto simp: cs_enter_def numeral_3_eq_3 split: if_splits)

lemma cs_enter_recursive: "cs_owner v \<noteq> 0 \<Longrightarrow> cs_enter t v = Inl AssertFailed \<longleftrightarrow> (cs_run t ^^ 3) (v, Outside) = (v, Recursive)"
  by (auto simp: cs_enter_def numeral_3_eq_3 ps_cas_def split: if_splits)

lemma cs_exit_alone: "cs_exit v = (w, c) \<Longrightarrow> (cs_run t ^^ 3) (v, Inside) = (w, if c then Exit_Switch else Outside)"
  by (auto simp: cs_exit_def numeral_3_eq_3)

section \<open>The contract\<close>

text \<open>One step of a thread, as the contract of a lock asks for it.\<close>

lemma cs_step:
  assumes t: "cap_ok t" and o: "cs_ok t p" and r: "cs_run t (v, p) = (v', p')"
  shows "(cs_owner v = t \<longrightarrow> cs_holds p) \<longrightarrow> cs_ok t p' \<and> (cs_owner v' = t \<longrightarrow> cs_holds p')"
    "\<not> cs_holds p \<Longrightarrow> cs_holds p' \<Longrightarrow> cs_owner v = 0 \<and> cs_owner v' = t"
    "cs_holds p \<Longrightarrow> \<not> cs_holds p' \<Longrightarrow> v' = 0"
    "cs_holds p' = cs_holds p \<Longrightarrow> cs_owner v' = cs_owner v"
proof -
  note caps = cap_ok_owner [OF t]
  show "(cs_owner v = t \<longrightarrow> cs_holds p) \<longrightarrow> cs_ok t p' \<and> (cs_owner v' = t \<longrightarrow> cs_holds p')"
    "\<not> cs_holds p \<Longrightarrow> cs_holds p' \<Longrightarrow> cs_owner v = 0 \<and> cs_owner v' = t"
    "cs_holds p \<Longrightarrow> \<not> cs_holds p' \<Longrightarrow> v' = 0"
    "cs_holds p' = cs_holds p \<Longrightarrow> cs_owner v' = cs_owner v"
    using o r caps by (cases p; auto simp: ps_cas_def split: if_splits)+
qed

text \<open>Alone on a free lock, a thread is in after at most six of its steps; alone, a holder is out after at most four.\<close>

lemma cs_alone_in:
  assumes t: "cap_ok t" and o: "cs_ok t p" "cs_trying p" and v: "cs_owner v = 0"
  shows "\<exists>n. cs_holds (snd ((cs_run t ^^ n) (v, p)))"
proof -
  have sync: "(cs_run t ^^ 2) (v, Enter_Sync) = (cs_set_owner t v, Inside)" using v by (simp add: numeral_2_eq_2)
  have step: "\<exists>n. cs_holds (snd ((cs_run t ^^ n) (v, p)))" if "(cs_run t ^^ k) (v, p) = (v, Enter_Sync)" for k
  proof -
    have "(cs_run t ^^ (2 + k)) (v, p) = (cs_run t ^^ 2) (v, Enter_Sync)" unfolding funpow_add o_apply that ..
    then show ?thesis using sync by (intro exI [of _ "2 + k"]) simp
  qed
  show ?thesis
  proof (cases p)
    case Enter_Sync
    then show ?thesis using step [of 0] by simp
  next
    case (Enter_Contention csi c)
    then have "v \<noteq> c" "cs_owner csi \<noteq> t" using o v by auto
    then have "(cs_run t ^^ (if cs_contention csi then 2 else 1)) (v, p) = (v, Enter_Sync)"
      using Enter_Contention by (simp add: numeral_2_eq_2)
    then show ?thesis by (rule step)
  next
    case Enter_Switch
    then show ?thesis using step [of 1] by simp
  next
    case (Enter_Cas csi c)
    then show ?thesis using step [of 1] by (cases "v = c") (auto intro: exI [of _ 1])
  qed (use o(2) in simp_all)
qed

lemma cs_alone_out:
  assumes "cs_ok t p" "cs_holds p"
  shows "\<exists>n. \<not> cs_holds (snd ((cs_run t ^^ n) (v, p)))"
proof -
  have sync: "\<not> cs_holds (snd ((cs_run t ^^ 2) (v, Exit_Sync)))" by (simp add: numeral_2_eq_2)
  have step: "\<exists>n. \<not> cs_holds (snd ((cs_run t ^^ n) (v, p)))" if "(cs_run t ^^ k) (v, p) = (v, Exit_Sync)" for k
  proof -
    have "(cs_run t ^^ (2 + k)) (v, p) = (cs_run t ^^ 2) (v, Exit_Sync)" unfolding funpow_add o_apply that ..
    then show ?thesis using sync by (intro exI [of _ "2 + k"]) simp
  qed
  show ?thesis
  proof (cases p)
    case Inside
    then show ?thesis using step [of 1] by simp
  next
    case Exit_Sync
    then show ?thesis using step [of 0] by simp
  next
    case (Exit_Contention c)
    then show ?thesis using step [of 1] by (cases "v = c") (auto intro: exI [of _ 1])
  next
    case (Exit_Cas c)
    then show ?thesis using step [of 1] by (cases "v = c") (auto intro: exI [of _ 1])
  qed (use assms(2) in simp_all)
qed

lemma cs_trying_out: "cs_trying p \<Longrightarrow> \<not> cs_holds p"
  by (cases p) simp_all

interpretation cs: mutex cs_run "Collect cap_ok" "\<lambda>v. cs_owner v = 0" "\<lambda>t v. cs_owner v = t" cs_holds cs_trying cs_ok
proof (unfold_locales, goal_cases)
  case (1 i p w w' p')
  then have "cap_ok i" by simp
  from cs_step(1) [OF this 1(2,3)] 1(4) show ?case by blast
next
  case (2 i p w w' p')
  then have "cap_ok i" by simp
  from cs_step(1) [OF this 2(2,3)] 2(4,5) show ?case by blast
next
  case (3 i p w w' p' j)
  then have c: "cap_ok i" "cap_ok j" by simp_all
  show ?case
  proof (cases "cs_holds p = cs_holds p'")
    case True
    then show ?thesis using cs_step(4) [OF c(1) 3(2,3)] 3(6) by simp
  next
    case False
    then show ?thesis using cs_step(2,3) [OF c(1) 3(2,3)] 3(5,6) cap_ok_owner(2) [OF c(2)] by auto
  qed
next
  case (4 i p w w' p')
  then have "cap_ok i" by simp
  from cs_step(2) [OF this 4(2-5)] cap_ok_owner(2) [OF this] show ?case by simp
next
  case (5 i p w w' p')
  then have "cap_ok i" by simp
  from cs_step(3) [OF this 5(2-5)] show ?case by simp
next
  case (6 i p w w' p')
  then have "cap_ok i" by simp
  from cs_step(4) [OF this 6(2-4)] show ?case by simp
next
  case (7 i p w)
  then show ?case using cs_alone_in by simp
next
  case (8 i p w)
  then show ?case using cs_alone_out by simp
next
  case (9 p)
  then show ?case by (rule cs_trying_out)
qed

section \<open>Properties\<close>

abbreviation cs_start :: "csword \<times> (thdcap \<Rightarrow> cs_pc)" where
  "cs_start \<equiv> (0, \<lambda>_. Outside)"

lemma cs_start_safe: "cs.safe cs_start"
  by (auto simp: cs.safe_def cap_ok_def)

lemma cs_safe_owner:
  assumes s: "cs.safe (v, ps)" and t: "cap_ok t"
  shows "cs_holds (ps t) \<longleftrightarrow> cs_owner v = t"
proof
  assume h: "cs_holds (ps t)"
  then have "cs_owner v \<noteq> 0" using s by (auto simp: cs.safe_def)
  moreover have "take_bit 31 (cs_owner v) = cs_owner v" by (simp add: cs_owner_def)
  ultimately have "cap_ok (cs_owner v)" by (simp add: cap_ok_def)
  then have "cs_holds (ps (cs_owner v))" using s by (auto simp: cs.safe_def)
  then show "cs_owner v = t" using s h by (auto simp: cs.safe_def)
next
  assume "cs_owner v = t"
  then show "cs_holds (ps t)" using s t by (auto simp: cs.safe_def)
qed

text \<open>
  C3 The critical section excludes: from the free lock, under every schedule of threads
  with usable capabilities, two threads are never inside together, no thread trips over
  the assertion against recursive locking, a thread inside is the owner the lock word
  names, and a thread that tries can still get in.
\<close>

theorem critical_section_excludes:
  assumes "\<forall>t\<in>set ts. cap_ok t" "interleave cs_run ts cs_start = (v, ps)"
  shows "(\<forall>t u. cs_holds (ps t) \<longrightarrow> cs_holds (ps u) \<longrightarrow> t = u) \<and> (\<forall>t. cap_ok t \<longrightarrow> ps t \<noteq> Recursive) \<and>
    (\<forall>t. cap_ok t \<longrightarrow> cs_holds (ps t) = (cs_owner v = t)) \<and>
    (\<forall>t. cap_ok t \<longrightarrow> cs_trying (ps t) \<longrightarrow> (\<exists>us. cs_holds (snd (interleave cs_run us (v, ps)) t)))"
proof -
  have w: "set ts \<subseteq> Collect cap_ok" using assms(1) by blast
  have s: "cs.safe (v, ps)" using cs.safe_interleave [OF cs_start_safe w] assms(2) by simp
  have "ps t \<noteq> Recursive" if "cap_ok t" for t
  proof
    assume "ps t = Recursive"
    moreover have "cs_ok t (ps t)" using s that by (simp add: cs.safe_def)
    ultimately show False by simp
  qed
  moreover have "\<exists>us. cs_holds (snd (interleave cs_run us (v, ps)) t)" if "cap_ok t" "cs_trying (ps t)" for t
    using cs.no_deadlock [OF s, of t] that by blast
  moreover have "cs_holds (ps t) \<longleftrightarrow> cs_owner v = t" if t: "cap_ok t" for t
    using cs_safe_owner [OF s t] .
  moreover have "t = u" if "cs_holds (ps t)" "cs_holds (ps u)" for t u using s that by (simp add: cs.safe_def)
  ultimately show ?thesis by blast
qed

text \<open>A run with three threads: 5 is inside, 6 has marked the lock, 7 is about to try.\<close>

lemma sample_lock_run:
  "interleave cs_run [5, 5, 6, 5, 6, 6, 7] cs_start =
     (cs_set_contention (cs_set_owner 5 0), (\<lambda>_. Outside)(5 := Inside, 6 := Enter_Switch, 7 := Enter_Sync))"
proof -
  have "take_bit 31 (5::csword) = 5" "take_bit 31 (6::csword) = 6" by simp_all
  then show ?thesis by (simp add: fun_eq_iff)
qed

theorem critical_section_excludes_witness:
  "\<exists>us v ps. interleave cs_run [5, 5, 6, 5, 6, 6, 7] cs_start = (v, ps) \<and> ps 5 = Inside \<and> cs_owner v = 5 \<and>
     cs_holds (snd (interleave cs_run us (v, ps)) 7)"
proof -
  have t: "\<forall>t\<in>set [5, 5, 6, 5, 6, 6, 7]. cap_ok t" "cap_ok 7" "cap_ok 5" by (simp_all add: cap_ok_def)
  define ps :: "thdcap \<Rightarrow> cs_pc" where "ps = (\<lambda>_. Outside)(5 := Inside, 6 := Enter_Switch, 7 := Enter_Sync)"
  have ps: "ps 5 = Inside" "ps 7 = Enter_Sync" by (simp_all add: ps_def)
  note c = critical_section_excludes [OF t(1) sample_lock_run, folded ps_def]
  have "cs_owner (cs_set_contention (cs_set_owner 5 0)) = 5" using c t(3) ps(1) by simp
  moreover obtain us where "cs_holds (snd (interleave cs_run us (cs_set_contention (cs_set_owner 5 0), ps)) 7)"
    using c t(2) ps(2) by auto
  ultimately show ?thesis using sample_lock_run [folded ps_def] ps(1) by blast
qed

lemma contention_step:
  assumes s: "cs.safe (v, ps)" and t: "cap_ok t" "cs_holds (ps t)" "cs_contention v" and u: "cap_ok u"
    and r: "cs_run u (v, ps u) = (v', p')"
  shows "cs_contention v' \<and> cs_holds ((ps(u := p')) t) \<or> (ps(u := p')) t = Exit_Switch"
proof (cases "u = t")
  case True
  have "cs_ok t (ps t)" using s t(1) by (simp add: cs.safe_def)
  then show ?thesis using t(2,3) r True by (cases "ps t") (auto simp: ps_cas_def split: if_splits)
next
  case False
  have "cs_ok u (ps u)" "\<not> cs_holds (ps u)" using s t(1,2) u False by (auto simp: cs.safe_def)
  moreover have "cs_owner v = t" using cs_safe_owner [OF s t(1)] t(2) by simp
  ultimately show ?thesis using t r False cap_ok_owner(2) [OF t(1)]
    by (cases "ps u") (auto simp: ps_cas_def split: if_splits)
qed

text \<open>
  C29 Contention is not forgotten: once a waiting thread has marked the lock word, the
  thread inside stays inside with the mark in place, under every schedule, until it
  leaves by way of \<^verbatim>\<open>sl_cs_exit_contention\<close>, which hands over to the scheduler thread.
\<close>

theorem contention_reaches_scheduler:
  assumes "\<forall>t\<in>set (ts @ us). cap_ok t" "interleave cs_run ts cs_start = (v, ps)" "cs_contention v" "cs_holds (ps t)" "cap_ok t"
  shows "(\<exists>v' qs. interleave cs_run us (v, ps) = (v', qs) \<and> cs_contention v' \<and> cs_holds (qs t)) \<or>
    (\<exists>xs ys. us = xs @ ys \<and> snd (interleave cs_run xs (v, ps)) t = Exit_Switch)"
proof -
  have w: "set ts \<subseteq> Collect cap_ok" using assms(1) by auto
  have s: "cs.safe (v, ps)" using cs.safe_interleave [OF cs_start_safe w] assms(2) by simp
  have u: "\<forall>u\<in>set us. cap_ok u" using assms(1) by simp
  from s assms(3,4) u show ?thesis
  proof (induction us arbitrary: v ps)
    case (Cons u us)
    obtain v' p' where r: "cs_run u (v, ps u) = (v', p')" by fastforce
    have cu: "cap_ok u" "\<forall>u\<in>set us. cap_ok u" using Cons.prems(4) by simp_all
    have s': "cs.safe (v', ps(u := p'))" using cs.safe_step [OF Cons.prems(1) _ r] cu(1) by simp
    have e: "interleave cs_run (u # zs) (v, ps) = interleave cs_run zs (v', ps(u := p'))" for zs using r by simp
    from contention_step [OF Cons.prems(1) assms(5) Cons.prems(3,2) cu(1) r] show ?case
    proof
      assume "cs_contention v' \<and> cs_holds ((ps(u := p')) t)"
      then have c: "cs_contention v'" "cs_holds ((ps(u := p')) t)" by blast+
      from Cons.IH [OF s' c cu(2)] show ?thesis
      proof
        assume "\<exists>xs ys. us = xs @ ys \<and> snd (interleave cs_run xs (v', ps(u := p'))) t = Exit_Switch"
        then obtain xs ys where "us = xs @ ys" "snd (interleave cs_run xs (v', ps(u := p'))) t = Exit_Switch" by blast
        then show ?thesis using e by (intro disjI2 exI [of _ "u # xs"] exI [of _ ys]) simp
      qed (use e [of us] in \<open>metis\<close>)
    next
      assume "(ps(u := p')) t = Exit_Switch"
      then show ?thesis using e [of "[]"] by (intro disjI2 exI [of _ "[u]"] exI [of _ us]) simp
    qed
  qed simp
qed

theorem contention_reaches_scheduler_witness:
  "\<exists>v ps xs ys. interleave cs_run [5, 5, 6, 5, 6, 6, 7] cs_start = (v, ps) \<and> ps 6 = Enter_Switch \<and>
     [5, 5, 5, 5] = xs @ ys \<and> snd (interleave cs_run xs (v, ps)) 5 = Exit_Switch"
proof -
  let ?v = "cs_set_contention (cs_set_owner 5 0)"
  define ps :: "thdcap \<Rightarrow> cs_pc" where "ps = (\<lambda>_. Outside)(5 := Inside, 6 := Enter_Switch, 7 := Enter_Sync)"
  have ps: "ps 5 = Inside" "ps 6 = Enter_Switch" by (simp_all add: ps_def)
  have t: "\<forall>t\<in>set ([5, 5, 6, 5, 6, 6, 7] @ [5, 5, 5, 5]). cap_ok t" "cap_ok 5" by (simp_all add: cap_ok_def)
  have h: "cs_contention ?v" "cs_holds (ps 5)" using ps by simp_all
  note r = contention_reaches_scheduler [OF t(1) sample_lock_run [folded ps_def] h t(2)]
  have "snd (interleave cs_run [5, 5, 5, 5] (?v, ps)) 5 = Outside" using ps by simp
  then have "\<not> (\<exists>v' qs. interleave cs_run [5, 5, 5, 5] (?v, ps) = (v', qs) \<and> cs_contention v' \<and> cs_holds (qs 5))" by auto
  then obtain xs ys where "[5, 5, 5, 5] = xs @ ys" "snd (interleave cs_run xs (?v, ps)) 5 = Exit_Switch" using r by blast
  then show ?thesis using sample_lock_run [folded ps_def] ps(2) by blast
qed

end
