(* ===== verification/Sl_Thd.thy ===== *)
theory Sl_Thd
  imports Sl_Lock "HOL-Library.Stream"
begin

text \<open>
  Kernel threads of the scheduler library (\<^verbatim>\<open>sl.c\<close>, \<^verbatim>\<open>sl.h\<close>): the state of the library,
  the choice of the thread to switch to, blocking, waking, yielding, allocation and
  release, time. What the library calls and does not contain is a parameter: the
  scheduling policy \<^verbatim>\<open>sl_mod_*\<close> and its timer plug-in (the record \<open>sl_mod\<close>), the memory
  of the back end, and the kernel, whose answers are arguments of the operations.
\<close>

section \<open>State\<close>

type_synonym thdid = nat
type_synonym cycles = "64 word"
type_synonym tcap_time = "32 word"

datatype sl_thd_state = SL_THD_FREE | SL_THD_BLOCKED | SL_THD_WOKEN | SL_THD_RUNNABLE

text \<open>The fields of \<^verbatim>\<open>struct sl_thd\<close> that the library uses.\<close>

record sl_thd =
  sl_tid :: thdid
  sl_cap :: thdcap
  sl_state :: sl_thd_state
  sl_prio :: nat

text \<open>
  \<^verbatim>\<open>struct sl_global\<close>, the variable \<^verbatim>\<open>current_kthd\<close>, the thread objects and the table from
  thread ids to threads that the back end keeps for \<^verbatim>\<open>sl_thd_lkup\<close>; \<open>pol\<close> is the state of
  the policy. \<open>dispatched_to\<close> records the arguments of the calls of \<^verbatim>\<open>cos_defswitch\<close>.
\<close>

record 'p sl_sys =
  sl_lock :: csword
  sched_thdcap :: thdcap
  sched_thd :: ptr
  idle_thd :: ptr
  cyc_per_usec :: int
  period :: cycles
  timer_next :: cycles
  timeout_next :: tcap_time
  sl_current_kthd :: thdid
  sl_objs :: "ptr \<Rightarrow> sl_thd option"
  sl_index :: "thdid \<Rightarrow> ptr"
  pol :: 'p
  dispatched_to :: "(thdcap \<times> nat \<times> tcap_time) list"

text \<open>
  The policy module; threads are named by their \<^verbatim>\<open>struct sl_thd\<close>. \<open>mod_schedule\<close> answers
  \<open>None\<close> when no thread is runnable; the timer plug-in may set the next timeout.
\<close>

record 'p sl_mod =
  mod_block :: "ptr \<Rightarrow> 'p \<Rightarrow> 'p"
  mod_wakeup :: "ptr \<Rightarrow> 'p \<Rightarrow> 'p"
  mod_yield :: "ptr \<Rightarrow> 'p \<Rightarrow> 'p"
  mod_create :: "ptr \<Rightarrow> 'p \<Rightarrow> 'p"
  mod_execution :: "ptr \<Rightarrow> cycles \<Rightarrow> 'p \<Rightarrow> 'p"
  mod_schedule :: "'p \<Rightarrow> ptr option \<times> 'p"
  timeout_expended :: "cycles \<Rightarrow> cycles \<Rightarrow> cycles \<times> tcap_time \<Rightarrow> 'p \<Rightarrow> (cycles \<times> tcap_time) \<times> 'p"
  cyc2time :: "cycles \<Rightarrow> tcap_time"

text \<open>What the kernel answers in one round: the cycle counter and the result of the switch.\<close>

type_synonym answer = "cycles \<times> int"

section \<open>Access to threads\<close>

definition sl_obj :: "ptr \<Rightarrow> 'p sl_sys \<Rightarrow> sl_thd res" where
  "sl_obj t s = rbind (guard (t \<noteq> 0) NullDeref) (\<lambda>_. of_opt WildPtr (sl_objs s t))"

definition sl_set_state :: "ptr \<Rightarrow> sl_thd_state \<Rightarrow> 'p sl_sys \<Rightarrow> 'p sl_sys res" where
  "sl_set_state t st s = rbind (sl_obj t s) (\<lambda>x. Inr (s\<lparr>sl_objs := (sl_objs s)(t \<mapsto> x\<lparr>sl_state := st\<rparr>)\<rparr>))"

definition sl_thd_lkup :: "thdid \<Rightarrow> 'p sl_sys \<Rightarrow> ptr" where
  "sl_thd_lkup tid s = sl_index s tid"

text \<open>\<^verbatim>\<open>me\<close> stands for \<^verbatim>\<open>cos_thdid()\<close>, the id of the kernel thread that runs.\<close>

definition sl_thd_curr :: "thdid \<Rightarrow> 'p sl_sys \<Rightarrow> ptr" where
  "sl_thd_curr me s = sl_thd_lkup me s"

definition sl_thd_setprio :: "ptr \<Rightarrow> nat \<Rightarrow> 'p sl_sys \<Rightarrow> 'p sl_sys res" where
  "sl_thd_setprio t p s = rbind (sl_obj t s) (\<lambda>x. Inr (s\<lparr>sl_objs := (sl_objs s)(t \<mapsto> x\<lparr>sl_prio := p\<rparr>)\<rparr>))"

section \<open>The critical section\<close>

definition sl_cs_owner :: "thdid \<Rightarrow> 'p sl_sys \<Rightarrow> bool res" where
  "sl_cs_owner me s = rbind (sl_obj (sl_thd_curr me s) s) (\<lambda>t. Inr (cs_owner (sl_lock s) = sl_cap t))"

definition sl_cs_enter :: "thdid \<Rightarrow> 'p sl_sys \<Rightarrow> 'p sl_sys res" where
  "sl_cs_enter me s =
     rbind (guard (sl_thd_curr me s \<noteq> 0) AssertFailed) (\<lambda>_.
     rbind (sl_obj (sl_thd_curr me s) s) (\<lambda>t.
     rbind (cs_enter (sl_cap t) (sl_lock s)) (\<lambda>v. Inr (s\<lparr>sl_lock := v\<rparr>))))"

definition sl_cs_exit :: "thdid \<Rightarrow> 'p sl_sys \<Rightarrow> 'p sl_sys res" where
  "sl_cs_exit me s =
     (case cs_exit (sl_lock s) of (v, contended) \<Rightarrow>
        if contended then
          rbind (sl_obj (sl_thd_curr me s) s) (\<lambda>t.
            Inr (s\<lparr>sl_lock := v, dispatched_to := dispatched_to s @ [(sched_thdcap s, sl_prio t, timeout_next s)]\<rparr>))
        else Inr (s\<lparr>sl_lock := v\<rparr>))"

section \<open>Choosing the thread to switch to\<close>

text \<open>The deadline has passed: the difference, read as signed, is not positive.\<close>

definition timer_due :: "cycles \<Rightarrow> cycles \<Rightarrow> bool" where
  "timer_due next now \<longleftrightarrow> next \<noteq> 0 \<and> sint (next - now) \<le> 0"

definition sl_expire :: "'p sl_mod \<Rightarrow> cycles \<Rightarrow> 'p sl_sys \<Rightarrow> 'p sl_sys" where
  "sl_expire M now s =
     (if timer_due (timer_next s) now then
        (case timeout_expended M now (timer_next s) (timer_next s, timeout_next s) (pol s) of ((n, t), p) \<Rightarrow>
           s\<lparr>timer_next := n, timeout_next := t, pol := p\<rparr>)
      else s)"

text \<open>
  The thread asked for, if it is runnable; otherwise the policy's choice, and the idle
  thread when the policy has none.
\<close>

definition sl_choose :: "'p sl_mod \<Rightarrow> ptr \<Rightarrow> 'p sl_sys \<Rightarrow> (ptr \<times> 'p sl_sys) res" where
  "sl_choose M to s =
     rbind (if to \<noteq> 0 then rbind (sl_obj to s) (\<lambda>t. Inr (if sl_state t \<noteq> SL_THD_RUNNABLE then 0 else to))
            else Inr 0) (\<lambda>to.
     if to = 0 then
       (case mod_schedule M (pol s) of
          (None, p) \<Rightarrow> Inr (idle_thd s, s\<lparr>pol := p\<rparr>)
        | (Some t, p) \<Rightarrow> Inr (t, s\<lparr>pol := p\<rparr>))
     else Inr (to, s))"

definition sl_cs_exit_schedule_nospin_arg ::
  "'p sl_mod \<Rightarrow> thdid \<Rightarrow> answer \<Rightarrow> ptr \<Rightarrow> 'p sl_sys \<Rightarrow> (int \<times> 'p sl_sys) res" where
  "sl_cs_exit_schedule_nospin_arg M me a to s =
     rbind (sl_cs_owner me s) (\<lambda>mine.
     rbind (if mine then Inr s else sl_cs_enter me s) (\<lambda>s1.
     rbind (sl_choose M to (sl_expire M (fst a) s1)) (\<lambda>(t, s2).
     rbind (sl_obj t s2) (\<lambda>x.
     rbind (sl_cs_exit me (s2\<lparr>sl_current_kthd := sl_tid x\<rparr>)) (\<lambda>s3.
       Inr (snd a, s3\<lparr>dispatched_to := dispatched_to s3 @ [(sl_cap x, sl_prio x, timeout_next s3)]\<rparr>))))))"

text \<open>
  The loop of \<^verbatim>\<open>sl_cs_exit_schedule\<close>: it goes on while the switch is refused. The answers of the
  kernel are an infinite sequence, one for each attempt; if it refuses for ever, the loop does not
  end (\<open>None\<close>, which is the fault \<open>Diverges\<close>).
\<close>

partial_function (option) exit_schedule_loop :: "'p sl_mod \<Rightarrow> thdid \<Rightarrow> answer stream \<Rightarrow> 'p sl_sys \<Rightarrow> 'p sl_sys res option" where
  "exit_schedule_loop M me as s =
     (case sl_cs_exit_schedule_nospin_arg M me (shd as) 0 s of
        Inl e \<Rightarrow> Some (Inl e)
      | Inr (r, s1) \<Rightarrow> if r \<noteq> 0 then exit_schedule_loop M me (stl as) s1 else Some (Inr s1))"

declare exit_schedule_loop.simps [code]

definition sl_cs_exit_schedule :: "'p sl_mod \<Rightarrow> thdid \<Rightarrow> answer stream \<Rightarrow> 'p sl_sys \<Rightarrow> 'p sl_sys res" where
  "sl_cs_exit_schedule M me as s = (case exit_schedule_loop M me as s of None \<Rightarrow> Inl Diverges | Some r \<Rightarrow> r)"

definition sl_cs_exit_switchto :: "'p sl_mod \<Rightarrow> thdid \<Rightarrow> answer stream \<Rightarrow> ptr \<Rightarrow> 'p sl_sys \<Rightarrow> 'p sl_sys res" where
  "sl_cs_exit_switchto M me as to s =
     rbind (sl_cs_exit_schedule_nospin_arg M me (shd as) to s) (\<lambda>(r, s1).
       if r \<noteq> 0 then sl_cs_exit_schedule M me (stl as) s1 else Inr s1)"

lemma exit_schedule_Stream [simp]:
  "sl_cs_exit_schedule M me (a ## as) s =
     rbind (sl_cs_exit_schedule_nospin_arg M me a 0 s) (\<lambda>(r, s1).
       if r \<noteq> 0 then sl_cs_exit_schedule M me as s1 else Inr s1)"
  unfolding sl_cs_exit_schedule_def by (subst exit_schedule_loop.simps) (simp add: rbind_def split: sum.split prod.split)

lemmas exit_schedule_induct = exit_schedule_loop.raw_induct [rotated, consumes 1, case_names round]

lemma exit_switchto_Stream [simp]:
  "sl_cs_exit_switchto M me (a ## as) to s =
     rbind (sl_cs_exit_schedule_nospin_arg M me a to s) (\<lambda>(r, s1).
       if r \<noteq> 0 then sl_cs_exit_schedule M me as s1 else Inr s1)"
  unfolding sl_cs_exit_switchto_def stream.sel by (rule refl)

section \<open>Blocking, waking, yielding\<close>

definition sl_thd_block :: "'p sl_mod \<Rightarrow> thdid \<Rightarrow> thdid \<Rightarrow> answer stream \<Rightarrow> 'p sl_sys \<Rightarrow> 'p sl_sys res" where
  "sl_thd_block M tid me as s =
     rbind (guard (tid = 0) AssertFailed) (\<lambda>_.
     rbind (sl_cs_enter me s) (\<lambda>s1.
     let t = sl_thd_curr me s1 in
     rbind (sl_obj t s1) (\<lambda>x.
     if sl_state x = SL_THD_WOKEN then rbind (sl_set_state t SL_THD_RUNNABLE s1) (sl_cs_exit me)
     else
       rbind (guard (sl_state x = SL_THD_RUNNABLE) AssertFailed) (\<lambda>_.
       rbind (sl_set_state t SL_THD_BLOCKED s1) (\<lambda>s2.
         sl_cs_exit_schedule M me as (s2\<lparr>pol := mod_block M t (pol s2)\<rparr>))))))"

text \<open>
  \<^verbatim>\<open>assert(t->state = SL_THD_BLOCKED)\<close> assigns; its value, the enumerator, is not 0, so
  the assertion never fails.
\<close>

definition sl_thd_wakeup :: "'p sl_mod \<Rightarrow> thdid \<Rightarrow> thdid \<Rightarrow> answer stream \<Rightarrow> 'p sl_sys \<Rightarrow> 'p sl_sys res" where
  "sl_thd_wakeup M tid me as s =
     rbind (sl_cs_enter me s) (\<lambda>s1.
     let t = sl_thd_lkup tid s1 in
     if t = 0 then sl_cs_exit me s1
     else
       rbind (sl_obj t s1) (\<lambda>x.
       if sl_state x = SL_THD_RUNNABLE then rbind (sl_set_state t SL_THD_WOKEN s1) (sl_cs_exit me)
       else
         rbind (sl_set_state t SL_THD_BLOCKED s1) (\<lambda>s2.
         rbind (sl_set_state t SL_THD_RUNNABLE s2) (\<lambda>s3.
           sl_cs_exit_schedule M me as (s3\<lparr>pol := mod_wakeup M t (pol s3)\<rparr>)))))"

definition sl_thd_yield :: "'p sl_mod \<Rightarrow> thdid \<Rightarrow> thdid \<Rightarrow> answer stream \<Rightarrow> 'p sl_sys \<Rightarrow> 'p sl_sys res" where
  "sl_thd_yield M tid me as s =
     (let t = sl_thd_curr me s in
      rbind (sl_cs_enter me s) (\<lambda>s1.
      if tid \<noteq> 0 then
        let to = sl_thd_lkup tid s1 in
        rbind (guard (to \<noteq> 0) AssertFailed) (\<lambda>_. sl_cs_exit_switchto M me as to s1)
      else sl_cs_exit_schedule M me as (s1\<lparr>pol := mod_yield M t (pol s1)\<rparr>)))"

section \<open>Allocation and release\<close>

text \<open>
  \<open>mem\<close> is what \<^verbatim>\<open>sl_thd_alloc_backend\<close> returns: the place of the new thread and what is
  found there, or \<open>None\<close>.
\<close>

definition sl_thd_alloc_init :: "thdid \<Rightarrow> thdcap \<Rightarrow> (ptr \<times> sl_thd) option \<Rightarrow> 'p sl_sys \<Rightarrow> (ptr \<times> 'p sl_sys) res" where
  "sl_thd_alloc_init tid cap mem s =
     (case mem of
        None \<Rightarrow> Inr (0, s)
      | Some (t, raw) \<Rightarrow>
          rbind (guard (t \<noteq> 0) NullDeref) (\<lambda>_.
          Inr (t, s\<lparr>sl_objs := (sl_objs s)(t \<mapsto> raw\<lparr>sl_tid := tid, sl_cap := cap, sl_state := SL_THD_RUNNABLE\<rparr>),
                    sl_index := (sl_index s)(tid := t)\<rparr>)))"

text \<open>
  \<open>cap\<close> is the capability the kernel returns for the new thread (0 for none) and \<open>tid\<close> the
  thread's id. The thread is handed to the policy without a test for \<^verbatim>\<open>NULL\<close>; what becomes of a
  \<^verbatim>\<open>NULL\<close> there is the plug-in's (\<open>mod_create M 0\<close>), and the call returns it.
\<close>

definition sl_thd_alloc_intern ::
  "'p sl_mod \<Rightarrow> thdcap \<Rightarrow> thdid \<Rightarrow> (ptr \<times> sl_thd) option \<Rightarrow> 'p sl_sys \<Rightarrow> (ptr \<times> 'p sl_sys) res" where
  "sl_thd_alloc_intern M cap tid mem s =
     (if cap = 0 then Inr (0, s)
      else
        rbind (guard (tid \<noteq> 0) AssertFailed) (\<lambda>_.
        rbind (sl_thd_alloc_init tid cap mem s) (\<lambda>(t, s1).
          Inr (t, s1\<lparr>pol := mod_create M t (pol s1)\<rparr>))))"

definition sl_thd_free :: "ptr \<Rightarrow> 'p sl_sys \<Rightarrow> 'p sl_sys res" where
  "sl_thd_free t s =
     rbind (sl_obj t s) (\<lambda>x.
     rbind (sl_set_state t SL_THD_FREE (s\<lparr>sl_index := (sl_index s)(sl_tid x := 0)\<rparr>)) (\<lambda>s1.
       Inr (s1\<lparr>sl_objs := (sl_objs s1)(t := None)\<rparr>)))"

section \<open>Time\<close>

definition sl_timeout_oneshot :: "'p sl_mod \<Rightarrow> cycles \<Rightarrow> 'p sl_sys \<Rightarrow> 'p sl_sys" where
  "sl_timeout_oneshot M absolute s = s\<lparr>timer_next := absolute, timeout_next := cyc2time M absolute\<rparr>"

definition sl_timeout_relative :: "'p sl_mod \<Rightarrow> cycles \<Rightarrow> cycles \<Rightarrow> 'p sl_sys \<Rightarrow> 'p sl_sys" where
  "sl_timeout_relative M now offset s = sl_timeout_oneshot M (now + offset) s"

definition sl_usec2cyc :: "'p sl_sys \<Rightarrow> cycles \<Rightarrow> cycles" where
  "sl_usec2cyc s usec = usec * word_of_int (cyc_per_usec s)"

definition sl_cyc2usec :: "'p sl_sys \<Rightarrow> cycles \<Rightarrow> cycles" where
  "sl_cyc2usec s cyc = cyc div word_of_int (cyc_per_usec s)"

definition sl_timeout_period :: "'p sl_mod \<Rightarrow> cycles \<Rightarrow> cycles \<Rightarrow> 'p sl_sys \<Rightarrow> 'p sl_sys" where
  "sl_timeout_period M now p s =
     (let c = sl_usec2cyc s p in sl_timeout_relative M now c (s\<lparr>period := c\<rparr>))"

section \<open>Start and the scheduler loop\<close>

text \<open>
  \<^verbatim>\<open>sl_init\<close>: \<open>mem\<close> and \<open>idle_mem\<close> are the memory for the scheduler thread and the idle
  thread, \<open>boot_cap\<close> is \<^verbatim>\<open>BOOT_CAPTBL_SELF_INITTHD_BASE\<close>; \<open>p0\<close> is the state of the policy
  and \<open>(per, next, tnext)\<close> the timer variables that the modules' own initialisation leaves.
\<close>

definition sl_init :: "'p sl_mod \<Rightarrow> 'p \<Rightarrow> cycles \<times> cycles \<times> tcap_time \<Rightarrow> int \<Rightarrow> thdid \<Rightarrow> thdcap \<Rightarrow> (ptr \<times> sl_thd) option \<Rightarrow>
    thdcap \<Rightarrow> thdid \<Rightarrow> (ptr \<times> sl_thd) option \<Rightarrow> 'p sl_sys \<Rightarrow> 'p sl_sys res" where
  "sl_init M p0 timers cycles me boot_cap mem idle_cap idle_tid idle_mem s =
     (let (per, next, tnext) = timers;
          s1 = s\<lparr>cyc_per_usec := cycles, sl_lock := 0, sl_index := (\<lambda>_. 0), pol := p0,
                 period := per, timer_next := next, timeout_next := tnext\<rparr>
      in rbind (sl_thd_alloc_init me boot_cap mem s1) (\<lambda>(t, s2).
         rbind (guard (t \<noteq> 0) AssertFailed) (\<lambda>_.
         rbind (sl_thd_alloc_intern M idle_cap idle_tid idle_mem (s2\<lparr>sched_thd := t, sched_thdcap := boot_cap\<rparr>))
           (\<lambda>(i, s3). rbind (guard (i \<noteq> 0) AssertFailed) (\<lambda>_. Inr (s3\<lparr>idle_thd := i\<rparr>))))))"

text \<open>
  One notification from the kernel: is another pending, which thread (0 for none), has it
  blocked, how long has it run.
\<close>

type_synonym notification = "bool \<times> thdid \<times> bool \<times> cycles"

definition sl_notify :: "'p sl_mod \<Rightarrow> notification \<Rightarrow> 'p sl_sys \<Rightarrow> 'p sl_sys res" where
  "sl_notify M n s =
     (case n of (_, tid, blocked, cycles) \<Rightarrow>
        if tid = 0 then Inr s
        else let t = sl_thd_lkup tid s in
          rbind (guard (t \<noteq> 0) AssertFailed) (\<lambda>_.
          if t = idle_thd s then Inr s
          else let p = mod_execution M t cycles (pol s)
            in Inr (s\<lparr>pol := if blocked then mod_block M t p else mod_wakeup M t p\<rparr>)))"

text \<open>
  The inner loop, over the notifications the kernel delivers, an infinite sequence; it ends at the
  first one with none pending behind it, and not at all if there is always another.
\<close>

partial_function (option) receive_loop :: "'p sl_mod \<Rightarrow> notification stream \<Rightarrow> 'p sl_sys \<Rightarrow> 'p sl_sys res option" where
  "receive_loop M ns s =
     (case sl_notify M (shd ns) s of
        Inl e \<Rightarrow> Some (Inl e)
      | Inr s1 \<Rightarrow> if fst (shd ns) then receive_loop M (stl ns) s1 else Some (Inr s1))"

declare receive_loop.simps [code]

lemmas receive_induct = receive_loop.raw_induct [rotated, consumes 1, case_names round]

definition sl_receive :: "'p sl_mod \<Rightarrow> notification stream \<Rightarrow> 'p sl_sys \<Rightarrow> 'p sl_sys res" where
  "sl_receive M ns s = (case receive_loop M ns s of None \<Rightarrow> Inl Diverges | Some r \<Rightarrow> r)"

lemma receive_Stream [simp]:
  "sl_receive M (n ## ns) s = rbind (sl_notify M n s) (\<lambda>s1. if fst n then sl_receive M ns s1 else Inr s1)"
  unfolding sl_receive_def by (subst receive_loop.simps) (simp add: rbind_def split: sum.split)

text \<open>One round of \<^verbatim>\<open>sl_sched_loop\<close>.\<close>

definition sl_sched_round :: "'p sl_mod \<Rightarrow> thdid \<Rightarrow> notification stream \<Rightarrow> answer \<Rightarrow> 'p sl_sys \<Rightarrow> 'p sl_sys res" where
  "sl_sched_round M me ns a s =
     rbind (sl_cs_enter me s) (\<lambda>s1.
     rbind (sl_receive M ns s1) (\<lambda>s2.
     rbind (sl_cs_exit_schedule_nospin_arg M me a 0 s2) (\<lambda>(r, s3). Inr s3)))"

end
