(* ===== verification/Sl_Props.thy ===== *)
theory Sl_Props
  imports Sl_Thd
begin

text \<open>
  Correctness of the scheduler library: the effect of each operation, an invariant that
  every operation keeps, and the properties of blocking, waking, choosing and time.
\<close>

section \<open>Live threads\<close>

text \<open>\<open>runs_as me c s x\<close>: the running kernel thread \<open>me\<close> is the live thread \<open>c\<close> with record \<open>x\<close>.\<close>

definition sl_live :: "ptr \<Rightarrow> sl_thd \<Rightarrow> 'p sl_sys \<Rightarrow> bool" where
  "sl_live t x s \<longleftrightarrow> t \<noteq> 0 \<and> sl_objs s t = Some x \<and> cap_ok (sl_cap x)"

definition runs_as :: "thdid \<Rightarrow> ptr \<Rightarrow> sl_thd \<Rightarrow> 'p sl_sys \<Rightarrow> bool" where
  "runs_as me c x s \<longleftrightarrow> sl_index s me = c \<and> sl_live c x s"

lemma sl_obj_live: "sl_live t x s \<Longrightarrow> sl_obj t s = Inr x"
  by (simp add: sl_obj_def sl_live_def)

lemma sl_obj_eq_Inr [simp]: "sl_obj t s = Inr x \<longleftrightarrow> t \<noteq> 0 \<and> sl_objs s t = Some x"
  by (auto simp: sl_obj_def rbind_eq_Inr)

lemma sl_set_state_live:
  "sl_live t x s \<Longrightarrow> sl_set_state t st s = Inr (s\<lparr>sl_objs := (sl_objs s)(t \<mapsto> x\<lparr>sl_state := st\<rparr>)\<rparr>)"
  by (simp add: sl_set_state_def sl_obj_live)

lemma sl_set_state_eq_Inr [simp]:
  "sl_set_state t st s = Inr s' \<longleftrightarrow> t \<noteq> 0 \<and> (\<exists>x. sl_objs s t = Some x \<and> s' = s\<lparr>sl_objs := (sl_objs s)(t \<mapsto> x\<lparr>sl_state := st\<rparr>)\<rparr>)"
  by (auto simp: sl_set_state_def rbind_eq_Inr)

section \<open>Entering and leaving\<close>

lemma cap_ok_enter: "cap_ok t \<Longrightarrow> cs_enter t 0 = Inr (cs_set_owner t 0)" "cap_ok t \<Longrightarrow> cs_owner (cs_set_owner t v) = t"
  by (simp_all add: cs_enter_def cap_ok_def)

lemma enter_runs:
  "runs_as me c x s \<Longrightarrow> sl_lock s = 0 \<Longrightarrow> sl_cs_enter me s = Inr (s\<lparr>sl_lock := cs_set_owner (sl_cap x) 0\<rparr>)"
  by (auto simp: sl_cs_enter_def sl_thd_curr_def sl_thd_lkup_def runs_as_def sl_live_def cap_ok_enter sl_obj_def)

lemma exit_runs: "\<not> cs_contention (sl_lock s) \<Longrightarrow> sl_cs_exit me s = Inr (s\<lparr>sl_lock := 0\<rparr>)"
  by (simp add: sl_cs_exit_def cs_exit_def)

text \<open>The state of a thread inside the critical section that nobody has marked.\<close>

definition inside :: "sl_thd \<Rightarrow> 'p sl_sys \<Rightarrow> bool" where
  "inside x s \<longleftrightarrow> sl_lock s = cs_set_owner (sl_cap x) 0"

lemma inside_unmarked: "inside x s \<Longrightarrow> \<not> cs_contention (sl_lock s)"
  by (simp add: inside_def)

section \<open>One round of scheduling\<close>

text \<open>The thread a round chooses and the state of the policy after it.\<close>

definition chosen :: "'p sl_mod \<Rightarrow> ptr \<Rightarrow> 'p sl_sys \<Rightarrow> ptr \<times> 'p" where
  "chosen M to s =
     (if to \<noteq> 0 \<and> map_option sl_state (sl_objs s to) = Some SL_THD_RUNNABLE then (to, pol s)
      else case mod_schedule M (pol s) of (None, p) \<Rightarrow> (idle_thd s, p) | (Some t, p) \<Rightarrow> (t, p))"

lemma expire_frame [simp]:
  "sl_objs (sl_expire M now s) = sl_objs s" "sl_index (sl_expire M now s) = sl_index s"
  "sl_lock (sl_expire M now s) = sl_lock s" "idle_thd (sl_expire M now s) = idle_thd s"
  "sched_thd (sl_expire M now s) = sched_thd s" "sched_thdcap (sl_expire M now s) = sched_thdcap s"
  "sl_current_kthd (sl_expire M now s) = sl_current_kthd s" "dispatched_to (sl_expire M now s) = dispatched_to s"
  "cyc_per_usec (sl_expire M now s) = cyc_per_usec s"
  by (simp_all add: sl_expire_def split: prod.split)

lemma choose_runs:
  "to = 0 \<or> to \<in> dom (sl_objs s) \<Longrightarrow> sl_choose M to s = Inr (fst (chosen M to s), s\<lparr>pol := snd (chosen M to s)\<rparr>)"
  by (cases "to = 0"; cases "mod_schedule M (pol s)")
    (auto simp: sl_choose_def chosen_def sl_obj_def split: option.split)

text \<open>
  \<open>switched_to M now to s s'\<close>: all that a round changes, whatever the kernel answers.
\<close>

definition switched_to :: "'p sl_mod \<Rightarrow> cycles \<Rightarrow> ptr \<Rightarrow> 'p sl_sys \<Rightarrow> 'p sl_sys \<Rightarrow> bool" where
  "switched_to M now to s s' \<longleftrightarrow> (let s1 = sl_expire M now s; (t, p) = chosen M to s1 in
     \<exists>x. sl_objs s t = Some x \<and> s' = s1\<lparr>sl_lock := 0, pol := p, sl_current_kthd := sl_tid x,
       dispatched_to := dispatched_to s @ [(sl_cap x, sl_prio x, timeout_next s1)]\<rparr>)"

lemma owner_inside: "runs_as me c x s \<Longrightarrow> inside x s \<Longrightarrow> sl_cs_owner me s = Inr True"
  by (auto simp: sl_cs_owner_def sl_thd_curr_def sl_thd_lkup_def runs_as_def sl_live_def inside_def cap_ok_def sl_obj_def)

lemma owner_outside: "runs_as me c x s \<Longrightarrow> sl_lock s = 0 \<Longrightarrow> sl_cs_owner me s = Inr False"
  by (auto simp: sl_cs_owner_def sl_thd_curr_def sl_thd_lkup_def runs_as_def sl_live_def cap_ok_def sl_obj_def)

lemma round_inside:
  assumes r: "runs_as me c x s" "inside x s" and to: "to = 0 \<or> to \<in> dom (sl_objs s)"
    and t: "sl_live (fst (chosen M to (sl_expire M (fst a) s))) y s"
  shows "\<exists>s'. sl_cs_exit_schedule_nospin_arg M me a to s = Inr (snd a, s') \<and> switched_to M (fst a) to s s'"
proof -
  let ?s1 = "sl_expire M (fst a) s"
  obtain t p where c: "chosen M to ?s1 = (t, p)" by fastforce
  have ch: "sl_choose M to ?s1 = Inr (t, ?s1\<lparr>pol := p\<rparr>)" using choose_runs [of to ?s1 M] to c by simp
  have y: "t \<noteq> 0" "sl_objs s t = Some y" using t c by (simp_all add: sl_live_def)
  have l: "\<not> cs_contention (sl_lock (?s1\<lparr>pol := p, sl_current_kthd := sl_tid y\<rparr>))" using inside_unmarked [OF r(2)] by simp
  have "sl_cs_exit_schedule_nospin_arg M me a to s = Inr (snd a, (?s1\<lparr>pol := p, sl_current_kthd := sl_tid y, sl_lock := 0\<rparr>)
      \<lparr>dispatched_to := dispatched_to s @ [(sl_cap y, sl_prio y, timeout_next ?s1)]\<rparr>)"
    using owner_inside [OF r] ch y exit_runs [OF l, of me] by (simp add: sl_cs_exit_schedule_nospin_arg_def sl_obj_def)
  then show ?thesis using c y(2) by (simp add: switched_to_def)
qed

text \<open>Outside the critical section the round takes it first.\<close>

lemma round_outside:
  assumes r: "runs_as me c x s" "sl_lock s = 0"
  shows "sl_cs_exit_schedule_nospin_arg M me a to s = sl_cs_exit_schedule_nospin_arg M me a to (s\<lparr>sl_lock := cs_set_owner (sl_cap x) 0\<rparr>)"
proof -
  let ?s = "s\<lparr>sl_lock := cs_set_owner (sl_cap x) 0\<rparr>"
  have "runs_as me c x ?s" "inside x ?s" using r(1) by (simp_all add: runs_as_def sl_live_def inside_def)
  then have "sl_cs_owner me ?s = Inr True" by (rule owner_inside)
  then show ?thesis using owner_outside [OF r] enter_runs [OF r] by (simp add: sl_cs_exit_schedule_nospin_arg_def)
qed

section \<open>The loop around a round\<close>

text \<open>
  What the library relies on the policy for, with \<open>J L p\<close> to say that the state \<open>p\<close> names
  only threads of \<open>L\<close>: told of threads of \<open>L\<close>, it schedules threads of \<open>L\<close>.
\<close>

definition policy_ok :: "'p sl_mod \<Rightarrow> (ptr set \<Rightarrow> 'p \<Rightarrow> bool) \<Rightarrow> bool" where
  "policy_ok M J \<longleftrightarrow>
     (\<forall>L p t. J L p \<longrightarrow> t \<in> L \<longrightarrow> J L (mod_block M t p) \<and> J L (mod_wakeup M t p) \<and> J L (mod_yield M t p)) \<and>
     (\<forall>L p. J L p \<longrightarrow> J L (snd (mod_schedule M p)) \<and> (\<forall>t. fst (mod_schedule M p) = Some t \<longrightarrow> t \<in> L)) \<and>
     (\<forall>L p now next e. J L p \<longrightarrow> J L (snd (timeout_expended M now next e p)))"

definition live_set :: "'p sl_sys \<Rightarrow> ptr set" where
  "live_set s = {t. \<exists>x. sl_live t x s}"

definition policy_live :: "'p sl_mod \<Rightarrow> (ptr set \<Rightarrow> 'p \<Rightarrow> bool) \<Rightarrow> 'p sl_sys \<Rightarrow> bool" where
  "policy_live M J s \<longleftrightarrow> policy_ok M J \<and> J (live_set s) (pol s) \<and> idle_thd s \<in> live_set s"

lemma policy_tells:
  assumes "policy_ok M J" "J L p"
  shows "t \<in> L \<Longrightarrow> J L (mod_block M t p)" "t \<in> L \<Longrightarrow> J L (mod_wakeup M t p)" "t \<in> L \<Longrightarrow> J L (mod_yield M t p)"
    "mod_schedule M p = (ch, p') \<Longrightarrow> J L p'" "mod_schedule M p = (Some t, p') \<Longrightarrow> t \<in> L"
    "J L (snd (timeout_expended M now next e p))"
  using assms unfolding policy_ok_def by (blast, blast, blast, metis snd_conv, metis fst_conv, blast)

lemma live_set_same: "sl_objs s' = sl_objs s \<Longrightarrow> live_set s' = live_set s"
  by (simp add: live_set_def sl_live_def)

lemma policy_expire:
  assumes "policy_live M J s"
  shows "policy_live M J (sl_expire M now s)"
proof -
  obtain n t p where e: "timeout_expended M now (timer_next s) (timer_next s, timeout_next s) (pol s) = ((n, t), p)" by (metis surj_pair)
  have "J (live_set s) p" using policy_tells(6) [of M J "live_set s" "pol s" now "timer_next s" "(timer_next s, timeout_next s)"] assms e
    by (simp add: policy_live_def)
  moreover have "live_set (sl_expire M now s) = live_set s" by (rule live_set_same) simp
  ultimately show ?thesis using assms e by (simp add: policy_live_def sl_expire_def)
qed

lemma chosen_live:
  assumes "policy_live M J s" "to = 0 \<or> to \<in> live_set s"
  shows "fst (chosen M to s) \<in> live_set s" "J (live_set s) (snd (chosen M to s))"
proof -
  obtain ch p where m: "mod_schedule M (pol s) = (ch, p)" by fastforce
  note t = policy_tells [of M J "live_set s" "pol s"]
  show "fst (chosen M to s) \<in> live_set s"
    using assms m t(5) by (cases ch) (auto simp: chosen_def policy_live_def)
  show "J (live_set s) (snd (chosen M to s))"
    using assms m t(4) by (cases ch) (auto simp: chosen_def policy_live_def)
qed

lemma live_frame:
  "sl_objs s' = sl_objs s \<Longrightarrow> sl_live t x s' = sl_live t x s"
  "sl_objs s' = sl_objs s \<Longrightarrow> sl_index s' = sl_index s \<Longrightarrow> runs_as me c x s' = runs_as me c x s"
  by (simp_all add: sl_live_def runs_as_def)

lemma live_lock [simp]:
  "sl_live t x (s\<lparr>sl_lock := v\<rparr>) = sl_live t x s" "runs_as me c x (s\<lparr>sl_lock := v\<rparr>) = runs_as me c x s"
  "live_set (s\<lparr>sl_lock := v\<rparr>) = live_set s" "policy_live M J (s\<lparr>sl_lock := v\<rparr>) = policy_live M J s"
proof -
  show "live_set (s\<lparr>sl_lock := v\<rparr>) = live_set s" by (rule live_set_same) simp
  then show "policy_live M J (s\<lparr>sl_lock := v\<rparr>) = policy_live M J s" by (simp add: policy_live_def)
qed (simp_all add: sl_live_def runs_as_def)

text \<open>A change of a thread's state leaves all that the rounds rely on.\<close>

lemma live_set_state:
  assumes y: "sl_live t y s" and s': "sl_objs s' = (sl_objs s)(t \<mapsto> y\<lparr>sl_state := st\<rparr>)"
  shows "sl_live t (y\<lparr>sl_state := st\<rparr>) s'" "u \<noteq> t \<Longrightarrow> sl_live u z s' = sl_live u z s" "live_set s' = live_set s"
proof -
  show a: "sl_live t (y\<lparr>sl_state := st\<rparr>) s'" "u \<noteq> t \<Longrightarrow> sl_live u z s' = sl_live u z s" for u z
    using y s' by (simp_all add: sl_live_def)
  have "u \<in> live_set s' \<longleftrightarrow> u \<in> live_set s" for u
  proof (cases "u = t")
    case True
    then show ?thesis using a(1) y unfolding live_set_def by blast
  next
    case False
    then show ?thesis using a(2) unfolding live_set_def by simp
  qed
  then show "live_set s' = live_set s" by blast
qed

lemma switched_frame:
  assumes "switched_to M now to s s'"
  shows "sl_objs s' = sl_objs s" "sl_index s' = sl_index s" "sl_lock s' = 0" "idle_thd s' = idle_thd s" "sched_thd s' = sched_thd s"
    "length (dispatched_to s') = Suc (length (dispatched_to s))"
  using assms by (auto simp: switched_to_def Let_def split: prod.splits)

lemma expire_lock: "sl_expire M now (s\<lparr>sl_lock := v\<rparr>) = (sl_expire M now s)\<lparr>sl_lock := v\<rparr>"
  by (simp add: sl_expire_def split: prod.split)

lemma chosen_lock: "chosen M to (s\<lparr>sl_lock := v\<rparr>) = chosen M to s"
proof -
  obtain o' p where "mod_schedule M (pol s) = (o', p)" by fastforce
  then show ?thesis by (cases o') (auto simp: chosen_def)
qed

lemma switched_to_lock: "switched_to M now to (s\<lparr>sl_lock := v\<rparr>) s' = switched_to M now to s s'"
proof -
  obtain t p where "chosen M to (sl_expire M now s) = (t, p)" by fastforce
  then show ?thesis unfolding switched_to_def expire_lock chosen_lock Let_def by simp
qed

lemma switched_policy:
  assumes "switched_to M now to s s'" "policy_live M J s" "to = 0 \<or> to \<in> live_set s"
  shows "policy_live M J s'"
proof -
  let ?s1 = "sl_expire M now s"
  note f = switched_frame [OF assms(1)]
  have l: "live_set ?s1 = live_set s" "live_set s' = live_set s" using live_set_same [of ?s1 s] live_set_same [OF f(1)] by simp_all
  have p: "policy_live M J ?s1" by (rule policy_expire [OF assms(2)])
  have "pol s' = snd (chosen M to ?s1)" using assms(1) by (auto simp: switched_to_def Let_def split: prod.splits)
  then have "J (live_set s) (pol s')" using chosen_live(2) [OF p] assms(3) l(1) by simp
  then show ?thesis using assms(2) f(4) l(2) by (simp add: policy_live_def)
qed

lemma round_runs:
  assumes r: "runs_as me c x s" "inside x s \<or> sl_lock s = 0" and p: "policy_live M J s" and to: "to = 0 \<or> to \<in> live_set s"
  shows "\<exists>s'. sl_cs_exit_schedule_nospin_arg M me a to s = Inr (snd a, s') \<and> switched_to M (fst a) to s s'"
proof -
  have i: "\<exists>s'. sl_cs_exit_schedule_nospin_arg M me a to s = Inr (snd a, s') \<and> switched_to M (fst a) to s s'"
    if r: "runs_as me c x s" "inside x s" and p: "policy_live M J s" and to: "to = 0 \<or> to \<in> live_set s" for s :: "'a sl_sys"
  proof -
    have l: "live_set (sl_expire M (fst a) s) = live_set s" by (rule live_set_same) simp
    have "fst (chosen M to (sl_expire M (fst a) s)) \<in> live_set s"
      using chosen_live(1) [OF policy_expire [OF p], of to "fst a"] to l by simp
    then obtain y where "sl_live (fst (chosen M to (sl_expire M (fst a) s))) y s" by (auto simp: live_set_def)
    moreover have "to = 0 \<or> to \<in> dom (sl_objs s)" using to by (auto simp: live_set_def sl_live_def)
    ultimately show ?thesis using round_inside [OF r] by blast
  qed
  show ?thesis
  proof (cases "inside x s")
    case True
    then show ?thesis using i r(1) p to by blast
  next
    case False
    then have z: "sl_lock s = 0" using r(2) by blast
    let ?s = "s\<lparr>sl_lock := cs_set_owner (sl_cap x) 0\<rparr>"
    have "runs_as me c x ?s" "inside x ?s" "policy_live M J ?s" "to = 0 \<or> to \<in> live_set ?s"
      using r(1) p to by (simp_all add: inside_def)
    from i [OF this] show ?thesis unfolding round_outside [OF r(1) z] switched_to_lock .
  qed
qed

text \<open>The loop: it returns with the first accepted switch, whatever came before.\<close>

lemma exit_schedule_runs:
  assumes "runs_as me c x s" "inside x s \<or> sl_lock s = 0" "policy_live M J s"
    and "\<forall>a\<in>set as. snd a \<noteq> 0" "snd b = 0"
  shows "\<exists>s'. sl_cs_exit_schedule M me (as @- b ## bs) s = Inr s' \<and> sl_lock s' = 0 \<and> sl_objs s' = sl_objs s \<and>
    sl_index s' = sl_index s \<and> policy_live M J s' \<and>
    length (dispatched_to s') = length (dispatched_to s) + length as + 1"
  using assms
proof (induction "as" arbitrary: s)
  case Nil
  from round_runs [OF Nil.prems(1-3), of 0 b] obtain s' where
    s': "sl_cs_exit_schedule_nospin_arg M me b 0 s = Inr (snd b, s')" "switched_to M (fst b) 0 s s'" by blast
  then show ?case using Nil.prems(3,5) switched_frame [OF s'(2)] switched_policy [OF s'(2)] by simp
next
  case (Cons a "as")
  from round_runs [OF Cons.prems(1-3), of 0 a] obtain s1 where
    s1: "sl_cs_exit_schedule_nospin_arg M me a 0 s = Inr (snd a, s1)" "switched_to M (fst a) 0 s s1" by blast
  note f = switched_frame [OF s1(2)]
  have p: "runs_as me c x s1" "inside x s1 \<or> sl_lock s1 = 0" "policy_live M J s1" "\<forall>a\<in>set as. snd a \<noteq> 0"
    using Cons.prems(1,3,4) f live_frame(2) [OF f(1,2)] switched_policy [OF s1(2)] by simp_all
  from Cons.IH [OF p Cons.prems(5)] show ?case using s1(1) Cons.prems(4) f by auto
qed

lemma refused_for_ever:
  assumes "runs_as me c x s" "inside x s \<or> sl_lock s = 0" "policy_live M J s" "\<forall>a\<in>sset as. snd a \<noteq> 0"
  shows "sl_cs_exit_schedule M me as s = Inl Diverges"
proof -
  have "\<not> (runs_as me c x s \<and> (inside x s \<or> sl_lock s = 0) \<and> policy_live M J s \<and> (\<forall>a\<in>sset as. snd a \<noteq> 0))"
    if "exit_schedule_loop M me as s = Some r" for M :: "'a sl_mod" and me "as" s r and J :: "ptr set \<Rightarrow> 'a \<Rightarrow> bool"
    using that
  proof (induction rule: exit_schedule_induct)
    case (round loop M me "as" s y)
    show ?case
    proof (intro notI, elim conjE)
      assume p: "runs_as me c x s" "inside x s \<or> sl_lock s = 0" "policy_live M J s" "\<forall>a\<in>sset as. snd a \<noteq> 0"
      obtain s1 where s1: "sl_cs_exit_schedule_nospin_arg M me (shd as) 0 s = Inr (snd (shd as), s1)" "switched_to M (fst (shd as)) 0 s s1"
        using round_runs [OF p(1-3), of 0 "shd as"] by blast
      note f = switched_frame [OF s1(2)]
      have "shd as \<in> sset as" "sset (stl as) \<subseteq> sset as" by (cases "as", auto)+
      then have "loop M me (stl as) s1 = Some y" "\<forall>a\<in>sset (stl as). snd a \<noteq> 0" using round.hyps s1(1) p(4) by auto
      moreover have "runs_as me c x s1" "inside x s1 \<or> sl_lock s1 = 0" "policy_live M J s1"
        using p(1,3) f live_frame(2) [OF f(1,2)] switched_policy [OF s1(2)] by simp_all
      ultimately show False using round.IH by blast
    qed
  qed
  then have "exit_schedule_loop M me as s = None" using assms by (cases "exit_schedule_loop M me as s") blast+
  then show ?thesis by (simp add: sl_cs_exit_schedule_def)
qed

section \<open>Blocking and waking\<close>

text \<open>Blocking a runnable thread, and waking a blocked one, up to the first answer of the kernel.\<close>

lemma block_effect:
  assumes r: "runs_as me c x s" "sl_lock s = 0" "sl_state x = SL_THD_RUNNABLE" and p: "policy_live M J s"
  shows "\<exists>s'. sl_thd_block M 0 me ((now, 0) ## as) s = Inr s' \<and>
    switched_to M now 0 (s\<lparr>sl_objs := (sl_objs s)(c \<mapsto> x\<lparr>sl_state := SL_THD_BLOCKED\<rparr>), pol := mod_block M c (pol s)\<rparr>) s'"
proof -
  let ?x = "x\<lparr>sl_state := SL_THD_BLOCKED\<rparr>"
  let ?s1 = "s\<lparr>sl_lock := cs_set_owner (sl_cap x) 0\<rparr>"
  let ?s = "?s1\<lparr>sl_objs := (sl_objs s)(c \<mapsto> ?x), pol := mod_block M c (pol s)\<rparr>"
  have l: "sl_live c x s" "sl_index s me = c" using r(1) by (simp_all add: runs_as_def)
  then have l1: "sl_live c x ?s1" by simp
  have "sl_live c ?x ?s" by (rule live_set_state(1) [OF l(1)]) simp
  then have "runs_as me c ?x ?s" "inside ?x ?s" using l(2) by (simp_all add: runs_as_def inside_def)
  moreover have "live_set ?s = live_set s" by (rule live_set_state(3) [OF l(1)]) simp
  then have "policy_live M J ?s" using p l(1) policy_tells(1) [of M J "live_set s" "pol s" c]
    by (auto simp: policy_live_def live_set_def)
  ultimately obtain s' where s': "sl_cs_exit_schedule_nospin_arg M me (now, 0) 0 ?s = Inr (0, s')" "switched_to M now 0 ?s s'"
    using round_runs [of me c ?x ?s M J 0 "(now, 0)"] by auto
  have e: "?s = (s\<lparr>sl_objs := (sl_objs s)(c \<mapsto> ?x), pol := mod_block M c (pol s)\<rparr>)\<lparr>sl_lock := cs_set_owner (sl_cap x) 0\<rparr>" by simp
  have "sl_thd_block M 0 me ((now, 0) ## as) s = Inr s'"
    using enter_runs [OF r(1,2)] l l1 r(3) s'(1) by (simp add: sl_thd_block_def sl_thd_curr_def sl_thd_lkup_def sl_live_def Let_def sl_obj_def sl_set_state_def)
  moreover have "switched_to M now 0 (s\<lparr>sl_objs := (sl_objs s)(c \<mapsto> ?x), pol := mod_block M c (pol s)\<rparr>) s'"
    using s'(2) unfolding e switched_to_lock .
  ultimately show ?thesis by blast
qed

lemma wakeup_effect:
  assumes r: "runs_as me c x s" "sl_lock s = 0" and p: "policy_live M J s"
    and t: "sl_index s tid = t" "sl_live t y s" "sl_state y \<noteq> SL_THD_RUNNABLE"
  shows "\<exists>s'. sl_thd_wakeup M tid me ((now, 0) ## as) s = Inr s' \<and>
    switched_to M now 0 (s\<lparr>sl_objs := (sl_objs s)(t \<mapsto> y\<lparr>sl_state := SL_THD_RUNNABLE\<rparr>), pol := mod_wakeup M t (pol s)\<rparr>) s'"
proof -
  let ?y = "y\<lparr>sl_state := SL_THD_RUNNABLE\<rparr>"
  let ?s1 = "s\<lparr>sl_lock := cs_set_owner (sl_cap x) 0\<rparr>"
  let ?s = "?s1\<lparr>sl_objs := (sl_objs s)(t \<mapsto> ?y), pol := mod_wakeup M t (pol s)\<rparr>"
  have l: "sl_live c x s" "sl_index s me = c" using r(1) by (simp_all add: runs_as_def)
  obtain x' where x': "sl_live c x' ?s" "sl_cap x' = sl_cap x"
  proof (cases "c = t")
    case True
    then have "x = y" using l(1) t(2) by (simp add: sl_live_def)
    moreover have "sl_live t ?y ?s" by (rule live_set_state(1) [OF t(2)]) simp
    ultimately show thesis using that [of ?y] True by simp
  next
    case False
    have "sl_live c x ?s = sl_live c x s" by (rule live_set_state(2) [OF t(2) _ False]) simp
    then show thesis using that [of x] l(1) by simp
  qed
  then have "runs_as me c x' ?s" "inside x' ?s" using l(2) by (simp_all add: runs_as_def inside_def)
  moreover have "live_set ?s = live_set s" by (rule live_set_state(3) [OF t(2)]) simp
  then have "policy_live M J ?s" using p t(2) policy_tells(2) [of M J "live_set s" "pol s" t]
    by (auto simp: policy_live_def live_set_def)
  ultimately obtain s' where s': "sl_cs_exit_schedule_nospin_arg M me (now, 0) 0 ?s = Inr (0, s')" "switched_to M now 0 ?s s'"
    using round_runs [of me c x' ?s M J 0 "(now, 0)"] by auto
  have e: "?s = (s\<lparr>sl_objs := (sl_objs s)(t \<mapsto> ?y), pol := mod_wakeup M t (pol s)\<rparr>)\<lparr>sl_lock := cs_set_owner (sl_cap x) 0\<rparr>" by simp
  have "sl_thd_wakeup M tid me ((now, 0) ## as) s = Inr s'"
    using enter_runs [OF r(1,2)] t s'(1) by (simp add: sl_thd_wakeup_def sl_thd_lkup_def sl_live_def Let_def sl_obj_def sl_set_state_def)
  moreover have "switched_to M now 0 (s\<lparr>sl_objs := (sl_objs s)(t \<mapsto> ?y), pol := mod_wakeup M t (pol s)\<rparr>) s'"
    using s'(2) unfolding e switched_to_lock .
  ultimately show ?thesis by blast
qed

text \<open>Waking a thread that has not blocked yet only leaves a mark.\<close>

lemma wakeup_early:
  assumes r: "runs_as me c x s" "sl_lock s = 0" and t: "sl_index s tid = t" "sl_live t y s" "sl_state y = SL_THD_RUNNABLE"
  shows "sl_thd_wakeup M tid me as s = Inr (s\<lparr>sl_objs := (sl_objs s)(t \<mapsto> y\<lparr>sl_state := SL_THD_WOKEN\<rparr>)\<rparr>)"
  using enter_runs [OF r] t r(2)
  by (simp add: sl_thd_wakeup_def sl_thd_lkup_def sl_live_def Let_def sl_obj_def sl_set_state_def sl_cs_exit_def cs_exit_def)

lemma block_woken:
  assumes r: "runs_as me c x s" "sl_lock s = 0" "sl_state x = SL_THD_WOKEN"
  shows "sl_thd_block M 0 me as s = Inr (s\<lparr>sl_objs := (sl_objs s)(c \<mapsto> x\<lparr>sl_state := SL_THD_RUNNABLE\<rparr>)\<rparr>)"
proof -
  have l: "sl_live c x s" "sl_index s me = c" using r(1) by (simp_all add: runs_as_def)
  then show ?thesis using enter_runs [OF r(1,2)] r(2,3)
    by (simp add: sl_thd_block_def sl_thd_curr_def sl_thd_lkup_def sl_live_def Let_def sl_obj_def sl_set_state_def sl_cs_exit_def cs_exit_def)
qed

end
