(* ===== verification/Sl_Reach.thy ===== *)
theory Sl_Reach
  imports Sl_Props
begin

text \<open>
  The scheduler library as a machine whose steps are its operations by any of the kernel
  threads, and the invariant of its reachable states.
\<close>

section \<open>What operations change of the threads\<close>

text \<open>The same threads, up to their state and priority, none of them released.\<close>

definition thread_key :: "sl_thd \<Rightarrow> thdid \<times> thdcap \<times> bool" where
  "thread_key x = (sl_tid x, sl_cap x, sl_state x = SL_THD_FREE)"

definition same_threads :: "'p sl_sys \<Rightarrow> 'p sl_sys \<Rightarrow> bool" where
  "same_threads s s' \<longleftrightarrow> sl_index s' = sl_index s \<and> idle_thd s' = idle_thd s \<and> sched_thd s' = sched_thd s \<and>
     (\<forall>t. map_option thread_key (sl_objs s' t) = map_option thread_key (sl_objs s t))"

lemma same_threads_refl [simp]: "same_threads s s"
  by (simp add: same_threads_def)

lemma same_threads_trans: "same_threads s s1 \<Longrightarrow> same_threads s1 s2 \<Longrightarrow> same_threads s s2"
  by (simp add: same_threads_def)

lemma same_threads_objs:
  "sl_index s' = sl_index s \<Longrightarrow> idle_thd s' = idle_thd s \<Longrightarrow> sched_thd s' = sched_thd s \<Longrightarrow> sl_objs s' = sl_objs s \<Longrightarrow> same_threads s s'"
  by (simp add: same_threads_def)

text \<open>\<open>sl_keeps s s'\<close>: the same threads, and the critical section is free.\<close>

definition sl_keeps :: "'p sl_sys \<Rightarrow> 'p sl_sys \<Rightarrow> bool" where
  "sl_keeps s s' \<longleftrightarrow> same_threads s s' \<and> sl_lock s' = 0"

lemma enter_same: "sl_cs_enter me s = Inr s' \<Longrightarrow> same_threads s s'"
  by (auto simp: sl_cs_enter_def rbind_eq_Inr intro!: same_threads_objs)

lemma exit_keeps: "sl_cs_exit me s = Inr s' \<Longrightarrow> sl_keeps s s'"
  by (auto simp: sl_cs_exit_def cs_exit_def rbind_eq_Inr sl_keeps_def split: if_splits intro!: same_threads_objs)

lemma expire_same: "same_threads s (sl_expire M now s)"
  by (rule same_threads_objs) simp_all

lemma choose_same: "sl_choose M to s = Inr (t, s') \<Longrightarrow> same_threads s s'"
  by (auto simp: sl_choose_def rbind_eq_Inr split: if_splits prod.splits option.splits intro!: same_threads_objs)

lemma set_state_same:
  assumes "sl_set_state t st s = Inr s'" "st \<noteq> SL_THD_FREE" "\<forall>x. sl_objs s t = Some x \<longrightarrow> sl_state x \<noteq> SL_THD_FREE"
  shows "same_threads s s'" "\<forall>x. sl_objs s' t = Some x \<longrightarrow> sl_state x \<noteq> SL_THD_FREE"
  using assms by (auto simp: same_threads_def thread_key_def)

lemma keeps_after: "same_threads s s1 \<Longrightarrow> sl_keeps s1 s' \<Longrightarrow> sl_keeps s s'"
  using same_threads_trans by (auto simp: sl_keeps_def)

lemma round_keeps:
  assumes "sl_cs_exit_schedule_nospin_arg M me a to s = Inr (r, s')"
  shows "sl_keeps s s'"
proof -
  obtain m s1 t s2 x s3 where e: "(if m then Inr s else sl_cs_enter me s) = Inr s1"
    "sl_choose M to (sl_expire M (fst a) s1) = Inr (t, s2)" "sl_obj t s2 = Inr x" "sl_cs_exit me (s2\<lparr>sl_current_kthd := sl_tid x\<rparr>) = Inr s3"
    "s3\<lparr>dispatched_to := dispatched_to s3 @ [(sl_cap x, sl_prio x, timeout_next s3)]\<rparr> = s'"
    using assms unfolding sl_cs_exit_schedule_nospin_arg_def rbind_eq_Inr split_paired_Ex prod.case prod.inject sum.inject
    by (elim exE conjE) (rule that)
  have "same_threads s s1" using e(1) enter_same by (cases m) auto
  moreover have "same_threads s1 s2" using same_threads_trans [OF expire_same choose_same [OF e(2)]] .
  moreover have "same_threads s2 (s2\<lparr>sl_current_kthd := sl_tid x\<rparr>)" by (rule same_threads_objs) simp_all
  moreover have "sl_keeps (s2\<lparr>sl_current_kthd := sl_tid x\<rparr>) s3" by (rule exit_keeps [OF e(4)])
  ultimately have "sl_keeps s s3" using same_threads_trans keeps_after by metis
  then show ?thesis using e(5) by (auto simp: sl_keeps_def same_threads_def)
qed

lemma exit_schedule_keeps: "sl_cs_exit_schedule M me as s = Inr s' \<Longrightarrow> sl_keeps s s'"
proof -
  assume "sl_cs_exit_schedule M me as s = Inr s'"
  then have "exit_schedule_loop M me as s = Some (Inr s')" by (auto simp: sl_cs_exit_schedule_def split: option.splits)
  moreover have "r = Inr s' \<longrightarrow> sl_keeps s s'" if "exit_schedule_loop M me as s = Some r" for M me "as" s r
    using that
  proof (induction rule: exit_schedule_induct)
    case (round loop M me "as" s y)
    show ?case
    proof
      assume y: "y = Inr s'"
      obtain r s1 where e: "sl_cs_exit_schedule_nospin_arg M me (shd as) 0 s = Inr (r, s1)"
        "(if r \<noteq> 0 then loop M me (stl as) s1 else Some (Inr s1)) = Some y"
        using round.hyps y by (auto split: sum.splits)
      note k = round_keeps [OF e(1)]
      show "sl_keeps s s'"
      proof (cases "r = 0")
        case False
        then have "sl_keeps s1 s'" using round.IH e(2) y by simp
        then show ?thesis using k keeps_after by (auto simp: sl_keeps_def)
      qed (use e(2) k y in simp)
    qed
  qed
  ultimately show ?thesis by blast
qed

lemma switchto_keeps:
  assumes "sl_cs_exit_switchto M me as to s = Inr s'"
  shows "sl_keeps s s'"
proof -
  obtain r s1 where e: "sl_cs_exit_schedule_nospin_arg M me (shd as) to s = Inr (r, s1)"
    "(if r \<noteq> 0 then sl_cs_exit_schedule M me (stl as) s1 else Inr s1) = Inr s'"
    using assms by (auto simp: sl_cs_exit_switchto_def rbind_eq_Inr)
  note k = round_keeps [OF e(1)]
  show ?thesis
  proof (cases "r = 0")
    case False
    then have "sl_keeps s1 s'" using e(2) by (intro exit_schedule_keeps) simp
    then show ?thesis using k keeps_after by (auto simp: sl_keeps_def)
  qed (use e(2) k in simp)
qed

section \<open>The invariant\<close>

text \<open>
  The critical section is free between operations; the table of threads and the thread
  objects agree; every thread has a usable capability and is not marked as released; the
  scheduler's and the idle thread exist.
\<close>

definition sl_inv :: "'p sl_sys \<Rightarrow> bool" where
  "sl_inv s \<longleftrightarrow> sl_lock s = 0 \<and> sl_index s 0 = 0 \<and> sched_thd s \<in> dom (sl_objs s) \<and> idle_thd s \<in> dom (sl_objs s) \<and>
     (\<forall>tid. sl_index s tid \<noteq> 0 \<longrightarrow> (\<exists>x. sl_objs s (sl_index s tid) = Some x \<and> sl_tid x = tid)) \<and>
     (\<forall>t x. sl_objs s t = Some x \<longrightarrow> t \<noteq> 0 \<and> cap_ok (sl_cap x) \<and> sl_state x \<noteq> SL_THD_FREE \<and> sl_index s (sl_tid x) = t)"

lemma sl_inv_objs: "sl_inv s \<Longrightarrow> sl_objs s t = Some x \<Longrightarrow> sl_live t x s \<and> sl_state x \<noteq> SL_THD_FREE \<and> sl_index s (sl_tid x) = t"
  by (simp add: sl_inv_def sl_live_def)

lemma sl_inv_index:
  assumes "sl_inv s" "sl_index s tid \<noteq> 0"
  obtains x where "sl_live (sl_index s tid) x s" "sl_tid x = tid" "sl_state x \<noteq> SL_THD_FREE"
proof -
  obtain x where "sl_objs s (sl_index s tid) = Some x" "sl_tid x = tid" using assms by (auto simp: sl_inv_def)
  then show thesis using that sl_inv_objs [OF assms(1)] by blast
qed

lemma same_objs:
  assumes "same_threads s s'" "sl_objs s' t = Some x'"
  obtains x where "sl_objs s t = Some x" "thread_key x = thread_key x'"
proof -
  have "map_option thread_key (sl_objs s t) = Some (thread_key x')" using assms unfolding same_threads_def by (metis option.simps(9))
  then show thesis using that by auto
qed

lemma same_threads_sym: "same_threads s s' \<Longrightarrow> same_threads s' s"
  by (simp add: same_threads_def)

lemma sl_inv_keeps:
  assumes i: "sl_inv s" and k: "sl_keeps s s'"
  shows "sl_inv s'"
proof -
  have st: "same_threads s s'" and l: "sl_lock s' = 0" using k by (simp_all add: sl_keeps_def)
  have f: "sl_index s' = sl_index s" "idle_thd s' = idle_thd s" "sched_thd s' = sched_thd s" using st by (simp_all add: same_threads_def)
  have d: "dom (sl_objs s') = dom (sl_objs s)"
    using same_objs [OF st] same_objs [OF same_threads_sym [OF st]] by (metis (no_types, lifting) domD domI subsetI subset_antisym)
  have "\<exists>x. sl_objs s' (sl_index s tid) = Some x \<and> sl_tid x = tid" if t: "sl_index s tid \<noteq> 0" for tid
  proof -
    obtain x where x: "sl_objs s (sl_index s tid) = Some x" "sl_tid x = tid" using i t by (auto simp: sl_inv_def)
    obtain x' where "sl_objs s' (sl_index s tid) = Some x'" "thread_key x' = thread_key x"
      by (rule same_objs [OF same_threads_sym [OF st] x(1)])
    then show ?thesis using x(2) by (simp add: thread_key_def)
  qed
  moreover have "t \<noteq> 0 \<and> cap_ok (sl_cap x') \<and> sl_state x' \<noteq> SL_THD_FREE \<and> sl_index s (sl_tid x') = t"
    if x': "sl_objs s' t = Some x'" for t x'
  proof -
    obtain x where "sl_objs s t = Some x" "thread_key x = thread_key x'" by (rule same_objs [OF st x'])
    then show ?thesis using sl_inv_objs [OF i, of t x] by (simp add: thread_key_def sl_live_def)
  qed
  ultimately show ?thesis using i l f d by (simp add: sl_inv_def)
qed

section \<open>The machine\<close>

text \<open>
  What the library expects of its callers and of the kernel: a new thread gets fresh memory and a
  new id (\<open>alloc\<close>), and nobody releases the scheduler's or the idle thread (\<open>free\<close>; \<^verbatim>\<open>sl_thd_free\<close>
  does not check it, and would free either). \<open>me\<close> is any kernel thread.
\<close>

inductive sl_step :: "'p sl_mod \<Rightarrow> 'p sl_sys \<Rightarrow> 'p sl_sys \<Rightarrow> bool" for M where
  block: "sl_thd_block M tid me as s = Inr s' \<Longrightarrow> sl_step M s s'"
| wakeup: "sl_thd_wakeup M tid me as s = Inr s' \<Longrightarrow> sl_step M s s'"
| yield: "sl_thd_yield M tid me as s = Inr s' \<Longrightarrow> sl_step M s s'"
| schedule: "sl_cs_exit_schedule_nospin_arg M me a to s = Inr (r, s') \<Longrightarrow> sl_step M s s'"
| receive: "sl_sched_round M me ns a s = Inr s' \<Longrightarrow> sl_step M s s'"
| alloc: "sl_thd_alloc_intern M cap tid mem s = Inr (t, s') \<Longrightarrow> cap = 0 \<or> cap_ok cap \<Longrightarrow> sl_index s tid = 0 \<Longrightarrow>
    fst ` set_option mem \<inter> dom (sl_objs s) = {} \<Longrightarrow> sl_step M s s'"
| free: "sl_thd_free t s = Inr s' \<Longrightarrow> t \<noteq> sched_thd s \<Longrightarrow> t \<noteq> idle_thd s \<Longrightarrow> sl_step M s s'"
| prio: "sl_thd_setprio t p s = Inr s' \<Longrightarrow> sl_step M s s'"
| oneshot: "sl_step M s (sl_timeout_oneshot M absolute s)"
| period: "sl_step M s (sl_timeout_period M now p s)"

text \<open>The states reachable from \<^verbatim>\<open>sl_init\<close>, called by the boot thread \<open>me\<close> with nothing allocated.\<close>

inductive sl_reachable :: "'p sl_mod \<Rightarrow> 'p sl_sys \<Rightarrow> bool" for M where
  start: "sl_init M p0 timers cyc me boot_cap mem idle_cap idle_tid idle_mem s = Inr s' \<Longrightarrow> me \<noteq> 0 \<Longrightarrow> idle_tid \<noteq> me \<Longrightarrow>
    cap_ok boot_cap \<Longrightarrow> cap_ok idle_cap \<Longrightarrow> fst ` set_option mem \<inter> fst ` set_option idle_mem = {} \<Longrightarrow>
    sl_objs s = Map.empty \<Longrightarrow> sl_reachable M s'"
| step: "sl_reachable M s \<Longrightarrow> sl_step M s s' \<Longrightarrow> sl_reachable M s'"

lemma sl_inv_state:
  assumes "sl_inv s" "sl_set_state t st s1 = Inr s2" "st \<noteq> SL_THD_FREE" "same_threads s s1"
  shows "same_threads s s2"
proof -
  have "sl_state x \<noteq> SL_THD_FREE" if h: "sl_objs s1 t = Some x" for x
  proof -
    obtain y where "sl_objs s t = Some y" "thread_key y = thread_key x" by (rule same_objs [OF assms(4) h])
    then show ?thesis using sl_inv_objs [OF assms(1)] by (auto simp: thread_key_def)
  qed
  then show ?thesis using same_threads_trans [OF assms(4) set_state_same(1) [OF assms(2,3)]] by blast
qed

lemma pol_same: "same_threads s s1 \<Longrightarrow> same_threads s (s1\<lparr>pol := p\<rparr>)"
  by (simp add: same_threads_def)

lemma block_keeps:
  assumes i: "sl_inv s" and r: "sl_thd_block M tid me as s = Inr s'"
  shows "sl_keeps s s'"
proof -
  obtain s1 x where e: "sl_cs_enter me s = Inr s1" "sl_obj (sl_thd_curr me s1) s1 = Inr x"
    "(if sl_state x = SL_THD_WOKEN then rbind (sl_set_state (sl_thd_curr me s1) SL_THD_RUNNABLE s1) (sl_cs_exit me)
      else rbind (guard (sl_state x = SL_THD_RUNNABLE) AssertFailed) (\<lambda>_.
        rbind (sl_set_state (sl_thd_curr me s1) SL_THD_BLOCKED s1) (\<lambda>s2.
          sl_cs_exit_schedule M me as (s2\<lparr>pol := mod_block M (sl_thd_curr me s1) (pol s2)\<rparr>)))) = Inr s'"
    using r unfolding sl_thd_block_def Let_def rbind_eq_Inr by blast
  note a = sl_inv_state [OF i _ _ enter_same [OF e(1)]]
  show ?thesis
  proof (cases "sl_state x = SL_THD_WOKEN")
    case True
    then obtain s2 where "sl_set_state (sl_thd_curr me s1) SL_THD_RUNNABLE s1 = Inr s2" "sl_cs_exit me s2 = Inr s'"
      using e(3) unfolding rbind_eq_Inr if_P [OF True] by blast
    then show ?thesis using keeps_after [OF a exit_keeps] by blast
  next
    case False
    then obtain s2 where "sl_set_state (sl_thd_curr me s1) SL_THD_BLOCKED s1 = Inr s2"
      "sl_cs_exit_schedule M me as (s2\<lparr>pol := mod_block M (sl_thd_curr me s1) (pol s2)\<rparr>) = Inr s'"
      using e(3) unfolding rbind_eq_Inr if_not_P [OF False] by blast
    then show ?thesis using keeps_after [OF pol_same [OF a] exit_schedule_keeps] by blast
  qed
qed

lemma wakeup_keeps:
  assumes i: "sl_inv s" and r: "sl_thd_wakeup M tid me as s = Inr s'"
  shows "sl_keeps s s'"
proof -
  obtain s1 where e: "sl_cs_enter me s = Inr s1"
    "(let t = sl_thd_lkup tid s1 in
     if t = 0 then sl_cs_exit me s1
     else rbind (sl_obj t s1) (\<lambda>x.
       if sl_state x = SL_THD_RUNNABLE then rbind (sl_set_state t SL_THD_WOKEN s1) (sl_cs_exit me)
       else rbind (sl_set_state t SL_THD_BLOCKED s1) (\<lambda>s2. rbind (sl_set_state t SL_THD_RUNNABLE s2) (\<lambda>s3.
         sl_cs_exit_schedule M me as (s3\<lparr>pol := mod_wakeup M t (pol s3)\<rparr>))))) = Inr s'"
    using r unfolding sl_thd_wakeup_def rbind_eq_Inr [of "sl_cs_enter me s"] by blast
  let ?t = "sl_thd_lkup tid s1"
  note st = enter_same [OF e(1)]
  show ?thesis
  proof (cases "?t = 0")
    case True
    then show ?thesis using e(2) keeps_after [OF st exit_keeps] by (simp add: Let_def)
  next
    case False
    then obtain x where "sl_obj ?t s1 = Inr x" and x: "(if sl_state x = SL_THD_RUNNABLE then rbind (sl_set_state ?t SL_THD_WOKEN s1) (sl_cs_exit me)
       else rbind (sl_set_state ?t SL_THD_BLOCKED s1) (\<lambda>s2. rbind (sl_set_state ?t SL_THD_RUNNABLE s2) (\<lambda>s3.
         sl_cs_exit_schedule M me as (s3\<lparr>pol := mod_wakeup M ?t (pol s3)\<rparr>)))) = Inr s'"
      using e(2) unfolding Let_def if_not_P [OF False] rbind_eq_Inr [of "sl_obj ?t s1"]
      by (elim exE conjE) (rule that)
    show ?thesis
    proof (cases "sl_state x = SL_THD_RUNNABLE")
      case True
      then obtain s2 where "sl_set_state ?t SL_THD_WOKEN s1 = Inr s2" "sl_cs_exit me s2 = Inr s'"
        using x unfolding rbind_eq_Inr if_P [OF True] by blast
      then show ?thesis using keeps_after [OF sl_inv_state [OF i _ _ st] exit_keeps] by blast
    next
      case False
      then obtain s2 s3 where s: "sl_set_state ?t SL_THD_BLOCKED s1 = Inr s2" "sl_set_state ?t SL_THD_RUNNABLE s2 = Inr s3"
        "sl_cs_exit_schedule M me as (s3\<lparr>pol := mod_wakeup M ?t (pol s3)\<rparr>) = Inr s'"
        using x unfolding rbind_eq_Inr if_not_P [OF False] by blast
      have "same_threads s s2" using sl_inv_state [OF i s(1) _ st] by blast
      then have "same_threads s s3" using sl_inv_state [OF i s(2)] by blast
      then show ?thesis using keeps_after [OF pol_same exit_schedule_keeps [OF s(3)]] by blast
    qed
  qed
qed

lemma yield_keeps:
  assumes r: "sl_thd_yield M tid me as s = Inr s'"
  shows "sl_keeps s s'"
proof -
  obtain s1 where e: "sl_cs_enter me s = Inr s1"
    "(if tid \<noteq> 0 then rbind (guard (sl_thd_lkup tid s1 \<noteq> 0) AssertFailed) (\<lambda>_. sl_cs_exit_switchto M me as (sl_thd_lkup tid s1) s1)
      else sl_cs_exit_schedule M me as (s1\<lparr>pol := mod_yield M (sl_thd_curr me s) (pol s1)\<rparr>)) = Inr s'"
    using r unfolding sl_thd_yield_def Let_def rbind_eq_Inr [of "sl_cs_enter me s"] by blast
  note st = enter_same [OF e(1)]
  show ?thesis
  proof (cases "tid = 0")
    case True
    then show ?thesis using e(2) keeps_after [OF pol_same [OF st] exit_schedule_keeps] by simp
  next
    case False
    then show ?thesis using e(2) keeps_after [OF st switchto_keeps] by (auto simp: rbind_eq_Inr)
  qed
qed

lemma receive_same:
  assumes "sl_receive M ns s = Inr s'"
  shows "same_threads s s'"
proof -
  have "r = Inr s' \<longrightarrow> same_threads s s'" if "receive_loop M ns s = Some r" for M ns s r
    using that
  proof (induction rule: receive_induct)
    case (round loop M ns s y)
    show ?case
    proof
      assume y: "y = Inr s'"
      obtain s1 where e: "sl_notify M (shd ns) s = Inr s1" "(if fst (shd ns) then loop M (stl ns) s1 else Some (Inr s1)) = Some y"
        using round.hyps y by (auto split: sum.splits)
      have "same_threads s s1" using e(1)
        by (auto simp: sl_notify_def Let_def rbind_eq_Inr split: prod.splits if_splits intro!: same_threads_objs)
      moreover have "same_threads s1 s'" using e(2) round.IH y by (cases "fst (shd ns)") auto
      ultimately show "same_threads s s'" by (rule same_threads_trans)
    qed
  qed
  then show ?thesis using assms by (auto simp: sl_receive_def split: option.splits)
qed

lemma sched_round_keeps:
  assumes "sl_sched_round M me ns a s = Inr s'"
  shows "sl_keeps s s'"
proof -
  obtain s1 s2 r where "sl_cs_enter me s = Inr s1" "sl_receive M ns s1 = Inr s2" "sl_cs_exit_schedule_nospin_arg M me a 0 s2 = Inr (r, s')"
    using assms by (auto simp: sl_sched_round_def rbind_eq_Inr)
  then show ?thesis using keeps_after [OF same_threads_trans [OF enter_same receive_same] round_keeps] by blast
qed

text \<open>A new thread, and one released.\<close>

lemma alloc_init_inv:
  assumes "sl_index s tid = 0" "tid \<noteq> 0" "sl_index s 0 = 0" "t \<noteq> 0" "sl_objs s t = None" "cap_ok cap"
    and idx: "\<forall>j. sl_index s j \<noteq> 0 \<longrightarrow> (\<exists>x. sl_objs s (sl_index s j) = Some x \<and> sl_tid x = j)"
    and obs: "\<forall>u x. sl_objs s u = Some x \<longrightarrow> u \<noteq> 0 \<and> cap_ok (sl_cap x) \<and> sl_state x \<noteq> SL_THD_FREE \<and> sl_index s (sl_tid x) = u"
    and s': "sl_objs s' = (sl_objs s)(t \<mapsto> raw\<lparr>sl_tid := tid, sl_cap := cap, sl_state := SL_THD_RUNNABLE\<rparr>)"
      "sl_index s' = (sl_index s)(tid := t)" "sl_lock s' = 0" "sched_thd s' \<in> dom (sl_objs s')" "idle_thd s' \<in> dom (sl_objs s')"
  shows "sl_inv s'"
proof -
  have "\<exists>x. sl_objs s' (sl_index s' j) = Some x \<and> sl_tid x = j" if "sl_index s' j \<noteq> 0" for j
  proof (cases "j = tid")
    case False
    then have "sl_index s j \<noteq> 0" using that s'(2) by simp
    then obtain x where "sl_objs s (sl_index s j) = Some x" "sl_tid x = j" using idx by blast
    then show ?thesis using assms(5) False s'(1,2) by auto
  qed (use s'(1,2) in simp)
  moreover have "u \<noteq> 0 \<and> cap_ok (sl_cap x) \<and> sl_state x \<noteq> SL_THD_FREE \<and> sl_index s' (sl_tid x) = u" if "sl_objs s' u = Some x" for u x
  proof (cases "u = t")
    case True
    then show ?thesis using that s'(1,2) assms(4,6) by auto
  next
    case False
    then have "sl_objs s u = Some x" using that s'(1) by simp
    moreover from this have "sl_tid x \<noteq> tid" using obs assms(1) by fastforce
    ultimately show ?thesis using obs s'(2) by simp
  qed
  ultimately show ?thesis using s'(2-5) assms(2,3) unfolding sl_inv_def by simp
qed

lemma alloc_keeps:
  assumes i: "sl_inv s" and r: "sl_thd_alloc_intern M cap tid mem s = Inr (t, s')"
    and c: "cap = 0 \<or> cap_ok cap" "sl_index s tid = 0" "fst ` set_option mem \<inter> dom (sl_objs s) = {}"
  shows "sl_inv s'"
proof (cases "cap = 0")
  case True
  then show ?thesis using i r by (simp add: sl_thd_alloc_intern_def)
next
  case False
  show ?thesis
  proof (cases mem)
    case None
    then show ?thesis using i r False by (auto simp: sl_thd_alloc_intern_def sl_thd_alloc_init_def rbind_eq_Inr sl_inv_def)
  next
    case (Some a)
    then obtain raw where m: "mem = Some (t, raw)" "tid \<noteq> 0" "t \<noteq> 0"
      and s': "s' = (let s1 = s\<lparr>sl_objs := (sl_objs s)(t \<mapsto> raw\<lparr>sl_tid := tid, sl_cap := cap, sl_state := SL_THD_RUNNABLE\<rparr>),
          sl_index := (sl_index s)(tid := t)\<rparr> in s1\<lparr>pol := mod_create M t (pol s1)\<rparr>)"
      using r False by (cases a) (auto simp: sl_thd_alloc_intern_def sl_thd_alloc_init_def rbind_eq_Inr Let_def)
    have n: "sl_objs s t = None" using c(3) m(1) by auto
    show ?thesis
    proof (rule alloc_init_inv [OF c(2) m(2) _ m(3) n _, of cap s' raw])
      show "cap_ok cap" using c(1) False by simp
    qed (use i s' in \<open>simp_all add: sl_inv_def Let_def domIff\<close>)
  qed
qed

lemma free_keeps:
  assumes i: "sl_inv s" and r: "sl_thd_free t s = Inr s'" and n: "t \<noteq> sched_thd s" "t \<noteq> idle_thd s"
  shows "sl_inv s'" "sl_objs s' t = None" "\<exists>x. sl_objs s t = Some x \<and> sl_index s' (sl_tid x) = 0"
proof -
  obtain x where x: "t \<noteq> 0" "sl_objs s t = Some x" and s': "sl_objs s' = (sl_objs s)(t := None)"
    "sl_index s' = (sl_index s)(sl_tid x := 0)" "sl_lock s' = sl_lock s" "sched_thd s' = sched_thd s" "idle_thd s' = idle_thd s"
    using r by (auto simp: sl_thd_free_def rbind_eq_Inr)
  note o = sl_inv_objs [OF i]
  have "\<exists>y. sl_objs s' (sl_index s' j) = Some y \<and> sl_tid y = j" if j: "sl_index s' j \<noteq> 0" for j
  proof -
    have "j \<noteq> sl_tid x" "sl_index s j \<noteq> 0" using j s'(2) by (auto split: if_splits)
    then obtain y where y: "sl_objs s (sl_index s j) = Some y" "sl_tid y = j" using i by (auto simp: sl_inv_def)
    then have "sl_index s j \<noteq> t" using x(2) \<open>j \<noteq> sl_tid x\<close> by auto
    then show ?thesis using y s'(1,2) \<open>j \<noteq> sl_tid x\<close> by simp
  qed
  moreover have "u \<noteq> 0 \<and> cap_ok (sl_cap y) \<and> sl_state y \<noteq> SL_THD_FREE \<and> sl_index s' (sl_tid y) = u" if u: "sl_objs s' u = Some y" for u y
  proof -
    have y: "u \<noteq> t" "sl_objs s u = Some y" using u s'(1) by (auto split: if_splits)
    have "sl_tid y \<noteq> sl_tid x" using o [OF y(2)] o [OF x(2)] y(1) by auto
    then show ?thesis using o [OF y(2)] s'(2) by (simp add: sl_live_def)
  qed
  moreover have "sl_lock s' = 0" "sl_index s' 0 = 0" "sched_thd s' \<in> dom (sl_objs s')" "idle_thd s' \<in> dom (sl_objs s')"
    using i s' n by (simp_all add: sl_inv_def domIff)
  ultimately show "sl_inv s'" by (simp add: sl_inv_def)
  show "sl_objs s' t = None" "\<exists>x. sl_objs s t = Some x \<and> sl_index s' (sl_tid x) = 0" using s'(1,2) x(2) by simp_all
qed

lemma init_inv:
  assumes r: "sl_init M p0 timers cyc me boot_cap mem idle_cap idle_tid idle_mem s = Inr s'"
    and c: "me \<noteq> 0" "idle_tid \<noteq> me" "cap_ok boot_cap" "cap_ok idle_cap"
      "fst ` set_option mem \<inter> fst ` set_option idle_mem = {}" "sl_objs s = Map.empty"
  shows "sl_inv s'"
proof -
  obtain per nxt tn where tm: "timers = (per, nxt, tn)" by (metis prod_cases3)
  obtain t raw where m: "mem = Some (t, raw)" "t \<noteq> 0"
    using r tm by (cases mem) (auto simp: sl_init_def sl_thd_alloc_init_def Let_def rbind_eq_Inr)
  have ic: "idle_cap \<noteq> 0" using c(4) by (simp add: cap_ok_def)
  obtain i raw' where m': "idle_mem = Some (i, raw')" "i \<noteq> 0" "idle_tid \<noteq> 0"
    using r tm m ic by (cases idle_mem) (auto simp: sl_init_def sl_thd_alloc_init_def sl_thd_alloc_intern_def Let_def rbind_eq_Inr)
  have it: "i \<noteq> t" using c(5) m(1) m'(1) by auto
  let ?x = "raw\<lparr>sl_tid := me, sl_cap := boot_cap, sl_state := SL_THD_RUNNABLE\<rparr>"
  let ?y = "raw'\<lparr>sl_tid := idle_tid, sl_cap := idle_cap, sl_state := SL_THD_RUNNABLE\<rparr>"
  have "sl_objs s' = [t \<mapsto> ?x, i \<mapsto> ?y]" "sl_index s' = (\<lambda>_. 0)(me := t, idle_tid := i)" "sl_lock s' = 0"
    "sched_thd s' = t" "idle_thd s' = i"
    using r tm m m' ic c(6) by (auto simp: sl_init_def sl_thd_alloc_init_def sl_thd_alloc_intern_def Let_def rbind_eq_Inr)
  then show ?thesis using c(1-4) m(2) m'(2,3) it by (auto simp: sl_inv_def)
qed

lemma sl_step_inv: "sl_step M s s' \<Longrightarrow> sl_inv s \<Longrightarrow> sl_inv s'"
proof (induction rule: sl_step.induct)
  case (block tid me "as" s s')
  then show ?case using sl_inv_keeps [OF _ block_keeps] by blast
next
  case (wakeup tid me "as" s s')
  then show ?case using sl_inv_keeps [OF _ wakeup_keeps] by blast
next
  case (yield tid me "as" s s')
  then show ?case using sl_inv_keeps [OF _ yield_keeps] by blast
next
  case (schedule me a to s r s')
  then show ?case using sl_inv_keeps [OF _ round_keeps] by blast
next
  case (receive me ns a s s')
  then show ?case using sl_inv_keeps [OF _ sched_round_keeps] by blast
next
  case (alloc cap tid mem s t s')
  then show ?case using alloc_keeps [OF alloc.prems alloc.hyps] by simp
next
  case (free t s s')
  then show ?case using free_keeps(1) [OF free.prems free.hyps] by simp
next
  case (prio t p s s')
  then have "sl_keeps s s'" by (auto simp: sl_thd_setprio_def rbind_eq_Inr sl_keeps_def same_threads_def thread_key_def sl_inv_def)
  then show ?case using prio.prems sl_inv_keeps by blast
next
  case (oneshot s absolute)
  then have "sl_keeps s (sl_timeout_oneshot M absolute s)" by (simp add: sl_keeps_def same_threads_def sl_timeout_oneshot_def sl_inv_def)
  then show ?case using oneshot sl_inv_keeps by blast
next
  case (period s now p)
  then have "sl_keeps s (sl_timeout_period M now p s)"
    by (simp add: sl_keeps_def same_threads_def sl_timeout_period_def sl_timeout_relative_def sl_timeout_oneshot_def sl_inv_def Let_def)
  then show ?case using period sl_inv_keeps by blast
qed

lemma sl_reachable_inv: "sl_reachable M s \<Longrightarrow> sl_inv s"
  by (induction rule: sl_reachable.induct) (blast intro: init_inv sl_step_inv)+

end
