(* ===== verification/Sl_Contract.thy ===== *)
theory Sl_Contract
  imports Sl_Reach
begin

text \<open>
  The contract of the scheduler library, and a sample run on a round-robin policy in which
  every property is applied.
\<close>

section \<open>A sample run\<close>

text \<open>A policy: the runnable threads in turn.\<close>

definition rr_mod :: "ptr list sl_mod" where
  "rr_mod = \<lparr>mod_block = removeAll, mod_wakeup = (\<lambda>t p. removeAll t p @ [t]), mod_yield = (\<lambda>t p. removeAll t p @ [t]),
     mod_create = (\<lambda>t p. p @ [t]), mod_execution = (\<lambda>_ _ p. p),
     mod_schedule = (\<lambda>p. (case p of [] \<Rightarrow> None | t # _ \<Rightarrow> Some t, p)),
     timeout_expended = (\<lambda>now _ _ p. ((now + 1000, 7), p)), cyc2time = (\<lambda>c. ucast (drop_bit 8 c))\<rparr>"

definition rr_names :: "ptr set \<Rightarrow> ptr list \<Rightarrow> bool" where
  "rr_names L p \<longleftrightarrow> set p \<subseteq> L"

lemma rr_policy_ok: "policy_ok rr_mod rr_names"
  by (auto simp: policy_ok_def rr_mod_def rr_names_def split: list.splits)

definition raw_sl_thd :: sl_thd where
  "raw_sl_thd = \<lparr>sl_tid = 0, sl_cap = 0, sl_state = SL_THD_FREE, sl_prio = 4\<rparr>"

definition sl_blank :: "ptr list sl_sys" where
  "sl_blank = \<lparr>sl_lock = 9, sched_thdcap = 0, sched_thd = 0, idle_thd = 0, cyc_per_usec = 0, period = 0, timer_next = 0,
     timeout_next = 0, sl_current_kthd = 0, sl_objs = Map.empty, sl_index = (\<lambda>_. 5), pol = [], dispatched_to = []\<rparr>"

definition sl_demo_objs :: "ptr \<Rightarrow> sl_thd option" where
  "sl_demo_objs = [100 \<mapsto> raw_sl_thd\<lparr>sl_tid := 1, sl_cap := 2, sl_state := SL_THD_RUNNABLE\<rparr>,
     200 \<mapsto> raw_sl_thd\<lparr>sl_tid := 2, sl_cap := 5, sl_state := SL_THD_RUNNABLE\<rparr>,
     300 \<mapsto> raw_sl_thd\<lparr>sl_tid := 3, sl_cap := 6, sl_state := SL_THD_RUNNABLE\<rparr>]"

text \<open>After \<^verbatim>\<open>sl_init\<close> by thread 1, with 2 as the idle thread, and the allocation of thread 3.\<close>

definition sl_demo :: "ptr list sl_sys" where
  "sl_demo = sl_blank\<lparr>cyc_per_usec := 2000, sl_lock := 0, sl_index := (\<lambda>_. 0)(1 := 100, 2 := 200, 3 := 300), pol := [200, 300],
     sl_objs := sl_demo_objs, sched_thd := 100, sched_thdcap := 2, idle_thd := 200\<rparr>"

lemma demo_caps: "cap_ok 2" "cap_ok 5" "cap_ok 6"
  by (simp_all add: cap_ok_def)

lemma demo_reachable: "sl_reachable rr_mod sl_demo"
proof -
  let ?s = "sl_blank\<lparr>cyc_per_usec := 2000, sl_lock := 0, sl_index := (\<lambda>_. 0)(1 := 100, 2 := 200), pol := [200],
     sl_objs := [100 \<mapsto> raw_sl_thd\<lparr>sl_tid := 1, sl_cap := 2, sl_state := SL_THD_RUNNABLE\<rparr>,
       200 \<mapsto> raw_sl_thd\<lparr>sl_tid := 2, sl_cap := 5, sl_state := SL_THD_RUNNABLE\<rparr>],
     sched_thd := 100, sched_thdcap := 2, idle_thd := 200\<rparr>"
  have i: "sl_init rr_mod [] (0, 0, 0) 2000 1 2 (Some (100, raw_sl_thd)) 5 2 (Some (200, raw_sl_thd)) sl_blank = Inr ?s"
    by (simp add: sl_init_def sl_thd_alloc_init_def sl_thd_alloc_intern_def sl_blank_def rr_mod_def)
  have "sl_reachable rr_mod ?s"
    by (rule sl_reachable.start [OF i _ _ demo_caps(1,2)]) (simp_all add: sl_blank_def)
  moreover have "sl_step rr_mod ?s sl_demo"
  proof (rule sl_step.alloc [of rr_mod 6 3 "Some (300, raw_sl_thd)" _ 300])
    show "sl_thd_alloc_intern rr_mod 6 3 (Some (300, raw_sl_thd)) ?s = Inr (300, sl_demo)"
      by (simp add: sl_thd_alloc_init_def sl_thd_alloc_intern_def sl_blank_def rr_mod_def sl_demo_def sl_demo_objs_def)
  qed (simp_all add: demo_caps)
  ultimately show ?thesis by (rule sl_reachable.step)
qed

lemma demo_live:
  "sl_live 100 (raw_sl_thd\<lparr>sl_tid := 1, sl_cap := 2, sl_state := SL_THD_RUNNABLE\<rparr>) sl_demo"
  "sl_live 200 (raw_sl_thd\<lparr>sl_tid := 2, sl_cap := 5, sl_state := SL_THD_RUNNABLE\<rparr>) sl_demo"
  "sl_live 300 (raw_sl_thd\<lparr>sl_tid := 3, sl_cap := 6, sl_state := SL_THD_RUNNABLE\<rparr>) sl_demo"
  by (simp_all add: sl_live_def sl_demo_def sl_demo_objs_def demo_caps)

lemma demo_policy: "policy_live rr_mod rr_names sl_demo"
proof -
  have "200 \<in> live_set sl_demo" "300 \<in> live_set sl_demo" unfolding live_set_def using demo_live(2,3) by blast+
  moreover have "pol sl_demo = [200, 300]" "idle_thd sl_demo = 200" by (simp_all add: sl_demo_def)
  ultimately show ?thesis using rr_policy_ok by (simp add: policy_live_def rr_names_def)
qed

lemma demo_runs: "runs_as 1 100 (raw_sl_thd\<lparr>sl_tid := 1, sl_cap := 2, sl_state := SL_THD_RUNNABLE\<rparr>) sl_demo" "sl_lock sl_demo = 0"
  "sl_index sl_demo 3 = 300"
  using demo_live(1) by (simp_all add: runs_as_def sl_demo_def)

section \<open>Properties\<close>

text \<open>
  C14 In every state the library reaches from \<^verbatim>\<open>sl_init\<close>, whatever kernel threads call what
  in which order and whatever the policy does, the critical section is free between
  operations, the table of threads and the thread objects agree, every thread's
  capability can own the lock, and the scheduler's and the idle thread exist. (That nobody calls
  \<^verbatim>\<open>sl_thd_free\<close> on these two is assumed of the callers, in the step \<open>free\<close>; the code does not
  check it.)
\<close>

theorem sl_invariant: "sl_reachable M s \<Longrightarrow> sl_inv s"
  by (rule sl_reachable_inv)

theorem sl_invariant_witness: "sl_reachable rr_mod sl_demo \<and> sl_inv sl_demo \<and> sl_index sl_demo 3 = 300"
  using sl_invariant [OF demo_reachable] demo_reachable demo_runs(3) by blast

text \<open>
  C27 A wakeup that comes before the thread has blocked is not lost: the thread's next
  \<^verbatim>\<open>sl_thd_block\<close> returns at once, nothing is switched, the policy hears of neither, and the
  library is in the state it was in.
\<close>

theorem wakeup_before_block_kept:
  assumes "sl_inv s" "sl_index s me \<noteq> 0" "sl_index s tid = t" "t \<noteq> 0" "map_option sl_state (sl_objs s t) = Some SL_THD_RUNNABLE"
  shows "\<exists>s1. sl_thd_wakeup M tid me as s = Inr s1 \<and> sl_thd_block M 0 tid bs s1 = Inr s"
proof -
  obtain x where x: "sl_live (sl_index s me) x s" by (rule sl_inv_index [OF assms(1,2)])
  have l: "sl_lock s = 0" using assms(1) by (simp add: sl_inv_def)
  obtain y where y: "sl_live t y s" "sl_state y = SL_THD_RUNNABLE"
    using sl_inv_index [OF assms(1), of tid] assms(3-5) by (metis option.map(2) option.inject sl_live_def)
  let ?s1 = "s\<lparr>sl_objs := (sl_objs s)(t \<mapsto> y\<lparr>sl_state := SL_THD_WOKEN\<rparr>)\<rparr>"
  have "runs_as me (sl_index s me) x s" using x by (simp add: runs_as_def)
  then have w: "sl_thd_wakeup M tid me as s = Inr ?s1" by (rule wakeup_early [OF _ l assms(3) y])
  have "runs_as tid t (y\<lparr>sl_state := SL_THD_WOKEN\<rparr>) ?s1" using y(1) assms(3) by (simp add: runs_as_def sl_live_def)
  then have "sl_thd_block M 0 tid bs ?s1 = Inr (?s1\<lparr>sl_objs := (sl_objs ?s1)(t \<mapsto> y\<lparr>sl_state := SL_THD_WOKEN, sl_state := SL_THD_RUNNABLE\<rparr>)\<rparr>)"
    by (rule block_woken) (simp_all add: l)
  moreover have "y\<lparr>sl_state := SL_THD_WOKEN, sl_state := SL_THD_RUNNABLE\<rparr> = y" using y(2) by (cases y) simp
  moreover have "(sl_objs s)(t \<mapsto> y) = sl_objs s" using y(1) by (simp add: sl_live_def fun_upd_idem)
  ultimately show ?thesis using w by simp
qed

theorem wakeup_before_block_kept_witness:
  "\<exists>s1. sl_thd_wakeup rr_mod 3 1 (sconst (0, 0)) sl_demo = Inr s1 \<and> sl_thd_block rr_mod 0 3 (sconst (0, 0)) s1 = Inr sl_demo"
proof -
  have "sl_index sl_demo 1 \<noteq> 0" "(300::ptr) \<noteq> 0" "map_option sl_state (sl_objs sl_demo 300) = Some SL_THD_RUNNABLE"
    by (simp_all add: sl_demo_def sl_demo_objs_def)
  then show ?thesis using wakeup_before_block_kept [OF sl_reachable_inv [OF demo_reachable] _ demo_runs(3)] by blast
qed

text \<open>
  C28 Two wakeups before the thread blocks are both lost: the second finds it marked, and
  since the assertion that should reject this assigns instead of comparing, it clears the
  mark and wakes a thread that is not blocked. The thread's \<^verbatim>\<open>sl_thd_block\<close> then blocks it.
\<close>

theorem double_wakeup_lost:
  assumes "sl_inv s" "policy_live M J s" "sl_index s me \<noteq> 0" "me \<noteq> tid" "sl_index s tid = t" "t \<noteq> 0"
    "map_option sl_state (sl_objs s t) = Some SL_THD_RUNNABLE"
  shows "\<exists>s1 s2 s3. sl_thd_wakeup M tid me ws s = Inr s1 \<and> sl_thd_wakeup M tid me ((now, 0) ## as) s1 = Inr s2 \<and>
    sl_thd_block M 0 tid ((now', 0) ## bs) s2 = Inr s3 \<and> map_option sl_state (sl_objs s3 t) = Some SL_THD_BLOCKED"
proof -
  obtain x where x: "sl_live (sl_index s me) x s" "sl_tid x = me" by (rule sl_inv_index [OF assms(1,3)])
  have l: "sl_lock s = 0" using assms(1) by (simp add: sl_inv_def)
  obtain y where y: "sl_live t y s" "sl_state y = SL_THD_RUNNABLE" "sl_tid y = tid"
    using sl_inv_index [OF assms(1), of tid] assms(5-7) by (metis option.map(2) option.inject sl_live_def)
  have mt: "sl_index s me \<noteq> t" using x y assms(4) by (auto simp: sl_live_def)
  let ?y1 = "y\<lparr>sl_state := SL_THD_WOKEN\<rparr>"
  let ?s1 = "s\<lparr>sl_objs := (sl_objs s)(t \<mapsto> ?y1)\<rparr>"
  have r: "runs_as me (sl_index s me) x s" using x by (simp add: runs_as_def)
  then have w1: "sl_thd_wakeup M tid me ws s = Inr ?s1" by (rule wakeup_early [OF _ l assms(5) y(1,2)])
  have p1: "live_set ?s1 = live_set s" by (rule live_set_state(3) [OF y(1)]) simp
  have i1: "runs_as me (sl_index s me) x ?s1" "sl_lock ?s1 = 0" "policy_live M J ?s1" "sl_index ?s1 tid = t" "sl_live t ?y1 ?s1"
    "sl_state ?y1 \<noteq> SL_THD_RUNNABLE"
    using r l assms(2,5) y(1) mt p1 by (simp_all add: runs_as_def sl_live_def policy_live_def)
  let ?y2 = "?y1\<lparr>sl_state := SL_THD_RUNNABLE\<rparr>"
  let ?s = "?s1\<lparr>sl_objs := (sl_objs ?s1)(t \<mapsto> ?y2), pol := mod_wakeup M t (pol ?s1)\<rparr>"
  obtain s2 where s2: "sl_thd_wakeup M tid me ((now, 0) ## as) ?s1 = Inr s2" "switched_to M now 0 ?s s2"
    using wakeup_effect [OF i1] by blast
  have "live_set ?s = live_set ?s1" by (rule live_set_state(3) [OF i1(5)]) simp
  then have "policy_live M J ?s" using i1(3,5) policy_tells(2) [of M J "live_set ?s1" "pol ?s1" t]
    by (auto simp: policy_live_def live_set_def)
  then have p2: "policy_live M J s2" using switched_policy [OF s2(2)] by simp
  note f2 = switched_frame [OF s2(2)]
  have "runs_as tid t ?y2 s2" using f2(1,2) y(1) assms(5) by (simp add: runs_as_def sl_live_def)
  moreover have "sl_state ?y2 = SL_THD_RUNNABLE" by simp
  ultimately obtain s3 where s3: "sl_thd_block M 0 tid ((now', 0) ## bs) s2 = Inr s3"
    "switched_to M now' 0 (s2\<lparr>sl_objs := (sl_objs s2)(t \<mapsto> ?y2\<lparr>sl_state := SL_THD_BLOCKED\<rparr>), pol := mod_block M t (pol s2)\<rparr>) s3"
    using block_effect [OF _ f2(3) _ p2] by blast
  have "map_option sl_state (sl_objs s3 t) = Some SL_THD_BLOCKED" using switched_frame(1) [OF s3(2)] by simp
  then show ?thesis using w1 s2(1) s3(1) by blast
qed

theorem double_wakeup_lost_witness:
  "\<exists>s1 s2 s3. sl_thd_wakeup rr_mod 3 1 (sconst (0, 0)) sl_demo = Inr s1 \<and> sl_thd_wakeup rr_mod 3 1 ((10, 0) ## sconst (0, 0)) s1 = Inr s2 \<and>
    sl_thd_block rr_mod 0 3 ((20, 0) ## sconst (0, 0)) s2 = Inr s3 \<and> map_option sl_state (sl_objs s3 300) = Some SL_THD_BLOCKED"
proof -
  have "sl_index sl_demo 1 \<noteq> 0" "(1::thdid) \<noteq> 3" "(300::ptr) \<noteq> 0" "map_option sl_state (sl_objs sl_demo 300) = Some SL_THD_RUNNABLE"
    by (simp_all add: sl_demo_def sl_demo_objs_def)
  then show ?thesis
    using double_wakeup_lost [OF sl_reachable_inv [OF demo_reachable] demo_policy _ _ demo_runs(3)] by blast
qed

text \<open>
  C30 Blocking and waking: a runnable thread that blocks is blocked, the policy is told so
  before it chooses, and the processor goes to the thread it chooses (the idle thread if
  it has none). The wakeup makes the thread runnable again and tells the policy, again
  before it chooses.
\<close>

theorem block_then_wakeup:
  assumes "sl_inv s" "policy_live M J s" "sl_index s c \<noteq> 0" "sl_index s me \<noteq> 0" "me \<noteq> c"
    "map_option sl_state (sl_objs s (sl_index s c)) = Some SL_THD_RUNNABLE"
  shows "\<exists>x s1 s2. sl_objs s (sl_index s c) = Some x \<and> sl_thd_block M 0 c ((now, 0) ## as) s = Inr s1 \<and>
    switched_to M now 0 (s\<lparr>sl_objs := (sl_objs s)(sl_index s c \<mapsto> x\<lparr>sl_state := SL_THD_BLOCKED\<rparr>),
      pol := mod_block M (sl_index s c) (pol s)\<rparr>) s1 \<and>
    sl_thd_wakeup M c me ((now', 0) ## bs) s1 = Inr s2 \<and>
    switched_to M now' 0 (s1\<lparr>sl_objs := sl_objs s, pol := mod_wakeup M (sl_index s c) (pol s1)\<rparr>) s2"
proof -
  let ?t = "sl_index s c"
  obtain x where x: "sl_live ?t x s" "sl_tid x = c" by (rule sl_inv_index [OF assms(1,3)])
  have rx: "sl_state x = SL_THD_RUNNABLE" using x(1) assms(6) by (simp add: sl_live_def)
  obtain y where y: "sl_live (sl_index s me) y s" "sl_tid y = me" by (rule sl_inv_index [OF assms(1,4)])
  have mt: "sl_index s me \<noteq> ?t" using x y assms(5) by (auto simp: sl_live_def)
  have r: "runs_as c ?t x s" "sl_lock s = 0" using x(1) assms(1) by (simp_all add: runs_as_def sl_inv_def)
  let ?x = "x\<lparr>sl_state := SL_THD_BLOCKED\<rparr>"
  let ?s = "s\<lparr>sl_objs := (sl_objs s)(?t \<mapsto> ?x), pol := mod_block M ?t (pol s)\<rparr>"
  obtain s1 where s1: "sl_thd_block M 0 c ((now, 0) ## as) s = Inr s1" "switched_to M now 0 ?s s1"
    using block_effect [OF r rx assms(2)] by blast
  note f = switched_frame [OF s1(2)]
  have "live_set ?s = live_set s" by (rule live_set_state(3) [OF x(1)]) simp
  then have "policy_live M J ?s" using assms(2) x(1) policy_tells(1) [of M J "live_set s" "pol s" ?t]
    by (auto simp: policy_live_def live_set_def)
  then have p1: "policy_live M J s1" using switched_policy [OF s1(2)] by simp
  have r1: "runs_as me (sl_index s me) y s1" "sl_index s1 c = ?t" "sl_live ?t ?x s1"
    using f(1,2) y(1) x(1) mt by (simp_all add: runs_as_def sl_live_def)
  have b: "sl_state ?x \<noteq> SL_THD_RUNNABLE" by simp
  have e: "(sl_objs s1)(?t \<mapsto> ?x\<lparr>sl_state := SL_THD_RUNNABLE\<rparr>) = sl_objs s"
  proof -
    have "?x\<lparr>sl_state := SL_THD_RUNNABLE\<rparr> = x" using rx by (cases x) simp
    then show ?thesis using f(1) x(1) by (simp add: sl_live_def fun_upd_idem)
  qed
  obtain s2 where "sl_thd_wakeup M c me ((now', 0) ## bs) s1 = Inr s2"
    "switched_to M now' 0 (s1\<lparr>sl_objs := sl_objs s, pol := mod_wakeup M ?t (pol s1)\<rparr>) s2"
    using wakeup_effect [OF r1(1) f(3) p1 r1(2,3) b, of now'] unfolding e by blast
  then show ?thesis using x(1) s1 unfolding sl_live_def by blast
qed

theorem block_then_wakeup_witness:
  "\<exists>s1 s2. sl_thd_block rr_mod 0 3 ((10, 0) ## sconst (0, 0)) sl_demo = Inr s1 \<and> sl_current_kthd s1 = 2 \<and>
     sl_thd_wakeup rr_mod 3 1 ((20, 0) ## sconst (0, 0)) s1 = Inr s2 \<and> pol s2 = [200, 300]"
proof -
  have h: "sl_index sl_demo 3 \<noteq> 0" "sl_index sl_demo 1 \<noteq> 0" "(1::thdid) \<noteq> 3"
    "map_option sl_state (sl_objs sl_demo (sl_index sl_demo 3)) = Some SL_THD_RUNNABLE"
    by (simp_all add: sl_demo_def sl_demo_objs_def)
  obtain x s1 s2 where s: "sl_objs sl_demo 300 = Some x" "sl_thd_block rr_mod 0 3 ((10, 0) ## sconst (0, 0)) sl_demo = Inr s1"
    "switched_to rr_mod 10 0 (sl_demo\<lparr>sl_objs := (sl_objs sl_demo)(300 \<mapsto> x\<lparr>sl_state := SL_THD_BLOCKED\<rparr>), pol := mod_block rr_mod 300 (pol sl_demo)\<rparr>) s1"
    "sl_thd_wakeup rr_mod 3 1 ((20, 0) ## sconst (0, 0)) s1 = Inr s2"
    "switched_to rr_mod 20 0 (s1\<lparr>sl_objs := sl_objs sl_demo, pol := mod_wakeup rr_mod 300 (pol s1)\<rparr>) s2"
    using block_then_wakeup [OF sl_reachable_inv [OF demo_reachable] demo_policy h, where now = 10 and now' = 20] unfolding demo_runs(3) by blast
  have a: "sl_current_kthd s1 = 2 \<and> pol s1 = [200] \<and> timer_next s1 = 0"
    using s(3) by (simp add: switched_to_def chosen_def sl_expire_def timer_due_def rr_mod_def sl_demo_def sl_demo_objs_def sl_blank_def)
  have "pol s2 = [200, 300]" using s(5) a by (auto simp: switched_to_def chosen_def sl_expire_def timer_due_def rr_mod_def)
  then show ?thesis using s(2,4) a by blast
qed

text \<open>
  \<^verbatim>\<open>sl_thd_yield\<close> to a thread: a runnable target gets the processor, with its own
  capability and priority, and becomes \<^verbatim>\<open>current_kthd\<close>; the policy is not asked. A target
  that is not runnable is passed over for the policy's choice, or the idle thread.
\<close>

theorem yield_to_switches:
  assumes "sl_inv s" "policy_live M J s" "sl_index s me \<noteq> 0" "tid \<noteq> 0" "sl_index s tid \<noteq> 0" "sl_objs s (sl_index s tid) = Some y"
  shows "\<exists>s'. sl_thd_yield M tid me ((now, 0) ## as) s = Inr s' \<and> sl_objs s' = sl_objs s \<and>
    (sl_state y = SL_THD_RUNNABLE \<longrightarrow> sl_current_kthd s' = tid \<and> pol s' = pol (sl_expire M now s) \<and>
      dispatched_to s' = dispatched_to s @ [(sl_cap y, sl_prio y, timeout_next (sl_expire M now s))]) \<and>
    (sl_state y \<noteq> SL_THD_RUNNABLE \<longrightarrow> (\<exists>t z. t = (case fst (mod_schedule M (pol (sl_expire M now s))) of None \<Rightarrow> idle_thd s | Some t \<Rightarrow> t) \<and>
      sl_objs s t = Some z \<and> sl_current_kthd s' = sl_tid z \<and> pol s' = snd (mod_schedule M (pol (sl_expire M now s)))))"
proof -
  let ?t = "sl_index s tid"
  obtain x where x: "sl_live (sl_index s me) x s" by (rule sl_inv_index [OF assms(1,3)])
  obtain y' where y: "sl_live ?t y' s" "sl_tid y' = tid" by (rule sl_inv_index [OF assms(1,5)])
  have yy: "y' = y" using y(1) assms(6) by (simp add: sl_live_def)
  have r: "runs_as me (sl_index s me) x s" "sl_lock s = 0" using x assms(1) by (simp_all add: runs_as_def sl_inv_def)
  let ?s = "s\<lparr>sl_lock := cs_set_owner (sl_cap x) 0\<rparr>"
  have "runs_as me (sl_index s me) x ?s" "inside x ?s" "policy_live M J ?s" "?t = 0 \<or> ?t \<in> live_set ?s"
    using r(1) assms(2) y(1) by (auto simp: inside_def live_set_def)
  then obtain s' where s': "sl_cs_exit_schedule_nospin_arg M me (now, 0) ?t ?s = Inr (0, s')" "switched_to M now ?t ?s s'"
    using round_runs [of me "sl_index s me" x ?s M J ?t "(now, 0)"] by auto
  have "sl_thd_yield M tid me ((now, 0) ## as) s = Inr s'"
    using enter_runs [OF r] assms(4,5) s'(1) by (simp add: sl_thd_yield_def sl_thd_lkup_def Let_def)
  moreover have "sl_objs s' = sl_objs s" using switched_frame(1) [OF s'(2)] by simp
  moreover have sw: "switched_to M now ?t s s'" using s'(2) unfolding switched_to_lock .
  have "sl_current_kthd s' = tid \<and> pol s' = pol (sl_expire M now s) \<and>
      dispatched_to s' = dispatched_to s @ [(sl_cap y, sl_prio y, timeout_next (sl_expire M now s))]" if "sl_state y = SL_THD_RUNNABLE"
  proof -
    have "chosen M ?t (sl_expire M now s) = (?t, pol (sl_expire M now s))" using that assms(5,6) by (simp add: chosen_def)
    then show ?thesis using sw assms(6) y(2) yy by (auto simp: switched_to_def Let_def)
  qed
  moreover have "\<exists>t z. t = (case fst (mod_schedule M (pol (sl_expire M now s))) of None \<Rightarrow> idle_thd s | Some t \<Rightarrow> t) \<and>
      sl_objs s t = Some z \<and> sl_current_kthd s' = sl_tid z \<and> pol s' = snd (mod_schedule M (pol (sl_expire M now s)))"
    if "sl_state y \<noteq> SL_THD_RUNNABLE"
  proof -
    obtain ch p where m: "mod_schedule M (pol (sl_expire M now s)) = (ch, p)" by fastforce
    have "chosen M ?t (sl_expire M now s) = (case ch of None \<Rightarrow> idle_thd s | Some t \<Rightarrow> t, p)"
      using that assms(6) m by (cases ch) (simp_all add: chosen_def)
    then show ?thesis using sw m by (auto simp: switched_to_def Let_def)
  qed
  ultimately show ?thesis by blast
qed

theorem yield_to_switches_witness:
  "\<exists>s'. sl_thd_yield rr_mod 3 1 ((10, 0) ## sconst (0, 0)) sl_demo = Inr s' \<and> sl_current_kthd s' = 3 \<and> dispatched_to s' = [(6, 4, 0)]"
proof -
  let ?y = "raw_sl_thd\<lparr>sl_tid := 3, sl_cap := 6, sl_state := SL_THD_RUNNABLE\<rparr>"
  have h: "sl_index sl_demo 1 \<noteq> 0" "(3::thdid) \<noteq> 0" "sl_index sl_demo 3 \<noteq> 0" "sl_objs sl_demo (sl_index sl_demo 3) = Some ?y"
    by (simp_all add: sl_demo_def sl_demo_objs_def)
  have "sl_state ?y = SL_THD_RUNNABLE" by simp
  then obtain s' where "sl_thd_yield rr_mod 3 1 ((10, 0) ## sconst (0, 0)) sl_demo = Inr s'" "sl_current_kthd s' = 3"
    "dispatched_to s' = dispatched_to sl_demo @ [(sl_cap ?y, sl_prio ?y, timeout_next (sl_expire rr_mod 10 sl_demo))]"
    using yield_to_switches [OF sl_reachable_inv [OF demo_reachable] demo_policy h, of 10] by blast
  then show ?thesis by (simp add: sl_expire_def timer_due_def sl_demo_def sl_blank_def raw_sl_thd_def)
qed

text \<open>
  C37 The retry loop ends: if the kernel refuses \<open>n\<close> switches and accepts the next one,
  \<^verbatim>\<open>sl_cs_exit_schedule\<close> returns after \<open>n + 1\<close> attempts, with the critical section free and
  no thread changed, whether it was entered inside or outside the critical section, and whatever the
  kernel would answer later. If the kernel refuses every switch, for ever, it does not return.
\<close>

theorem retry_loop_returns:
  assumes "sl_inv (s\<lparr>sl_lock := 0\<rparr>)" "policy_live M J s" "sl_index s me \<noteq> 0" "sl_objs s (sl_index s me) = Some x"
    "sl_lock s = 0 \<or> sl_lock s = cs_set_owner (sl_cap x) 0" "\<forall>a\<in>set as. snd a \<noteq> 0" "snd b = 0"
  shows "(\<exists>s'. sl_cs_exit_schedule M me (as @- b ## bs) s = Inr s' \<and> sl_inv s' \<and> sl_objs s' = sl_objs s \<and>
      length (dispatched_to s') = length (dispatched_to s) + length as + 1) \<and>
    ((\<forall>a\<in>sset ds. snd a \<noteq> 0) \<longrightarrow> sl_cs_exit_schedule M me ds s = Inl Diverges)"
proof -
  have r: "runs_as me (sl_index s me) x s"
    using sl_inv_objs [OF assms(1), of "sl_index s me" x] assms(4) by (simp add: runs_as_def)
  have l: "inside x s \<or> sl_lock s = 0" using assms(5) by (auto simp: inside_def)
  obtain s' where s': "sl_cs_exit_schedule M me (as @- b ## bs) s = Inr s'" "sl_objs s' = sl_objs s"
    "length (dispatched_to s') = length (dispatched_to s) + length as + 1"
    using exit_schedule_runs [OF r l assms(2,6,7)] by blast
  have "same_threads (s\<lparr>sl_lock := 0\<rparr>) s" by (rule same_threads_objs) simp_all
  then have "sl_inv s'" using sl_inv_keeps [OF assms(1) keeps_after [OF _ exit_schedule_keeps [OF s'(1)]]] by blast
  moreover have "sl_cs_exit_schedule M me ds s = Inl Diverges" if "\<forall>a\<in>sset ds. snd a \<noteq> 0"
    by (rule refused_for_ever [OF r l assms(2) that])
  ultimately show ?thesis using s' by blast
qed

theorem retry_loop_returns_witness:
  "(\<exists>s'. sl_cs_exit_schedule rr_mod 1 ([(10, - 1), (20, - 1)] @- (30, 0) ## sconst (40, - 1)) sl_demo = Inr s' \<and> length (dispatched_to s') = 3) \<and>
   sl_cs_exit_schedule rr_mod 1 (sconst (40, - 1)) sl_demo = Inl Diverges"
proof -
  let ?x = "raw_sl_thd\<lparr>sl_tid := 1, sl_cap := 2, sl_state := SL_THD_RUNNABLE\<rparr>"
  have "sl_demo\<lparr>sl_lock := 0\<rparr> = sl_demo" by (simp add: sl_demo_def)
  then have i: "sl_inv (sl_demo\<lparr>sl_lock := 0\<rparr>)" using sl_reachable_inv [OF demo_reachable] by simp
  have h: "sl_index sl_demo 1 \<noteq> 0" "sl_objs sl_demo (sl_index sl_demo 1) = Some ?x" "sl_lock sl_demo = 0 \<or> sl_lock sl_demo = cs_set_owner (sl_cap ?x) 0"
    by (simp_all add: sl_demo_def sl_demo_objs_def)
  have a: "\<forall>a\<in>set [(10, - 1), (20, - 1)]. snd a \<noteq> (0::int)" "snd (30::cycles, 0::int) = 0" by simp_all
  have d: "\<forall>a\<in>sset (sconst (40::cycles, - 1::int)). snd a \<noteq> 0" by simp
  obtain s' where "sl_cs_exit_schedule rr_mod 1 ([(10, - 1), (20, - 1)] @- (30, 0) ## sconst (40, - 1)) sl_demo = Inr s'"
    "length (dispatched_to s') = length (dispatched_to sl_demo) + length [(10::cycles, - 1::int), (20, - 1)] + 1"
    "sl_cs_exit_schedule rr_mod 1 (sconst (40, - 1)) sl_demo = Inl Diverges"
    using retry_loop_returns [OF i demo_policy h a] d by blast
  then show ?thesis by (simp add: sl_demo_def sl_blank_def)
qed

definition tell :: "'p sl_mod \<Rightarrow> ptr \<times> bool \<times> cycles \<Rightarrow> 'p \<Rightarrow> 'p" where
  "tell M r p = (case r of (t, blocked, c) \<Rightarrow> (if blocked then mod_block M t else mod_wakeup M t) (mod_execution M t c p))"

definition reports :: "'p sl_sys \<Rightarrow> notification list \<Rightarrow> (ptr \<times> bool \<times> cycles) list" where
  "reports s ns = [(sl_index s tid, blocked, c). (_, tid, blocked, c) \<leftarrow> ns, tid \<noteq> 0, sl_index s tid \<noteq> idle_thd s]"

lemma notify_known:
  assumes "fst (snd n) = 0 \<or> sl_index s (fst (snd n)) \<noteq> 0"
  shows "sl_notify M n s = Inr (s\<lparr>pol := fold (tell M) (reports s [n]) (pol s)\<rparr>)"
  using assms by (cases n) (auto simp: sl_notify_def reports_def tell_def sl_thd_lkup_def Let_def)

lemma reports_pol [simp]: "reports (s\<lparr>pol := p\<rparr>) ns = reports s ns"
  by (induction ns) (auto simp: reports_def)

lemma reports_Cons: "reports s (n # ns) = reports s [n] @ reports s ns"
  by (simp add: reports_def)

text \<open>
  C38 The notifications of the kernel: a batch that ends with the first one that has none
  pending behind it is handed to the policy in order, each as time run followed by a block
  or a wakeup; empty ones and those of the idle thread are dropped, and nothing else
  changes. One of a thread the table does not know fails the assertion.
\<close>

theorem notifications_in_order:
  assumes "\<forall>n\<in>set ns. fst n" "\<not> fst l" "\<forall>n\<in>set (ns @ [l]). fst (snd n) = 0 \<or> sl_index s (fst (snd n)) \<noteq> 0"
  shows "sl_receive M (ns @- l ## later) s = Inr (s\<lparr>pol := fold (tell M) (reports s (ns @ [l])) (pol s)\<rparr>) \<and>
    (\<forall>tid blocked c. tid \<noteq> 0 \<longrightarrow> sl_index s tid = 0 \<longrightarrow> sl_receive M (ns @- (False, tid, blocked, c) ## later) s = Inl AssertFailed)"
  using assms
proof (induction ns arbitrary: s)
  case Nil
  then have "sl_notify M l s = Inr (s\<lparr>pol := fold (tell M) (reports s [l]) (pol s)\<rparr>)" by (intro notify_known) simp
  then show ?case using Nil.prems(2) by (simp add: sl_notify_def sl_thd_lkup_def Let_def)
next
  case (Cons n ns)
  let ?s = "s\<lparr>pol := fold (tell M) (reports s [n]) (pol s)\<rparr>"
  have n: "sl_notify M n s = Inr ?s" using Cons.prems(3) by (intro notify_known) simp
  have p: "\<forall>n\<in>set ns. fst n" "\<forall>n\<in>set (ns @ [l]). fst (snd n) = 0 \<or> sl_index ?s (fst (snd n)) \<noteq> 0" "fst n"
    using Cons.prems(1,3) by simp_all
  from Cons.IH [OF p(1) Cons.prems(2) p(2)] show ?case using n p(3) reports_Cons [of s n "ns @ [l]"] by simp
qed

theorem notifications_in_order_witness:
  "sl_receive rr_mod ([(True, 3, True, 40), (True, 0, False, 0), (True, 2, False, 9)] @- (False, 3, False, 5) ## sconst (False, 1, True, 2)) sl_demo =
     Inr sl_demo"
proof -
  let ?ns = "[(True, 3, True, 40), (True, 0, False, 0), (True, 2, False, 9)] :: notification list" and ?l = "(False, 3, False, 5) :: notification"
  have h: "\<forall>n\<in>set ?ns. fst n" "\<not> fst ?l" "\<forall>n\<in>set (?ns @ [?l]). fst (snd n) = 0 \<or> sl_index sl_demo (fst (snd n)) \<noteq> 0"
    by (simp_all add: sl_demo_def)
  have "sl_receive rr_mod (?ns @- ?l ## sconst (False, 1, True, 2)) sl_demo =
      Inr (sl_demo\<lparr>pol := fold (tell rr_mod) (reports sl_demo (?ns @ [?l])) (pol sl_demo)\<rparr>)"
    using notifications_in_order [OF h] by blast
  moreover have "fold (tell rr_mod) (reports sl_demo (?ns @ [?l])) (pol sl_demo) = pol sl_demo"
    by (simp add: reports_def tell_def rr_mod_def sl_demo_def)
  ultimately show ?thesis by simp
qed

lemma signed_difference:
  assumes "uint a < 2 ^ 63" "uint b < 2 ^ 63"
  shows "sint (a - b :: 64 word) \<le> 0 \<longleftrightarrow> a \<le> b"
proof -
  have n: "- (2 ^ 63) \<le> uint (w :: 64 word)" for w by (rule order_trans [OF _ uint_nonnegative]) simp
  have s: "sint a = uint a" "sint b = uint b" using assms n [of a] n [of b]
    by (simp_all add: sint_uint signed_take_bit_int_eq_self_iff)
  have "- (2 ^ 63) \<le> uint a - uint b" "uint a - uint b < 2 ^ 63" using assms by (smt (verit) uint_nonnegative)+
  then have "sint (a - b) = uint a - uint b" using s by (simp add: sint_word_ariths signed_take_bit_int_eq_self_iff)
  then show ?thesis by (simp add: word_le_def)
qed

text \<open>
  C39 Time: a relative timeout is due exactly when at least its offset has passed, across a
  wrap of the 64-bit cycle counter, for offsets and delays below half its range (the
  deadline 0 means that none is set); and microseconds survive the conversion to cycles
  and back as long as the product fits.
\<close>

theorem timeout_fires:
  assumes "uint offset < 2 ^ 63" "uint passed < 2 ^ 63" "now + offset \<noteq> 0" "0 < cyc_per_usec s" "uint usec * cyc_per_usec s < 2 ^ 64"
  shows "(timer_due (timer_next (sl_timeout_relative M now offset s)) (now + passed) \<longleftrightarrow> offset \<le> passed) \<and>
    sl_cyc2usec s (sl_usec2cyc s usec) = usec"
proof -
  let ?c = "cyc_per_usec s"
  have "sl_cyc2usec s (sl_usec2cyc s usec) = usec"
  proof (cases "usec = 0")
    case True
    then show ?thesis by (simp add: sl_cyc2usec_def sl_usec2cyc_def)
  next
    case False
    then have "1 \<le> uint usec" using uint_nonnegative [of usec] by (smt (verit) uint_0_iff)
    then have "?c \<le> uint usec * ?c" using assms(4) by (simp add: mult_le_cancel_right1)
    then have "?c < 2 ^ 64" using assms(5) by linarith
    then have c: "uint (word_of_int ?c :: cycles) = ?c" using assms(4) by (simp add: uint_word_of_int)
    have "uint (usec * word_of_int ?c) = uint usec * ?c"
      using assms(4,5) uint_nonnegative [of usec] by (simp add: uint_word_ariths c)
    then have "uint (usec * word_of_int ?c div word_of_int ?c) = uint usec" using assms(4) by (simp add: uint_div c)
    then show ?thesis unfolding sl_cyc2usec_def sl_usec2cyc_def by (rule word_uint_eqI)
  qed
  moreover have "now + offset - (now + passed) = offset - passed" by simp
  then have "timer_due (timer_next (sl_timeout_relative M now offset s)) (now + passed) \<longleftrightarrow> offset \<le> passed"
    using signed_difference [OF assms(1,2)] assms(3) by (simp add: timer_due_def sl_timeout_relative_def sl_timeout_oneshot_def)
  ultimately show ?thesis by blast
qed

theorem timeout_fires_witness:
  "timer_due (timer_next (sl_timeout_relative rr_mod (- 5) 8 sl_demo)) (- 5 + 8) \<and>
   \<not> timer_due (timer_next (sl_timeout_relative rr_mod (- 5) 8 sl_demo)) (- 5 + 7) \<and> sl_cyc2usec sl_demo (sl_usec2cyc sl_demo 3) = 3"
proof -
  have h: "uint (8 :: cycles) < 2 ^ 63" "uint (7 :: cycles) < 2 ^ 63" "(- 5 :: cycles) + 8 \<noteq> 0" "0 < cyc_per_usec sl_demo"
    "uint (3 :: cycles) * cyc_per_usec sl_demo < 2 ^ 64" by (simp_all add: sl_demo_def)
  show ?thesis using timeout_fires [OF h(1,1,3-5), of rr_mod] timeout_fires [OF h(1-5), of rr_mod] by simp
qed

text \<open>
  C40 Allocation and release: a new thread is runnable, found by its id and known to the
  policy; releasing it undoes the table and the objects. Without a capability from the
  kernel the call returns \<^verbatim>\<open>NULL\<close> and nothing has changed; without memory from the back end it
  returns \<^verbatim>\<open>NULL\<close> too, but has told the policy of a thread \<^verbatim>\<open>NULL\<close>, and the capability is lost.
\<close>

theorem alloc_and_free:
  assumes "sl_inv s" "cap_ok cap" "tid \<noteq> 0" "sl_index s tid = 0" "t \<noteq> 0" "sl_objs s t = None"
  shows "(\<exists>s1. sl_thd_alloc_intern M cap tid (Some (t, raw)) s = Inr (t, s1) \<and> sl_inv s1 \<and> sl_thd_lkup tid s1 = t \<and>
      map_option sl_state (sl_objs s1 t) = Some SL_THD_RUNNABLE \<and> pol s1 = mod_create M t (pol s) \<and>
      sl_thd_free t s1 = Inr (s\<lparr>pol := pol s1\<rparr>)) \<and>
    sl_thd_alloc_intern M 0 tid place s = Inr (0, s) \<and>
    sl_thd_alloc_intern M cap tid None s = Inr (0, s\<lparr>pol := mod_create M 0 (pol s)\<rparr>)"
proof -
  have c0: "cap \<noteq> 0" using assms(2) by (simp add: cap_ok_def)
  let ?x = "raw\<lparr>sl_tid := tid, sl_cap := cap, sl_state := SL_THD_RUNNABLE\<rparr>"
  let ?s1 = "s\<lparr>sl_objs := (sl_objs s)(t \<mapsto> ?x), sl_index := (sl_index s)(tid := t), pol := mod_create M t (pol s)\<rparr>"
  have a: "sl_thd_alloc_intern M cap tid (Some (t, raw)) s = Inr (t, ?s1)"
    using c0 assms(3,5) by (simp add: sl_thd_alloc_intern_def sl_thd_alloc_init_def)
  have "sl_inv ?s1" by (rule alloc_keeps [OF assms(1) a _ assms(4)]) (use assms(2,6) in auto)
  moreover have "sl_thd_free t ?s1 = Inr (s\<lparr>pol := pol ?s1\<rparr>)"
  proof -
    have "(sl_index s)(tid := 0) = sl_index s" "(sl_objs s)(t := None) = sl_objs s"
      using assms(4,6) by (simp_all add: fun_upd_idem)
    then show ?thesis using assms(5) by (simp add: sl_thd_free_def sl_obj_def sl_set_state_def)
  qed
  ultimately have "\<exists>s1. sl_thd_alloc_intern M cap tid (Some (t, raw)) s = Inr (t, s1) \<and> sl_inv s1 \<and> sl_thd_lkup tid s1 = t \<and>
      map_option sl_state (sl_objs s1 t) = Some SL_THD_RUNNABLE \<and> pol s1 = mod_create M t (pol s) \<and>
      sl_thd_free t s1 = Inr (s\<lparr>pol := pol s1\<rparr>)"
    using a by (intro exI [of _ ?s1]) (simp add: sl_thd_lkup_def)
  then show ?thesis using c0 assms(3) by (simp add: sl_thd_alloc_intern_def sl_thd_alloc_init_def)
qed

theorem alloc_and_free_witness:
  "(\<exists>s1. sl_thd_alloc_intern rr_mod 7 4 (Some (400, raw_sl_thd)) sl_demo = Inr (400, s1) \<and> sl_thd_lkup 4 s1 = 400 \<and> pol s1 = [200, 300, 400]) \<and>
   sl_thd_alloc_intern rr_mod 7 4 None sl_demo = Inr (0, sl_demo\<lparr>pol := [200, 300, 0]\<rparr>)"
proof -
  have "cap_ok 7" "(4::thdid) \<noteq> 0" "sl_index sl_demo 4 = 0" "(400::ptr) \<noteq> 0" "sl_objs sl_demo 400 = None"
    by (simp_all add: cap_ok_def sl_demo_def sl_demo_objs_def)
  from alloc_and_free [OF sl_reachable_inv [OF demo_reachable] this, of rr_mod raw_sl_thd]
  obtain s1 where "sl_thd_alloc_intern rr_mod 7 4 (Some (400, raw_sl_thd)) sl_demo = Inr (400, s1)" "sl_thd_lkup 4 s1 = 400"
    "pol s1 = mod_create rr_mod 400 (pol sl_demo)"
    "sl_thd_alloc_intern rr_mod 7 4 None sl_demo = Inr (0, sl_demo\<lparr>pol := mod_create rr_mod 0 (pol sl_demo)\<rparr>)" by blast
  moreover have "mod_create rr_mod x (pol sl_demo) = [200, 300, x]" for x by (simp add: rr_mod_def sl_demo_def)
  ultimately show ?thesis by simp
qed

end
