(* ===== verification/Sl_Kthd.thy ===== *)
theory Sl_Kthd
  imports Sl_Contract Lwt_Witnesses Lwt_Client
begin

text \<open>
  Creation of kernel threads across the two libraries: \<^verbatim>\<open>lwt_kthd_create\<close> with its calls of the
  scheduler library (\<^verbatim>\<open>sl_thd_alloc\<close>, \<^verbatim>\<open>sl_thd_param_set\<close>), on the pair of both states; the
  small operations of the scheduler library that only callers outside it use; and the
  scheduler's loop.
\<close>

section \<open>Allocation and parameters\<close>

text \<open>
  What the kernel and the back end answer when a thread is allocated: the capability, the id
  and the memory. The function and the data the thread starts with go to the kernel.
\<close>

type_synonym new_thread = "thdcap \<times> thdid \<times> (ptr \<times> sl_thd) option"

definition sl_thd_alloc :: "'p sl_mod \<Rightarrow> new_thread \<Rightarrow> 'p sl_sys \<Rightarrow> (ptr \<times> 'p sl_sys) res" where
  "sl_thd_alloc M a s = (case a of (cap, tid, place) \<Rightarrow> sl_thd_alloc_intern M cap tid place s)"

text \<open>A thread of another component: only the kernel's part differs.\<close>

definition sl_thd_comp_alloc :: "'p sl_mod \<Rightarrow> new_thread \<Rightarrow> 'p sl_sys \<Rightarrow> (ptr \<times> 'p sl_sys) res" where
  "sl_thd_comp_alloc M a s = (case a of (cap, tid, place) \<Rightarrow> sl_thd_alloc_intern M cap tid place s)"

text \<open>
  Scheduling parameters: the union \<^verbatim>\<open>sched_param\<close> and \<^verbatim>\<open>sched_param_get\<close> belong to the plug-in
  interface, and the policy module takes the decoded pair.
\<close>

record 'p sl_params =
  prio_param :: "int \<Rightarrow> nat"           \<comment> \<open>the union's word for \<^verbatim>\<open>SCHEDP_PRIO\<close> and a priority\<close>
  param_get :: "nat \<Rightarrow> nat \<times> nat"      \<comment> \<open>\<^verbatim>\<open>sched_param_get\<close>: type and value\<close>
  mod_param_set :: "ptr \<Rightarrow> nat \<Rightarrow> nat \<Rightarrow> 'p \<Rightarrow> 'p"

definition sl_thd_param_set :: "'p sl_params \<Rightarrow> ptr \<Rightarrow> nat \<Rightarrow> 'p sl_sys \<Rightarrow> 'p sl_sys res" where
  "sl_thd_param_set P t spv s =
     (case param_get P spv of (type, value) \<Rightarrow>
        rbind (sl_obj t s) (\<lambda>_. Inr (s\<lparr>pol := mod_param_set P t type value (pol s)\<rparr>)))"

definition sl_timeout_period_get :: "'p sl_sys \<Rightarrow> cycles" where
  "sl_timeout_period_get s = period s"

definition sl_cs_exit_schedule_nospin :: "'p sl_mod \<Rightarrow> thdid \<Rightarrow> answer \<Rightarrow> 'p sl_sys \<Rightarrow> (int \<times> 'p sl_sys) res" where
  "sl_cs_exit_schedule_nospin M me a s = sl_cs_exit_schedule_nospin_arg M me a 0 s"

text \<open>The idle thread never returns.\<close>

definition sl_idle :: "ptr \<Rightarrow> 'p sl_sys \<Rightarrow> 'p sl_sys res" where
  "sl_idle d s = Inl Diverges"

text \<open>
  \<^verbatim>\<open>sl_sched_loop\<close> does not return: the state after the rounds for which the notifications and
  the kernel's answers are given.
\<close>

fun sl_sched_loop :: "'p sl_mod \<Rightarrow> thdid \<Rightarrow> (notification stream \<times> answer) list \<Rightarrow> 'p sl_sys \<Rightarrow> 'p sl_sys res" where
  "sl_sched_loop M me [] s = Inr s"
| "sl_sched_loop M me ((ns, a) # rounds) s = rbind (sl_sched_round M me ns a s) (sl_sched_loop M me rounds)"

section \<open>\<^verbatim>\<open>lwt_kthd_create\<close>\<close>

text \<open>
  The whole of \<^verbatim>\<open>lwt_kthd_create\<close>; it returns the new \<^verbatim>\<open>struct sl_thd\<close>. Next to it stands the
  block \<open>fp\<close> that is handed to the new kernel thread.
\<close>

definition lwt_kthd_create_sl ::
  "'p sl_mod \<Rightarrow> 'p sl_params \<Rightarrow> new_thread \<Rightarrow> ptr \<Rightarrow> ptr \<Rightarrow> int \<Rightarrow> sys \<times> 'p sl_sys \<Rightarrow> (ptr \<times> ptr \<times> sys \<times> 'p sl_sys) res" where
  "lwt_kthd_create_sl M P a fn c pri sq = (case sq of (s, q) \<Rightarrow>
     rbind (malloc func_param_size s) (\<lambda>(fp, s1).
     rbind (guard (fp \<noteq> 0) NullDeref) (\<lambda>_.
     let s2 = s1\<lparr>stackw := (stackw s1)(fp := fn, fp + sizeof_uint := c)\<rparr> in
     rbind (sl_thd_alloc M a q) (\<lambda>(t, q1).
     rbind (sl_obj t q1) (\<lambda>x.
     rbind (initiate (sl_tid x) s2) (\<lambda>s3.
     rbind (sl_thd_param_set P t (prio_param P pri) q1) (\<lambda>q2. Inr (t, fp, s3, q2))))))))"

text \<open>Its half in the lightweight-thread library is the operation of \<open>Lwt_Kthd\<close>.\<close>

lemma kthd_create_halves:
  assumes "lwt_kthd_create_sl M P a fn c pri (s, q) = Inr (t, fp, s', q')"
  shows "\<exists>q1 x. sl_thd_alloc M a q = Inr (t, q1) \<and> t \<noteq> 0 \<and> sl_objs q1 t = Some x \<and>
     lwt_kthd_create fn c (Some (sl_tid x)) s = Inr (fp, s') \<and>
     q' = q1\<lparr>pol := (case param_get P (prio_param P pri) of (ty, v) \<Rightarrow> mod_param_set P t ty v (pol q1))\<rparr>"
  using assms
  by (cases "param_get P (prio_param P pri)")
     (auto simp: lwt_kthd_create_sl_def lwt_kthd_create_def sl_thd_param_set_def Let_def rbind_eq_Inr)

lemma kthd_create_runs:
  assumes i: "lwt_inv s" and p: "supplied s" and k: "main_thread (kthds s tid) = 0" "tid < MAX_KTHD_NUM"
  obtains fp m s' where "lwt_kthd_create fn c (Some tid) s = Inr (fp, s')" "fp \<noteq> 0" "lwt_inv s'" "supplied s'" "func_param fp s' = (fn, c)"
    "main_thread (kthds s' tid) = m" "current_thread (kthds s' tid) = m" "m \<notin> dom (thds s)" "m \<noteq> 0"
    "map_option tstate (thds s' m) = Some LWT_RUNNING" "map_option owner_kthd (thds s' m) = Some tid"
    "list_foreach (RunQ tid) (lists s') = Some [ThdNode m]"
    "\<forall>j. j \<noteq> tid \<longrightarrow> kthds s' j = kthds s j" "\<forall>h\<in>heads s. list_foreach h (lists s') = list_foreach h (lists s)"
    "\<forall>v. v \<noteq> m \<longrightarrow> thds s' v = thds s v" "\<forall>e\<in>dom (chans s). chans s' e = chans s e" "current_kthd s' = current_kthd s"
proof -
  obtain B where B: "uheap (mem s) B" "dom (thds s) \<union> dom (chans s) \<union> dom (grps s) \<union> dom (wraps s) \<union> {} \<subseteq> B"
    by (rule inv_uheap [OF i [unfolded lwt_inv_def]])
  have n: "func_param_size + 16 \<le> 2 ^ 32" by (simp add: func_param_size_def)
  obtain fp m1 where fp: "malloc func_param_size s = Inr (fp, s\<lparr>mem := m1\<rparr>)" "fp \<noteq> 0" "uheap m1 (insert fp B)" "supplied (s\<lparr>mem := m1\<rparr>)"
    by (rule malloc_ok [OF B(1) n p])
  let ?s1 = "s\<lparr>mem := m1, stackw := (stackw s)(fp := fn, fp + sizeof_uint := c)\<rparr>"
  have u: "uheap (mem ?s1) (insert fp B)" "supplied ?s1" using fp(3,4) by (simp_all add: supplied_def)
  obtain m s' e where it: "initiate tid ?s1 = Inr s'" "m \<noteq> 0" "m \<notin> insert fp B" "\<forall>j. j \<noteq> tid \<longrightarrow> kthds s' j = kthds ?s1 j"
    "main_thread (kthds s' tid) = m" "current_thread (kthds s' tid) = m" "supplied s'" "map_option tstate (thds s' m) = Some LWT_RUNNING"
    "map_option owner_kthd (thds s' m) = Some tid" "\<forall>v. v \<noteq> m \<longrightarrow> thds s' v = thds ?s1 v" "stackw s' = stackw ?s1"
    "current_kthd s' = current_kthd ?s1" and e: "e \<notin> insert fp B" "\<forall>d. d \<noteq> e \<longrightarrow> chans s' d = chans ?s1 d"
    "lists s' = list_head_append (RunQ tid) (ThdNode m) (list_head_init (SendQ e) (lists (init_kthd tid ?s1)))"
    using initiate_ok [OF u k(2)] by blast
  have r: "lwt_kthd_create fn c (Some tid) s = Inr (fp, s')"
    using fp(1,2) it(1) by (simp add: lwt_kthd_create_def Let_def)
  have inv: "lwt_inv s'" using lwt_kthd_create_keeps [OF r] i k(1) by (simp add: lwt_inv_def)
  have l: "lists (init_kthd tid ?s1) = lists (init_kthd tid s)" by (simp add: init_kthd_def Let_def)
  have new: "tid \<notin> hosted s" "m \<notin> dom (thds s)" "e \<notin> dom (chans s)" using k(1) it(3) e(1) B(2) by (auto simp: hosted_def)
  have c: "\<forall>d\<in>dom (chans s). chans s' d = chans s d" using e(2) new(3) by auto
  note q = initiate_queues [OF i new e(3) [unfolded l]]
  show thesis
    by (rule that [OF r fp(2) inv it(7) _ it(5,6) new(2) it(2,8,9) q(1) _ q(4) _ c])
       (use it(4,10-12) in \<open>simp_all add: func_param_def sizeof_uint_def\<close>)
qed

section \<open>Properties\<close>

text \<open>
  C18 A kernel thread is created consistently in both libraries: the scheduler library finds it
  under its id, runnable and known to the policy with its priority; the lightweight-thread
  library has a main thread for it, running, alone in its run queue; the function and its
  argument lie in the block that the kernel thread starts with; and whoever else runs, in
  whatever kernel thread, and every queue are as before. If the kernel has no thread to give,
  the call faults: the \<^verbatim>\<open>NULL\<close> that \<^verbatim>\<open>sl_thd_alloc\<close> returns is followed.
\<close>

theorem kthd_created:
  assumes "lwt_inv s" "supplied s" "main_thread (kthds s tid) = 0" "tid < MAX_KTHD_NUM"
    and "sl_inv q" "cap_ok cap" "tid \<noteq> 0" "sl_index q tid = 0" "t \<noteq> 0" "sl_objs q t = None"
  shows "(\<exists>fp m s' q'. lwt_kthd_create_sl M P (cap, tid, Some (t, raw)) fn c pri (s, q) = Inr (t, fp, s', q') \<and>
      lwt_inv s' \<and> sl_inv q' \<and> sl_thd_lkup tid q' = t \<and> map_option sl_state (sl_objs q' t) = Some SL_THD_RUNNABLE \<and>
      pol q' = (case param_get P (prio_param P pri) of (ty, v) \<Rightarrow> mod_param_set P t ty v (mod_create M t (pol q))) \<and>
      func_param fp s' = (fn, c) \<and> main_thread (kthds s' tid) = m \<and> current_thread (kthds s' tid) = m \<and> m \<notin> dom (thds s) \<and>
      map_option tstate (thds s' m) = Some LWT_RUNNING \<and> map_option owner_kthd (thds s' m) = Some tid \<and>
      list_foreach (RunQ tid) (lists s') = Some [ThdNode m] \<and> lwt_current s' = lwt_current s \<and>
      (\<forall>j. j \<noteq> tid \<longrightarrow> kthds s' j = kthds s j) \<and> (\<forall>v. v \<noteq> m \<longrightarrow> thds s' v = thds s v) \<and>
      (\<forall>h\<in>heads s. list_foreach h (lists s') = list_foreach h (lists s))) \<and>
    lwt_kthd_create_sl M P (0, tid, place) fn c pri (s, q) = Inl NullDeref"
proof (rule kthd_create_runs [OF assms(1-4), of fn c])
  fix fp m s'
  assume r: "lwt_kthd_create fn c (Some tid) s = Inr (fp, s')" and fp: "fp \<noteq> 0"
    and e: "lwt_inv s'" "func_param fp s' = (fn, c)" "main_thread (kthds s' tid) = m" "current_thread (kthds s' tid) = m" "m \<notin> dom (thds s)"
    "map_option tstate (thds s' m) = Some LWT_RUNNING" "map_option owner_kthd (thds s' m) = Some tid"
    "list_foreach (RunQ tid) (lists s') = Some [ThdNode m]" "\<forall>j. j \<noteq> tid \<longrightarrow> kthds s' j = kthds s j"
    "\<forall>h\<in>heads s. list_foreach h (lists s') = list_foreach h (lists s)" "\<forall>v. v \<noteq> m \<longrightarrow> thds s' v = thds s v"
    and ck: "current_kthd s' = current_kthd s"
  have "tid \<noteq> current_kthd s" using inv_current [OF assms(1) [unfolded lwt_inv_def]] assms(3) by (auto simp: hosted_def)
  then have cur: "lwt_current s' = lwt_current s" using e(9) ck by (simp add: lwt_current_def)
  obtain s1 where s1: "malloc func_param_size s = Inr (fp, s1)"
    "initiate tid (s1\<lparr>stackw := (stackw s1)(fp := fn, fp + sizeof_uint := c)\<rparr>) = Inr s'"
    using r by (auto simp: lwt_kthd_create_def Let_def rbind_eq_Inr)
  let ?x = "raw\<lparr>sl_tid := tid, sl_cap := cap, sl_state := SL_THD_RUNNABLE\<rparr>"
  let ?q1 = "q\<lparr>sl_objs := (sl_objs q)(t \<mapsto> ?x), sl_index := (sl_index q)(tid := t), pol := mod_create M t (pol q)\<rparr>"
  let ?p = "case param_get P (prio_param P pri) of (ty, v) \<Rightarrow> mod_param_set P t ty v (mod_create M t (pol q))"
  have a: "sl_thd_alloc_intern M cap tid (Some (t, raw)) q = Inr (t, ?q1)"
    using assms(6,7,9) by (auto simp: sl_thd_alloc_intern_def sl_thd_alloc_init_def cap_ok_def)
  have "sl_inv ?q1" by (rule alloc_keeps [OF assms(5) a _ assms(8)]) (use assms(6,10) in auto)
  then have iq: "sl_inv (?q1\<lparr>pol := ?p\<rparr>)" by (simp add: sl_inv_def)
  have "lwt_kthd_create_sl M P (cap, tid, Some (t, raw)) fn c pri (s, q) = Inr (t, fp, s', ?q1\<lparr>pol := ?p\<rparr>)"
    using s1 fp a assms(9) by (simp add: lwt_kthd_create_sl_def sl_thd_alloc_def sl_thd_param_set_def Let_def sl_obj_def split: prod.splits)
  moreover have "lwt_kthd_create_sl M P (0, tid, place) fn c pri (s, q) = Inl NullDeref"
    using s1(1) fp by (simp add: lwt_kthd_create_sl_def sl_thd_alloc_def sl_thd_alloc_intern_def Let_def sl_obj_def)
  ultimately show ?thesis using e iq cur
    by (intro conjI exI [of _ fp] exI [of _ m] exI [of _ s'] exI [of _ "?q1\<lparr>pol := ?p\<rparr>"]) (simp_all add: sl_thd_lkup_def)
qed

text \<open>A plug-in that ignores priorities.\<close>

definition plain_params :: "ptr list sl_params" where
  "plain_params = \<lparr>prio_param = nat, param_get = (\<lambda>v. (0, v)), mod_param_set = (\<lambda>_ _ _ p. p)\<rparr>"

theorem kthd_created_witness:
  "\<exists>s fp m s' q'. lwt_kthd_create_sl rr_mod plain_params (7, 4, Some (400, raw_sl_thd)) 16 0 10 (s, sl_demo) = Inr (400, fp, s', q') \<and>
     func_param fp s' = (16, 0) \<and> list_foreach (RunQ 4) (lists s') = Some [ThdNode m] \<and> sl_thd_lkup 4 q' = 400 \<and> pol q' = [200, 300, 400]"
proof (rule stage_boot)
  fix s t assume s: "stage s [ThdNode t]" "hosted s \<subseteq> {0}"
  have h: "main_thread (kthds s 4) = 0" "4 < MAX_KTHD_NUM" "supplied s" using s by (auto simp: hosted_def MAX_KTHD_NUM_def stage_def)
  have q: "cap_ok 7" "(4::thdid) \<noteq> 0" "sl_index sl_demo 4 = 0" "(400::ptr) \<noteq> 0" "sl_objs sl_demo 400 = None"
    by (simp_all add: cap_ok_def sl_demo_def sl_demo_objs_def)
  from kthd_created [OF stage_inv [OF s(1)] h(3,1,2) sl_reachable_inv [OF demo_reachable] q, of rr_mod plain_params raw_sl_thd 16 0 10]
  obtain fp m s' q' where "lwt_kthd_create_sl rr_mod plain_params (7, 4, Some (400, raw_sl_thd)) 16 0 10 (s, sl_demo) = Inr (400, fp, s', q')"
    "sl_thd_lkup 4 q' = 400" "func_param fp s' = (16, 0)" "list_foreach (RunQ 4) (lists s') = Some [ThdNode m]"
    "pol q' = (case param_get plain_params (prio_param plain_params 10) of (ty, v) \<Rightarrow>
       mod_param_set plain_params 400 ty v (mod_create rr_mod 400 (pol sl_demo)))" by blast
  moreover from this(5) have "pol q' = [200, 300, 400]" by (simp add: plain_params_def rr_mod_def sl_demo_def)
  ultimately show ?thesis by blast
qed

end
