(* ===== verification/Unit_Tests.thy ===== *)
theory Unit_Tests
  imports Sl_Kthd Lwt_Tests
begin

text \<open>
  The unit tests of the scheduler library (\<^verbatim>\<open>unit_schedlib.c\<close>): the test program of \<open>Lwt_Tests\<close>
  with its own number of iterations, run in a kernel thread; tests of kernel threads and global
  channels; and the component's \<^verbatim>\<open>cos_init\<close>. Functions that end without a \<^verbatim>\<open>return\<close> although
  their type asks for one return an unspecified value, the parameter \<open>u\<close>.
\<close>

section \<open>Constants, globals and function addresses\<close>

definition UNIT_ITER :: nat where "UNIT_ITER = 1000"
definition N_TESTTHDS :: nat where "N_TESTTHDS = 8"
definition WORKITERS :: int where "WORKITERS = 100000"

record unit_globals = test_globals +
  g_c0 :: ptr
  g_c1 :: ptr
  g_t0 :: ptr
  g_t1 :: ptr

definition unit_globals0 :: unit_globals where
  "unit_globals0 = \<lparr>g_sched = [0, 0], g_curr = 0, g_sndrcv_cnt = 0, g_async_sz = 0, g_c0 = 0, g_c1 = 0, g_t0 = 0, g_t1 = 0\<rparr>"

type_synonym unit_test = "unit_globals prog"

abbreviation (input) FN_LWT1_TEST :: ptr where "FN_LWT1_TEST \<equiv> 12"
abbreviation (input) FN_LWT2_TEST :: ptr where "FN_LWT2_TEST \<equiv> 13"
abbreviation (input) FN_TEST_HIGH :: ptr where "FN_TEST_HIGH \<equiv> 14"
abbreviation (input) FN_TEST_HIGH_LOOP :: ptr where "FN_TEST_HIGH_LOOP \<equiv> 15"
abbreviation (input) FN_TEST_LOW :: ptr where "FN_TEST_LOW \<equiv> 16"
abbreviation (input) FN_TEST_LOW_LOOP :: ptr where "FN_TEST_LOW_LOOP \<equiv> 17"
abbreviation (input) FN_TEST_FILE :: ptr where "FN_TEST_FILE \<equiv> 18"
abbreviation (input) FN_TEST_THD_FN :: ptr where "FN_TEST_THD_FN \<equiv> 19"
abbreviation (input) FN_TEST_LWT :: ptr where "FN_TEST_LWT \<equiv> 20"

definition get_global :: "('g \<Rightarrow> ptr) \<Rightarrow> (ptr \<Rightarrow> 'g prog) \<Rightarrow> 'g prog" where
  "get_global f k = Env (\<lambda>g. Inr (g, VPtr (f g))) (\<lambda>v. k (val_ptr v))"

definition set_global :: "('g \<Rightarrow> 'g) \<Rightarrow> 'g prog \<Rightarrow> 'g prog" where
  "set_global f k = Env (\<lambda>g. Inr (f g, VVoid)) (\<lambda>_. k)"

text \<open>\<^verbatim>\<open>SPIN(iters)\<close>: counts a positive number down, and spins for ever on any other.\<close>

definition SPIN :: "int \<Rightarrow> 'g prog \<Rightarrow> 'g prog" where
  "SPIN iters k = (if iters > 0 then k else Env (\<lambda>_. Inl Diverges) (\<lambda>_. k))"

section \<open>Kernel threads that only compute\<close>

text \<open>
  One round of the loop of \<^verbatim>\<open>test_thd_fn\<close>. The product of the constant and \<^verbatim>\<open>(int)data\<close> is a
  signed multiplication.
\<close>

definition test_thd_fn :: "ptr \<Rightarrow> 'g prog" where
  "test_thd_fn data =
     Env (\<lambda>g. rbind (guard (WORKITERS * int data \<le> int_max) SignedOverflow) (\<lambda>_. Inr (g, VVoid))) (\<lambda>_.
     Say ''%d'' (SPIN (WORKITERS * int data) (Pause 0 (Again FN_TEST_THD_FN data))))"

definition test_lwt :: "ptr \<Rightarrow> 'g prog" where
  "test_lwt a = SPIN 1000 (Say ''%d'' (Again FN_TEST_LWT a))"

text \<open>
  \<^verbatim>\<open>test_yields\<close> allocates the threads and gives them their priority; \<open>a i\<close> is the kernel's
  answer to the allocation of number \<open>i\<close>, which starts with the data \<open>i + 1\<close>.
\<close>

fun test_yields_loop :: "'p sl_mod \<Rightarrow> 'p sl_params \<Rightarrow> new_thread list \<Rightarrow> 'p sl_sys \<Rightarrow> 'p sl_sys res" where
  "test_yields_loop M P [] q = Inr q"
| "test_yields_loop M P (a # as) q =
     rbind (sl_thd_alloc M a q) (\<lambda>(t, q1).
     rbind (guard (t \<noteq> 0) AssertFailed) (\<lambda>_.
     rbind (sl_thd_param_set P t (prio_param P 10) q1) (test_yields_loop M P as)))"

definition test_yields :: "'p sl_mod \<Rightarrow> 'p sl_params \<Rightarrow> (nat \<Rightarrow> new_thread) \<Rightarrow> 'p sl_sys \<Rightarrow> 'p sl_sys res" where
  "test_yields M P a q = test_yields_loop M P (map a [0..<N_TESTTHDS]) q"

section \<open>A global channel between kernel threads\<close>

definition lwt1_test :: "val \<Rightarrow> ptr \<Rightarrow> unit_test" where
  "lwt1_test u d =
     Lib (NewChan 100) (\<lambda>v. set_global (g_c0_update (\<lambda>_. val_ptr v))
     (get_global g_c0 (\<lambda>c0. Lib (SetType c0 GLOBAL_CHAN) (\<lambda>_.
     Say ''lwt of lwt2_test try to recieving... '' (get_global g_c0 (\<lambda>c0. rcv c0 (\<lambda>value.
     Say ''lwt of lwt2_test has received %d '' (Ret u))))))))"

definition lwt2_test :: "val \<Rightarrow> ptr \<Rightarrow> unit_test" where
  "lwt2_test u d =
     Lib (NewChan 100) (\<lambda>v. set_global (g_c1_update (\<lambda>_. val_ptr v))
     (get_global g_c1 (\<lambda>c1. Lib (SetType c1 GLOBAL_CHAN) (\<lambda>_.
     get_global g_c0 (\<lambda>c0. snd_to c0 8
     (Say ''lwt of lwt2_test has sent data '' (Ret u)))))))"

text \<open>
  The two kernel threads create a thread each and then loop. \<open>tid_of\<close> reads the field \<^verbatim>\<open>thdid\<close>
  of a \<^verbatim>\<open>struct sl_thd\<close>.
\<close>

definition test_high_loop :: "(ptr \<Rightarrow> nat) \<Rightarrow> ptr \<Rightarrow> unit_test" where
  "test_high_loop tid_of t =
     Say ''h'' (check (t \<noteq> 0) (Pause (tid_of t) (yield_null (Again FN_TEST_HIGH_LOOP t))))"

definition test_high :: "(ptr \<Rightarrow> nat) \<Rightarrow> ptr \<Rightarrow> unit_test" where
  "test_high tid_of data =
     Say ''high999'' (create FN_LWT1_TEST 0 (\<lambda>t0. set_global (g_t0_update (\<lambda>_. t0))
     (Say ''test high about to enter loop!'' (test_high_loop tid_of data))))"

definition test_low_loop :: "ptr \<Rightarrow> unit_test" where
  "test_low_loop d = SPIN (WORKITERS * 10) (Say ''l'' (yield_null (Again FN_TEST_LOW_LOOP d)))"

definition test_low :: "ptr \<Rightarrow> unit_test" where
  "test_low data =
     Say ''low'' (create FN_LWT2_TEST 0 (\<lambda>t1. set_global (g_t1_update (\<lambda>_. t1))
     (Say ''test low about to enter loop!'' (test_low_loop data))))"

section \<open>The tests of the library again\<close>

definition unit_fn_bounce :: "ptr \<Rightarrow> 'a test" where "unit_fn_bounce = fn_bounce UNIT_ITER"
definition unit_fn_null :: "ptr \<Rightarrow> 'a test" where "unit_fn_null = fn_null"
definition unit_IS_RESET :: "'g prog \<Rightarrow> 'g prog" where "unit_IS_RESET = IS_RESET"
definition unit_test_perf :: "'a test" where "unit_test_perf = test_perf UNIT_ITER"
definition unit_fn_identity :: "ptr \<Rightarrow> 'a test" where "unit_fn_identity = fn_identity"

definition unit_fn_nested_joins :: "val \<Rightarrow> ptr \<Rightarrow> 'a test" where
  "unit_fn_nested_joins u d =
     (let rest = create FN_NESTED_JOINS 1 (\<lambda>chld. join chld (Ret u)) in
      if d \<noteq> 0 then
        yield_null (yield_null (info LWT_INFO_NTHD_RUNNABLE (\<lambda>r. check (r = 1) (Lib (Die 0) (\<lambda>_. rest)))))
      else rest)"

definition unit_fn_sequence :: "ptr \<Rightarrow> 'a test" where "unit_fn_sequence = fn_sequence UNIT_ITER"

definition unit_fn_join :: "val \<Rightarrow> ptr \<Rightarrow> 'a test" where
  "unit_fn_join u d = Lib (Join d) (\<lambda>r. check (val_ptr r \<noteq> 0x37337) (Ret u))"

definition unit_test_crt_join_sched :: "'a test" where "unit_test_crt_join_sched = test_crt_join_sched"
definition unit_fn_chan :: "ptr \<Rightarrow> 'a test" where "unit_fn_chan = fn_chan UNIT_ITER"
definition unit_test_perf_channels :: "int \<Rightarrow> 'a test" where "unit_test_perf_channels = test_perf_channels UNIT_ITER"
definition unit_fn_snder :: "ptr \<Rightarrow> ptr \<Rightarrow> 'a test" where "unit_fn_snder = fn_snder UNIT_ITER"
definition unit_fn_snder_1 :: "ptr \<Rightarrow> 'a test" where "unit_fn_snder_1 c = unit_fn_snder c 1"
definition unit_fn_snder_2 :: "ptr \<Rightarrow> 'a test" where "unit_fn_snder_2 c = unit_fn_snder c 2"
definition unit_test_multisend :: "int \<Rightarrow> 'a test" where "unit_test_multisend = test_multisend UNIT_ITER"
definition unit_fn_async_steam :: "ptr \<Rightarrow> 'a test" where "unit_fn_async_steam = fn_async_steam UNIT_ITER"

definition unit_test_perf_async_steam :: "int \<Rightarrow> 'a test" where
  "unit_test_perf_async_steam chsz =
     Env (\<lambda>g. Inr (g\<lparr>g_async_sz := chsz\<rparr>, VVoid)) (\<lambda>_.
     Ask (\<lambda>s. rbind (thd (lwt_current s) s) (\<lambda>x. Inr (VInt (if tstate x = LWT_RUNNING then 1 else 0)))) (\<lambda>v.
     check (v = VInt 1)
     (Lib (NewChan chsz) (\<lambda>v. let from = val_ptr v in
     check (from \<noteq> 0)
     (Lib (CreateChan FN_ASYNC_STEAM from) (\<lambda>t.
     info LWT_INFO_NTHD_RUNNABLE (\<lambda>n. check (n = 2)
     (repeat UNIT_ITER (\<lambda>i k. rcv from (\<lambda>x. check (i + 1 = x) k))
     (Say ''[PERF] %5lld <- asynchronous snd->rcv (buffer size %d)''
     (join (val_ptr t) (Ret VVoid)))))))))))"

definition unit_fn_grpwait :: "val \<Rightarrow> ptr \<Rightarrow> 'a test" where
  "unit_fn_grpwait u c =
     repeat UNIT_ITER (\<lambda>i k.
       let say = own_id (\<lambda>n. snd_to c n k) in
       if i mod 7 = 0 then repeat (i mod 8) (\<lambda>j. yield_null) say else say) (Ret u)"

definition unit_test_grpwait :: "int \<Rightarrow> nat \<Rightarrow> 'a test" where
  "unit_test_grpwait chsz grpsz =
     Say ''[TEST] group wait (channel buffer size %d, grpsz %d)''
     (Lib NewGrp (\<lambda>v. let g = val_ptr v in check (g \<noteq> 0)
     (for_loop grpsz (\<lambda>i (cs, ts) k.
        Lib (NewChan chsz) (\<lambda>v. let c = val_ptr v in check (c \<noteq> 0)
        (Lib (CreateChan FN_GRPWAIT c) (\<lambda>v. let t = val_ptr v in
        id_of t (\<lambda>m. Lib (MarkSet c m) (\<lambda>_. Lib (GrpAdd g c) (\<lambda>_. k (cs @ [c], ts @ [t])))))))) 0 ([], []) (\<lambda>(cs, ts).
     yield_null
     (Lib (GrpFree g) (\<lambda>v. check (v = VInt (- 1))
     (repeat (UNIT_ITER * grpsz) (\<lambda>i k.
        Lib (GrpWait g) (\<lambda>v. let c = val_ptr v in check (c \<noteq> 0)
        (yield_null (rcv c (\<lambda>r. mark_get c (\<lambda>m. check (r = m) k))))))
     (for_loop grpsz (\<lambda>i (_::unit) k.
        Lib (GrpRem g (cs ! i)) (\<lambda>_. join (ts ! i) (Lib (Deref (cs ! i)) (\<lambda>_. k ())))) 0 () (\<lambda>_.
     Lib (GrpFree g) (\<lambda>v. check (v = VInt 0) (Ret VVoid)))))))))))"

definition test_file :: "ptr \<Rightarrow> 'a test" where
  "test_file d =
     Say ''hw3 test starts!''
     (pbind unit_test_perf (\<lambda>_.
     pbind (unit_test_perf_channels 0) (\<lambda>_.
     pbind (unit_test_perf_async_steam (buffered_size UNIT_ITER)) (\<lambda>_.
     pbind unit_test_crt_join_sched (\<lambda>_.
     pbind (unit_test_multisend 0) (\<lambda>_.
     pbind (unit_test_multisend (buffered_size UNIT_ITER)) (\<lambda>_.
     pbind (unit_test_grpwait 0 15) (\<lambda>_.
     pbind (unit_test_grpwait 15 15) (\<lambda>_.
     Say ''HW3 test file complete2'' (Ret (VInt 0)))))))))))"

text \<open>All functions, by address; the two endless loops have an address of their own.\<close>

definition unit_code :: "val \<Rightarrow> (ptr \<Rightarrow> nat) \<Rightarrow> unit_globals code" where
  "unit_code u tid_of fn =
     (if fn = FN_BOUNCE then Some unit_fn_bounce else if fn = FN_NULL then Some unit_fn_null
      else if fn = FN_IDENTITY then Some unit_fn_identity else if fn = FN_NESTED_JOINS then Some (unit_fn_nested_joins u)
      else if fn = FN_SEQUENCE then Some unit_fn_sequence else if fn = FN_JOIN then Some (unit_fn_join u)
      else if fn = FN_CHAN then Some unit_fn_chan else if fn = FN_SNDER_1 then Some unit_fn_snder_1
      else if fn = FN_SNDER_2 then Some unit_fn_snder_2 else if fn = FN_ASYNC_STEAM then Some unit_fn_async_steam
      else if fn = FN_GRPWAIT then Some (unit_fn_grpwait u) else if fn = FN_LWT1_TEST then Some (lwt1_test u)
      else if fn = FN_LWT2_TEST then Some (lwt2_test u) else if fn = FN_TEST_HIGH then Some (test_high tid_of)
      else if fn = FN_TEST_HIGH_LOOP then Some (test_high_loop tid_of) else if fn = FN_TEST_LOW then Some test_low
      else if fn = FN_TEST_LOW_LOOP then Some test_low_loop else if fn = FN_TEST_FILE then Some test_file
      else if fn = FN_TEST_THD_FN then Some test_thd_fn else if fn = FN_TEST_LWT then Some test_lwt else None)"

section \<open>Boot\<close>

text \<open>
  \<^verbatim>\<open>lwt_kthd_create\<close> called by the boot code: the main thread of the new kernel thread is at the
  start of the trampoline, with the block made for it.
\<close>

definition spawn_kthd :: "'p sl_mod \<Rightarrow> 'p sl_params \<Rightarrow> 'g code \<Rightarrow> new_thread \<Rightarrow> ptr \<Rightarrow> ptr \<Rightarrow> int \<Rightarrow>
    'g world \<times> 'p sl_sys \<Rightarrow> (ptr \<times> 'g world \<times> 'p sl_sys) res" where
  "spawn_kthd M P F a fn c pri wq = (case wq of (w, q) \<Rightarrow>
     rbind (lwt_kthd_create_sl M P a fn c pri (lib w, q)) (\<lambda>(t, fp, s', q').
     rbind (sl_obj t q') (\<lambda>x.
       Inr (t, w\<lparr>lib := s', pend := (pend w)(main_thread (kthds s' (sl_tid x)) \<mapsto> (\<lambda>_. lwt_kthd_trampline F fp))\<rparr>, q'))))"

definition print :: "string \<Rightarrow> 'g world \<Rightarrow> 'g world" where
  "print m w = w\<lparr>out := out w @ [m]\<rparr>"

text \<open>
  The tests end in \<^verbatim>\<open>sl_sched_loop\<close>: the result is the state after the given rounds of it. The
  variable \<^verbatim>\<open>current_kthd\<close> that the scheduler library sets is the one the thread library reads.
\<close>

type_synonym rounds = "(notification stream \<times> answer) list"

definition sched_forever :: "'p sl_mod \<Rightarrow> thdid \<Rightarrow> rounds \<Rightarrow> 'g world \<times> 'p sl_sys \<Rightarrow> ('g world \<times> 'p sl_sys) res" where
  "sched_forever M me rounds wq = (case wq of (w, q) \<Rightarrow>
     rbind (sl_sched_loop M me rounds q) (\<lambda>q'.
       Inr (if rounds = [] then w else w\<lparr>lib := (lib w)\<lparr>current_kthd := sl_current_kthd q'\<rparr>\<rparr>, q')))"

definition test_hw3 :: "'p sl_mod \<Rightarrow> 'p sl_params \<Rightarrow> 'g code \<Rightarrow> thdid \<Rightarrow> new_thread \<Rightarrow> rounds \<Rightarrow>
    'g world \<times> 'p sl_sys \<Rightarrow> ('g world \<times> 'p sl_sys) res" where
  "test_hw3 M P F me a rounds wq =
     rbind (spawn_kthd M P F a FN_TEST_FILE 0 5 wq) (\<lambda>(t, wq1). sched_forever M me rounds wq1)"

definition test_kthd :: "'p sl_mod \<Rightarrow> 'p sl_params \<Rightarrow> 'g code \<Rightarrow> thdid \<Rightarrow> new_thread \<Rightarrow> new_thread \<Rightarrow> rounds \<Rightarrow>
    'g world \<times> 'p sl_sys \<Rightarrow> ('g world \<times> 'p sl_sys) res" where
  "test_kthd M P F me a b rounds wq = (case wq of (w, q) \<Rightarrow>
     rbind (spawn_kthd M P F a FN_TEST_LOW 0 10 (print ''begin test for kthd related!!!!!'' w, q)) (\<lambda>(low, w1, q1).
     rbind (guard (low \<noteq> 0) AssertFailed) (\<lambda>_.
     rbind (sl_obj low q1) (\<lambda>_.
     rbind (spawn_kthd M P F b FN_TEST_HIGH low 5 (print ''%d'' w1, q1)) (\<lambda>(high, w2, q2).
       sched_forever M me rounds (print ''ready to begin!'' w2, q2))))))"

text \<open>
  \<^verbatim>\<open>cos_init\<close>; the initialisation of the component's memory and capabilities is the kernel
  library's. The arguments from \<open>p0\<close> on are those of \<^verbatim>\<open>sl_init\<close> in the model.
\<close>

definition cos_init :: "'p sl_mod \<Rightarrow> 'p sl_params \<Rightarrow> 'g code \<Rightarrow> 'p \<Rightarrow> cycles \<times> cycles \<times> tcap_time \<Rightarrow> int \<Rightarrow> thdid \<Rightarrow>
    thdcap \<Rightarrow> (ptr \<times> sl_thd) option \<Rightarrow> new_thread \<Rightarrow> new_thread \<Rightarrow> new_thread \<Rightarrow> rounds \<Rightarrow>
    'g world \<times> 'p sl_sys \<Rightarrow> ('g world \<times> 'p sl_sys) res" where
  "cos_init M P F p0 timers cyc me boot_cap place idle a b rounds wq = (case wq of (w, q) \<Rightarrow> case idle of (icap, itid, iplace) \<Rightarrow>
     rbind (sl_init M p0 timers cyc me boot_cap place icap itid iplace q) (\<lambda>q1.
       test_kthd M P F me a b rounds (print ''Unit-test for the scheduling library (sl)'' w, q1)))"

end
