(* ===== verification/Lwt_Typed.thy ===== *)
theory Lwt_Typed
  imports Lwt_Witnesses Lwt_Paths
begin

text \<open>
  Types of pointers: every field of the library's objects that is declared as a pointer to a
  thread points to a thread's control block or is \<^verbatim>\<open>NULL\<close>, and so do the local variables of the
  suspended calls. (\<^verbatim>\<open>chl\<close> and \<^verbatim>\<open>now_rcving\<close>, which may outlive the channel or are never
  initialised, are not among them; \<^verbatim>\<open>cgroup\<close> is covered by the invariant.)
\<close>

section \<open>Well-typed states\<close>

definition live :: "(ptr \<rightharpoonup> lwt_thread) \<Rightarrow> ptr set" where
  "live T = insert 0 (dom T)"

fun frame_thd :: "frame \<Rightarrow> ptr" where
  "frame_thd (KRcv t) = t"
| "frame_thd (KJoin t) = t"
| "frame_thd (KDie t) = t"
| "frame_thd (KSyncRcv c t) = t"
| "frame_thd (KCgrpWait g t) = t"
| "frame_thd _ = 0"

definition typed_parts :: "(ptr \<rightharpoonup> lwt_thread) \<Rightarrow> (ptr \<rightharpoonup> lwt_channel) \<Rightarrow> (ptr \<rightharpoonup> lwt_cgrp) \<Rightarrow> (ptr \<rightharpoonup> ptr) \<Rightarrow>
    (nat \<Rightarrow> kthd_info) \<Rightarrow> (ptr \<Rightarrow> frame list) \<Rightarrow> bool" where
  "typed_parts T C G W K F \<longleftrightarrow>
     (\<forall>t x. T t = Some x \<longrightarrow> parent x \<in> live T) \<and> (\<forall>c ch. C c = Some ch \<longrightarrow> receiver ch \<in> live T) \<and>
     (\<forall>g y. G g = Some y \<longrightarrow> owner y \<in> live T) \<and> (\<forall>w t. W w = Some t \<longrightarrow> t \<in> live T) \<and>
     (\<forall>k. current_thread (K k) \<in> live T \<and> main_thread (K k) \<in> live T) \<and> (\<forall>t. \<forall>f\<in>set (F t). frame_thd f \<in> live T)"

definition typed :: "sys \<Rightarrow> bool" where
  "typed s \<longleftrightarrow> typed_parts (thds s) (chans s) (grps s) (wraps s) (kthds s) (frames s)"

lemma live_simps [simp]: "0 \<in> live T" "T t = Some x \<Longrightarrow> t \<in> live T" "p \<in> live T \<Longrightarrow> p \<in> live (T(t \<mapsto> y))" "t \<in> live (T(t \<mapsto> y))"
  by (auto simp: live_def)

lemma typed_fields:
  assumes "typed_parts T C G W K F"
  shows "T t = Some x \<Longrightarrow> parent x \<in> live T" "C c = Some ch \<Longrightarrow> receiver ch \<in> live T" "G g = Some y \<Longrightarrow> owner y \<in> live T"
    "current_thread (K k) \<in> live T" "main_thread (K k) \<in> live T" "f \<in> set (F t) \<Longrightarrow> frame_thd f \<in> live T"
  using assms by (simp_all add: typed_parts_def)

text \<open>Each kind of update, given that what is written is of the right type.\<close>

lemma typed_thd:
  assumes "typed_parts T C G W K F" "parent y \<in> live (T(t \<mapsto> y))"
  shows "typed_parts (T(t \<mapsto> y)) C G W K F"
  using assms unfolding typed_parts_def by (auto split: if_splits)

lemma typed_chan: "typed_parts T C G W K F \<Longrightarrow> receiver ch \<in> live T \<Longrightarrow> typed_parts T (C(c \<mapsto> ch)) G W K F"
  by (auto simp: typed_parts_def)

lemma typed_free: "typed_parts T C G W K F \<Longrightarrow> typed_parts T (C(c := None)) G W K F"
  "typed_parts T C G W K F \<Longrightarrow> typed_parts T C (G(c := None)) W K F"
  by (auto simp: typed_parts_def)

lemma typed_grp: "typed_parts T C G W K F \<Longrightarrow> owner y \<in> live T \<Longrightarrow> typed_parts T C (G(g \<mapsto> y)) W K F"
  by (auto simp: typed_parts_def)

lemma typed_wrap: "typed_parts T C G W K F \<Longrightarrow> t \<in> live T \<Longrightarrow> typed_parts T C G (W(w \<mapsto> t)) K F"
  by (auto simp: typed_parts_def)

lemma typed_kthd: "typed_parts T C G W K F \<Longrightarrow> current_thread i \<in> live T \<Longrightarrow> main_thread i \<in> live T \<Longrightarrow> typed_parts T C G W (K(k := i)) F"
  by (auto simp: typed_parts_def)

lemma typed_frame: "typed_parts T C G W K F \<Longrightarrow> \<forall>f\<in>set fs. frame_thd f \<in> live T \<Longrightarrow> typed_parts T C G W K (F(t := fs))"
  by (auto simp: typed_parts_def)

lemmas typed_updates = typed_thd typed_chan typed_free typed_grp typed_wrap typed_kthd typed_frame

lemma typed_current: "typed s \<Longrightarrow> lwt_current s \<in> live (thds s)"
  by (auto simp: typed_def lwt_current_def dest: typed_fields)

lemma typed_push: "typed s \<Longrightarrow> frame_thd k \<in> live (thds s) \<Longrightarrow> typed (push k s)"
  by (auto simp: typed_def push_def typed_fields(6) intro!: typed_frame)

lemma typed_pop:
  assumes "typed s"
  shows "typed (pop s)"
proof -
  have s: "\<forall>f\<in>set fs. frame_thd f \<in> L \<Longrightarrow> \<forall>f\<in>set (tl fs). frame_thd f \<in> L" for L fs by (cases fs) auto
  have "\<forall>f\<in>set (tl (frames s t)). frame_thd f \<in> live (thds s)" for t by (rule s) (use assms in \<open>simp add: typed_def typed_parts_def\<close>)
  then show ?thesis using assms by (simp add: typed_def pop_def typed_frame)
qed

lemma typed_lists [simp]: "typed (s\<lparr>lists := L\<rparr>) = typed s" "typed (s\<lparr>mem := m\<rparr>) = typed s"
  by (simp_all add: typed_def)

lemma malloc_typed: "malloc n s = Inr (q, s') \<Longrightarrow> typed s \<Longrightarrow> typed s'"
  by (auto simp: malloc_eq_Inr)

section \<open>Operations\<close>

named_theorems typed_ops \<open>operations keep a state well typed\<close>

lemma upd_thd_typed:
  assumes "upd_thd t f s = Inr s'" "\<And>x. parent (f x) = parent x" "typed s"
  shows "typed s'"
  using assms by (auto simp: typed_def typed_fields(1) intro!: typed_thd)

lemma upd_chan_typed:
  assumes "upd_chan c f s = Inr s'" "\<And>x. receiver (f x) = receiver x" "typed s"
  shows "typed s'"
  using assms by (auto simp: typed_def typed_fields(2) intro!: typed_chan)

text \<open>The fields that are no pointers to threads.\<close>

lemma upd_field_typed [typed_ops]:
  "upd_chan c (\<lambda>ch. ch\<lparr>ready := r\<rparr>) s = Inr s' \<Longrightarrow> typed s \<Longrightarrow> typed s'"
  "upd_chan c (\<lambda>ch. ch\<lparr>buffer := b\<rparr>) s = Inr s' \<Longrightarrow> typed s \<Longrightarrow> typed s'"
  "upd_chan c (\<lambda>ch. ch\<lparr>chan_ty := ty\<rparr>) s = Inr s' \<Longrightarrow> typed s \<Longrightarrow> typed s'"
  "upd_chan c (\<lambda>ch. ch\<lparr>mark := m\<rparr>) s = Inr s' \<Longrightarrow> typed s \<Longrightarrow> typed s'"
  "upd_chan c (\<lambda>ch. ch\<lparr>cgroup := g\<rparr>) s = Inr s' \<Longrightarrow> typed s \<Longrightarrow> typed s'"
  "upd_chan c (\<lambda>ch. ch\<lparr>snd_cnt := snd_cnt ch + 1\<rparr>) s = Inr s' \<Longrightarrow> typed s \<Longrightarrow> typed s'"
  "upd_thd t (\<lambda>x. x\<lparr>message_data := d\<rparr>) s = Inr s' \<Longrightarrow> typed s \<Longrightarrow> typed s'"
  "upd_thd t (\<lambda>x. x\<lparr>now_rcving := c\<rparr>) s = Inr s' \<Longrightarrow> typed s \<Longrightarrow> typed s'"
  "upd_thd t (\<lambda>x. x\<lparr>owner_kthd := k\<rparr>) s = Inr s' \<Longrightarrow> typed s \<Longrightarrow> typed s'"
  "upd_thd t (\<lambda>x. x\<lparr>tstate := st\<rparr>) s = Inr s' \<Longrightarrow> typed s \<Longrightarrow> typed s'"
  by (erule upd_chan_typed upd_thd_typed; simp)+

lemma upd_grp_typed:
  assumes "upd_grp g f s = Inr s'" "\<And>x. owner (f x) = owner x" "typed s"
  shows "typed s'"
  using assms by (auto simp: typed_def typed_fields(3) intro!: typed_grp)

lemma schedule_typed [typed_ops]:
  assumes "lwt_schedule s = Inr (v, s')" "typed s"
  shows "typed s'"
proof -
  have p: "s1 = s" if "poll_wakeups s = Inr s1" for s1
    using that by (auto simp: poll_wakeups_def Let_def rbind_eq_Inr split: if_splits lnode.splits)
  have d: "typed s2" if "lwt_dispatch t n s1 = Inr (v, s2)" "typed s1" for t n s1 s2
    using that by (auto simp: lwt_dispatch_def rbind_eq_Inr typed_def typed_fields split: code_label.splits if_splits
        intro!: typed_updates)
  show ?thesis using assms
    by (auto simp: lwt_schedule_def Let_def rbind_eq_Inr typed_def [of s] dest!: p elim!: d)
      (auto simp: typed_def typed_fields intro!: typed_updates)
qed

lemma yield_typed [typed_ops]: "lwt_yield y s = Inr (v, s') \<Longrightarrow> typed s \<Longrightarrow> typed s'"
  by (auto simp: lwt_yield_def Let_def rbind_eq_Inr split: if_splits dest!: schedule_typed)

lemma block_typed [typed_ops]:
  assumes "block_thread t why c s = Inr (v, s')" "typed s"
  shows "typed s'"
  using assms
  by (cases why; auto simp: block_thread_def Let_def rbind_eq_Inr elim!: yield_typed)
    (auto simp: typed_def typed_fields intro!: typed_updates)

lemma resume_typed [typed_ops]: "resume_thread t s = Inr s' \<Longrightarrow> typed s \<Longrightarrow> typed s'"
  by (auto simp: resume_thread_def Let_def rbind_eq_Inr typed_def typed_fields intro!: typed_updates)

lemma wake_group_typed [typed_ops]: "wake_group c s = Inr s' \<Longrightarrow> typed s \<Longrightarrow> typed s'"
  by (auto simp: wake_group_def rbind_eq_Inr split: if_splits intro: resume_typed)

lemma sync_snd_typed [typed_ops]: "lwt_sync_snd c d s = Inr (v, s') \<Longrightarrow> typed s \<Longrightarrow> typed s'"
  by (auto simp: lwt_sync_snd_def Let_def rbind_eq_Inr malloc_eq_Inr typed_def typed_fields intro!: typed_updates)

lemma snd_typed [typed_ops]:
  assumes "lwt_snd c d s = Inr (v, s')" "typed s"
  shows "typed s'"
  using assms(1)
proof (cases rule: snd_cases)
  case global
  then show ?thesis using assms(2) sync_snd_typed upd_field_typed(3) by blast
next
  case waits
  then show ?thesis using assms(2) resume_typed upd_field_typed(7) by blast
next
  case room
  then show ?thesis using assms(2) wake_group_typed upd_field_typed(1,2) by blast
next
  case (full s1 s2 s3)
  have "typed s3" using full(1-3) assms(2) wake_group_typed upd_field_typed(1,7) by blast
  then show ?thesis using block_typed [OF full(4)] typed_push [of s3 KSnd] by simp
qed (use assms(2) in simp)

lemma refill_typed [typed_ops]:
  assumes "refill c s = Inr s'" "typed s"
  shows "typed s'"
  using assms by (auto simp: refill_def rbind_eq_Inr simp del: no_update split: if_splits) (blast intro: typed_ops)

text \<open>A switch at the end of an operation that has parked its caller.\<close>

lemma parked_typed:
  assumes "lwt_yield 0 (push k (s\<lparr>lists := L, thds := (thds s)(t \<mapsto> y), kthds := (kthds s)(j := i)\<rparr>)) = Inr (v, s') \<or>
      lwt_yield 0 (push k (s\<lparr>lists := L, kthds := (kthds s)(j := i), thds := (thds s)(t \<mapsto> y)\<rparr>)) = Inr (v, s')"
    and "typed s" "frame_thd k = t" "parent y \<in> live (thds s)"
    "current_thread i = current_thread (kthds s j)" "main_thread i = main_thread (kthds s j)"
  shows "typed s'"
proof -
  have "typed (s\<lparr>lists := L, thds := (thds s)(t \<mapsto> y), kthds := (kthds s)(j := i)\<rparr>)"
    "typed (s\<lparr>lists := L, kthds := (kthds s)(j := i), thds := (thds s)(t \<mapsto> y)\<rparr>)"
    using assms(2,4-6) by (simp_all add: typed_def typed_fields typed_thd typed_kthd)
  then show ?thesis using assms(1,3) by (auto elim!: yield_typed intro!: typed_push)
qed

lemma sync_rcv_loop_typed [typed_ops]:
  assumes "sync_rcv_loop c t s = Inr (v, s')" "typed s"
  shows "typed s'"
  using assms(1)
proof (cases rule: sync_rcv_cases)
  case gets
  then show ?thesis using assms(2) upd_field_typed(2) by blast
next
  case (parks x)
  have "parent x \<in> live (thds s)" using assms(2) parks(1) by (auto simp: typed_def typed_fields(1))
  then show ?thesis using parked_typed [OF disjI1 [OF parks(2)] assms(2)] by simp
qed

lemma rcv_typed [typed_ops]:
  assumes "lwt_rcv c s = Inr (v, s')" "typed s"
  shows "typed s'"
  using assms(1)
proof (cases rule: rcv_cases)
  case global
  then show ?thesis using assms(2) by (rule typed_ops)
next
  case (buffered w b s1 s2)
  have "typed s2" using buffered(1,2) assms(2) refill_typed upd_field_typed(2) by blast
  then show ?thesis by (rule upd_chan_typed [OF buffered(3), rotated]) simp
next
  case sender
  then show ?thesis using assms(2) resume_typed upd_field_typed(1) by blast
next
  case (parks s1)
  have "typed s1" using parks(1) assms(2) upd_field_typed(8) by blast
  moreover have "lwt_current s \<in> live (thds s1)" using parks(1) by auto
  ultimately show ?thesis using block_typed [OF parks(2)] typed_push [of s1 "KRcv (lwt_current s)"] by simp
qed

lemma cgrp_wait_loop_typed [typed_ops]:
  assumes "cgrp_wait_loop g t s = Inr (v, s')" "typed s"
  shows "typed s'"
  using assms(1)
proof (cases rule: cgrp_wait_cases)
  case found
  show ?thesis by (rule upd_grp_typed [OF found(1)]) (use assms(2) in simp_all)
next
  case (parks s1 x)
  have t1: "typed s1" by (rule upd_grp_typed [OF parks(1)]) (use assms(2) in simp_all)
  have "parent x \<in> live (thds s1)" using t1 parks(2) by (auto simp: typed_def typed_fields(1))
  then show ?thesis using parked_typed [OF disjI2 [OF parks(3)] t1] by simp
qed

lemma cgrp_wait_typed [typed_ops]: "lwt_cgrp_wait g s = Inr (v, s') \<Longrightarrow> typed s \<Longrightarrow> typed s'"
  by (auto simp: lwt_cgrp_wait_def rbind_eq_Inr split: if_splits intro: typed_ops)

text \<open>Calls on top of these.\<close>

lemma push_ops_typed [typed_ops]:
  "lwt_snd_chan c d s = Inr (v, s') \<Longrightarrow> typed s \<Longrightarrow> typed s'" "snd_chan_rest w s = Inr (v, s') \<Longrightarrow> typed s \<Longrightarrow> typed s'"
  "lwt_rcv_chan c s = Inr (v, s') \<Longrightarrow> typed s \<Longrightarrow> typed s'" "lwt_rcv_thd c s = Inr (v, s') \<Longrightarrow> typed s \<Longrightarrow> typed s'"
  "lwt_snd_thd c t s = Inr (v, s') \<Longrightarrow> typed s \<Longrightarrow> typed s'" "join_rest t w s = Inr (v, s') \<Longrightarrow> typed s \<Longrightarrow> typed s'"
  unfolding lwt_snd_chan_def snd_chan_rest_def lwt_rcv_chan_def lwt_rcv_thd_def lwt_snd_thd_def join_rest_def
  by (auto simp: rbind_eq_Inr elim!: snd_typed rcv_typed yield_typed intro!: typed_push)

lemma rcv_chan_rest_typed [typed_ops]: "rcv_chan_rest w s = Inr (v, s') \<Longrightarrow> typed s \<Longrightarrow> typed s'"
  by (auto simp: rcv_chan_rest_def Let_def rbind_eq_Inr simp del: no_update split: if_splits intro: typed_ops)

lemma rcv_thd_rest_typed [typed_ops]: "rcv_thd_rest w s = Inr (v, s') \<Longrightarrow> typed s \<Longrightarrow> typed s'"
  by (auto simp: rcv_thd_rest_def Let_def rbind_eq_Inr simp del: no_update split: if_splits intro: typed_ops)

lemma join_typed [typed_ops]: "lwt_join t s = Inr (v, s') \<Longrightarrow> typed s \<Longrightarrow> typed s'"
  by (auto simp: lwt_join_def rbind_eq_Inr split: if_splits elim!: rcv_typed intro!: typed_push)

lemma die_typed [typed_ops]:
  assumes "lwt_die m s = Inr (v, s')" "typed s"
  shows "typed s'"
proof -
  let ?k = "current_kthd s" and ?t = "lwt_current s"
  obtain x where x: "thds s ?t = Some x" using assms(1) by (auto simp: lwt_die_def Let_def rbind_eq_Inr)
  let ?s = "s\<lparr>kthds := (kthds s)(?k := (kthds s ?k)\<lparr>zombie_counter := zombie_counter (kthds s ?k) + 1\<rparr>),
      thds := (thds s)(?t \<mapsto> x\<lparr>message_data := m\<rparr>)\<rparr>"
  have r: "lwt_snd (chl x) m (push (KDie ?t) ?s) = Inr (v, s')"
    using assms(1) x by (auto simp: lwt_die_def Let_def rbind_eq_Inr)
  have "typed ?s" using assms(2) x by (simp add: typed_def typed_fields typed_thd typed_kthd)
  then show ?thesis using snd_typed [OF r] typed_push [of ?s "KDie ?t"] by simp
qed

lemma die_rest_typed [typed_ops]: "die_rest t s = Inr (v, s') \<Longrightarrow> typed s \<Longrightarrow> typed s'"
  by (auto simp: die_rest_def Let_def rbind_eq_Inr elim!: schedule_typed) (auto simp: typed_def typed_fields intro!: typed_updates)

lemma idle_typed [typed_ops]: "kthd_idle_round s = Inr (b, v, s') \<Longrightarrow> typed s \<Longrightarrow> typed s'"
  by (auto simp: kthd_idle_round_def rbind_eq_Inr split: if_splits intro: typed_ops)

section \<open>Creation and release\<close>

lemma chan_typed [typed_ops]: "lwt_chan sz s = Inr (c, s') \<Longrightarrow> typed s \<Longrightarrow> typed s'"
  by (auto simp: lwt_chan_def init_chan_def Let_def rbind_eq_Inr malloc_eq_Inr typed_def lwt_current_def typed_fields intro!: typed_chan)

lemma deref_typed [typed_ops]: "lwt_chan_deref c s = Inr s' \<Longrightarrow> typed s \<Longrightarrow> typed s'"
  by (auto simp: lwt_chan_deref_def free_chan_def rbind_eq_Inr mfree_eq_Inr typed_def typed_fields split: if_splits intro!: typed_chan typed_free)

lemma cgrp_new_typed [typed_ops]:
  assumes "lwt_cgrp_new s = Inr (g, s')" "typed s"
  shows "typed s'"
proof -
  obtain s1 where m: "malloc sizeof_lwt_cgrp s = Inr (g, s1)"
    and s': "s' = (if g = 0 then s1 else s1\<lparr>lists := list_head_init (GrpQ g) (lists s1),
        grps := (grps s1)(g \<mapsto> \<lparr>owner = lwt_current s1, blocked = 0\<rparr>)\<rparr>)"
    using assms(1) by (auto simp: lwt_cgrp_new_def rbind_eq_Inr split: if_splits)
  have t: "typed s1" by (rule malloc_typed [OF m assms(2)])
  show ?thesis using t typed_current [OF t] by (simp add: s' typed_def typed_grp)
qed

lemma clear_groups_typed: "clear_groups ns s = Inr s' \<Longrightarrow> typed s \<Longrightarrow> typed s'"
proof (induction ns arbitrary: s)
  case (Cons n ns)
  then show ?case by (auto simp: rbind_eq_Inr simp del: no_update intro: upd_field_typed(5))
qed simp

lemma typed_release: "mfree p s = Inr s2 \<Longrightarrow> typed s \<Longrightarrow> typed (s2\<lparr>grps := (grps s2)(g := None)\<rparr>)"
  by (auto simp: mfree_eq_Inr typed_def intro: typed_free)

lemma cgrp_free_typed [typed_ops]:
  assumes "lwt_cgrp_free g s = Inr (v, s')" "typed s"
  shows "typed s'"
proof (cases "list_head_first (GrpQ g) (lists s) = GrpQ g")
  case True
  obtain ns s1 s2 where f: "clear_groups ns s = Inr s1" "mfree g s1 = Inr s2" and s': "s' = s2\<lparr>grps := (grps s2)(g := None)\<rparr>"
    using assms(1) True by (auto simp: lwt_cgrp_free_def Let_def rbind_eq_Inr)
  show ?thesis unfolding s' by (rule typed_release [OF f(2) clear_groups_typed [OF f(1) assms(2)]])
qed (use assms in \<open>auto simp: lwt_cgrp_free_def Let_def rbind_eq_Inr\<close>)

lemma cgrp_member_typed [typed_ops]:
  "lwt_cgrp_add g c s = Inr (v, s') \<Longrightarrow> typed s \<Longrightarrow> typed s'" "lwt_cgrp_rem g c s = Inr (v, s') \<Longrightarrow> typed s \<Longrightarrow> typed s'"
  by (auto simp: lwt_cgrp_add_def lwt_cgrp_rem_def rbind_eq_Inr simp del: no_update split: if_splits elim!: upd_field_typed(5))

text \<open>
  A control block is typed once \<^verbatim>\<open>__init_thread\<close> has set its parent to \<^verbatim>\<open>NULL\<close>, whatever the memory
  held before.
\<close>

lemma init_thread_typed:
  assumes r: "init_thread t k s = Inr s'" and s: "\<And>y. parent y = 0 \<Longrightarrow> typed (s\<lparr>thds := (thds s)(t \<mapsto> y)\<rparr>)"
  shows "typed s'"
proof -
  let ?y = "\<lambda>x. x\<lparr>lwt_id := lwt_counter s, tstate := LWT_RUNNING, parent := 0, message_data := 0\<rparr>"
  obtain x y ch c b where c: "lwt_chan 0 (s\<lparr>lwt_counter := lwt_counter s + 1, thds := (thds s)(t \<mapsto> ?y x)\<rparr>) = Inr (c, b)"
    and b: "thds b t = Some y" "chans b c = Some ch"
    and s': "s' = b\<lparr>chans := (chans b)(c \<mapsto> ch\<lparr>snd_cnt := snd_cnt ch + 1\<rparr>),
      thds := (thds b)(t \<mapsto> y\<lparr>chl := c, nojoin := 0, owner_kthd := k\<rparr>)\<rparr>"
    using r by (auto simp: init_thread_def rbind_eq_Inr)
  have "typed b" using chan_typed [OF c] s [of "?y x"] by (simp add: typed_def)
  then show ?thesis using b by (simp add: s' typed_def typed_fields typed_thd typed_chan)
qed

lemma take_tcb_typed:
  assumes "take_tcb s = Inr (t, p, s1)" "typed s" "parent y = 0"
  shows "typed (s1\<lparr>thds := (thds s1)(t \<mapsto> y)\<rparr>)"
proof (cases "list_head_empty (current_recycle_queue s) (lists s)")
  case True
  then obtain m stack s0 s2 where "malloc sizeof_lwt_t s = Inr (t, s0)" "malloc MAX_STACK_SIZE s0 = Inr (stack, s2)"
    and s1: "s1 = s2\<lparr>thds := (thds s2)(t \<mapsto> (raw_thd s2 t)\<lparr>init_sp := p\<rparr>)\<rparr>"
    using assms(1) by (auto simp: take_tcb_def Let_def rbind_eq_Inr)
  then have "typed s2" using assms(2) malloc_typed by blast
  then show ?thesis using assms(3) by (simp add: s1 typed_def typed_thd)
next
  case False
  then obtain L where "s1 = s\<lparr>lists := L\<rparr>" using assms(1) by (auto simp: take_tcb_def Let_def rbind_eq_Inr)
  then show ?thesis using assms(2,3) by (simp add: typed_def typed_thd)
qed

lemma create_typed [typed_ops]:
  assumes "lwt_create fn d fl s = Inr (t, s')" "typed s"
  shows "typed s'"
proof -
  obtain p s1 s2 s3 W s6 where t: "take_tcb s = Inr (t, p, s1)" and i: "init_thread t (current_kthd s1) s1 = Inr s2"
    and s3: "upd_thd t (\<lambda>x. x\<lparr>parent := lwt_current s2\<rparr>) s2 = Inr s3"
    and s6: "upd_thd t (\<lambda>x. x\<lparr>ctx := \<lparr>ip = Trampoline, sp = p - sizeof_uint - sizeof_uint - sizeof_uint\<rparr>,
        nojoin := (if fl AND LWT_NOJOIN \<noteq> 0 then 1 else nojoin x)\<rparr>) (s3\<lparr>stackw := W\<rparr>) = Inr s6"
    and s': "s' = add_node (current_run_queue s6) (ThdNode t) s6"
    using assms(1) unfolding lwt_create_def Let_def by (auto simp: rbind_eq_Inr simp del: no_update add_node_def)
  have "typed s2" by (rule init_thread_typed [OF i take_tcb_typed [OF t assms(2)]])
  then have "typed s3" using s3 typed_current by (auto simp: typed_def intro!: typed_thd)
  then have "typed (s3\<lparr>stackw := W\<rparr>)" by (simp add: typed_def)
  then have "typed s6" by (rule upd_thd_typed [OF s6, rotated]) simp
  then show ?thesis by (simp add: s')
qed

lemma create_chan_typed [typed_ops]: "lwt_create_chan fn c s = Inr (t, s') \<Longrightarrow> typed s \<Longrightarrow> typed s'"
  by (auto simp: lwt_create_chan_def rbind_eq_Inr simp del: no_update dest!: create_typed intro: upd_field_typed(6))

lemma initiate_typed [typed_ops]:
  assumes "initiate k s = Inr s'" "typed s"
  shows "typed s'"
proof -
  obtain t s1 s2 s3 s4 where m: "malloc sizeof_lwt_t (init_kthd k s) = Inr (t, s1)"
    and s2: "s2 = kthd_do k (\<lambda>i. i\<lparr>current_thread := t\<rparr>) (s1\<lparr>thds := (thds s1)(t \<mapsto> raw_thd s1 t)\<rparr>)"
    and i: "init_thread t k s2 = Inr s3" and s4: "upd_thd t (\<lambda>x. x\<lparr>tstate := LWT_RUNNING\<rparr>) s3 = Inr s4"
    and s': "s' = append_node (RunQ k) (ThdNode t) (kthd_do k (\<lambda>i. i\<lparr>main_thread := current_thread i\<rparr>) s4)"
    using assms(1) unfolding initiate_def Let_def
    by (auto simp: rbind_eq_Inr simp del: no_update append_node_def kthd_do_def)
  have "typed (init_kthd k s)" using assms(2) by (simp add: init_kthd_def Let_def typed_def typed_fields typed_kthd)
  then have s1: "typed s1" by (rule malloc_typed [OF m])
  have "typed (s2\<lparr>thds := (thds s2)(t \<mapsto> y)\<rparr>)" if "parent y = 0" for y
  proof -
    have p: "typed_parts ((thds s1)(t \<mapsto> y)) (chans s1) (grps s1) (wraps s1) (kthds s1) (frames s1)"
      by (rule typed_thd) (use s1 that in \<open>simp_all add: typed_def\<close>)
    show ?thesis using typed_kthd [OF p] typed_fields(5) [OF p] by (simp add: typed_def s2)
  qed
  then have "typed s3" by (rule init_thread_typed [OF i])
  then have "typed s4" by (rule upd_field_typed(10) [OF s4])
  then show ?thesis by (simp add: s' typed_def typed_fields typed_kthd)
qed

lemma kthd_create_typed [typed_ops]:
  assumes "lwt_kthd_create fn c k s = Inr (p, s')" "typed s"
  shows "typed s'"
proof -
  obtain j s1 W where "malloc func_param_size s = Inr (p, s1)" and i: "initiate j (s1\<lparr>stackw := W\<rparr>) = Inr s'"
    using assms(1) by (auto simp: lwt_kthd_create_def Let_def rbind_eq_Inr)
  then have "typed (s1\<lparr>stackw := W\<rparr>)" using malloc_typed assms(2) by (auto simp: typed_def)
  then show ?thesis by (rule initiate_typed [OF i])
qed

lemma snd_rcv_thd_typed [typed_ops]:
  "set_chan_type c ty s = Inr s' \<Longrightarrow> typed s \<Longrightarrow> typed s'" "lwt_chan_mark_set c m s = Inr s' \<Longrightarrow> typed s \<Longrightarrow> typed s'"
  "rcv_rest t s = Inr (v, s') \<Longrightarrow> typed s \<Longrightarrow> typed s'"
  by (auto simp: set_chan_type_def lwt_chan_mark_set_def rcv_rest_def rbind_eq_Inr simp del: no_update intro: typed_ops)

section \<open>Steps\<close>

lemma ret_typed: "ret_ptr r = Inr (v, s') \<Longrightarrow> (\<And>p. r = Inr (p, s') \<Longrightarrow> typed s') \<Longrightarrow> typed s'"
  "ret_void r' = Inr (v, s') \<Longrightarrow> (r' = Inr s' \<Longrightarrow> typed s') \<Longrightarrow> typed s'"
  by (auto simp: ret_ptr_def ret_void_def rbind_eq_Inr)

lemma call_typed: "call a s = Inr (v, s') \<Longrightarrow> typed s \<Longrightarrow> typed s'"
  by (cases a) (auto elim!: ret_typed intro: typed_ops)

lemma resume_frame_typed: "resume k v s = Inr (w, s') \<Longrightarrow> typed s \<Longrightarrow> typed s'"
  by (cases k) (auto intro: typed_ops)

lemma continue_typed: "continue v s = Inr (w, s') \<Longrightarrow> typed s \<Longrightarrow> typed s'"
  by (auto simp: continue_def split: list.splits intro: resume_frame_typed typed_pop)

lemma step_typed: "lwt_step c c' \<Longrightarrow> typed (snd c) \<Longrightarrow> typed (snd c')"
proof (induction rule: lwt_step.induct)
  case (user_call s a c v)
  then show ?case using call_typed [of a s "fst c" "snd c"] by simp
next
  case (user_return s m c v)
  then show ?case using die_typed [of m s "fst c" "snd c"] by (simp add: trampoline_return_def)
next
  case (lib_continue s v c)
  then show ?case using continue_typed [of v s "fst c" "snd c"] by simp
next
  case (idle s b c v)
  then show ?case using idle_typed [of s b "fst c" "snd c"] by simp
qed (simp add: typed_def)

lemma blank_typed: "typed (blank m rt rc rw)"
  by (simp add: typed_def typed_parts_def blank_def live_def)

lemma reachable_typed: "reachable c \<Longrightarrow> typed (snd c)"
proof (induction rule: reachable.induct)
  case (boot m rc k rt rw s)
  have "typed s" by (rule initiate_typed [OF boot(3) blank_typed])
  then show ?case by (simp add: typed_def)
qed (rule step_typed)

text \<open>
  C19 Pointers to threads are well typed in every reachable state: the receiver of a channel, the
  owner of a group, the parent of a thread, the current and the main thread of a kernel thread,
  what a wake-up node wraps and the thread a suspended call is about are each \<^verbatim>\<open>NULL\<close> or the
  control block of a thread, so that reading a thread through them never faults on a stray
  address.
\<close>

theorem heap_well_typed:
  assumes "reachable (v, s)"
  shows "(\<forall>c ch. chans s c = Some ch \<longrightarrow> receiver ch = 0 \<or> receiver ch \<in> dom (thds s)) \<and>
    (\<forall>g x. grps s g = Some x \<longrightarrow> owner x = 0 \<or> owner x \<in> dom (thds s)) \<and>
    (\<forall>t x. thds s t = Some x \<longrightarrow> parent x = 0 \<or> parent x \<in> dom (thds s)) \<and>
    (\<forall>w t. wraps s w = Some t \<longrightarrow> t = 0 \<or> t \<in> dom (thds s)) \<and>
    (\<forall>k. current_thread (kthds s k) = 0 \<or> current_thread (kthds s k) \<in> dom (thds s)) \<and>
    (\<forall>k. main_thread (kthds s k) = 0 \<or> main_thread (kthds s k) \<in> dom (thds s)) \<and>
    (\<forall>t f. f \<in> set (frames s t) \<longrightarrow> frame_thd f = 0 \<or> frame_thd f \<in> dom (thds s))"
proof -
  have "typed s" using reachable_typed [OF assms] by simp
  then show ?thesis by (simp add: typed_def typed_parts_def live_def)
qed

theorem heap_well_typed_witness:
  "\<exists>s. reachable (VVoid, s) \<and> lwt_current s \<noteq> 0 \<and> lwt_current s \<in> dom (thds s)"
proof (rule demo_boot)
  fix s assume r: "reachable (VVoid, s\<lparr>current_kthd := 0\<rparr>)" and t: "lwt_current (s\<lparr>current_kthd := 0\<rparr>) \<noteq> 0"
  have "current_thread (kthds (s\<lparr>current_kthd := 0\<rparr>) 0) = 0 \<or> current_thread (kthds (s\<lparr>current_kthd := 0\<rparr>) 0) \<in> dom (thds (s\<lparr>current_kthd := 0\<rparr>))"
    using heap_well_typed [OF r] by blast
  then have "lwt_current (s\<lparr>current_kthd := 0\<rparr>) \<in> dom (thds (s\<lparr>current_kthd := 0\<rparr>))"
    using t by (simp add: lwt_current_def)
  then show ?thesis using r t by blast
qed

end
