(* ===== verification/Spec2Isabelle.thy ===== *)
theory Spec2Isabelle
  imports Lwt_Witnesses Lwt_Dispatch Lwt_Start Lwt_Effects Lwt_PingPong Unit_Tests Lwt_Typed Sl_Contract
begin

text \<open>
  A lightweight-thread library and the scheduler library under it, verified.

  \<^bold>\<open>The program.\<close> The repository holds a user-level thread library in C for the Composite operating
  system on 32-bit x86 and the library of kernel threads it runs on. \<^verbatim>\<open>lwt.c\<close>, \<^verbatim>\<open>lwt.h\<close> schedule
  lightweight threads cooperatively within a kernel thread: run queues, the switch of contexts in
  assembly, creation with reuse of dead threads, death, joining. \<^verbatim>\<open>lwt_chl.c\<close> adds channels with a
  ring buffer, by which threads exchange words and block, groups of channels to wait on, channels
  and threads sent over channels, and the creation of kernel threads. All queues are intrusive
  lists (\<^verbatim>\<open>lwt_list.h\<close>); all memory comes from the allocator of \<^verbatim>\<open>umalloc.c\<close>, which asks the kernel
  for pages. \<^verbatim>\<open>sl.c\<close>, \<^verbatim>\<open>sl.h\<close> manage kernel threads under a policy plug-in: a critical section
  around one lock word, blocking and waking with wake-ups that may come early, a choice of the next
  thread that is retried until the kernel accepts the switch, timeouts, and a loop that handles
  the kernel's notifications. \<^verbatim>\<open>main3.c\<close> and \<^verbatim>\<open>unit_schedlib.c\<close> are test programs.

  \<^bold>\<open>How it is modelled.\<close> Structs are records, enums datatypes, objects behind pointers maps from
  addresses (\<open>thds\<close>, \<open>chans\<close>, \<open>grps\<close>, \<open>wraps\<close> of the state \<open>sys\<close>), list fields the shared link store
  \<open>lists\<close>. A pointer that is \<^verbatim>\<open>NULL\<close> or designates no live object, an array index out of bounds, a
  signed overflow, a failed assertion and an endless loop are values of type \<open>fault\<close>; an operation
  returns \<open>fault + result\<close>. Memory that C leaves uninitialised (\<open>raw_thd\<close>, \<open>raw_chan\<close>, \<open>raw_word\<close>)
  is arbitrary. A call that switches threads in its middle is cut at the switch: what is left of it
  is a \<open>frame\<close>, a value that holds its local variables, on the stack of suspended calls of its
  thread, and is run (\<open>resume\<close>) when the thread is dispatched again. The whole library is then a
  step relation \<open>lwt_step\<close> on configurations (a state and the value being returned to the running
  thread): the running thread calls any operation of the API, or returns from its function, or goes
  on in a suspended call, or idles, and between library calls the kernel may switch to any kernel
  thread. \<open>reachable\<close> starts from the first \<^verbatim>\<open>__initiate\<close>.

  \<^bold>\<open>Theories.\<close>
  \<^item> \<open>Lwt_Prelude\<close>: pointers, faults, results and their sequencing, facts on lists.
  \<^item> \<open>Lwt_List\<close>, \<open>Lwt_Queues\<close>: \<^verbatim>\<open>lwt_list.h\<close>; the locale \<open>intrusive_queues\<close> is the contract the
    rest uses (an abstract view with one HOL list per list head), interpreted on the code's link
    operations.
  \<^item> \<open>Lwt_Umalloc\<close>: \<^verbatim>\<open>umalloc.c\<close>; the locale \<open>allocator\<close> (new, large enough, disjoint blocks),
    interpreted on \<open>umalloc\<close> and \<open>ufree\<close>.
  \<^item> \<open>Lwt_Buffer\<close>: the ring of a channel; the locale \<open>fifo_buffer\<close>, interpreted on \<open>ring_put\<close> and
    \<open>ring_get\<close>.
  \<^item> \<open>Lwt_State\<close>, \<open>Lwt_Sched\<close>, \<open>Lwt_Chan\<close>, \<open>Lwt_Group\<close>, \<open>Lwt_Thread\<close>, \<open>Lwt_Kthd\<close>: the data of
    \<^verbatim>\<open>lwt.h\<close> and the operations of \<^verbatim>\<open>lwt.c\<close> and \<^verbatim>\<open>lwt_chl.c\<close>, each under the name it has there;
    \<open>f_rest\<close> is what is left of \<open>f\<close> after the switch in it. \<open>Lwt_Machine\<close> composes them.
  \<^item> \<open>Lwt_Dispatch\<close>: the assembly of \<^verbatim>\<open>__lwt_dispatch\<close> on registers and memory.
  \<^item> \<open>Lwt_Client\<close>, \<open>Lwt_Tests\<close>, \<open>Unit_Tests\<close>: C functions that use the library as programs (trees
    of calls), the world that runs them, the trampoline of a kernel thread, and the functions of
    \<^verbatim>\<open>main3.c\<close> and \<^verbatim>\<open>unit_schedlib.c\<close>.
  \<^item> \<open>Sl_Mutex\<close>, \<open>Sl_Lock\<close>: \<^verbatim>\<open>cas_lock\<close> and the critical section \<^verbatim>\<open>sl_cs_*\<close>, instruction by
    instruction under every interleaving; the locale \<open>mutex\<close>, interpreted on both.
  \<^item> \<open>Sl_Thd\<close>, \<open>Sl_Kthd\<close>: the operations of \<^verbatim>\<open>sl.c\<close> and \<^verbatim>\<open>sl.h\<close>; \<^verbatim>\<open>lwt_kthd_create\<close> across both
    libraries. \<open>Sl_Reach\<close> has the machine of the scheduler library.

  \<^bold>\<open>What is proved.\<close>
  \<^item> \<open>Lwt_Inv\<close>, \<open>Lwt_Objects\<close>, \<open>Lwt_Preserve\<close>, \<open>Lwt_Safety\<close>, \<open>Lwt_Reach\<close>: the structural invariant
    (every queue intact, every thread in exactly the queue its status names, group membership
    consistent, every object in an allocator block of its own) is kept by every operation and
    holds in every reachable state. \<open>Lwt_Typed\<close>: pointers to threads point to threads.
    \<open>Lwt_Stacks\<close>, \<open>Lwt_Start\<close>: stacks are disjoint from each other and from all objects, a new
    thread gets a fresh one, and a thread starts with the function and argument it was created with.
  \<^item> \<open>Lwt_Umalloc\<close>: besides the contract, what the free list covers (\<open>free_bytes\<close>, read through the
    links from \<^verbatim>\<open>freep\<close>): a block leaves it when it is handed out and returns to it, to the byte,
    when it is given back.
  \<^item> \<open>Lwt_Views\<close>, \<open>Lwt_SchedProps\<close>, \<open>Lwt_MsgProps\<close>, \<open>Lwt_ChanProps\<close>, \<open>Lwt_Contract\<close>: what each
    branch of yielding, sending and receiving does to the queues, and the refinement of a local
    channel to a first-in first-out queue of words (those in the ring, then those that blocked
    senders carry).
  \<^item> \<open>Lwt_Rendezvous\<close>, \<open>Lwt_GroupProps\<close>, \<open>Lwt_Effects\<close>: two threads together (the exchange of a
    word, death and joining, an event of a group), and the counters of blocked threads.
    \<open>Lwt_Joining\<close>: a parent that waits to join, among other threads, and its child's death.
    \<open>Lwt_TestRuns\<close>, \<open>Lwt_PerfTest\<close>: the performance test of \<^verbatim>\<open>main3.c\<close> run on the library passes,
    by one lemma for an iteration of each of its loops and induction on the number of iterations.
    \<open>Lwt_PingPong\<close>: the same for the loops of \<^verbatim>\<open>test_perf_channels\<close>, over two channels without buffers.
  \<^item> \<open>Lwt_Progress\<close>, \<open>Lwt_Print\<close>: what the constructors build when pages can be had; the status
    queries and printing.
  \<^item> \<open>Sl_Props\<close>, \<open>Sl_Contract\<close>: each operation of the scheduler library, its invariant, early
    wake-ups, retries, notifications, timeouts.
  \<^item> \<open>Lwt_Demo\<close>, \<open>Lwt_Witnesses\<close> reach the concrete states in which the properties are applied.

  \<^bold>\<open>Bounds and loops.\<close> No operation has fuel. Loops over lists, the free list, the retry loop of
  \<^verbatim>\<open>sl_cs_exit_schedule\<close> (\<open>exit_schedule_loop\<close>) and the loop that takes the kernel's notifications
  (\<open>receive_loop\<close>) are \<open>partial_function (option)\<close>, so that not returning is \<open>None\<close> (the fault
  \<open>Diverges\<close>). The answers of the kernel that the last two read are infinite streams. That the loops
  return is proved where the invariant holds and the kernel at some time accepts; that the retry
  loop does not return when the kernel always refuses is proved as well. A spin on a lock that is
  held is \<open>Diverges\<close> in the operations, where nothing else runs; the lock's own theories let the others
  run. The outermost loop, \<^verbatim>\<open>sl_sched_loop\<close>, never returns by design: its model is the state after
  the rounds it is given. Schedules of the locks and runs of programs are sequences of any length. Sizes (\<^verbatim>\<open>MAX_STACK_SIZE\<close>, \<^verbatim>\<open>MAX_KTHD_NUM\<close>,
  \<^verbatim>\<open>sizeof\<close>) are those of the 32-bit target. Pointers and words are natural numbers; the sizes
  \<^verbatim>\<open>umalloc\<close> computes wrap at \<open>2 ^ 32\<close>, the ring's counters fault on signed overflow, the lock word
  and times are of type \<open>32 word\<close> and \<open>64 word\<close>. The other counters (thread and channel numbers, blocked
  threads) are unbounded integers: they would need \<open>2 ^ 31\<close> events to overflow.

  \<^bold>\<open>Parameters.\<close> \<^verbatim>\<open>cos_page_bump_alloc\<close> is the sequence \<open>pages\<close> of its results, assumed to hand out
  consecutive pages, as \<^verbatim>\<open>morecore\<close> does (\<open>bump_pages\<close>). The policy and timer plug-ins
  (\<open>sl_mod\<close>, \<open>sl_params\<close>), the memory of the back end, and the kernel's answers (capabilities, thread
  ids, cycle counts, results of switches, notifications) are arguments. Code that a caller must
  respect is \<open>call_ok\<close>: it does not free a channel on which a sender is blocked or that is in a
  group, and does not take a channel out of the group \<^verbatim>\<open>NULL\<close>. Fresh channel memory is assumed to
  have \<^verbatim>\<open>cgroup\<close> zero at boot, since \<^verbatim>\<open>__init_chan\<close> does not set it. The steps of the scheduler
  library (\<open>sl_step\<close>) assume of the callers that they release neither the scheduler's nor the idle
  thread, which \<^verbatim>\<open>sl_thd_free\<close> does not check, and of the back end that a new thread's memory and
  id are not in use; that those two threads exist (\<open>sl_invariant\<close>) rests on the former.

  \<^bold>\<open>Remarks on the code.\<close>
  \<^item> \<^verbatim>\<open>list_ll_add\<close> inserts before the node it is given. \<^verbatim>\<open>list_head_append\<close> therefore inserts before
    the last node, not at the front, and a directed yield runs its target next only when the queue
    is short (\<open>directed_yield\<close>).
  \<^item> \<^verbatim>\<open>now_rcving\<close> is never cleared, so that a thread that waits on a group can be taken for one
    that waits on the channel; its word is then lost (\<open>group_event_lost\<close>).
  \<^item> \<^verbatim>\<open>init_sp\<close>: \<^verbatim>\<open>__initiate\<close> does not set it for a main thread. A main thread that dies enters the
    recycle queue, and the next \<^verbatim>\<open>lwt_create\<close> takes what the memory held there as its stack.
    The properties of stacks are about threads that \<^verbatim>\<open>lwt_create\<close> made, and exclude dead main
    threads.
  \<^item> A send on a global channel queues the receiver for the other kernel thread to wake, which
    nothing does, because \<^verbatim>\<open>polling_flag\<close> stays 0 (\<open>global_send_wakes_nobody\<close>).
  \<^item> \<^verbatim>\<open>lwt_cgrp_free\<close> refuses every group that has a member, because its \<^verbatim>\<open>return -1\<close> is not
    governed by the test above it (\<open>group_free\<close>).
  \<^item> \<^verbatim>\<open>sl_thd_wakeup\<close> assigns in an assertion, so that a second early wake-up cancels the first
    (\<open>double_wakeup_lost\<close>).

  \<^bold>\<open>Not modelled.\<close> Output and formatting (\<^verbatim>\<open>printc\<close>, \<^verbatim>\<open>prints\<close>, \<^verbatim>\<open>cos_llprint\<close>, \<^verbatim>\<open>printd\<close>, which expands
  to nothing): a print of a test is its format string, one of a queue its string and numbers. Time
  stamps (\<^verbatim>\<open>rdtscll\<close>) and what is printed from them. Kernel calls, and the set-up of the kernel's
  capabilities in \<^verbatim>\<open>cos_init\<close> and \<^verbatim>\<open>sl_init\<close>. Preemption of a kernel thread inside a
  call of the lightweight-thread library: the library has no lock against it, and its steps are
  atomic here up to the switches it makes itself; the locks, which are built for preemption, are
  modelled one instruction at a time.
\<close>

end
